(* ===== verification/Prelude.thy ===== *)
theory Prelude
  imports Main "HOL-Library.Word" "HOL-Library.Multiset" "HOL-Library.Char_ord"
    "HOL-Library.List_Lexorder"
begin

text \<open>
  Shared vocabulary of the development: the machine types of the simulator, the result type
  of operations that can abort, and the generic lemmas on lists, words and decimal numerals
  that the component theories use.

  \<^item> \<open>size_t\<close>, \<open>uint64_t\<close> and \<open>TimePoint\<close> values that take part in arithmetic with
    arbitrary operands are \<open>64 word\<close>; counters that the code only ever increments by one
    (insertion stamps, step numbers, call ids) and sizes of containers are \<open>nat\<close>.
  \<^item> \<open>std::string\<close> is \<^typ>\<open>string\<close>; its order (unsigned characters, lexicographic) is the one
    of \<open>Char_ord\<close> and \<open>List_Lexorder\<close>.
  \<^item> \<open>WHEELS_VERIFY\<close>, \<open>WHEELS_PANIC\<close> and \<open>WHEELS_UNREACHABLE\<close> abort the simulation: \<open>Panic\<close>.
    Undefined behaviour of C++ that the code does not guard against is \<open>Undefined\<close>, a C++
    exception that leaves the function is \<open>Thrown\<close>.
\<close>

section \<open>Types\<close>

type_synonym u16 = "16 word"
type_synonym u32 = "32 word"
type_synonym u64 = "64 word"
type_synonym time_point = u64
type_synonym jiffies = u64
type_synonym host_name = string

datatype error =
    Panic string
  | Undefined string
  | Thrown string

type_synonym 'a res = "error + 'a"

named_theorems state_simps \<open>equations that unfold the operations of a component\<close>
named_theorems inv_rules \<open>an operation keeps the invariant of its component\<close>

section \<open>Results\<close>

definition verify :: "bool \<Rightarrow> string \<Rightarrow> 'a res \<Rightarrow> 'a res" where
  "verify c msg r = (if c then r else Inl (Panic msg))"

definition res_bind :: "'a res \<Rightarrow> ('a \<Rightarrow> 'b res) \<Rightarrow> 'b res" where
  "res_bind m f = (case m of Inl e \<Rightarrow> Inl e | Inr x \<Rightarrow> f x)"

fun res_fold :: "('a \<Rightarrow> 's \<Rightarrow> 's res) \<Rightarrow> 'a list \<Rightarrow> 's \<Rightarrow> 's res" where
  "res_fold f [] s = Inr s"
| "res_fold f (x # xs) s = res_bind (f x s) (res_fold f xs)"

lemma res_bind_simps [simp]:
  "res_bind (Inr x) f = f x"
  "res_bind (Inl e) f = Inl e"
  by (simp_all add: res_bind_def)

lemma res_bind_Inr: "res_bind m f = Inr y \<longleftrightarrow> (\<exists>x. m = Inr x \<and> f x = Inr y)"
  by (cases m) auto

lemma verify_simps [simp]:
  "verify True msg r = r"
  "verify False msg r = Inl (Panic msg)"
  by (simp_all add: verify_def)

lemma verify_Inr: "verify c msg r = Inr x \<longleftrightarrow> c \<and> r = Inr x"
  by (simp add: verify_def)

lemma res_bind_assoc: "res_bind (res_bind m f) g = res_bind m (\<lambda>x. res_bind (f x) g)"
  by (cases m) simp_all

lemma res_fold_append: "res_fold f (xs @ ys) s = res_bind (res_fold f xs s) (res_fold f ys)"
proof (induction xs arbitrary: s)
  case Nil
  then show ?case by simp
next
  case (Cons x xs)
  then show ?case by (cases "f x s") auto
qed

text \<open>A property that every iteration of a loop keeps holds after the loop.\<close>

lemma res_fold_inv:
  assumes "res_fold f xs s = Inr t" and "P s"
    and "\<And>x s t. x \<in> set xs \<Longrightarrow> P s \<Longrightarrow> f x s = Inr t \<Longrightarrow> P t"
  shows "P t"
  using assms
proof (induction xs arbitrary: s)
  case Nil
  then show ?case by simp
next
  case (Cons x xs)
  from Cons.prems(1) obtain u where u: "f x s = Inr u" "res_fold f xs u = Inr t"
    by (auto simp: res_bind_Inr)
  have "P u" using Cons.prems(2,3) u(1) by (meson list.set_intros(1))
  then show ?case using Cons.IH [OF u(2)] Cons.prems(3) by (meson list.set_intros(2))
qed

section \<open>Lists\<close>

text \<open>\<open>std::swap(xs[i], xs[j])\<close>.\<close>

definition swap_at :: "nat \<Rightarrow> nat \<Rightarrow> 'a list \<Rightarrow> 'a list" where
  "swap_at i j xs = xs[i := xs ! j, j := xs ! i]"

lemma length_swap_at [simp]: "length (swap_at i j xs) = length xs"
  by (simp add: swap_at_def)

lemma nth_swap_at:
  "i < length xs \<Longrightarrow> j < length xs \<Longrightarrow> k < length xs \<Longrightarrow>
   swap_at i j xs ! k = (if k = j then xs ! i else if k = i then xs ! j else xs ! k)"
  by (simp add: swap_at_def nth_list_update)

lemma mset_swap_at [simp]:
  "i < length xs \<Longrightarrow> j < length xs \<Longrightarrow> mset (swap_at i j xs) = mset xs"
  unfolding swap_at_def by (cases "i = j") (simp_all add: mset_swap)

lemma set_swap_at [simp]:
  "i < length xs \<Longrightarrow> j < length xs \<Longrightarrow> set (swap_at i j xs) = set xs"
  by (metis mset_swap_at set_mset_mset)

lemma swap_at_swap_at [simp]:
  "i < length xs \<Longrightarrow> j < length xs \<Longrightarrow> swap_at i j (swap_at i j xs) = xs"
  by (rule nth_equalityI) (auto simp: nth_swap_at)

lemma take_swap_at:
  "i < length xs \<Longrightarrow> j < length xs \<Longrightarrow> n \<le> i \<Longrightarrow> n \<le> j \<Longrightarrow> take n (swap_at i j xs) = take n xs"
  by (rule nth_equalityI) (auto simp: nth_swap_at)

lemma bex_set_take:
  "n \<le> length xs \<Longrightarrow> (\<exists>x \<in> set (take n xs). P x) \<longleftrightarrow> (\<exists>k<n. P (xs ! k))"
  unfolding Bex_def in_set_conv_nth by (metis length_take min.absorb2 nth_take)

lemma mset_take_Suc:
  "n < length xs \<Longrightarrow> mset (take (Suc n) xs) = add_mset (xs ! n) (mset (take n xs))"
  by (simp add: take_Suc_conv_app_nth)

text \<open>Swapping an element with the last one of a prefix removes it from the shorter prefix.\<close>

lemma mset_take_swap_last:
  assumes "i \<le> n" and "n < length xs"
  shows "mset (take n (swap_at i n xs)) = mset (take (Suc n) xs) - {#xs ! i#}"
proof -
  have "take (Suc n) (swap_at i n xs) = swap_at i n (take (Suc n) xs)"
    using assms by (intro nth_equalityI) (auto simp: nth_swap_at)
  then have "mset (take (Suc n) (swap_at i n xs)) = mset (take (Suc n) xs)"
    using assms by simp
  moreover have "mset (take (Suc n) (swap_at i n xs)) =
      add_mset (xs ! i) (mset (take n (swap_at i n xs)))"
    using assms by (simp add: mset_take_Suc nth_swap_at)
  ultimately show ?thesis by (metis add_mset_remove_trivial)
qed

section \<open>Decimal numerals\<close>

text \<open>What \<open>operator<<\<close> and \<open>fmt::format\<close> print for an unsigned integer.\<close>

definition digit :: "nat \<Rightarrow> char" where
  "digit d = char_of (48 + d)"

fun show_nat :: "nat \<Rightarrow> string" where
  "show_nat n = (if n < 10 then [digit n] else show_nat (n div 10) @ [digit (n mod 10)])"

declare show_nat.simps [simp del]

lemma digit_inj: "a < 10 \<Longrightarrow> b < 10 \<Longrightarrow> digit a = digit b \<Longrightarrow> a = b"
  by (auto simp: digit_def char_of_eq_iff take_bit_nat_eq_self)

lemma show_nat_nonempty [simp]: "show_nat n \<noteq> []"
  by (subst show_nat.simps) simp

lemma show_nat_inj: "show_nat a = show_nat b \<Longrightarrow> a = b"
proof (induction a arbitrary: b rule: show_nat.induct)
  case (1 a)
  have last_eq: "digit (a mod 10) = digit (b mod 10)" and init_eq:
    "(if a < 10 then [] else show_nat (a div 10)) = (if b < 10 then [] else show_nat (b div 10))"
    using "1.prems" by (auto simp: show_nat.simps [of a] show_nat.simps [of b] split: if_splits)
  have modeq: "a mod 10 = b mod 10" using last_eq by (intro digit_inj) auto
  show ?case
  proof (cases "a < 10")
    case True
    then have "b < 10" using init_eq show_nat_nonempty [of "b div 10"] by (metis)
    with True show ?thesis using modeq by simp
  next
    case False
    then have "\<not> b < 10" and "show_nat (a div 10) = show_nat (b div 10)"
      using init_eq by (auto split: if_splits)
    with "1.IH" False have "a div 10 = b div 10" by blast
    with modeq show ?thesis by (metis div_mult_mod_eq)
  qed
qed

lemma digit_not_dash: "d < 10 \<Longrightarrow> digit d \<noteq> CHR ''-''"
  by (simp add: digit_def char_of_eq_iff take_bit_nat_eq_self)

lemma show_nat_no_dash: "CHR ''-'' \<notin> set (show_nat n)"
proof (induction n rule: show_nat.induct)
  case (1 n)
  then show ?case
    by (subst show_nat.simps) (auto simp: digit_not_dash dest: sym [of "CHR ''-''"])
qed

text \<open>What \<open>std::atoi\<close> and \<open>operator>>\<close> read.\<close>

definition is_space :: "char \<Rightarrow> bool" where
  "is_space c \<longleftrightarrow> of_char c \<in> {0x20 :: nat, 0x09, 0x0A, 0x0B, 0x0C, 0x0D}"

definition is_digit :: "char \<Rightarrow> bool" where
  "is_digit c \<longleftrightarrow> 48 \<le> (of_char c :: nat) \<and> (of_char c :: nat) \<le> 57"

definition digits_value :: "string \<Rightarrow> nat" where
  "digits_value ds = foldl (\<lambda>n c. 10 * n + (of_char c - 48)) 0 ds"

lemma digit_code: "d < 10 \<Longrightarrow> of_char (digit d) = (48 + d :: nat)"
  by (simp add: digit_def take_bit_nat_eq_self)

lemma is_digit_digit: "d < 10 \<Longrightarrow> is_digit (digit d)"
  by (simp add: is_digit_def digit_code)

lemma is_digit_special: "is_digit c \<Longrightarrow> \<not> is_space c \<and> c \<noteq> CHR ''-'' \<and> c \<noteq> CHR ''+''"
  by (auto simp: is_digit_def is_space_def)

lemma show_nat_digits: "\<forall>c \<in> set (show_nat n). is_digit c"
proof (induction n rule: show_nat.induct)
  case (1 n)
  then show ?case by (subst show_nat.simps) (simp add: is_digit_digit ball_Un)
qed

lemma digits_value_show [simp]: "digits_value (show_nat n) = n"
proof (induction n rule: show_nat.induct)
  case (1 n)
  then show ?case by (subst show_nat.simps) (simp add: digits_value_def digit_code)
qed

lemma takeWhile_show_nat [simp]: "takeWhile is_digit (show_nat n) = show_nat n"
  using show_nat_digits by (simp add: takeWhile_eq_all_conv)

lemma show_nat_head:
  obtains c cs where "show_nat n = c # cs" and "\<not> is_space c" and "c \<noteq> CHR ''-''" and "c \<noteq> CHR ''+''"
  using show_nat_nonempty [of n] show_nat_digits [of n] is_digit_special
  by (metis list.set_intros(1) neq_Nil_conv)

lemma dropWhile_show_nat [simp]: "dropWhile is_space (show_nat n) = show_nat n"
  by (rule show_nat_head [of n]) simp

end
