(* ===== verification/History.thy ===== *)
theory History
  imports Prelude
begin

text \<open>
  \<open>semantics/history.hpp\<close> and \<open>semantics/checker/real_time_order.hpp\<close>: the record of a client
  call, the history of a simulation and the real-time order of its calls. Arguments and results are
  bytes; the serialisation library \<open>muesli\<close> that makes and reads them is an argument, for each type.
\<close>

type_synonym bytes = string

record 'a muesli =
  Serialize :: "'a \<Rightarrow> bytes"
  Deserialize :: "bytes \<Rightarrow> 'a option"

definition Value_MakeUnit :: "unit muesli \<Rightarrow> bytes" where
  "Value_MakeUnit c = Serialize c ()"

definition Value_Make :: "'a muesli \<Rightarrow> 'a \<Rightarrow> bytes" where
  "Value_Make c v = Serialize c v"

definition Value_As :: "'a muesli \<Rightarrow> bytes \<Rightarrow> 'a res" where
  "Value_As c b = (case Deserialize c b of None \<Rightarrow> Inl (Thrown ''muesli::Deserialize'') | Some v \<Rightarrow> Inr v)"

definition Value_eq :: "bytes \<Rightarrow> bytes \<Rightarrow> bool" where
  "Value_eq a b \<longleftrightarrow> a = b"

definition Arguments_MakeEmpty :: "unit muesli \<Rightarrow> bytes" where
  "Arguments_MakeEmpty c = Serialize c ()"

definition Arguments_As :: "'a muesli \<Rightarrow> bytes \<Rightarrow> 'a res" where
  "Arguments_As c b = (case Deserialize c b of None \<Rightarrow> Inl (Thrown ''muesli::Deserialize'') | Some v \<Rightarrow> Inr v)"

text \<open>A value that was made is read back, and two values are equal only if they were made from the same one.\<close>

lemma Value_roundtrip:
  assumes "\<And>v. Deserialize c (Serialize c v) = Some v"
  shows "Value_As c (Value_Make c v) = Inr v" and "Value_eq (Value_Make c v) (Value_Make c u) \<longleftrightarrow> v = u"
proof -
  show "Value_As c (Value_Make c v) = Inr v" by (simp add: Value_As_def Value_Make_def assms)
  show "Value_eq (Value_Make c v) (Value_Make c u) \<longleftrightarrow> v = u"
    unfolding Value_eq_def Value_Make_def by (metis assms option.inject)
qed

record call =
  call_method :: string
  arguments :: bytes
  result :: "bytes option"
  start_time :: time_point
  end_time :: "time_point option"
  labels :: "string list"

type_synonym history = "call list"

definition IsCompleted :: "call \<Rightarrow> bool" where
  "IsCompleted c \<longleftrightarrow> end_time c \<noteq> None"

definition PrecedesInRealTime :: "call \<Rightarrow> call \<Rightarrow> bool" where
  "PrecedesInRealTime lhs rhs \<longleftrightarrow> (case end_time lhs of None \<Rightarrow> False | Some e \<Rightarrow> e < start_time rhs)"

text \<open>A call that ends ends no earlier than it starts.\<close>

definition proper_call :: "call \<Rightarrow> bool" where
  "proper_call c \<longleftrightarrow> (case end_time c of None \<Rightarrow> True | Some e \<Rightarrow> start_time c \<le> e)"

lemma Precedes_completed: "PrecedesInRealTime x y \<Longrightarrow> IsCompleted x"
  by (auto simp: PrecedesInRealTime_def IsCompleted_def split: option.splits)

lemma Precedes_irrefl: "proper_call c \<Longrightarrow> \<not> PrecedesInRealTime c c"
  by (auto simp: PrecedesInRealTime_def proper_call_def split: option.splits)

lemma Precedes_trans:
  "proper_call y \<Longrightarrow> PrecedesInRealTime x y \<Longrightarrow> PrecedesInRealTime y z \<Longrightarrow> PrecedesInRealTime x z"
  by (auto simp: PrecedesInRealTime_def proper_call_def split: option.splits)

end
