(* ===== verification/Lin_Checker.thy ===== *)
theory Lin_Checker
  imports History
begin

text \<open>
  \<open>semantics/checker/brute.hpp\<close> and \<open>check.hpp\<close>: the linearizability checker. \<open>Search\<close> tries
  every call that no remaining call precedes in real time, first dropping it when it never
  completed, then applying it to the sequential model; \<open>StepInto\<close> swaps the chosen call with the
  last remaining one and shortens the prefix. The search gives up with the answer \<open>true\<close> after a
  number of steps. The declarative specification is \<open>linearizable\<close>; the theorems say when the
  answer of the code agrees with it.
\<close>

section \<open>The code\<close>

record 's apply_result =
  ok :: bool
  val :: bytes
  next_state :: 's

record 's lin_model =
  InitialState :: 's
  Apply :: "'s \<Rightarrow> string \<Rightarrow> bytes \<Rightarrow> 's apply_result res"
  IsMutation :: "call \<Rightarrow> bool"
  Decompose :: "history \<Rightarrow> history list"

record lin_checker =
  calls :: "call list"
  linear :: "call list"
  time_limit :: nat
  time :: nat

definition LinChecker :: "history \<Rightarrow> nat \<Rightarrow> lin_checker" where
  "LinChecker h limit = \<lparr>calls = h, linear = [], time_limit = limit, time = 0\<rparr>"

definition is_candidate :: "call list \<Rightarrow> nat \<Rightarrow> nat \<Rightarrow> bool" where
  "is_candidate cs cnt i \<longleftrightarrow> (\<forall>j \<in> {0..<cnt}. \<not> PrecedesInRealTime (cs ! j) (cs ! i))"

lemma res_bind_cong [fundef_cong]:
  "m = m' \<Longrightarrow> (\<And>x. m' = Inr x \<Longrightarrow> f x = g x) \<Longrightarrow> res_bind m f = res_bind m' g"
  by (auto simp: res_bind_def split: sum.split)

text \<open>\<open>count_\<close> is the argument \<open>cnt\<close>: \<open>StepInto\<close> decrements it for the recursive call and
  increments it back. The loop over \<open>i\<close> is \<open>Search_from\<close>.\<close>

function Search ::
    "'s lin_model \<Rightarrow> nat \<Rightarrow> 's \<Rightarrow> lin_checker \<Rightarrow> (bool \<times> lin_checker) res"
  and Search_from ::
    "'s lin_model \<Rightarrow> nat \<Rightarrow> nat \<Rightarrow> 's \<Rightarrow> lin_checker \<Rightarrow> (bool \<times> lin_checker) res"
  and StepInto ::
    "'s lin_model \<Rightarrow> nat \<Rightarrow> nat \<Rightarrow> 's \<Rightarrow> lin_checker \<Rightarrow> (bool \<times> lin_checker) res"
where
  "Search m cnt s st =
     (let st = st\<lparr>time := Suc (time st)\<rparr> in
      if time_limit st < time st then Inr (True, st)
      else if cnt = 0 then Inr (True, st)
      else Search_from m cnt 0 s st)"
| "Search_from m cnt i s st =
     (if \<not> i < cnt then Inr (False, st)
      else if \<not> is_candidate (calls st) cnt i then Search_from m cnt (Suc i) s st
      else
        let c = calls st ! i in
        res_bind (if \<not> IsCompleted c then StepInto m cnt i s st else Inr (False, st))
          (\<lambda>(found, st).
             if found then Inr (True, st)
             else res_bind (Apply m s (call_method c) (arguments c))
               (\<lambda>r. res_bind
                  (if ok r \<and> (\<not> IsCompleted c \<or> Some (val r) = result c)
                   then StepInto m cnt i (next_state r) st else Inr (False, st))
                  (\<lambda>(found, st).
                     if found then Inr (True, st)
                     else Search_from m cnt (Suc i) s st))))"
| "StepInto m cnt i s st =
     (case cnt of
        0 \<Rightarrow> Inl (Undefined ''count_ underflow'')
      | Suc n \<Rightarrow>
          res_bind
            (Search m n s (st\<lparr>linear := linear st @ [calls st ! i],
                                 calls := swap_at i n (calls st)\<rparr>))
            (\<lambda>(succeeded, st).
               Inr (succeeded, st\<lparr>calls := swap_at i n (calls st),
                                  linear := butlast (linear st)\<rparr>)))"
  by pat_completeness auto
termination
  by (relation "measures [\<lambda>x. case x of Inl (m, n, _) \<Rightarrow> n | Inr (Inl (m, n, _)) \<Rightarrow> n
                            | Inr (Inr (m, n, _)) \<Rightarrow> n,
                          \<lambda>x. case x of Inl _ \<Rightarrow> 2 | Inr (Inl _) \<Rightarrow> 1 | Inr (Inr _) \<Rightarrow> 0,
                          \<lambda>x. case x of Inr (Inl (m, n, i, _)) \<Rightarrow> n - i | _ \<Rightarrow> 0]") auto

declare Search.simps [simp del] Search_from.simps [simp del] StepInto.simps [simp del]

definition Check :: "'s lin_model \<Rightarrow> lin_checker \<Rightarrow> (bool \<times> lin_checker) res" where
  "Check m st = Search m (length (calls st)) (InitialState m) st"

definition LinCheckBrute :: "'s lin_model \<Rightarrow> history \<Rightarrow> nat \<Rightarrow> bool res" where
  "LinCheckBrute m h limit =
     res_bind (Check m (LinChecker h limit)) (\<lambda>(ok, st). Inr ok)"

fun Cleanup :: "'s lin_model \<Rightarrow> history \<Rightarrow> history" where
  "Cleanup m [] = []"
| "Cleanup m (c # h) =
     (if \<not> IsCompleted c \<and> \<not> IsMutation m c then Cleanup m h else c # Cleanup m h)"

definition kTimeLimit :: nat where
  "kTimeLimit = 777777"

definition LinCheckImpl :: "'s lin_model \<Rightarrow> history \<Rightarrow> bool res" where
  "LinCheckImpl m h = LinCheckBrute m h kTimeLimit"

fun check_all :: "'s lin_model \<Rightarrow> history list \<Rightarrow> bool res" where
  "check_all m [] = Inr True"
| "check_all m (sub # subs) =
     res_bind (LinCheckImpl m sub) (\<lambda>ok. if \<not> ok then Inr False else check_all m subs)"

definition LinCheck :: "'s lin_model \<Rightarrow> history \<Rightarrow> bool res" where
  "LinCheck m h = check_all m (Decompose m (Cleanup m h))"

section \<open>Specification\<close>

text \<open>A sequence of calls is a legal run of the model when each call applies and a completed call
  returned what the model returns.\<close>

fun legal :: "'s lin_model \<Rightarrow> 's \<Rightarrow> call list \<Rightarrow> bool" where
  "legal m s [] = True"
| "legal m s (c # cs) =
     (case Apply m s (call_method c) (arguments c) of
        Inl _ \<Rightarrow> False
      | Inr r \<Rightarrow> ok r \<and> (IsCompleted c \<longrightarrow> result c = Some (val r)) \<and> legal m (next_state r) cs)"

text \<open>Linearizability: every completed call and some of the others can be ordered so that the
  order contains the real-time order and is a legal run.\<close>

definition linearizable :: "'s lin_model \<Rightarrow> 's \<Rightarrow> call multiset \<Rightarrow> bool" where
  "linearizable m s H \<longleftrightarrow>
     (\<exists>L D. H = mset L + mset D \<and> (\<forall>c \<in> set D. \<not> IsCompleted c) \<and>
        sorted_wrt (\<lambda>x y. \<not> PrecedesInRealTime y x) L \<and> legal m s L)"

text \<open>The search space of the checker: repeatedly take away a minimal call.\<close>

definition minimal :: "call \<Rightarrow> call multiset \<Rightarrow> bool" where
  "minimal c H \<longleftrightarrow> (\<forall>d \<in># H. \<not> PrecedesInRealTime d c)"

inductive peel :: "'s lin_model \<Rightarrow> 's \<Rightarrow> call multiset \<Rightarrow> bool" for m where
  peel_done: "peel m s {#}"
| peel_drop: "c \<in># H \<Longrightarrow> minimal c H \<Longrightarrow> \<not> IsCompleted c \<Longrightarrow> peel m s (H - {#c#}) \<Longrightarrow> peel m s H"
| peel_apply: "c \<in># H \<Longrightarrow> minimal c H \<Longrightarrow> Apply m s (call_method c) (arguments c) = Inr r \<Longrightarrow> ok r \<Longrightarrow>
     \<not> IsCompleted c \<or> Some (val r) = result c \<Longrightarrow> peel m (next_state r) (H - {#c#}) \<Longrightarrow>
     peel m s H"

definition peels_at :: "'s lin_model \<Rightarrow> 's \<Rightarrow> call multiset \<Rightarrow> call \<Rightarrow> bool" where
  "peels_at m s H c \<longleftrightarrow> minimal c H \<and>
     (\<not> IsCompleted c \<and> peel m s (H - {#c#}) \<or>
      (\<exists>r. Apply m s (call_method c) (arguments c) = Inr r \<and> ok r \<and>
         (\<not> IsCompleted c \<or> Some (val r) = result c) \<and> peel m (next_state r) (H - {#c#})))"

lemma peel_iff: "H \<noteq> {#} \<Longrightarrow> peel m s H \<longleftrightarrow> (\<exists>c \<in># H. peels_at m s H c)"
  unfolding peels_at_def by (subst peel.simps) blast

section \<open>The search explores exactly the specification\<close>

text \<open>What a call of each of the three functions establishes when it returns \<open>(b, st')\<close>.\<close>

definition restores :: "lin_checker \<Rightarrow> lin_checker \<Rightarrow> bool" where
  "restores st st' \<longleftrightarrow> calls st' = calls st \<and> linear st' = linear st \<and>
     time_limit st' = time_limit st \<and> time st \<le> time st'"

definition answers :: "bool \<Rightarrow> lin_checker \<Rightarrow> bool \<Rightarrow> bool" where
  "answers b st' P \<longleftrightarrow> (\<not> b \<longrightarrow> \<not> P) \<and> (b \<longrightarrow> time st' \<le> time_limit st' \<longrightarrow> P)"

lemma restores_refl [simp]: "restores st st"
  by (simp add: restores_def)

lemma restores_trans: "restores a b \<Longrightarrow> restores b c \<Longrightarrow> restores a c"
  by (auto simp: restores_def)

lemma is_candidate_minimal:
  "cnt \<le> length cs \<Longrightarrow> is_candidate cs cnt i \<longleftrightarrow> minimal (cs ! i) (mset (take cnt cs))"
  by (force simp: is_candidate_def minimal_def in_set_conv_nth)

lemma take_mset_remove:
  "i < Suc n \<Longrightarrow> Suc n \<le> length cs \<Longrightarrow>
   mset (take n (swap_at i n cs)) = mset (take (Suc n) cs) - {#cs ! i#}"
  by (rule mset_take_swap_last) auto

lemma answers_trueI: "(time st' \<le> time_limit st' \<Longrightarrow> P) \<Longrightarrow> answers True st' P"
  by (simp add: answers_def)

lemma answers_falseI: "\<not> P \<Longrightarrow> answers False st' P"
  by (simp add: answers_def)

lemma answers_eq: "answers b st' P \<Longrightarrow> P = Q \<Longrightarrow> answers b st' Q"
  by simp

definition Search_ok :: "'s lin_model \<Rightarrow> nat \<Rightarrow> 's \<Rightarrow> lin_checker \<Rightarrow> bool" where
  "Search_ok m n s st \<longleftrightarrow> (\<forall>b st'. n \<le> length (calls st) \<longrightarrow> Search m n s st = Inr (b, st') \<longrightarrow>
     restores st st' \<and> answers b st' (peel m s (mset (take n (calls st)))))"

definition Search_from_ok :: "'s lin_model \<Rightarrow> nat \<Rightarrow> nat \<Rightarrow> 's \<Rightarrow> lin_checker \<Rightarrow> bool" where
  "Search_from_ok m n i s st \<longleftrightarrow> (\<forall>b st'. n \<le> length (calls st) \<longrightarrow>
     Search_from m n i s st = Inr (b, st') \<longrightarrow> restores st st' \<and>
     answers b st' (\<exists>k. i \<le> k \<and> k < n \<and> peels_at m s (mset (take n (calls st))) (calls st ! k)))"

definition StepInto_ok :: "'s lin_model \<Rightarrow> nat \<Rightarrow> nat \<Rightarrow> 's \<Rightarrow> lin_checker \<Rightarrow> bool" where
  "StepInto_ok m n i s st \<longleftrightarrow> (\<forall>b st'. n \<le> length (calls st) \<longrightarrow> i < n \<longrightarrow>
     StepInto m n i s st = Inr (b, st') \<longrightarrow> restores st st' \<and>
     answers b st' (peel m s (mset (take n (calls st)) - {#calls st ! i#})))"

lemma Search_ok_step:
  assumes "\<And>st1. st1 = st\<lparr>time := Suc (time st)\<rparr> \<Longrightarrow> \<not> time_limit st1 < time st1 \<Longrightarrow> n \<noteq> 0 \<Longrightarrow>
      Search_from_ok m n 0 s st1"
  shows "Search_ok m n s st"
  unfolding Search_ok_def
proof (intro allI impI)
  fix b st'
  assume n: "n \<le> length (calls st)" and r: "Search m n s st = Inr (b, st')"
  let ?st = "st\<lparr>time := Suc (time st)\<rparr>"
  have st: "restores st ?st" by (simp add: restores_def)
  consider (limit) "time_limit ?st < time ?st" "b" "st' = ?st"
    | (empty) "n = 0" "b" "st' = ?st"
    | (search) "\<not> time_limit ?st < time ?st" "n \<noteq> 0" "Search_from m n 0 s ?st = Inr (b, st')"
    using r by (subst (asm) Search.simps) (auto simp: Let_def split: if_splits)
  then show "restores st st' \<and> answers b st' (peel m s (mset (take n (calls st))))"
  proof cases
    case limit
    then show ?thesis using st by (auto simp: answers_def)
  next
    case empty
    then show ?thesis using st by (simp add: answers_def peel_done)
  next
    case search
    have "mset (take n (calls st)) \<noteq> {#}" using search(2) n by auto
    then have "peel m s (mset (take n (calls st))) \<longleftrightarrow>
        (\<exists>k<n. peels_at m s (mset (take n (calls st))) (calls st ! k))"
      using n by (simp add: peel_iff bex_set_take)
    moreover have "restores ?st st' \<and> answers b st'
        (\<exists>k. 0 \<le> k \<and> k < n \<and> peels_at m s (mset (take n (calls st))) (calls st ! k))"
      using assms [OF refl search(1,2)] n search(3) by (simp add: Search_from_ok_def)
    ultimately show ?thesis using restores_trans [OF st] by simp
  qed
qed

lemma StepInto_ok_step:
  assumes "\<And>k st1. n = Suc k \<Longrightarrow>
      st1 = st\<lparr>linear := linear st @ [calls st ! i], calls := swap_at i k (calls st)\<rparr> \<Longrightarrow>
      Search_ok m k s st1"
  shows "StepInto_ok m n i s st"
  unfolding StepInto_ok_def
proof (intro allI impI)
  fix b st'
  assume n: "n \<le> length (calls st)" and i: "i < n" and r: "StepInto m n i s st = Inr (b, st')"
  from i obtain k where k: "n = Suc k" by (cases n) auto
  let ?st = "st\<lparr>linear := linear st @ [calls st ! i], calls := swap_at i k (calls st)\<rparr>"
  obtain st1 where st1: "Search m k s ?st = Inr (b, st1)"
      and st': "st' = st1\<lparr>calls := swap_at i k (calls st1), linear := butlast (linear st1)\<rparr>"
    using r k by (subst (asm) StepInto.simps) (auto simp: res_bind_Inr)
  have len: "i < length (calls st)" "k < length (calls st)" using n i k by auto
  have "restores ?st st1 \<and> answers b st1 (peel m s (mset (take k (calls ?st))))"
    using assms [OF k refl] len st1 by (simp add: Search_ok_def)
  moreover have "mset (take k (calls ?st)) = mset (take n (calls st)) - {#calls st ! i#}"
    using take_mset_remove [of i k "calls st"] n i k by simp
  ultimately show "restores st st' \<and>
      answers b st' (peel m s (mset (take n (calls st)) - {#calls st ! i#}))"
    using len by (simp add: st' restores_def answers_def)
qed

lemma peels_at_split:
  "i < n \<Longrightarrow> (\<exists>k. i \<le> k \<and> k < n \<and> P k) \<longleftrightarrow> P i \<or> (\<exists>k. Suc i \<le> k \<and> k < n \<and> P k)"
  by (metis Suc_leD le_antisym less_or_eq_imp_le not_less_eq_eq)

text \<open>A run of the search at a candidate: the candidate is first tried as a call that was lost, then as a call that took
  effect, then the search goes on with the next one.\<close>

lemma Search_from_candidate:
  fixes m :: "'s lin_model"
  assumes r: "Search_from m n i s st = Inr (b, st')" and cand: "i < n" "is_candidate (calls st) n i"
  obtains f1 st1 where
    "(if \<not> IsCompleted (calls st ! i) then StepInto m n i s st else Inr (False, st)) = Inr (f1, st1)"
    and "f1 \<Longrightarrow> b \<and> st' = st1"
    and "\<not> f1 \<Longrightarrow> \<exists>rr f2 st2. Apply m s (call_method (calls st ! i)) (arguments (calls st ! i)) = Inr rr \<and>
      (if ok rr \<and> (\<not> IsCompleted (calls st ! i) \<or> Some (val rr) = result (calls st ! i))
       then StepInto m n i (next_state rr) st1 else Inr (False, st1)) = Inr (f2, st2) \<and>
      (if f2 then Inr (True, st2) else Search_from m n (Suc i) s st2) = Inr (b, st')"
proof -
  let ?c = "calls st ! i"
  let ?rest = "\<lambda>f1 st1. if f1 then Inr (True, st1) else
        res_bind (Apply m s (call_method ?c) (arguments ?c)) (\<lambda>r. res_bind
          (if ok r \<and> (\<not> IsCompleted ?c \<or> Some (val r) = result ?c)
           then StepInto m n i (next_state r) st1 else Inr (False, st1))
          (\<lambda>(found, st). if found then Inr (True, st) else Search_from m n (Suc i) s st))"
  have "res_bind (if \<not> IsCompleted ?c then StepInto m n i s st else Inr (False, st))
      (\<lambda>(f1, st1). ?rest f1 st1) = Inr (b, st')"
    using r cand by (simp only: Search_from.simps [of m n i s st] Let_def not_not if_True if_False simp_thms)
  then obtain f1 st1 where one: "(if \<not> IsCompleted ?c then StepInto m n i s st else Inr (False, st)) = Inr (f1, st1)"
      and rest: "?rest f1 st1 = Inr (b, st')"
    unfolding res_bind_Inr by auto
  show thesis
  proof (rule that [OF one])
    show "b \<and> st' = st1" if f1 using rest that by simp
    assume "\<not> f1"
    with rest obtain rr where ap: "Apply m s (call_method ?c) (arguments ?c) = Inr rr"
        and bind2: "res_bind (if ok rr \<and> (\<not> IsCompleted ?c \<or> Some (val rr) = result ?c)
           then StepInto m n i (next_state rr) st1 else Inr (False, st1))
          (\<lambda>(found, st). if found then Inr (True, st) else Search_from m n (Suc i) s st) = Inr (b, st')"
      by (simp only: if_False res_bind_Inr) blast
    from bind2 ap show "\<exists>rr f2 st2. Apply m s (call_method ?c) (arguments ?c) = Inr rr \<and>
        (if ok rr \<and> (\<not> IsCompleted ?c \<or> Some (val rr) = result ?c)
         then StepInto m n i (next_state rr) st1 else Inr (False, st1)) = Inr (f2, st2) \<and>
        (if f2 then Inr (True, st2) else Search_from m n (Suc i) s st2) = Inr (b, st')"
      unfolding res_bind_Inr by auto
  qed
qed

lemma Search_from_other:
  assumes "Search_from m n i s st = Inr (b, st')" and "\<not> (i < n \<and> is_candidate (calls st) n i)"
  shows "if i < n then Search_from m n (Suc i) s st = Inr (b, st') else \<not> b \<and> st' = st"
  using assms by (subst (asm) Search_from.simps) (auto split: if_splits)

lemma Search_from_ok_step:
  fixes m :: "'s lin_model"
  assumes skip: "i < n \<Longrightarrow> \<not> is_candidate (calls st) n i \<Longrightarrow> Search_from_ok m n (Suc i) s st"
    and drop: "StepInto_ok m n i s st"
    and apply_: "\<And>(r :: 's apply_result) st1. restores st st1 \<Longrightarrow> StepInto_ok m n i (next_state r) st1"
    and cont: "\<And>st1. i < n \<Longrightarrow> restores st st1 \<Longrightarrow> Search_from_ok m n (Suc i) s st1"
  shows "Search_from_ok m n i s st"
  unfolding Search_from_ok_def
proof (intro allI impI)
  fix b st'
  let ?H = "mset (take n (calls st))" and ?c = "calls st ! i"
  let ?ans = "\<lambda>i. \<exists>k. i \<le> k \<and> k < n \<and> peels_at m s ?H (calls st ! k)"
  assume n: "n \<le> length (calls st)" and r: "Search_from m n i s st = Inr (b, st')"
  show "restores st st' \<and> answers b st' (?ans i)"
  proof (cases "i < n \<and> is_candidate (calls st) n i")
    case False
    then have "i < n \<Longrightarrow> \<not> peels_at m s ?H ?c" using is_candidate_minimal [OF n] by (auto simp: peels_at_def)
    then show ?thesis using Search_from_other [OF r False] skip False n
      by (cases "i < n") (auto simp: Search_from_ok_def answers_def peels_at_split [of i n])
  next
    case cand: True
    then have i: "i < n" and min: "minimal ?c ?H" using is_candidate_minimal [OF n] by auto
    from Search_from_candidate [OF r i cand [THEN conjunct2]] obtain f1 st1 where
      step1: "(if \<not> IsCompleted ?c then StepInto m n i s st else Inr (False, st)) = Inr (f1, st1)"
      and found: "f1 \<Longrightarrow> b \<and> st' = st1"
      and rest: "\<not> f1 \<Longrightarrow> \<exists>rr f2 st2. Apply m s (call_method ?c) (arguments ?c) = Inr rr \<and>
        (if ok rr \<and> (\<not> IsCompleted ?c \<or> Some (val rr) = result ?c)
         then StepInto m n i (next_state rr) st1 else Inr (False, st1)) = Inr (f2, st2) \<and>
        (if f2 then Inr (True, st2) else Search_from m n (Suc i) s st2) = Inr (b, st')" by blast
    have one: "restores st st1 \<and> answers f1 st1 (\<not> IsCompleted ?c \<and> peel m s (?H - {#?c#}))"
      using step1 drop n i by (auto simp: StepInto_ok_def answers_def split: if_splits)
    show ?thesis
    proof (cases f1)
      case True
      with found one i min show ?thesis by (auto simp: answers_def peels_at_def)
    next
      case False
      with rest obtain rr f2 st2 where ap: "Apply m s (call_method ?c) (arguments ?c) = Inr rr"
        and step2: "(if ok rr \<and> (\<not> IsCompleted ?c \<or> Some (val rr) = result ?c)
             then StepInto m n i (next_state rr) st1 else Inr (False, st1)) = Inr (f2, st2)"
        and rest2: "(if f2 then Inr (True, st2) else Search_from m n (Suc i) s st2) = Inr (b, st')" by blast
      have st1: "calls st1 = calls st" using one by (simp add: restores_def)
      have two: "restores st1 st2 \<and> answers f2 st2 (ok rr \<and>
          (\<not> IsCompleted ?c \<or> Some (val rr) = result ?c) \<and> peel m (next_state rr) (?H - {#?c#}))"
        using step2 apply_ [of st1 rr] one n i st1
        by (auto simp: StepInto_ok_def answers_def split: if_splits)
      have st2: "restores st st2" using one two restores_trans by blast
      have here: "peels_at m s ?H ?c \<longleftrightarrow> \<not> IsCompleted ?c \<and> peel m s (?H - {#?c#}) \<or>
          ok rr \<and> (\<not> IsCompleted ?c \<or> Some (val rr) = result ?c) \<and>
          peel m (next_state rr) (?H - {#?c#})"
        using min ap by (auto simp: peels_at_def)
      have "restores st2 st' \<and> answers b st' (?ans (Suc i))" if "\<not> f2"
        using cont [OF i st2] rest2 that n st2 by (simp add: Search_from_ok_def restores_def)
      then show ?thesis using rest2 one two st2 here i False restores_trans [OF st2]
        by (cases f2) (auto simp: answers_def peels_at_split [of i n])
    qed
  qed
qed

lemma Search_from_ok_all:
  assumes "\<And>i s st. StepInto_ok m n i s st"
  shows "Search_from_ok m n i s st"
proof (induction "n - i" arbitrary: i st rule: less_induct)
  case less
  show ?case
    by (rule Search_from_ok_step) (auto intro: assms less.hyps)
qed

theorem Search_correct: "Search_ok m n s st"
proof (induction n arbitrary: s st)
  case 0
  show ?case by (rule Search_ok_step) simp
next
  case (Suc n)
  have "StepInto_ok m (Suc n) i s st" for i s st
    by (rule StepInto_ok_step) (use Suc.IH in auto)
  then show ?case by (blast intro: Search_ok_step Search_from_ok_all)
qed

section \<open>The search space is the specification\<close>

lemma peel_linearizable: "peel m s H \<Longrightarrow> linearizable m s H"
proof (induction rule: peel.induct)
  case (peel_done s)
  show ?case unfolding linearizable_def by (rule exI [of _ "[]"], rule exI [of _ "[]"]) simp
next
  case (peel_drop c H s)
  then obtain L D where LD: "H - {#c#} = mset L + mset D" "\<forall>c \<in> set D. \<not> IsCompleted c"
      "sorted_wrt (\<lambda>x y. \<not> PrecedesInRealTime y x) L" "legal m s L"
    unfolding linearizable_def by blast
  have "H = mset L + mset (c # D)"
    using LD(1) peel_drop.hyps(1) by (simp add: insert_DiffM2 flip: LD(1))
  then show ?case using LD peel_drop.hyps(3) unfolding linearizable_def
    by (intro exI [of _ L] exI [of _ "c # D"]) auto
next
  case (peel_apply c H s r)
  then obtain L D where LD: "H - {#c#} = mset L + mset D" "\<forall>c \<in> set D. \<not> IsCompleted c"
      "sorted_wrt (\<lambda>x y. \<not> PrecedesInRealTime y x) L" "legal m (next_state r) L"
    unfolding linearizable_def by blast
  have H: "H = mset (c # L) + mset D"
    using LD(1) peel_apply.hyps(1) by (simp add: insert_DiffM2 flip: LD(1))
  have "\<forall>y \<in> set L. \<not> PrecedesInRealTime y c"
    using peel_apply.hyps(2) unfolding H minimal_def by auto
  moreover have "legal m s (c # L)" using peel_apply.hyps(3,4,5) LD(4) by auto
  ultimately show ?case using H LD(2,3) unfolding linearizable_def
    by (intro exI [of _ "c # L"] exI [of _ D]) auto
qed

lemma peel_all_dropped: "\<forall>c \<in> set D. \<not> IsCompleted c \<Longrightarrow> peel m s (mset D)"
proof (induction D)
  case Nil
  show ?case by (simp add: peel_done)
next
  case (Cons c D)
  have "minimal c (mset (c # D))"
    using Cons.prems by (auto simp: minimal_def dest: Precedes_completed)
  then show ?case using Cons by - (rule peel_drop [where c = c], auto)
qed

lemma linearizable_peel:
  assumes "\<forall>c \<in># H. proper_call c" and "linearizable m s H"
  shows "peel m s H"
proof -
  from assms(2) obtain L D where LD: "H = mset L + mset D" "\<forall>c \<in> set D. \<not> IsCompleted c"
      "sorted_wrt (\<lambda>x y. \<not> PrecedesInRealTime y x) L" "legal m s L"
    unfolding linearizable_def by blast
  have "\<forall>c \<in> set L. proper_call c" using assms(1) LD(1) by auto
  then have "peel m s (mset L + mset D)" using LD(3,4)
  proof (induction L arbitrary: s)
    case Nil
    then show ?case using LD(2) by (simp add: peel_all_dropped)
  next
    case (Cons c L)
    then obtain r where r: "Apply m s (call_method c) (arguments c) = Inr r" "ok r"
        "IsCompleted c \<longrightarrow> result c = Some (val r)" "legal m (next_state r) L"
      by (auto split: sum.splits)
    have "minimal c (mset (c # L) + mset D)"
      using Cons.prems LD(2) by (auto simp: minimal_def Precedes_irrefl dest: Precedes_completed)
    moreover have "peel m (next_state r) (mset L + mset D)"
      using Cons r(4) by simp
    ultimately show ?case using r
      by - (rule peel_apply [where c = c and r = r], auto)
  qed
  with LD(1) show ?thesis by simp
qed

lemma peel_iff_linearizable:
  "\<forall>c \<in># H. proper_call c \<Longrightarrow> peel m s H \<longleftrightarrow> linearizable m s H"
  by (blast intro: peel_linearizable linearizable_peel)

section \<open>The search ends, within a bound on its steps\<close>

definition total_call :: "'s lin_model \<Rightarrow> call \<Rightarrow> bool" where
  "total_call m c \<longleftrightarrow> (\<forall>s. \<exists>r. Apply m s (call_method c) (arguments c) = Inr r)"

fun search_cost :: "nat \<Rightarrow> nat" where
  "search_cost 0 = 1"
| "search_cost (Suc n) = Suc (2 * Suc n * search_cost n)"

definition ready :: "'s lin_model \<Rightarrow> nat \<Rightarrow> lin_checker \<Rightarrow> bool" where
  "ready m n st \<longleftrightarrow> n \<le> length (calls st) \<and> (\<forall>c \<in> set (calls st). total_call m c)"

definition ends_within :: "(bool \<times> lin_checker) res \<Rightarrow> lin_checker \<Rightarrow> nat \<Rightarrow> bool" where
  "ends_within r st k \<longleftrightarrow> (case r of Inl _ \<Rightarrow> False | Inr p \<Rightarrow> time (snd p) \<le> time st + k)"

lemma ends_within_mono: "ends_within r st k \<Longrightarrow> k \<le> k' \<Longrightarrow> ends_within r st k'"
  by (auto simp: ends_within_def split: sum.splits)

lemma ready_restores: "ready m n st \<Longrightarrow> restores st st' \<Longrightarrow> ready m n st'"
  by (simp add: ready_def restores_def)

lemma StepInto_correct: "StepInto_ok m n i s st"
  by (rule StepInto_ok_step) (rule Search_correct)

lemma StepInto_restores:
  "StepInto m n i s st = Inr (b, st') \<Longrightarrow> n \<le> length (calls st) \<Longrightarrow> i < n \<Longrightarrow> restores st st'"
  using StepInto_correct [of m n i s st] unfolding StepInto_ok_def by blast

lemma StepInto_ends:
  assumes IH: "\<And>s st. ready m n st \<Longrightarrow> ends_within (Search m n s st) st (search_cost n)"
    and "ready m (Suc n) st" and "i < Suc n"
  shows "ends_within (StepInto m (Suc n) i s st) st (search_cost n)"
proof -
  let ?st = "st\<lparr>linear := linear st @ [calls st ! i], calls := swap_at i n (calls st)\<rparr>"
  have "ready m n ?st" using assms(2,3) by (auto simp: ready_def)
  then have "ends_within (Search m n s ?st) ?st (search_cost n)" by (rule IH)
  then show ?thesis by (auto simp: ends_within_def StepInto.simps split: sum.splits)
qed

lemma Search_from_ends:
  assumes IH: "\<And>i s st. ready m n st \<Longrightarrow> i < n \<Longrightarrow> ends_within (StepInto m n i s st) st k"
    and "ready m n st"
  shows "ends_within (Search_from m n i s st) st (2 * (n - i) * k)"
  using assms(2)
proof (induction "n - i" arbitrary: i st rule: less_induct)
  case less
  note ready = less.prems
  show ?case
  proof (cases "i < n")
    case False
    then show ?thesis by (simp add: Search_from.simps [of m n i] ends_within_def)
  next
    case i: True
    have n_i: "n - i = Suc (n - Suc i)" using i by simp
    show ?thesis
    proof (cases "is_candidate (calls st) n i")
      case False
      have "ends_within (Search_from m n (Suc i) s st) st (2 * (n - Suc i) * k)"
        using less i by simp
      then show ?thesis using False i
        by (simp add: Search_from.simps [of m n i] ends_within_mono n_i)
    next
      case cand: True
      let ?c = "calls st ! i"
      have "?c \<in> set (calls st)" using i ready by (simp add: ready_def)
      then obtain r where r: "Apply m s (call_method ?c) (arguments ?c) = Inr r"
        using ready by (auto simp: ready_def total_call_def)
      have step: "\<exists>b st2. (if P then StepInto m n i s' st1 else Inr (False, st1)) = Inr (b, st2) \<and>
          time st2 \<le> time st1 + k \<and> restores st1 st2" if "ready m n st1" for P s' st1
        using IH [OF that i, of s'] StepInto_restores [of m n i s' st1] that i
        by (auto simp: ends_within_def ready_def split: sum.splits)
      obtain f1 st1 where s1: "(if \<not> IsCompleted ?c then StepInto m n i s st else Inr (False, st)) =
          Inr (f1, st1)" "time st1 \<le> time st + k" "restores st st1"
        using step [OF ready] by blast
      obtain f2 st2 where s2: "(if ok r \<and> (\<not> IsCompleted ?c \<or> Some (val r) = result ?c)
            then StepInto m n i (next_state r) st1 else Inr (False, st1)) = Inr (f2, st2)"
          "time st2 \<le> time st1 + k" "restores st1 st2"
        using step [OF ready_restores [OF ready s1(3)]] by blast
      have "ends_within (Search_from m n (Suc i) s st2) st2 (2 * (n - Suc i) * k)"
        using less.hyps [of "Suc i" st2] i
          ready_restores [OF ready restores_trans [OF s1(3) s2(3)]] by simp
      then obtain b st3 where s3: "Search_from m n (Suc i) s st2 = Inr (b, st3)"
          "time st3 \<le> time st2 + 2 * (n - Suc i) * k"
        by (auto simp: ends_within_def split: sum.splits)
      have "Search_from m n i s st =
          (if f1 then Inr (True, st1) else if f2 then Inr (True, st2) else Inr (b, st3))"
        using cand i r s1(1) s2(1) s3(1) by (simp add: Search_from.simps [of m n i] Let_def)
      then show ?thesis using s1(2) s2(2) s3(2) by (auto simp: ends_within_def n_i)
    qed
  qed
qed

lemma Search_ends: "ready m n st \<Longrightarrow> ends_within (Search m n s st) st (search_cost n)"
proof (induction n arbitrary: s st)
  case 0
  then show ?case by (simp add: Search.simps Let_def ends_within_def)
next
  case (Suc n)
  let ?st = "st\<lparr>time := Suc (time st)\<rparr>"
  have "ready m (Suc n) ?st" using Suc.prems by (simp add: ready_def)
  then have "ends_within (Search_from m (Suc n) 0 s ?st) ?st (2 * (Suc n - 0) * search_cost n)"
    by (intro Search_from_ends StepInto_ends Suc.IH) auto
  then show ?case by (auto simp: Search.simps Let_def ends_within_def split: sum.splits)
qed

section \<open>The answers of the checker\<close>

lemma Check_answers:
  assumes "Check m (LinChecker h limit) = Inr (b, st)" and "\<forall>c \<in> set h. proper_call c"
  shows "answers b st (linearizable m (InitialState m) (mset h))"
    and "time_limit st = limit"
proof -
  have "restores (LinChecker h limit) st \<and> answers b st (peel m (InitialState m) (mset h))"
    using assms(1) Search_correct [of m "length h" "InitialState m" "LinChecker h limit"]
    by (auto simp: Search_ok_def Check_def LinChecker_def)
  moreover have "peel m (InitialState m) (mset h) = linearizable m (InitialState m) (mset h)"
    by (rule peel_iff_linearizable) (use assms(2) in simp)
  ultimately show "answers b st (linearizable m (InitialState m) (mset h))"
      and "time_limit st = limit"
    by (simp_all add: restores_def LinChecker_def)
qed

lemma Check_ends:
  "\<forall>c \<in> set h. total_call m c \<Longrightarrow>
   ends_within (Check m (LinChecker h limit)) (LinChecker h limit) (search_cost (length h))"
  unfolding Check_def by (simp add: LinChecker_def ready_def Search_ends)

lemma LinCheckBrute_False:
  "\<forall>c \<in> set h. proper_call c \<Longrightarrow> LinCheckBrute m h limit = Inr False \<Longrightarrow>
   \<not> linearizable m (InitialState m) (mset h)"
  by (auto simp: LinCheckBrute_def res_bind_Inr answers_def dest!: Check_answers(1))

lemma LinCheckBrute_limit:
  assumes "\<forall>c \<in> set h. proper_call c" and "\<forall>c \<in> set h. total_call m c"
    and "search_cost (length h) \<le> limit"
  shows "LinCheckBrute m h limit = Inr (linearizable m (InitialState m) (mset h))"
proof -
  obtain b st where r: "Check m (LinChecker h limit) = Inr (b, st)"
      and t: "time st \<le> search_cost (length h)"
    using Check_ends [OF assms(2), of limit]
    by (auto simp: ends_within_def LinChecker_def split: sum.splits)
  then show ?thesis
    using Check_answers [OF r assms(1)] assms(3)
    by (auto simp: answers_def LinCheckBrute_def)
qed

lemma search_cost_mono: "i \<le> j \<Longrightarrow> search_cost i \<le> search_cost j"
proof (induction rule: dec_induct)
  case (step n)
  have "search_cost n \<le> search_cost (Suc n)" by simp
  with step.IH show ?case by (rule order_trans)
qed simp

lemma search_cost_rec: "search_cost (numeral k) = 1 + 2 * numeral k * search_cost (pred_numeral k)"
  using search_cost.simps(2) [of "pred_numeral k"]
  by (simp only: numeral_eq_Suc One_nat_def plus_nat.simps)

lemma search_cost_6: "n \<le> 6 \<Longrightarrow> search_cost n \<le> kTimeLimit"
proof -
  have "search_cost 6 \<le> kTimeLimit"
    by (simp add: search_cost_rec kTimeLimit_def del: search_cost.simps(2)) simp
  moreover assume "n \<le> 6"
  ultimately show ?thesis using search_cost_mono by (meson order_trans)
qed

text \<open>Unfolding the search on a concrete history: the continuation of a bind is not rewritten before
  its argument is a value.\<close>

lemma res_bind_eval_cong: "m = m' \<Longrightarrow> res_bind m f = res_bind m' f"
  by simp

lemmas search_eval = LinCheck_def LinCheckImpl_def LinCheckBrute_def Check_def LinChecker_def
  kTimeLimit_def Search.simps Search_from.simps StepInto.simps Let_def is_candidate_def
  IsCompleted_def PrecedesInRealTime_def swap_at_def

section \<open>What the checker relies on in a sequential model\<close>

locale sequential_model =
  fixes m :: "'s lin_model" and valid :: "call \<Rightarrow> bool"
  assumes apply_total: "valid c \<Longrightarrow> \<exists>r. Apply m s (call_method c) (arguments c) = Inr r"
    and read_only: "valid c \<Longrightarrow> \<not> IsMutation m c \<Longrightarrow>
          Apply m s (call_method c) (arguments c) = Inr r \<Longrightarrow> ok r \<and> next_state r = s"
    and decompose: "Decompose m h = [h]"
begin

lemma valid_total: "valid c \<Longrightarrow> total_call m c"
  by (simp add: total_call_def apply_total)

definition keeps :: "call \<Rightarrow> bool" where
  "keeps c \<longleftrightarrow> IsCompleted c \<or> IsMutation m c"

lemma Cleanup_filter: "Cleanup m h = filter keeps h"
  by (induction h) (auto simp: keeps_def)

text \<open>A read that never completed constrains nothing: dropping it keeps a run legal.\<close>

lemma legal_filter:
  "\<forall>c \<in> set L. valid c \<Longrightarrow> legal m s L \<Longrightarrow> legal m s (filter keeps L)"
proof (induction L arbitrary: s)
  case (Cons c L)
  obtain r where r: "Apply m s (call_method c) (arguments c) = Inr r"
    using apply_total Cons.prems(1) by (meson list.set_intros(1))
  show ?case
  proof (cases "keeps c")
    case True
    with Cons r show ?thesis by auto
  next
    case False
    then have "next_state r = s" using read_only [OF _ _ r] Cons.prems(1) by (simp add: keeps_def)
    with Cons r False show ?thesis by simp
  qed
qed simp

lemma linearizable_Cleanup:
  assumes "\<forall>c \<in> set h. valid c"
  shows "linearizable m s (mset (Cleanup m h)) \<longleftrightarrow> linearizable m s (mset h)"
proof
  let ?dropped = "filter (\<lambda>c. \<not> keeps c) h"
  assume "linearizable m s (mset (Cleanup m h))"
  then obtain L D where LD: "mset (filter keeps h) = mset L + mset D"
      "\<forall>c \<in> set D. \<not> IsCompleted c" "sorted_wrt (\<lambda>x y. \<not> PrecedesInRealTime y x) L" "legal m s L"
    unfolding linearizable_def Cleanup_filter by blast
  have "mset h = mset (filter keeps h) + mset ?dropped"
    by (metis mset_filter multiset_partition)
  also note LD(1)
  finally have "mset h = mset L + mset (D @ ?dropped)"
    by (simp only: mset_append add.assoc)
  moreover have "\<forall>c \<in> set (D @ ?dropped). \<not> IsCompleted c"
    using LD(2) by (auto simp: keeps_def)
  ultimately show "linearizable m s (mset h)"
    unfolding linearizable_def using LD(3,4) by blast
next
  assume "linearizable m s (mset h)"
  then obtain L D where LD: "mset h = mset L + mset D"
      "\<forall>c \<in> set D. \<not> IsCompleted c" "sorted_wrt (\<lambda>x y. \<not> PrecedesInRealTime y x) L" "legal m s L"
    unfolding linearizable_def by blast
  have "set L \<subseteq> set h" using LD(1) by (metis mset_subset_eq_add_left set_mset_mono set_mset_mset)
  then have "legal m s (filter keeps L)" using LD(4) assms by (intro legal_filter) auto
  moreover have "mset (filter keeps h) = mset (filter keeps L) + mset (filter keeps D)"
    using LD(1) by (simp add: mset_filter)
  moreover have "\<forall>c \<in> set (filter keeps D). \<not> IsCompleted c" using LD(2) by simp
  ultimately show "linearizable m s (mset (Cleanup m h))"
    unfolding linearizable_def Cleanup_filter using LD(3) sorted_wrt_filter by blast
qed

lemma LinCheck_exact:
  assumes "\<forall>c \<in> set h. proper_call c" and "\<forall>c \<in> set h. valid c" and "length (Cleanup m h) \<le> 6"
  shows "LinCheck m h = Inr (linearizable m (InitialState m) (mset h))"
proof -
  have "LinCheckImpl m (Cleanup m h) =
      Inr (linearizable m (InitialState m) (mset (Cleanup m h)))"
    unfolding LinCheckImpl_def using assms valid_total
    by (intro LinCheckBrute_limit search_cost_6) (auto simp: Cleanup_filter)
  then show ?thesis
    using linearizable_Cleanup [OF assms(2)] by (simp add: LinCheck_def decompose)
qed

lemma LinCheck_no_false_alarm:
  assumes "\<forall>c \<in> set h. proper_call c" and "\<forall>c \<in> set h. valid c" and "LinCheck m h = Inr False"
  shows "\<not> linearizable m (InitialState m) (mset h)"
proof -
  have "LinCheckBrute m (Cleanup m h) kTimeLimit = Inr False"
    using assms(3)
    by (auto simp: LinCheck_def LinCheckImpl_def decompose res_bind_Inr split: if_splits)
  then show ?thesis
    using LinCheckBrute_False [of "Cleanup m h" m kTimeLimit] assms(1)
      linearizable_Cleanup [OF assms(2)]
    by (auto simp: Cleanup_filter)
qed

end

end
