(* ===== verification/KV_Model.thy ===== *)
theory KV_Model
  imports Lin_Checker
begin

text \<open>
  \<open>semantics/models/kv.hpp\<close>: the sequential specification of a key-value store that the checker
  runs histories against. Keys and values are any types; \<open>muesli\<close>'s (de)serialisation functions
  are the fields of a \<open>kv_codec\<close>, an argument of the model, and \<open>V{}\<close> is its default value.
\<close>

section \<open>The code\<close>

record ('k, 'v) kv_codec =
  As_K :: "bytes \<Rightarrow> 'k option"
  As_KV :: "bytes \<Rightarrow> ('k \<times> 'v) option"
  As_KVV :: "bytes \<Rightarrow> ('k \<times> 'v \<times> 'v) option"
  MakeValue :: "'v \<Rightarrow> bytes"
  MakeUnit :: bytes
  DefaultValue :: 'v

type_synonym ('k, 'v) kv_state = "'k \<rightharpoonup> 'v"

definition KVStoreState_Set :: "'k \<Rightarrow> 'v \<Rightarrow> ('k, 'v) kv_state \<Rightarrow> ('k, 'v) kv_state" where
  "KVStoreState_Set k v s = s(k \<mapsto> v)"

definition KVStoreState_Get :: "'v \<Rightarrow> 'k \<Rightarrow> ('k, 'v) kv_state \<Rightarrow> 'v" where
  "KVStoreState_Get dflt k s = (case s k of Some v \<Rightarrow> v | None \<Rightarrow> dflt)"

definition KVStoreState_Cas ::
    "'v \<Rightarrow> 'k \<Rightarrow> 'v \<Rightarrow> 'v \<Rightarrow> ('k, 'v) kv_state \<Rightarrow> 'v \<times> ('k, 'v) kv_state" where
  "KVStoreState_Cas dflt k expected_v target_v s =
     (let old = KVStoreState_Get dflt k s;
          s' = (if old = expected_v then KVStoreState_Set k target_v s else s)
      in (old, s'))"

definition as_args :: "'a option \<Rightarrow> ('a \<Rightarrow> 'b res) \<Rightarrow> 'b res" where
  "as_args a f = (case a of None \<Rightarrow> Inl (Thrown ''muesli::Deserialize'') | Some x \<Rightarrow> f x)"

definition KVStoreModel_Apply ::
    "('k, 'v) kv_codec \<Rightarrow> ('k, 'v) kv_state \<Rightarrow> string \<Rightarrow> bytes \<Rightarrow>
     ('k, 'v) kv_state apply_result res" where
  "KVStoreModel_Apply cd current meth args =
     (if meth = ''Set'' then
        as_args (As_KV cd args) (\<lambda>(k, v).
          Inr \<lparr>ok = True, val = MakeUnit cd, next_state = KVStoreState_Set k v current\<rparr>)
      else if meth = ''Get'' then
        as_args (As_K cd args) (\<lambda>k.
          let v = KVStoreState_Get (DefaultValue cd) k current in
          Inr \<lparr>ok = True, val = MakeValue cd v, next_state = current\<rparr>)
      else if meth = ''Cas'' then
        as_args (As_KVV cd args) (\<lambda>(k, expected_v, target_v).
          let (old, nxt) = KVStoreState_Cas (DefaultValue cd) k expected_v target_v current in
          Inr \<lparr>ok = True, val = MakeValue cd old, next_state = nxt\<rparr>)
      else Inl (Panic ''unreachable''))"

definition KVStoreModel_IsMutation :: "call \<Rightarrow> bool" where
  "KVStoreModel_IsMutation c \<longleftrightarrow> call_method c = ''Set'' \<or> call_method c = ''Cas''"

definition KVStoreModel_IsReadOnly :: "call \<Rightarrow> bool" where
  "KVStoreModel_IsReadOnly c \<longleftrightarrow> call_method c = ''Get''"

definition KVStoreModel_Decompose :: "history \<Rightarrow> history list" where
  "KVStoreModel_Decompose h = [h]"

definition KVStoreModel :: "('k, 'v) kv_codec \<Rightarrow> ('k, 'v) kv_state lin_model" where
  "KVStoreModel cd = \<lparr>InitialState = Map.empty, Apply = KVStoreModel_Apply cd,
     IsMutation = KVStoreModel_IsMutation, Decompose = KVStoreModel_Decompose\<rparr>"

section \<open>The model is a sequential model\<close>

text \<open>Calls the model can run: the three methods, with arguments that deserialise.\<close>

definition kv_call :: "('k, 'v) kv_codec \<Rightarrow> call \<Rightarrow> bool" where
  "kv_call cd c \<longleftrightarrow>
     (call_method c = ''Set'' \<and> As_KV cd (arguments c) \<noteq> None) \<or>
     (call_method c = ''Get'' \<and> As_K cd (arguments c) \<noteq> None) \<or>
     (call_method c = ''Cas'' \<and> As_KVV cd (arguments c) \<noteq> None)"

lemma KVStoreModel_simps [simp]:
  "InitialState (KVStoreModel cd) = Map.empty"
  "Apply (KVStoreModel cd) = KVStoreModel_Apply cd"
  "IsMutation (KVStoreModel cd) = KVStoreModel_IsMutation"
  "Decompose (KVStoreModel cd) = KVStoreModel_Decompose"
  by (simp_all add: KVStoreModel_def)

interpretation kv: sequential_model "KVStoreModel cd" "kv_call cd" for cd :: "('k, 'v) kv_codec"
  by unfold_locales
    (auto simp: kv_call_def KVStoreModel_Apply_def as_args_def KVStoreModel_IsMutation_def
      KVStoreModel_Decompose_def Let_def split: prod.splits)

lemma Apply_state:
  "KVStoreModel_Apply cd s meth args = Inr r \<Longrightarrow>
     ok r \<and> (meth = ''Set'' \<or> meth = ''Get'' \<or> meth = ''Cas'')"
  by (auto simp: KVStoreModel_Apply_def as_args_def Let_def split: if_splits option.splits prod.splits)

section \<open>Properties\<close>

text \<open>Example calls over one-character keys and values, for the witnesses.\<close>

definition char_codec :: "(char, char) kv_codec" where
  "char_codec = \<lparr>
     As_K = (\<lambda>b. case b of [k] \<Rightarrow> Some k | _ \<Rightarrow> None),
     As_KV = (\<lambda>b. case b of [k, v] \<Rightarrow> Some (k, v) | _ \<Rightarrow> None),
     As_KVV = (\<lambda>b. case b of [k, v, w] \<Rightarrow> Some (k, v, w) | _ \<Rightarrow> None),
     MakeValue = (\<lambda>v. [v]), MakeUnit = [], DefaultValue = CHR ''0''\<rparr>"

definition set_1 :: call where
  "set_1 = \<lparr>call_method = ''Set'', arguments = ''x1'', result = Some [], start_time = 1,
     end_time = Some 5, labels = []\<rparr>"

definition stale_get :: call where
  "stale_get = \<lparr>call_method = ''Get'', arguments = ''x'', result = Some ''0'', start_time = 6,
     end_time = Some 9, labels = []\<rparr>"

definition lost_get :: call where
  "lost_get = \<lparr>call_method = ''Get'', arguments = ''x'', result = None, start_time = 7,
     end_time = None, labels = []\<rparr>"

text \<open>C14. For a history of a key-value store that keeps at most six calls after \<open>Cleanup\<close>, whose
  calls end no earlier than they start and whose arguments deserialise, \<open>LinCheck\<close> (cleanup, search
  with its limit of 777777 steps) terminates without aborting and answers exactly whether the whole
  history, before cleanup, is linearizable.\<close>

theorem LinCheck_kv_exact:
  assumes "\<forall>c \<in> set h. proper_call c" and "\<forall>c \<in> set h. kv_call cd c"
    and "length (Cleanup (KVStoreModel cd) h) \<le> 6"
  shows "LinCheck (KVStoreModel cd) h =
    Inr (linearizable (KVStoreModel cd) Map.empty (mset h))"
  using kv.LinCheck_exact [OF assms] by simp

theorem LinCheck_kv_exact_witness:
  "LinCheck (KVStoreModel char_codec) [set_1, lost_get, stale_get] =
     Inr (linearizable (KVStoreModel char_codec) Map.empty (mset [set_1, lost_get, stale_get]))"
  by (rule LinCheck_kv_exact)
    (simp_all add: set_1_def lost_get_def stale_get_def proper_call_def kv_call_def char_codec_def)

text \<open>C15. The checker raises no false alarm, whatever the length of the history: when \<open>LinCheck\<close>
  answers \<open>false\<close>, no order of the completed calls and of some of the others that contains the
  real-time order is a legal run of the key-value store.\<close>

theorem LinCheck_kv_no_false_alarm:
  assumes "\<forall>c \<in> set h. proper_call c" and "\<forall>c \<in> set h. kv_call cd c"
    and "LinCheck (KVStoreModel cd) h = Inr False"
  shows "\<not> linearizable (KVStoreModel cd) Map.empty (mset h)"
  using kv.LinCheck_no_false_alarm [OF assms] by simp

lemma stale_history_rejected: "LinCheck (KVStoreModel char_codec) [set_1, lost_get, stale_get] = Inr False"
  by (simp add: search_eval set_1_def lost_get_def stale_get_def KVStoreModel_Apply_def as_args_def
      KVStoreModel_IsMutation_def KVStoreModel_Decompose_def char_codec_def KVStoreState_Set_def
      KVStoreState_Get_def atLeast0_lessThan_Suc cong: res_bind_eval_cong)

theorem LinCheck_kv_no_false_alarm_witness:
  "\<not> linearizable (KVStoreModel char_codec) Map.empty (mset [set_1, lost_get, stale_get])"
  by (rule LinCheck_kv_no_false_alarm [OF _ _ stale_history_rejected])
    (simp_all add: set_1_def lost_get_def stale_get_def proper_call_def kv_call_def char_codec_def)

text \<open>Soundness and completeness of the search for every sequential model: a run of \<open>Check\<close>
  that returns puts the checker's calls and its linearization stack back, answers \<open>false\<close> only for
  a history that is not linearizable, and when it answers \<open>true\<close> without having exceeded its step
  limit the history is linearizable.\<close>

theorem Check_sound_complete:
  assumes "Check m (LinChecker h limit) = Inr (b, st)" and "\<forall>c \<in> set h. proper_call c"
  shows "calls st = h \<and> linear st = [] \<and>
    (\<not> b \<longrightarrow> \<not> linearizable m (InitialState m) (mset h)) \<and>
    (b \<longrightarrow> time st \<le> limit \<longrightarrow> linearizable m (InitialState m) (mset h))"
proof -
  have "restores (LinChecker h limit) st"
    using Search_correct [of m "length h" "InitialState m" "LinChecker h limit"] assms(1)
    by (auto simp: Search_ok_def Check_def LinChecker_def)
  then show ?thesis
    using Check_answers [OF assms] by (simp add: restores_def answers_def LinChecker_def)
qed

lemma Check_stale:
  "Check (KVStoreModel char_codec) (LinChecker [set_1, stale_get] 100) =
     Inr (False, \<lparr>calls = [set_1, stale_get], linear = [], time_limit = 100, time = 2\<rparr>)"
  by (simp add: search_eval set_1_def stale_get_def KVStoreModel_Apply_def as_args_def
      char_codec_def KVStoreState_Set_def KVStoreState_Get_def atLeast0_lessThan_Suc
      cong: res_bind_eval_cong)

theorem Check_sound_complete_witness:
  "\<not> linearizable (KVStoreModel char_codec) Map.empty (mset [set_1, stale_get])"
  using Check_sound_complete [OF Check_stale]
  by (simp add: set_1_def stale_get_def proper_call_def)

text \<open>The search always ends: on a history of calls the model can run, \<open>Check\<close> returns without
  aborting, and \<open>Time()\<close>, the number of search nodes, is at most \<open>search_cost\<close> of the number of
  calls (1, 3, 13, 79, 633, 6331, 75973 for up to six calls).\<close>

theorem Check_ends_in_time:
  assumes "\<forall>c \<in> set h. kv_call cd c"
  shows "\<exists>b st. Check (KVStoreModel cd) (LinChecker h limit) = Inr (b, st) \<and>
    time st \<le> search_cost (length h)"
  using Check_ends [of h "KVStoreModel cd" limit] assms kv.valid_total [of cd]
  by (auto simp: ends_within_def LinChecker_def split: sum.splits)

theorem Check_ends_in_time_witness:
  "\<exists>b st. Check (KVStoreModel char_codec) (LinChecker [set_1, stale_get] 0) = Inr (b, st) \<and>
    time st \<le> search_cost (length [set_1, stale_get])"
  by (rule Check_ends_in_time)
    (simp add: set_1_def stale_get_def kv_call_def char_codec_def)

text \<open>The limit makes the checker incomplete in one direction: a search that may not take a
  single step accepts every history, and so accepts a stale read that is not linearizable.\<close>

theorem LinCheckBrute_gives_up:
  "(\<forall>h. LinCheckBrute (KVStoreModel char_codec) h 0 = Inr True) \<and>
   \<not> linearizable (KVStoreModel char_codec) Map.empty (mset [set_1, stale_get])"
proof -
  have "LinCheckBrute (KVStoreModel char_codec) h 0 = Inr True" for h
    by (simp add: LinCheckBrute_def Check_def LinChecker_def Search.simps)
  moreover have "\<not> linearizable (KVStoreModel char_codec) Map.empty (mset [set_1, stale_get])"
    using Check_answers(1) [OF Check_stale]
    by (simp add: set_1_def stale_get_def proper_call_def answers_def)
  ultimately show ?thesis by simp
qed

end
