(* ===== verification/Ordered_Map.thy ===== *)
theory Ordered_Map
  imports Prelude
begin

text \<open>
  \<open>std::map\<close> as the program uses it: a list of entries in strictly ascending key order, which is
  the order every range-for over a map of the program visits (finalised calls, files, database
  entries, endpoints). The locale \<open>dictionary\<close> is the contract a client relies on; the ordered map
  provides it, and so do the components built on it (the memory table of the database).
\<close>

type_synonym ('k, 'v) omap = "('k \<times> 'v) list"

section \<open>Operations\<close>

text \<open>\<open>insert_or_assign\<close>, \<open>emplace\<close> (no effect on a key that is present), \<open>erase\<close>, \<open>find\<close>,
  and \<open>lower_bound\<close> as the index of the first entry whose key is not smaller.\<close>

fun om_assign :: "'k::linorder \<Rightarrow> 'v \<Rightarrow> ('k, 'v) omap \<Rightarrow> ('k, 'v) omap" where
  "om_assign k v [] = [(k, v)]"
| "om_assign k v (e # es) =
     (if fst e < k then e # om_assign k v es
      else if k < fst e then (k, v) # e # es
      else (k, v) # es)"

fun om_find :: "('k::linorder, 'v) omap \<Rightarrow> 'k \<Rightarrow> 'v option" where
  "om_find [] k = None"
| "om_find (e # es) k = (if fst e = k then Some (snd e) else om_find es k)"

definition om_emplace :: "'k::linorder \<Rightarrow> 'v \<Rightarrow> ('k, 'v) omap \<Rightarrow> ('k, 'v) omap" where
  "om_emplace k v m = (if om_find m k = None then om_assign k v m else m)"

definition om_erase :: "'k::linorder \<Rightarrow> ('k, 'v) omap \<Rightarrow> ('k, 'v) omap" where
  "om_erase k m = filter (\<lambda>e. fst e \<noteq> k) m"

definition om_lower_bound :: "('k::linorder, 'v) omap \<Rightarrow> 'k \<Rightarrow> nat" where
  "om_lower_bound m k = length (takeWhile (\<lambda>e. fst e < k) m)"

definition om_ok :: "('k::linorder, 'v) omap \<Rightarrow> bool" where
  "om_ok m \<longleftrightarrow> sorted_wrt (<) (map fst m)"

abbreviation om_keys :: "('k, 'v) omap \<Rightarrow> 'k set" where
  "om_keys m \<equiv> fst ` set m"

section \<open>The contract of a dictionary\<close>

locale dictionary =
  fixes empty_dict :: "'d"
    and put :: "'k \<Rightarrow> 'v \<Rightarrow> 'd \<Rightarrow> 'd"
    and del :: "'k \<Rightarrow> 'd \<Rightarrow> 'd"
    and get :: "'d \<Rightarrow> 'k \<Rightarrow> 'v option"
    and wf :: "'d \<Rightarrow> bool"
  assumes get_empty: "get empty_dict = Map.empty"
    and get_put: "wf d \<Longrightarrow> get (put k v d) = (get d)(k \<mapsto> v)"
    and get_del: "wf d \<Longrightarrow> get (del k d) = (get d)(k := None)"
    and wf_empty: "wf empty_dict"
    and wf_put: "wf d \<Longrightarrow> wf (put k v d)"
    and wf_del: "wf d \<Longrightarrow> wf (del k d)"
begin

text \<open>A put or a delete, as the operation on the abstract map it refines.\<close>

definition update :: "'k \<times> 'v option \<Rightarrow> 'd \<Rightarrow> 'd" where
  "update u d = (case snd u of Some v \<Rightarrow> put (fst u) v d | None \<Rightarrow> del (fst u) d)"

lemma wf_update: "wf d \<Longrightarrow> wf (update u d)"
  by (auto simp: update_def wf_put wf_del split: option.split)

lemma get_update: "wf d \<Longrightarrow> get (update u d) = (get d)(fst u := snd u)"
  by (auto simp: update_def get_put get_del split: option.split)

lemma wf_fold_update: "wf d \<Longrightarrow> wf (fold update us d)"
  by (induction us arbitrary: d) (auto simp: wf_update)

text \<open>A batch of updates is the same batch on the abstract map.\<close>

lemma get_fold_update:
  "wf d \<Longrightarrow> get (fold update us d) = fold (\<lambda>u m. m(fst u := snd u)) us (get d)"
  by (induction us arbitrary: d) (auto simp: wf_update get_update)

end

section \<open>The ordered map provides it\<close>

lemma om_keys_assign: "om_keys (om_assign k v m) = insert k (om_keys m)"
  by (induction m) (auto simp: image_iff)

lemma om_ok_Cons: "om_ok (e # m) \<longleftrightarrow> (\<forall>k \<in> om_keys m. fst e < k) \<and> om_ok m"
  by (auto simp: om_ok_def)

lemma om_ok_Nil [simp]: "om_ok []"
  by (simp add: om_ok_def)

lemma om_ok_assign [inv_rules]: "om_ok m \<Longrightarrow> om_ok (om_assign k v m)"
  by (induction m) (auto simp: om_ok_Cons om_keys_assign)

lemma om_ok_erase [inv_rules]: "om_ok m \<Longrightarrow> om_ok (om_erase k m)"
  by (induction m) (auto simp: om_ok_Cons om_erase_def)

lemma om_find_None: "om_find m k = None \<longleftrightarrow> k \<notin> om_keys m"
  by (induction m) (auto simp: image_iff)

lemma om_find_Some: "om_ok m \<Longrightarrow> om_find m k = Some v \<longleftrightarrow> (k, v) \<in> set m"
proof (induction m)
  case (Cons e m)
  then show ?case by (cases e) (force simp: om_ok_Cons)
qed simp

lemma om_find_assign: "om_ok m \<Longrightarrow> om_find (om_assign k v m) = (om_find m)(k \<mapsto> v)"
proof (induction m)
  case (Cons e m)
  have "om_find m k = None" if "k < fst e"
    using that Cons.prems by (force simp: om_find_None om_ok_Cons)
  with Cons show ?case by (auto simp: fun_eq_iff om_ok_Cons)
qed auto

lemma om_find_erase: "om_find (om_erase k m) = (om_find m)(k := None)"
  by (induction m) (auto simp: om_erase_def fun_eq_iff)

lemma om_ok_emplace [inv_rules]: "om_ok m \<Longrightarrow> om_ok (om_emplace k v m)"
  by (simp add: om_emplace_def om_ok_assign)

lemma om_find_emplace:
  "om_ok m \<Longrightarrow> om_find (om_emplace k v m) =
     (if k \<in> dom (om_find m) then om_find m else (om_find m)(k \<mapsto> v))"
  by (auto simp: om_emplace_def om_find_assign dom_def)

text \<open>A fresh largest key goes to the end.\<close>

lemma om_assign_last: "\<forall>k' \<in> om_keys m. k' < k \<Longrightarrow> om_assign k v m = m @ [(k, v)]"
  by (induction m) auto

lemma om_emplace_last: "\<forall>k' \<in> om_keys m. k' < k \<Longrightarrow> om_emplace k v m = m @ [(k, v)]"
  by (auto simp: om_emplace_def om_assign_last om_find_None)

lemma om_keys_erase: "om_keys (om_erase k m) = om_keys m - {k}"
  by (auto simp: om_erase_def)

lemma om_ok_distinct: "om_ok m \<Longrightarrow> distinct (map fst m)"
  by (simp add: om_ok_def strict_sorted_iff)

text \<open>The entries are determined by the contents.\<close>

lemma om_ext:
  assumes "om_ok m" and "om_ok n" and "om_find m = om_find n"
  shows "m = n"
proof -
  have "set m = set n" using om_find_Some [OF assms(1)] om_find_Some [OF assms(2)] assms(3) by (metis subrelI subset_antisym)
  moreover have "sorted_wrt (\<lambda>e f. fst e < fst f) m" "sorted_wrt (\<lambda>e f. fst e < fst f) n"
    using assms(1,2) by (simp_all add: om_ok_def sorted_wrt_map)
  ultimately show ?thesis
  proof (induction m arbitrary: n)
    case (Cons e m)
    then obtain f n' where n: "n = f # n'" by (cases n) auto
    have "e = f"
    proof (rule ccontr)
      assume "e \<noteq> f"
      then have "e \<in> set n'" "f \<in> set m" using Cons.prems(1) n by auto
      then show False using Cons.prems(2,3) n by (auto dest: order_less_asym)
    qed
    moreover have "e \<notin> set m" "f \<notin> set n'" using Cons.prems(2,3) n by auto
    ultimately have "set m = set n'" using Cons.prems(1) n by auto
    then show ?case using Cons.IH [of n'] Cons.prems(2,3) n \<open>e = f\<close> by simp
  qed simp
qed

lemma mset_om_erase:
  "om_ok m \<Longrightarrow> om_find m k = Some v \<Longrightarrow> mset m = add_mset (k, v) (mset (om_erase k m))"
proof (induction m)
  case (Cons e m)
  show ?case
  proof (cases "fst e = k")
    case True
    then have "om_erase k m = m"
      using Cons.prems(1) by (auto simp: om_erase_def om_ok_Cons intro!: filter_True)
    with True Cons.prems(2) show ?thesis by (cases e) (auto simp: om_erase_def)
  next
    case False
    then show ?thesis using Cons by (auto simp: om_erase_def om_ok_Cons)
  qed
qed simp

interpretation omap: dictionary "[]" om_assign om_erase om_find om_ok
  by unfold_locales (auto simp: om_find_assign om_find_erase om_ok_assign om_ok_erase)

section \<open>Lower bound\<close>

lemma om_lower_bound_le: "om_lower_bound m k \<le> length m"
  by (simp add: om_lower_bound_def length_takeWhile_le)

lemma om_lower_bound_less:
  "i < om_lower_bound m k \<Longrightarrow> fst (m ! i) < k"
  unfolding om_lower_bound_def
  by (metis nth_mem set_takeWhileD takeWhile_nth)

lemma om_lower_bound_ge:
  assumes "om_ok m" and "om_lower_bound m k \<le> i" and "i < length m"
  shows "k \<le> fst (m ! i)"
proof -
  let ?j = "om_lower_bound m k"
  have j: "\<not> fst (m ! ?j) < k"
    using assms(2,3) nth_length_takeWhile [of "\<lambda>e. fst e < k" m]
    by (simp add: om_lower_bound_def)
  have "fst (m ! ?j) \<le> fst (m ! i)"
    using assms unfolding om_ok_def
    by (cases "?j = i") (auto simp: sorted_wrt_iff_nth_less intro!: less_imp_le)
  with j show ?thesis by simp
qed

end
