(* ===== verification/Recorder.thy ===== *)
theory Recorder
  imports History Ordered_Map
begin

text \<open>
  \<open>history/recorder.{hpp,cpp}\<close> and \<open>history/channel.cpp\<close>: the recorder turns the start and the
  outcome of every client call into the history the checker reads. Each operation takes the virtual
  time \<open>GlobalNow()\<close> as the argument \<open>now\<close>. The specification is a journal: one entry per started
  call, updated in place; the theorem is that the recorder's two containers hold the same calls.
\<close>

section \<open>The code\<close>

record running_call =
  run_method :: string
  run_arguments :: bytes
  run_start_time :: time_point
  run_labels :: "string list"

type_synonym cookie = nat

record recorder =
  finalized_calls :: "call list"
  next_id :: cookie
  running_calls :: "(cookie, running_call) omap"

definition HistoryRecorder :: recorder where
  "HistoryRecorder = \<lparr>finalized_calls = [], next_id = 0, running_calls = []\<rparr>"

definition Complete :: "time_point \<Rightarrow> running_call \<Rightarrow> bytes \<Rightarrow> call" where
  "Complete now c res = \<lparr>call_method = run_method c, arguments = run_arguments c, result = Some res,
     start_time = run_start_time c, end_time = Some now, labels = run_labels c\<rparr>"

definition Lost :: "running_call \<Rightarrow> call" where
  "Lost c = \<lparr>call_method = run_method c, arguments = run_arguments c, result = None,
     start_time = run_start_time c, end_time = None, labels = run_labels c\<rparr>"

definition CallStarted :: "time_point \<Rightarrow> string \<Rightarrow> bytes \<Rightarrow> recorder \<Rightarrow> cookie \<times> recorder" where
  "CallStarted now meth input r =
     (let i = Suc (next_id r);
          c = \<lparr>run_method = meth, run_arguments = input, run_start_time = now, run_labels = []\<rparr>
      in (i, r\<lparr>next_id := i, running_calls := om_emplace i c (running_calls r)\<rparr>))"

definition AddLabel :: "cookie \<Rightarrow> string \<Rightarrow> recorder \<Rightarrow> recorder res" where
  "AddLabel i l r =
     (case om_find (running_calls r) i of
        None \<Rightarrow> Inl (Panic ''Call not found'')
      | Some c \<Rightarrow> Inr (r\<lparr>running_calls :=
          om_assign i (c\<lparr>run_labels := run_labels c @ [l]\<rparr>) (running_calls r)\<rparr>))"

definition CallCompleted :: "time_point \<Rightarrow> cookie \<Rightarrow> bytes \<Rightarrow> recorder \<Rightarrow> recorder res" where
  "CallCompleted now i out r =
     (case om_find (running_calls r) i of
        None \<Rightarrow> Inl (Undefined ''end iterator'')
      | Some pending \<Rightarrow>
          Inr (r\<lparr>running_calls := om_erase i (running_calls r),
                 finalized_calls := finalized_calls r @ [Complete now pending out]\<rparr>))"

definition CallLost :: "cookie \<Rightarrow> recorder \<Rightarrow> recorder res" where
  "CallLost i r =
     (case om_find (running_calls r) i of
        None \<Rightarrow> Inl (Undefined ''end iterator'')
      | Some pending \<Rightarrow>
          Inr (r\<lparr>running_calls := om_erase i (running_calls r),
                 finalized_calls := finalized_calls r @ [Lost pending]\<rparr>))"

definition RemoveCall :: "cookie \<Rightarrow> recorder \<Rightarrow> recorder" where
  "RemoveCall i r = r\<lparr>running_calls := om_erase i (running_calls r)\<rparr>"

definition NumCompletedCalls :: "recorder \<Rightarrow> nat" where
  "NumCompletedCalls r = fold (\<lambda>c n. if IsCompleted c then Suc n else n) (finalized_calls r) 0"

definition Recorder_Finalize :: "recorder \<Rightarrow> recorder" where
  "Recorder_Finalize r =
     r\<lparr>finalized_calls := finalized_calls r @ map (\<lambda>e. Lost (snd e)) (running_calls r)\<rparr>"

definition GetHistory :: "recorder \<Rightarrow> history" where
  "GetHistory r = finalized_calls r"

text \<open>\<open>HistoryChannel::Call\<close> before and after the call of the wrapped channel.\<close>

datatype rpc_error = TransportError | ExecutionError | OtherError string

definition MaybeCompleted :: "rpc_error \<Rightarrow> bool" where
  "MaybeCompleted e \<longleftrightarrow> e = TransportError \<or> e = ExecutionError"

definition HistoryChannel_Call ::
    "time_point \<Rightarrow> string \<Rightarrow> bytes \<Rightarrow> string \<Rightarrow> recorder \<Rightarrow> (cookie \<times> recorder) res" where
  "HistoryChannel_Call now meth input trace_id r =
     (let (i, r') = CallStarted now meth input r in
      if trace_id \<noteq> [] then res_bind (AddLabel i trace_id r') (\<lambda>r''. Inr (i, r''))
      else Inr (i, r'))"

definition RecordCallResult ::
    "time_point \<Rightarrow> cookie \<Rightarrow> rpc_error + bytes \<Rightarrow> recorder \<Rightarrow> recorder res" where
  "RecordCallResult now i res r =
     (case res of
        Inr out \<Rightarrow> CallCompleted now i out r
      | Inl e \<Rightarrow> if MaybeCompleted e then CallLost i r else Inr (RemoveCall i r))"

lemmas recorder_defs [state_simps] = HistoryRecorder_def CallStarted_def AddLabel_def
  CallCompleted_def CallLost_def RemoveCall_def Recorder_Finalize_def GetHistory_def

section \<open>A run of the recorder\<close>

text \<open>The calls of the recorder's interface, each with the time it happens at.\<close>

datatype rec_event =
    Started string bytes
  | Labelled cookie string
  | Completed cookie bytes
  | WasLost cookie
  | Removed cookie

fun recorder_step :: "time_point \<times> rec_event \<Rightarrow> recorder \<Rightarrow> recorder res" where
  "recorder_step (now, Started m a) r = Inr (snd (CallStarted now m a r))"
| "recorder_step (now, Labelled i l) r = AddLabel i l r"
| "recorder_step (now, Completed i out) r = CallCompleted now i out r"
| "recorder_step (now, WasLost i) r = CallLost i r"
| "recorder_step (now, Removed i) r = Inr (RemoveCall i r)"

definition recorder_run :: "(time_point \<times> rec_event) list \<Rightarrow> recorder \<Rightarrow> recorder res" where
  "recorder_run = res_fold recorder_step"

section \<open>Specification: the journal\<close>

record entry =
  e_call :: call
  e_open :: bool
  e_removed :: bool

definition is_open :: "cookie \<Rightarrow> entry list \<Rightarrow> bool" where
  "is_open i J \<longleftrightarrow> 0 < i \<and> i \<le> length J \<and> e_open (J ! (i - 1))"

text \<open>The events that name a call apply to an open call only; removing twice is harmless.\<close>

definition change :: "cookie \<Rightarrow> (entry \<Rightarrow> entry) \<Rightarrow> entry list \<Rightarrow> entry list option" where
  "change i f J = (if is_open i J then Some (J[i - 1 := f (J ! (i - 1))]) else None)"

fun journal_step :: "time_point \<times> rec_event \<Rightarrow> entry list \<Rightarrow> entry list option" where
  "journal_step (now, Started m a) J = Some (J @ [\<lparr>e_call = \<lparr>call_method = m, arguments = a, result = None,
      start_time = now, end_time = None, labels = []\<rparr>, e_open = True, e_removed = False\<rparr>])"
| "journal_step (now, Labelled i l) J =
     change i (\<lambda>e. e\<lparr>e_call := (e_call e)\<lparr>labels := labels (e_call e) @ [l]\<rparr>\<rparr>) J"
| "journal_step (now, Completed i out) J =
     change i (\<lambda>e. e\<lparr>e_call := (e_call e)\<lparr>result := Some out, end_time := Some now\<rparr>, e_open := False\<rparr>) J"
| "journal_step (now, WasLost i) J = change i (\<lambda>e. e\<lparr>e_open := False\<rparr>) J"
| "journal_step (now, Removed i) J =
     (if is_open i J then change i (\<lambda>e. e\<lparr>e_open := False, e_removed := True\<rparr>) J else Some J)"

fun journal :: "(time_point \<times> rec_event) list \<Rightarrow> entry list \<Rightarrow> entry list option" where
  "journal [] J = Some J"
| "journal (e # es) J = (case journal_step e J of None \<Rightarrow> None | Some J' \<Rightarrow> journal es J')"

definition journal_history :: "entry list \<Rightarrow> history" where
  "journal_history J = map e_call (filter (\<lambda>e. \<not> e_removed e) J)"

section \<open>The recorder refines the journal\<close>

definition as_running :: "call \<Rightarrow> running_call" where
  "as_running c = \<lparr>run_method = call_method c, run_arguments = arguments c,
     run_start_time = start_time c, run_labels = labels c\<rparr>"

definition opens :: "entry list \<Rightarrow> (cookie, running_call) omap" where
  "opens J = map (\<lambda>k. (Suc k, as_running (e_call (J ! k)))) (filter (\<lambda>k. e_open (J ! k)) [0..<length J])"

definition open_ok :: "entry \<Rightarrow> bool" where
  "open_ok e \<longleftrightarrow> (e_open e \<longrightarrow> \<not> e_removed e \<and> result (e_call e) = None \<and> end_time (e_call e) = None)"

definition represents :: "recorder \<Rightarrow> entry list \<Rightarrow> bool" where
  "represents r J \<longleftrightarrow> next_id r = length J \<and> running_calls r = opens J \<and>
     mset (finalized_calls r) =
       mset (map e_call (filter (\<lambda>e. \<not> e_open e \<and> \<not> e_removed e) J)) \<and>
     (\<forall>e \<in> set J. open_ok e)"

lemma om_ok_opens [simp]: "om_ok (opens J)"
  by (auto simp: om_ok_def opens_def sorted_wrt_map o_def intro!: sorted_wrt_filter)

lemma om_find_map_Suc:
  "om_find (map (\<lambda>k. (Suc k, f k)) ks) i = (if 0 < i \<and> i - 1 \<in> set ks then Some (f (i - 1)) else None)"
  by (induction ks) auto

lemma om_find_opens:
  "om_find (opens J) i =
     (if 0 < i \<and> i \<le> length J \<and> e_open (J ! (i - 1)) then Some (as_running (e_call (J ! (i - 1))))
      else None)"
  by (auto simp: opens_def om_find_map_Suc)

lemma om_find_opens_is_open:
  "om_find (opens J) i = (if is_open i J then Some (as_running (e_call (J ! (i - 1)))) else None)"
  by (simp add: om_find_opens is_open_def)

lemma opens_Nil [simp]: "opens [] = []"
  by (simp add: opens_def)

lemma opens_snoc:
  "opens (J @ [e]) = opens J @ (if e_open e then [(Suc (length J), as_running (e_call e))] else [])"
proof -
  have "filter (\<lambda>k. e_open ((J @ [e]) ! k)) [0..<length J] = filter (\<lambda>k. e_open (J ! k)) [0..<length J]"
    by (intro filter_cong) (auto simp: nth_append)
  moreover have "map (\<lambda>k. (Suc k, as_running (e_call ((J @ [e]) ! k))))
      (filter (\<lambda>k. e_open (J ! k)) [0..<length J]) = opens J"
    unfolding opens_def by (intro map_cong) (auto simp: nth_append)
  ultimately show ?thesis by (simp add: opens_def)
qed

lemma om_keys_opens: "om_keys (opens J) \<subseteq> {1..length J}"
  by (auto simp: opens_def)

lemma om_erase_Nil [simp]: "om_erase k [] = []"
  by (simp add: om_erase_def)

lemma om_erase_append: "om_erase k (m @ m') = om_erase k m @ om_erase k m'"
  by (simp add: om_erase_def)

lemma om_erase_fresh: "k \<notin> om_keys m \<Longrightarrow> om_erase k m = m"
  by (force simp: om_erase_def intro: filter_True)

lemma opens_close:
  "k < length J \<Longrightarrow> \<not> e_open e \<Longrightarrow> opens (J[k := e]) = om_erase (Suc k) (opens J)"
proof (induction J rule: rev_induct)
  case (snoc x J)
  have fresh: "Suc (length J) \<notin> om_keys (opens J)" using om_keys_opens [of J] by auto
  show ?case
  proof (cases "k < length J")
    case True
    with snoc show ?thesis
      by (auto simp: opens_snoc list_update_append1 om_erase_append) (auto simp: om_erase_def)
  next
    case False
    with snoc.prems have "k = length J" by simp
    with snoc.prems show ?thesis
      by (simp add: opens_snoc om_erase_append om_erase_fresh [OF fresh]) (simp add: om_erase_def)
  qed
qed simp

lemma om_assign_append:
  "k \<in> om_keys m \<Longrightarrow> om_ok (m @ m') \<Longrightarrow> om_assign k v (m @ m') = om_assign k v m @ m'"
  by (induction m) (auto simp: om_ok_Cons)

lemma om_assign_snoc:
  "\<forall>i \<in> om_keys m. i < k \<Longrightarrow> om_assign k v (m @ [(k, w)]) = m @ [(k, v)]"
  by (induction m) auto

lemma opens_relabel:
  "k < length J \<Longrightarrow> e_open (J ! k) \<Longrightarrow> e_open e \<Longrightarrow>
   opens (J[k := e]) = om_assign (Suc k) (as_running (e_call e)) (opens J)"
proof (induction J rule: rev_induct)
  case (snoc x J)
  have le: "\<forall>i \<in> om_keys (opens J). i < Suc (length J)" using om_keys_opens [of J] by force
  show ?case
  proof (cases "k < length J")
    case True
    then have "om_find (opens J) (Suc k) \<noteq> None"
      using snoc.prems by (simp add: om_find_opens nth_append)
    then have "Suc k \<in> om_keys (opens J)" by (auto simp: om_find_None)
    then have "om_assign (Suc k) v (opens (J @ [x])) =
        om_assign (Suc k) v (opens J) @ drop (length (opens J)) (opens (J @ [x]))" for v
      using om_assign_append om_ok_opens [of "J @ [x]"] unfolding opens_snoc by (metis append_eq_conv_conj)
    with True snoc show ?thesis
      by (simp add: opens_snoc list_update_append1 nth_append)
  next
    case False
    with snoc.prems have k: "k = length J" by simp
    with le snoc.prems show ?thesis by (simp add: opens_snoc om_assign_snoc)
  qed
qed simp

lemma closed_update:
  "k < length J \<Longrightarrow> \<not> P (J ! k) \<Longrightarrow>
   image_mset f (filter_mset P (mset (J[k := e]))) =
     image_mset f (filter_mset P (mset J)) + (if P e then {#f e#} else {#})"
proof -
  assume k: "k < length J" and P: "\<not> P (J ! k)"
  let ?M = "\<lambda>J. image_mset f (filter_mset P (mset J))"
  have "?M (J[k := e]) = ?M (take k J) + ?M [e] + ?M (drop (Suc k) J)"
    using k by (simp add: upd_conv_take_nth_drop)
  moreover have "?M J = ?M (take k J) + ?M (drop (Suc k) J)"
    by (subst id_take_nth_drop [OF k]) (use P in simp)
  ultimately show ?thesis by simp
qed

lemma Complete_as_running:
  "Complete now (as_running c) out = c\<lparr>result := Some out, end_time := Some now\<rparr>"
  by (simp add: Complete_def as_running_def)

lemma Lost_as_running: "result c = None \<Longrightarrow> end_time c = None \<Longrightarrow> Lost (as_running c) = c"
  by (simp add: Lost_def as_running_def)

lemma represents_empty: "represents HistoryRecorder []"
  by (simp add: represents_def HistoryRecorder_def)

lemma set_update_ok: "\<forall>e \<in> set J. Q e \<Longrightarrow> Q e' \<Longrightarrow> \<forall>e \<in> set (J[k := e']). Q e"
  using set_update_subset_insert [of J k e'] by blast

text \<open>Closing an open entry is erasing the running call and recording what becomes of it.\<close>

lemma represents_close:
  assumes rep: "represents r J" and i: "is_open i J" and e: "\<not> e_open e"
  shows "represents (r\<lparr>running_calls := om_erase i (running_calls r),
      finalized_calls := finalized_calls r @ (if e_removed e then [] else [e_call e])\<rparr>) (J[i - 1 := e])"
proof -
  have k: "i - 1 < length J" "e_open (J ! (i - 1))" "Suc (i - 1) = i"
    using i by (auto simp: is_open_def)
  have "opens (J[i - 1 := e]) = om_erase i (opens J)"
    using opens_close [OF k(1) e] k(3) by simp
  moreover have "\<forall>x \<in> set (J[i - 1 := e]). open_ok x"
    using rep e by (intro set_update_ok) (auto simp: represents_def open_ok_def)
  ultimately show ?thesis
    using rep k(1,2) e by (auto simp: represents_def closed_update)
qed

lemma represents_label:
  assumes rep: "represents r J" and i: "is_open i J"
    and e: "e = (J ! (i - 1))\<lparr>e_call := (e_call (J ! (i - 1)))\<lparr>labels := labels (e_call (J ! (i - 1))) @ [l]\<rparr>\<rparr>"
  shows "represents (r\<lparr>running_calls := om_assign i (as_running (e_call e)) (running_calls r)\<rparr>) (J[i - 1 := e])"
proof -
  have ok: "open_ok (J ! (i - 1))" "result (e_call (J ! (i - 1))) = None"
    "end_time (e_call (J ! (i - 1))) = None" "\<not> e_removed (J ! (i - 1))" "i - 1 < length J"
    "e_open (J ! (i - 1))" "Suc (i - 1) = i"
    using rep i by (auto simp: represents_def is_open_def open_ok_def)
  have "opens (J[i - 1 := e]) = om_assign i (as_running (e_call e)) (opens J)"
    using opens_relabel [of "i - 1" J e] ok e by simp
  moreover have "\<forall>x \<in> set (J[i - 1 := e]). open_ok x"
    using rep ok e by (intro set_update_ok) (auto simp: represents_def open_ok_def)
  ultimately show ?thesis using rep ok e by (auto simp: represents_def closed_update)
qed

lemma represents_step:
  assumes rep: "represents r J"
  shows "case journal_step te J of
      None \<Rightarrow> \<exists>e. recorder_step te r = Inl e
    | Some J' \<Rightarrow> \<exists>r'. recorder_step te r = Inr r' \<and> represents r' J'"
proof -
  obtain now ev where te: "te = (now, ev)" by (cases te)
  have find: "om_find (running_calls r) i =
      (if is_open i J then Some (as_running (e_call (J ! (i - 1)))) else None)" for i
    using rep by (simp add: represents_def om_find_opens_is_open)
  have ok: "open_ok (J ! (i - 1))" "result (e_call (J ! (i - 1))) = None"
      "end_time (e_call (J ! (i - 1))) = None" "\<not> e_removed (J ! (i - 1))" "i - 1 < length J"
      "e_open (J ! (i - 1))" "Suc (i - 1) = i" if "is_open i J" for i
    using rep that by (auto simp: represents_def is_open_def open_ok_def)
  show ?thesis
  proof (cases ev)
    case (Started m a)
    have "\<forall>k \<in> om_keys (opens J). k < Suc (length J)" using om_keys_opens [of J] by force
    then show ?thesis
      using rep unfolding te Started
      by (simp add: represents_def CallStarted_def opens_snoc om_emplace_last as_running_def open_ok_def)
  next
    case (Labelled i l)
    let ?e = "(J ! (i - 1))\<lparr>e_call := (e_call (J ! (i - 1)))\<lparr>labels := labels (e_call (J ! (i - 1))) @ [l]\<rparr>\<rparr>"
    have "represents (r\<lparr>running_calls := om_assign i (as_running (e_call ?e)) (running_calls r)\<rparr>)
        (J[i - 1 := ?e])" if "is_open i J" by (rule represents_label [OF rep that refl])
    then show ?thesis unfolding te Labelled by (auto simp: AddLabel_def find change_def as_running_def)
  next
    case (Completed i out)
    show ?thesis
    proof (cases "is_open i J")
      case True
      show ?thesis
        using represents_close [OF rep True, of "(J ! (i - 1))\<lparr>e_call := (e_call (J ! (i - 1)))\<lparr>result := Some out, end_time := Some now\<rparr>, e_open := False\<rparr>"] ok [OF True]
        by (simp add: te Completed CallCompleted_def find True change_def Complete_as_running)
    qed (simp add: te Completed CallCompleted_def find change_def)
  next
    case (WasLost i)
    show ?thesis
    proof (cases "is_open i J")
      case True
      show ?thesis
        using represents_close [OF rep True, of "(J ! (i - 1))\<lparr>e_open := False\<rparr>"] ok [OF True]
        by (simp add: te WasLost CallLost_def find True change_def Lost_as_running)
    qed (simp add: te WasLost CallLost_def find change_def)
  next
    case (Removed i)
    have "om_erase i (running_calls r) = running_calls r" if "\<not> is_open i J"
      using find [of i] that by (intro om_erase_fresh) (simp add: om_find_None)
    then show ?thesis
      using rep represents_close [OF rep, of i "(J ! (i - 1))\<lparr>e_open := False, e_removed := True\<rparr>"]
      by (cases "is_open i J") (simp_all add: te Removed RemoveCall_def change_def)
  qed
qed

section \<open>The history\<close>

lemma represents_journal:
  "represents r J \<Longrightarrow>
   case journal es J of
     None \<Rightarrow> \<exists>e. recorder_run es r = Inl e
   | Some J' \<Rightarrow> \<exists>r'. recorder_run es r = Inr r' \<and> represents r' J'"
proof (induction es arbitrary: r J)
  case Nil
  then show ?case by (simp add: recorder_run_def)
next
  case (Cons te es)
  note step = represents_step [OF Cons.prems, of te]
  show ?case
  proof (cases "journal_step te J")
    case None
    with step show ?thesis by (auto simp: recorder_run_def)
  next
    case (Some J')
    with step obtain r' where "recorder_step te r = Inr r'" and "represents r' J'" by auto
    with Some Cons.IH [of r' J'] show ?thesis by (simp add: recorder_run_def split: option.splits)
  qed
qed

lemma opens_lost:
  "\<forall>e \<in> set J. open_ok e \<Longrightarrow> map (\<lambda>p. Lost (snd p)) (opens J) = map e_call (filter e_open J)"
  by (induction J rule: rev_induct) (auto simp: opens_snoc open_ok_def Lost_as_running)

lemma represents_history:
  assumes "represents r J"
  shows "mset (GetHistory (Recorder_Finalize r)) = mset (journal_history J)"
proof -
  have "\<forall>e \<in> set J. open_ok e" using assms by (simp add: represents_def)
  then have "filter_mset (\<lambda>e. \<not> e_open e \<and> \<not> e_removed e) (mset J) + filter_mset e_open (mset J) =
      filter_mset (\<lambda>e. \<not> e_removed e) (mset J)"
    by (induction J) (auto simp: open_ok_def)
  with assms show ?thesis
    by (simp add: represents_def GetHistory_def Recorder_Finalize_def opens_lost journal_history_def
        flip: image_mset_union)
qed

lemma NumCompletedCalls_eq: "NumCompletedCalls r = length (filter IsCompleted (finalized_calls r))"
proof -
  have "fold (\<lambda>c n. if IsCompleted c then Suc n else n) cs n = n + length (filter IsCompleted cs)" for cs n
    by (induction cs arbitrary: n) auto
  then show ?thesis by (simp add: NumCompletedCalls_def)
qed

text \<open>Time only moves forward, so every call of the history that ends does so after its start.\<close>

definition entry_timely :: "time_point \<Rightarrow> entry \<Rightarrow> bool" where
  "entry_timely now e \<longleftrightarrow> start_time (e_call e) \<le> now \<and> proper_call (e_call e)"

lemma entry_timely_step:
  assumes "journal_step (now, ev) J = Some J'" and "\<forall>e \<in> set J. entry_timely t e" and "t \<le> now"
  shows "\<forall>e \<in> set J'. entry_timely now e"
proof -
  have J: "\<forall>e \<in> set J. entry_timely now e" using assms(2,3) by (auto simp: entry_timely_def)
  have upd: "\<forall>e \<in> set J'. entry_timely now e"
    if "change i f J = Some J'" and "\<And>e. entry_timely now e \<Longrightarrow> entry_timely now (f e)" for i f
    using that J by (auto simp: change_def is_open_def split: if_splits dest!: set_update_subset_insert [THEN subsetD])
  show ?thesis
  proof (cases ev)
    case (Removed i)
    then show ?thesis using assms(1) J upd by (auto simp: entry_timely_def split: if_splits)
  qed (use assms(1) J upd in \<open>auto simp: entry_timely_def proper_call_def split: option.splits\<close>)
qed

lemma entry_timely_journal:
  "journal es J = Some J' \<Longrightarrow> sorted (t # map fst es) \<Longrightarrow> \<forall>e \<in> set J. entry_timely t e \<Longrightarrow>
   \<forall>e \<in> set J'. proper_call (e_call e)"
proof (induction es arbitrary: J t)
  case Nil
  then show ?case by (auto simp: entry_timely_def)
next
  case (Cons te es)
  obtain now ev where te: "te = (now, ev)" by (cases te)
  from Cons.prems(1) obtain K where K: "journal_step te J = Some K" "journal es K = Some J'"
    by (auto split: option.splits)
  have "\<forall>e \<in> set K. entry_timely now e"
    using entry_timely_step K(1) Cons.prems(2,3) unfolding te by (metis fst_conv list.set_intros(1) list.simps(9) sorted_simps(2))
  moreover have "sorted (now # map fst es)" using Cons.prems(2) by (simp add: te)
  ultimately show ?case using Cons.IH [OF K(2)] by blast
qed

text \<open>C16. The recorder aborts exactly when an event names a call that is not open. Otherwise the
  history it hands to the checker consists of exactly the started calls of the journal that were not
  removed, each with the outcome recorded for it, and with the calls still running at the end of the
  simulation as lost ones.\<close>

theorem recorder_history:
  "case journal es [] of
     None \<Rightarrow> \<exists>e. recorder_run es HistoryRecorder = Inl e
   | Some J \<Rightarrow> \<exists>r. recorder_run es HistoryRecorder = Inr r \<and>
       mset (GetHistory (Recorder_Finalize r)) = mset (journal_history J)"
  using represents_journal [OF represents_empty, of es] represents_history
  by (fastforce split: option.splits)

lemma recorder_run_proper:
  assumes "recorder_run es HistoryRecorder = Inr r" and "sorted (map fst es)"
  shows "\<forall>c \<in> set (GetHistory (Recorder_Finalize r)). proper_call c"
proof -
  obtain J where J: "journal es [] = Some J" and rep: "represents r J"
    using represents_journal [OF represents_empty, of es] assms(1) by (auto split: option.splits)
  have "sorted (0 # map fst es)" using assms(2) by simp
  then have "\<forall>e \<in> set J. proper_call (e_call e)" by (rule entry_timely_journal [OF J]) simp
  moreover have "set (GetHistory (Recorder_Finalize r)) = set (journal_history J)"
    using represents_history [OF rep] by (metis set_mset_mset)
  ultimately show ?thesis by (auto simp: journal_history_def)
qed

text \<open>If the events arrive in the order of time, every completed call of the recorded history ends
  no earlier than it starts, which is what the real-time order of the checker needs to be an order.\<close>

theorem recorder_proper:
  assumes "recorder_run es HistoryRecorder = Inr r" and "sorted (map fst es)"
  shows "\<forall>c \<in> set (GetHistory (Recorder_Finalize r)). proper_call c"
  by (rule recorder_run_proper [OF assms])

definition sample_run :: "(time_point \<times> rec_event) list" where
  "sample_run = [(1, Started ''Set'' ''k''), (2, Started ''Get'' ''k''), (4, Completed 2 ''v''),
     (5, Labelled 1 ''slow''), (6, Started ''Get'' ''k''), (7, Removed 3)]"

lemma recorder_proper_witness:
  "\<exists>r. recorder_run sample_run HistoryRecorder = Inr r \<and>
     length (GetHistory (Recorder_Finalize r)) = 2 \<and>
     (\<forall>c \<in> set (GetHistory (Recorder_Finalize r)). proper_call c)"
proof -
  have "\<exists>r. recorder_run sample_run HistoryRecorder = Inr r \<and>
      length (GetHistory (Recorder_Finalize r)) = 2"
    by (simp add: sample_run_def recorder_run_def recorder_defs om_emplace_def om_erase_def)
  moreover have "sorted (map fst sample_run)" by (simp add: sample_run_def)
  ultimately show ?thesis using recorder_proper by blast
qed

end
