(* ===== verification/Priority_Queue.thy ===== *)
theory Priority_Queue
  imports Prelude
begin

text \<open>
  \<open>helpers/priority_queue.hpp\<close>: the priority queue every event source of the simulator uses (tasks
  of a server, frames of a link, events of the network). It wraps \<open>std::priority_queue\<close> and adds an
  insertion stamp to break ties, so that extraction order does not depend on the heap of the
  standard library. The locale \<open>stable_queue\<close> is the contract its clients rely on: the queue is
  the list of its elements in insertion order, and extraction takes the first of the smallest.
  The theorem of the library is that draining a queue yields the stable sort of what was inserted.
\<close>

section \<open>The code\<close>

record 'a unique_t =
  item :: 'a
  tie_braker :: nat

record 'a pqueue =
  items :: "'a unique_t list"
  inserts :: nat

definition PQ_Equal :: "('a \<Rightarrow> 'a \<Rightarrow> bool) \<Rightarrow> 'a \<Rightarrow> 'a \<Rightarrow> bool" where
  "PQ_Equal lt lhs rhs \<longleftrightarrow> \<not> lt lhs rhs \<and> \<not> lt rhs lhs"

definition UniqueT_less :: "('a \<Rightarrow> 'a \<Rightarrow> bool) \<Rightarrow> 'a unique_t \<Rightarrow> 'a unique_t \<Rightarrow> bool" where
  "UniqueT_less lt this that \<longleftrightarrow>
     lt (item this) (item that) \<or>
     (PQ_Equal lt (item this) (item that) \<and> tie_braker this < tie_braker that)"

definition PriorityLess :: "('a \<Rightarrow> 'a \<Rightarrow> bool) \<Rightarrow> 'a unique_t \<Rightarrow> 'a unique_t \<Rightarrow> bool" where
  "PriorityLess lt lhs rhs \<longleftrightarrow> UniqueT_less lt rhs lhs"

text \<open>\<open>std::priority_queue::top\<close>: an element that no other exceeds under the comparator; on an
  empty queue the call is undefined (\<open>None\<close>).\<close>

fun std_top :: "('b \<Rightarrow> 'b \<Rightarrow> bool) \<Rightarrow> 'b list \<Rightarrow> 'b option" where
  "std_top cmp [] = None"
| "std_top cmp (x # xs) =
     (case std_top cmp xs of
        None \<Rightarrow> Some x
      | Some y \<Rightarrow> Some (if cmp x y then y else x))"

definition PQ_empty :: "'a pqueue" where
  "PQ_empty = \<lparr>items = [], inserts = 0\<rparr>"

definition PQ_Clear :: "'a pqueue \<Rightarrow> 'a pqueue" where
  "PQ_Clear q = q\<lparr>items := []\<rparr>"

definition PQ_IsEmpty :: "'a pqueue \<Rightarrow> bool" where
  "PQ_IsEmpty q \<longleftrightarrow> items q = []"

definition PQ_Smallest :: "('a \<Rightarrow> 'a \<Rightarrow> bool) \<Rightarrow> 'a pqueue \<Rightarrow> 'a option" where
  "PQ_Smallest lt q = map_option item (std_top (PriorityLess lt) (items q))"

definition PQ_Extract :: "('a \<Rightarrow> 'a \<Rightarrow> bool) \<Rightarrow> 'a pqueue \<Rightarrow> ('a \<times> 'a pqueue) option" where
  "PQ_Extract lt q =
     map_option (\<lambda>top. (item top, q\<lparr>items := remove1 top (items q)\<rparr>))
       (std_top (PriorityLess lt) (items q))"

definition PQ_MakeUnique :: "'a \<Rightarrow> 'a pqueue \<Rightarrow> 'a unique_t \<times> 'a pqueue" where
  "PQ_MakeUnique v q =
     (let n = Suc (inserts q) in (\<lparr>item = v, tie_braker = n\<rparr>, q\<lparr>inserts := n\<rparr>))"

definition PQ_Insert :: "'a \<Rightarrow> 'a pqueue \<Rightarrow> 'a pqueue" where
  "PQ_Insert v q = (let (u, q') = PQ_MakeUnique v q in q'\<lparr>items := items q' @ [u]\<rparr>)"

definition PQ_Size :: "'a pqueue \<Rightarrow> nat" where
  "PQ_Size q = length (items q)"

lemmas PQ_defs = PQ_empty_def PQ_Clear_def PQ_IsEmpty_def PQ_Smallest_def PQ_Extract_def
  PQ_MakeUnique_def PQ_Insert_def PQ_Size_def

section \<open>Selecting the first of the smallest elements of a list\<close>

fun pick_least :: "('a \<Rightarrow> 'k::linorder) \<Rightarrow> 'a list \<Rightarrow> ('a \<times> 'a list) option" where
  "pick_least key [] = None"
| "pick_least key (x # xs) =
     (case pick_least key xs of
        None \<Rightarrow> Some (x, [])
      | Some (m, r) \<Rightarrow> if key m < key x then Some (m, x # r) else Some (x, xs))"

lemma pick_least_None [simp]: "pick_least key xs = None \<longleftrightarrow> xs = []"
  by (cases xs) (auto split: option.splits prod.splits)

lemma pick_least_mset: "pick_least key xs = Some (m, r) \<Longrightarrow> mset xs = add_mset m (mset r)"
  by (induction xs arbitrary: m r) (auto split: option.splits prod.splits if_splits)

lemma pick_least_le: "pick_least key xs = Some (m, r) \<Longrightarrow> x \<in> set xs \<Longrightarrow> key m \<le> key x"
proof (induction xs arbitrary: m r x)
  case (Cons y ys)
  show ?case
  proof (cases "pick_least key ys")
    case None
    with Cons.prems show ?thesis by auto
  next
    case (Some p)
    obtain m' r' where p: "p = (m', r')" by (cases p)
    have "key m' \<le> key z" if "z \<in> set ys" for z
      using Cons.IH [OF Some [unfolded p] that] .
    with Cons.prems Some p show ?thesis by (fastforce split: if_splits)
  qed
qed simp

text \<open>Repeated selection is the stable sort.\<close>

lemma sort_key_pick_least:
  "pick_least key xs = Some (m, r) \<Longrightarrow> sort_key key xs = m # sort_key key r"
proof (induction xs arbitrary: m r)
  case (Cons x xs)
  show ?case
  proof (cases "pick_least key xs")
    case None
    with Cons.prems show ?thesis by auto
  next
    case (Some p)
    obtain m' r' where p: "p = (m', r')" by (cases p)
    with Some Cons.IH have "sort_key key xs = m' # sort_key key r'" by simp
    with Cons.prems Some p show ?thesis by (auto split: if_splits)
  qed
qed simp

lemma pick_least_length: "pick_least key xs = Some (m, r) \<Longrightarrow> length xs = Suc (length r)"
  by (drule pick_least_mset) (metis size_add_mset size_mset)

lemma pick_least_in: "pick_least key xs = Some (m, r) \<Longrightarrow> m \<in> set xs"
  by (drule pick_least_mset) (metis set_mset_mset union_single_eq_member)

text \<open>Selecting from left to right, as a loop that keeps the best element so far.\<close>

lemma pick_least_pair:
  "map_option fst (pick_least key (x # y # zs)) = map_option fst (pick_least key ((if key y < key x then y else x) # zs))"
  by (auto split: option.splits prod.splits)

section \<open>The contract\<close>

locale stable_queue =
  fixes empty_q :: "'q"
    and ins :: "'a \<Rightarrow> 'q \<Rightarrow> 'q"
    and smallest :: "'q \<Rightarrow> 'a option"
    and pull :: "'q \<Rightarrow> ('a \<times> 'q) option"
    and clear :: "'q \<Rightarrow> 'q"
    and elems :: "'q \<Rightarrow> 'a list"
    and inv :: "'q \<Rightarrow> bool"
    and key :: "'a \<Rightarrow> 'k::linorder"
  assumes elems_empty: "elems empty_q = []"
    and elems_ins: "elems (ins x q) = elems q @ [x]"
    and elems_clear: "elems (clear q) = []"
    and smallest_pick: "inv q \<Longrightarrow> smallest q = map_option fst (pick_least key (elems q))"
    and pull_pick:
      "inv q \<Longrightarrow> map_option (\<lambda>(x, q'). (x, elems q')) (pull q) = pick_least key (elems q)"
    and inv_empty: "inv empty_q"
    and inv_ins: "inv q \<Longrightarrow> inv (ins x q)"
    and inv_clear: "inv q \<Longrightarrow> inv (clear q)"
    and inv_pull: "inv q \<Longrightarrow> pull q = Some (x, q') \<Longrightarrow> inv q'"
begin

lemma pull_Some:
  "inv q \<Longrightarrow> pull q = Some (x, q') \<Longrightarrow> pick_least key (elems q) = Some (x, elems q')"
  using pull_pick [of q] by simp

lemma pull_None: "inv q \<Longrightarrow> pull q = None \<longleftrightarrow> elems q = []"
  using pull_pick [of q] by (metis map_option_is_None pick_least_None)

lemma smallest_None: "inv q \<Longrightarrow> smallest q = None \<longleftrightarrow> elems q = []"
  by (simp add: smallest_pick)

lemma smallest_pull: "inv q \<Longrightarrow> smallest q = map_option fst (pull q)"
  using pull_pick [of q] smallest_pick [of q]
  by (cases "pull q") (auto simp flip: pull_pick)

lemma smallest_le: "inv q \<Longrightarrow> smallest q = Some x \<Longrightarrow> y \<in> set (elems q) \<Longrightarrow> key x \<le> key y"
  by (auto simp: smallest_pick intro: pick_least_le)

lemma smallest_in: "inv q \<Longrightarrow> smallest q = Some x \<Longrightarrow> x \<in> set (elems q)"
  by (auto simp: smallest_pick intro: pick_least_in)

lemma pull_mset:
  "inv q \<Longrightarrow> pull q = Some (x, q') \<Longrightarrow> mset (elems q) = add_mset x (mset (elems q'))"
  by (blast dest: pull_Some pick_least_mset)

lemma pull_sort:
  "inv q \<Longrightarrow> pull q = Some (x, q') \<Longrightarrow>
   sort_key key (elems q) = x # sort_key key (elems q')"
  by (blast dest: pull_Some sort_key_pick_least)

lemma pull_length:
  "inv q \<Longrightarrow> pull q = Some (x, q') \<Longrightarrow> length (elems q) = Suc (length (elems q'))"
  by (blast dest: pull_Some pick_least_length)

text \<open>A step of a client that handles the smallest element never sees a smaller one later.\<close>

lemma pull_le:
  "inv q \<Longrightarrow> pull q = Some (x, q') \<Longrightarrow> y \<in> set (elems q') \<Longrightarrow> key x \<le> key y"
  by (metis pull_Some pull_mset in_multiset_in_set insert_iff pick_least_le
      set_mset_add_mset_insert set_mset_mset)

end

section \<open>The priority queue provides it, for every comparison by a key\<close>

definition PQ_elems :: "'a pqueue \<Rightarrow> 'a list" where
  "PQ_elems q = map item (items q)"

definition PQ_inv :: "'a pqueue \<Rightarrow> bool" where
  "PQ_inv q \<longleftrightarrow> sorted_wrt (<) (map tie_braker (items q)) \<and>
     (\<forall>u \<in> set (items q). tie_braker u \<le> inserts q)"

definition by_key :: "('a \<Rightarrow> 'k::linorder) \<Rightarrow> 'a \<Rightarrow> 'a \<Rightarrow> bool" where
  "by_key key x y \<longleftrightarrow> key x < key y"

lemma PQ_inv_empty [simp]: "PQ_inv PQ_empty"
  by (simp add: PQ_inv_def PQ_empty_def)

lemma PQ_inv_Clear [inv_rules]: "PQ_inv (PQ_Clear q)"
  by (simp add: PQ_inv_def PQ_Clear_def)

lemma PQ_inv_Insert [inv_rules]: "PQ_inv q \<Longrightarrow> PQ_inv (PQ_Insert x q)"
  by (fastforce simp: PQ_inv_def PQ_Insert_def PQ_MakeUnique_def sorted_wrt_append)

lemma PQ_elems_simps [simp]:
  "PQ_elems PQ_empty = []"
  "PQ_elems (PQ_Clear q) = []"
  "PQ_elems (PQ_Insert x q) = PQ_elems q @ [x]"
  by (simp_all add: PQ_elems_def PQ_defs)

lemma std_top_None [simp]: "std_top cmp xs = None \<longleftrightarrow> xs = []"
  by (cases xs) (auto split: option.splits)

lemma std_top_in: "std_top cmp xs = Some x \<Longrightarrow> x \<in> set xs"
  by (induction xs arbitrary: x) (auto split: option.splits if_splits)

text \<open>With ascending stamps, the top of the heap is the first of the smallest items.\<close>

lemma std_top_pick_least:
  "sorted_wrt (<) (map tie_braker xs) \<Longrightarrow>
   map_option (\<lambda>u. (item u, map item (remove1 u xs))) (std_top (PriorityLess (by_key key)) xs) =
   pick_least key (map item xs)"
proof (induction xs)
  case (Cons x xs)
  show ?case
  proof (cases "std_top (PriorityLess (by_key key)) xs")
    case None
    then show ?thesis by simp
  next
    case (Some y)
    then have y: "y \<in> set xs" by (rule std_top_in)
    then have lt: "tie_braker x < tie_braker y" and ne: "x \<noteq> y" using Cons.prems by auto
    have "pick_least key (map item xs) = Some (item y, map item (remove1 y xs))"
      using Cons.IH Cons.prems Some by auto
    moreover have "PriorityLess (by_key key) x y \<longleftrightarrow> key (item y) < key (item x)"
      using lt by (auto simp: PriorityLess_def UniqueT_less_def PQ_Equal_def by_key_def)
    ultimately show ?thesis using Some ne by simp
  qed
qed simp

lemma sorted_wrt_remove1: "sorted_wrt R xs \<Longrightarrow> sorted_wrt R (remove1 x xs)"
proof (induction xs)
  case (Cons y ys)
  then show ?case using set_remove1_subset [of x ys] by auto
qed simp

lemma sorted_wrt_map_remove1:
  "sorted_wrt R (map f xs) \<Longrightarrow> sorted_wrt R (map f (remove1 x xs))"
  using sorted_wrt_remove1 [of "\<lambda>a b. R (f a) (f b)" xs x] by (simp add: sorted_wrt_map)

lemma PQ_inv_Extract:
  "PQ_inv q \<Longrightarrow> PQ_Extract lt q = Some (x, q') \<Longrightarrow> PQ_inv q'"
  using set_remove1_subset
  by (fastforce simp: PQ_inv_def PQ_Extract_def sorted_wrt_map_remove1)

lemma PQ_Smallest_pick:
  "PQ_inv q \<Longrightarrow> PQ_Smallest (by_key key) q = map_option fst (pick_least key (PQ_elems q))"
  using std_top_pick_least [of "items q" key]
  by (auto simp: PQ_inv_def PQ_Smallest_def PQ_elems_def option.map_comp o_def
      simp flip: std_top_pick_least)

lemma PQ_Extract_pick:
  "PQ_inv q \<Longrightarrow> map_option (\<lambda>(x, q'). (x, PQ_elems q')) (PQ_Extract (by_key key) q) =
     pick_least key (PQ_elems q)"
  by (simp add: PQ_inv_def PQ_Extract_def PQ_elems_def option.map_comp o_def
      std_top_pick_least [symmetric])

interpretation pq: stable_queue PQ_empty PQ_Insert "PQ_Smallest (by_key key)"
  "PQ_Extract (by_key key)" PQ_Clear PQ_elems PQ_inv key for key :: "'a \<Rightarrow> 'k::linorder"
  by unfold_locales (auto simp: PQ_Smallest_pick PQ_Extract_pick intro: inv_rules PQ_inv_Extract)

lemma PQ_IsEmpty_elems: "PQ_IsEmpty q \<longleftrightarrow> PQ_elems q = []"
  by (simp add: PQ_IsEmpty_def PQ_elems_def)

lemma PQ_Size_elems: "PQ_Size q = length (PQ_elems q)"
  by (simp add: PQ_Size_def PQ_elems_def)

section \<open>Draining a queue\<close>

text \<open>Extract until the queue is empty, at most \<open>n\<close> times.\<close>

fun PQ_drain :: "nat \<Rightarrow> ('a \<Rightarrow> 'a \<Rightarrow> bool) \<Rightarrow> 'a pqueue \<Rightarrow> 'a list" where
  "PQ_drain 0 lt q = []"
| "PQ_drain (Suc n) lt q =
     (case PQ_Extract lt q of None \<Rightarrow> [] | Some (x, q') \<Rightarrow> x # PQ_drain n lt q')"

lemma PQ_drain_sort:
  "PQ_inv q \<Longrightarrow> PQ_Size q \<le> n \<Longrightarrow>
   PQ_drain n (by_key key) q = sort_key key (PQ_elems q)"
proof (induction n arbitrary: q)
  case 0
  then show ?case by (simp add: PQ_Size_elems)
next
  case (Suc n)
  show ?case
  proof (cases "PQ_Extract (by_key key) q")
    case None
    with Suc.prems(1) have "PQ_elems q = []" by (blast dest: pq.pull_None [THEN iffD1])
    with None show ?thesis by simp
  next
    case (Some p)
    then obtain x q' where x: "PQ_Extract (by_key key) q = Some (x, q')" by (cases p) auto
    have "PQ_Size q' \<le> n"
      using pq.pull_length [OF Suc.prems(1) x] Suc.prems(2) by (simp add: PQ_Size_elems)
    then have "PQ_drain n (by_key key) q' = sort_key key (PQ_elems q')"
      using Suc.IH PQ_inv_Extract [OF Suc.prems(1) x] by blast
    with x show ?thesis using pq.pull_sort [OF Suc.prems(1) x] by simp
  qed
qed

definition PQ_of :: "'a list \<Rightarrow> 'a pqueue" where
  "PQ_of xs = fold PQ_Insert xs PQ_empty"

lemma PQ_fold_Insert:
  "PQ_elems (fold PQ_Insert xs q) = PQ_elems q @ xs"
  "PQ_inv q \<Longrightarrow> PQ_inv (fold PQ_Insert xs q)"
  by (induction xs arbitrary: q) (auto intro: inv_rules)

lemma PQ_of_simps [simp]: "PQ_elems (PQ_of xs) = xs" "PQ_inv (PQ_of xs)"
  by (simp_all add: PQ_of_def PQ_fold_Insert)

end
