(* ===== verification/Scheduler.thy ===== *)
theory Scheduler
  imports Priority_Queue
begin

text \<open>
  \<open>process/scheduler.hpp\<close>: the run queue of a server. A task is scheduled at a time, the world
  runs the earliest one, and tasks of equal time run in the order they were scheduled. When a paused
  server resumes, overdue tasks are moved to the time of the resumption.
\<close>

section \<open>The code\<close>

record 't scheduled_task =
  at_time :: time_point
  task :: 't

type_synonym 't scheduler = "'t scheduled_task pqueue"

definition ScheduledTask_less :: "'t scheduled_task \<Rightarrow> 't scheduled_task \<Rightarrow> bool" where
  "ScheduledTask_less this that \<longleftrightarrow> at_time this < at_time that"

definition Scheduler_init :: "'t scheduler" where
  "Scheduler_init = PQ_empty"

definition ScheduleImpl :: "time_point \<Rightarrow> 't \<Rightarrow> 't scheduler \<Rightarrow> 't scheduler" where
  "ScheduleImpl at t q = PQ_Insert \<lparr>at_time = at, task = t\<rparr> q"

definition Scheduler_Schedule :: "time_point \<Rightarrow> 't \<Rightarrow> 't scheduler \<Rightarrow> 't scheduler" where
  "Scheduler_Schedule at t q = ScheduleImpl at t q"

definition Scheduler_ScheduleAsap :: "time_point \<Rightarrow> 't \<Rightarrow> 't scheduler \<Rightarrow> 't scheduler" where
  "Scheduler_ScheduleAsap now t q = (let asap = now in ScheduleImpl asap t q)"

definition Scheduler_IsEmpty :: "'t scheduler \<Rightarrow> bool" where
  "Scheduler_IsEmpty q = PQ_IsEmpty q"

definition Scheduler_QueueSize :: "'t scheduler \<Rightarrow> nat" where
  "Scheduler_QueueSize q = PQ_Size q"

definition Scheduler_NextTaskTime :: "'t scheduler \<Rightarrow> time_point option" where
  "Scheduler_NextTaskTime q = map_option at_time (PQ_Smallest ScheduledTask_less q)"

definition Scheduler_TakeNext :: "'t scheduler \<Rightarrow> ('t \<times> 't scheduler) option" where
  "Scheduler_TakeNext q = map_option (\<lambda>(s, q'). (task s, q')) (PQ_Extract ScheduledTask_less q)"

definition Scheduler_Reset :: "'t scheduler \<Rightarrow> 't scheduler" where
  "Scheduler_Reset q = PQ_Clear q"

text \<open>The loop of \<open>Resume\<close>: it ends because each turn replaces a task before \<open>at\<close> by one at \<open>at\<close>.\<close>

lemma Extract_of_Smallest:
  "PQ_Smallest lt q = Some x \<Longrightarrow> \<exists>u. u \<in> set (items q) \<and> item u = x \<and>
     PQ_Extract lt q = Some (x, q\<lparr>items := remove1 u (items q)\<rparr>)"
  by (auto simp: PQ_Smallest_def PQ_Extract_def dest: std_top_in)

lemma length_filter_remove1:
  "x \<in> set xs \<Longrightarrow> P x \<Longrightarrow> length (filter P (remove1 x xs)) < length (filter P xs)"
  by (induction xs) auto

function Scheduler_Resume :: "time_point \<Rightarrow> 't scheduler \<Rightarrow> 't scheduler" where
  "Scheduler_Resume at q =
     (case PQ_Smallest ScheduledTask_less q of
        None \<Rightarrow> q
      | Some s \<Rightarrow>
          if at_time s < at then
            (case PQ_Extract ScheduledTask_less q of
               None \<Rightarrow> q
             | Some (nxt, q') \<Rightarrow>
                 Scheduler_Resume at (PQ_Insert \<lparr>at_time = at, task = task nxt\<rparr> q'))
          else q)"
  by pat_completeness auto
termination
proof (relation "measure (\<lambda>(at, q). length (filter (\<lambda>u. at_time (item u) < at) (items q)))",
    goal_cases)
  case 1
  show ?case by simp
next
  case (2 at q s p nxt q')
  obtain u where u: "u \<in> set (items q)" "item u = s"
      "PQ_Extract ScheduledTask_less q = Some (s, q\<lparr>items := remove1 u (items q)\<rparr>)"
    using Extract_of_Smallest [OF 2(1)] by blast
  with 2 show ?case
    by (auto simp: PQ_Insert_def PQ_MakeUnique_def length_filter_remove1)
qed

declare Scheduler_Resume.simps [simp del]

lemmas Scheduler_defs = Scheduler_init_def ScheduleImpl_def Scheduler_Schedule_def
  Scheduler_ScheduleAsap_def Scheduler_IsEmpty_def Scheduler_QueueSize_def
  Scheduler_NextTaskTime_def Scheduler_TakeNext_def Scheduler_Reset_def

section \<open>Correctness\<close>

lemma ScheduledTask_less_key: "ScheduledTask_less = by_key at_time"
  by (intro ext) (simp add: ScheduledTask_less_def by_key_def)

lemma sched_rules:
  assumes "PQ_inv q"
  shows "PQ_Extract ScheduledTask_less q = Some (x, q') \<Longrightarrow>
      pick_least at_time (PQ_elems q) = Some (x, PQ_elems q')"
    and "PQ_Extract ScheduledTask_less q = None \<longleftrightarrow> PQ_elems q = []"
    and "PQ_Smallest ScheduledTask_less q = map_option fst (pick_least at_time (PQ_elems q))"
  using assms unfolding ScheduledTask_less_key
  by (simp_all add: pq.pull_Some pq.pull_None pq.smallest_pick)

text \<open>The tasks that are not overdue keep their place, and the overdue ones follow them in the
  order they would have run, all at time \<open>at\<close>.\<close>

definition resumed :: "time_point \<Rightarrow> 't scheduled_task list \<Rightarrow> 't scheduled_task list" where
  "resumed at xs = filter (\<lambda>s. at \<le> at_time s) xs @
     map (\<lambda>s. s\<lparr>at_time := at\<rparr>) (sort_key at_time (filter (\<lambda>s. at_time s < at) xs))"

lemma pick_least_filter:
  "pick_least key xs = Some (m, r) \<Longrightarrow> key m < c \<Longrightarrow>
   filter (\<lambda>x. c \<le> key x) xs = filter (\<lambda>x. c \<le> key x) r"
proof (induction xs arbitrary: m r)
  case (Cons x xs)
  then show ?case by (cases "pick_least key xs") (auto split: if_splits)
qed simp

lemma pick_least_head: "\<forall>y \<in> set ys. key x \<le> key y \<Longrightarrow> pick_least key (x # ys) = Some (x, ys)"
proof (cases "pick_least key ys")
  case (Some p)
  moreover assume "\<forall>y \<in> set ys. key x \<le> key y"
  ultimately have "\<not> key (fst p) < key x"
    using pick_least_in [of key ys "fst p" "snd p"] by (auto dest: leD)
  with Some show ?thesis by (auto split: prod.split)
qed simp

lemma pick_least_filter_less:
  "pick_least key xs = Some (m, r) \<Longrightarrow> key m < c \<Longrightarrow>
   pick_least key (filter (\<lambda>x. key x < c) xs) = Some (m, filter (\<lambda>x. key x < c) r)"
proof (induction xs arbitrary: m r)
  case (Cons x xs)
  show ?case
  proof (cases "\<exists>m' r'. pick_least key xs = Some (m', r') \<and> key m' < key x")
    case True
    with Cons show ?thesis by auto
  next
    case False
    then have m: "m = x" "r = xs" using Cons.prems(1) by (auto split: option.splits if_splits)
    have "\<forall>y \<in> set xs. key x \<le> key y" using pick_least_le [OF Cons.prems(1)] m by auto
    with m Cons.prems(2) show ?thesis by (simp add: pick_least_head del: pick_least.simps)
  qed
qed simp

lemma resumed_step:
  assumes "pick_least at_time xs = Some (m, r)" and "at_time m < at"
  shows "resumed at (r @ [m\<lparr>at_time := at\<rparr>]) = resumed at xs"
proof -
  have "sort_key at_time (filter (\<lambda>s. at_time s < at) xs) =
      m # sort_key at_time (filter (\<lambda>s. at_time s < at) r)"
    by (rule sort_key_pick_least) (rule pick_least_filter_less [OF assms])
  moreover have "filter (\<lambda>s. at \<le> at_time s) xs = filter (\<lambda>s. at \<le> at_time s) r"
    using assms by (rule pick_least_filter)
  ultimately show ?thesis by (simp add: resumed_def)
qed

lemma resumed_none:
  "\<forall>s \<in> set xs. at \<le> at_time s \<Longrightarrow> resumed at xs = xs"
  by (simp add: resumed_def filter_empty_conv not_less)

lemma task_eta: "\<lparr>at_time = at, task = task s\<rparr> = s\<lparr>at_time := at\<rparr>"
  for s :: "'t scheduled_task"
  by (cases s) simp

lemma Resume_correct:
  "PQ_inv q \<Longrightarrow> PQ_elems (Scheduler_Resume at q) = resumed at (PQ_elems q) \<and>
     PQ_inv (Scheduler_Resume at q)"
proof (induction at q rule: Scheduler_Resume.induct)
  case (1 at q)
  show ?case
  proof (cases "PQ_Smallest ScheduledTask_less q")
    case None
    then have "PQ_elems q = []" using sched_rules(3) [OF "1.prems"] by simp
    moreover have "Scheduler_Resume at q = q" 
      by (subst Scheduler_Resume.simps) (simp only: None option.case)
    ultimately show ?thesis using "1.prems" by (simp add: resumed_def)
  next
    case (Some s)
    then obtain q' where q': "PQ_Extract ScheduledTask_less q = Some (s, q')"
      using Extract_of_Smallest [OF Some] by auto
    note pick = sched_rules(1) [OF "1.prems" q']
    show ?thesis
    proof (cases "at_time s < at")
      case True
      have "PQ_inv (PQ_Insert \<lparr>at_time = at, task = task s\<rparr> q')"
        using PQ_inv_Extract [OF "1.prems" q'] by (rule PQ_inv_Insert)
      then have "PQ_elems (Scheduler_Resume at (PQ_Insert \<lparr>at_time = at, task = task s\<rparr> q')) =
            resumed at (PQ_elems q) \<and>
          PQ_inv (Scheduler_Resume at (PQ_Insert \<lparr>at_time = at, task = task s\<rparr> q'))"
        using "1.IH" [OF Some True q' refl] resumed_step [OF pick True] by (simp add: task_eta)
      moreover have "Scheduler_Resume at q =
          Scheduler_Resume at (PQ_Insert \<lparr>at_time = at, task = task s\<rparr> q')"
        by (subst Scheduler_Resume.simps) (simp only: Some True q' option.case prod.case if_True)
      ultimately show ?thesis by simp
    next
      case False
      then have "\<forall>x \<in> set (PQ_elems q). at \<le> at_time x"
        using pick_least_le [OF pick] by force
      moreover have "Scheduler_Resume at q = q"
        by (subst Scheduler_Resume.simps) (simp only: Some False option.case if_False)
      ultimately show ?thesis using "1.prems" by (simp add: resumed_none)
    qed
  qed
qed

lemma PQ_inv_Schedule [inv_rules]:
  "PQ_inv q \<Longrightarrow> PQ_inv (Scheduler_Schedule at t q)"
  "PQ_inv q \<Longrightarrow> PQ_inv (Scheduler_ScheduleAsap now t q)"
  "PQ_inv q \<Longrightarrow> PQ_inv (Scheduler_Reset q)"
  "PQ_inv q \<Longrightarrow> PQ_inv (Scheduler_Resume at q)"
  by (simp_all add: Scheduler_defs PQ_inv_Insert PQ_inv_Clear Resume_correct)

lemma PQ_inv_TakeNext: "PQ_inv q \<Longrightarrow> Scheduler_TakeNext q = Some (t, q') \<Longrightarrow> PQ_inv q'"
  by (auto simp: Scheduler_defs dest: PQ_inv_Extract)

lemma NextTaskTime_le:
  "PQ_inv q \<Longrightarrow> Scheduler_NextTaskTime q = Some n \<Longrightarrow> s \<in> set (PQ_elems q) \<Longrightarrow> n \<le> at_time s"
  by (auto simp: Scheduler_NextTaskTime_def ScheduledTask_less_key dest: pq.smallest_le)

lemma NextTaskTime_None: "PQ_inv q \<Longrightarrow> Scheduler_NextTaskTime q = None \<longleftrightarrow> Scheduler_IsEmpty q"
  by (simp add: Scheduler_defs ScheduledTask_less_key pq.smallest_None PQ_IsEmpty_elems)

section \<open>Properties\<close>

text \<open>The tasks that a sequence of \<open>TakeNext\<close> calls hands to the world.\<close>

fun run_order :: "nat \<Rightarrow> 't scheduler \<Rightarrow> 't list" where
  "run_order 0 q = []"
| "run_order (Suc n) q =
     (case Scheduler_TakeNext q of None \<Rightarrow> [] | Some (t, q') \<Rightarrow> t # run_order n q')"

lemma run_order_drain: "run_order n q = map task (PQ_drain n ScheduledTask_less q)"
  by (induction n arbitrary: q) (auto simp: Scheduler_TakeNext_def split: option.split)

lemma run_order_sort:
  "PQ_inv q \<Longrightarrow> Scheduler_QueueSize q \<le> n \<Longrightarrow>
   run_order n q = map task (sort_key at_time (PQ_elems q))"
  by (simp add: run_order_drain ScheduledTask_less_key PQ_drain_sort Scheduler_QueueSize_def)

lemma Resume_mset:
  "PQ_inv q \<Longrightarrow> mset (map task (PQ_elems (Scheduler_Resume at q))) = mset (map task (PQ_elems q))"
  by (simp add: Resume_correct resumed_def multiset.map_comp o_def not_le [symmetric]
      flip: image_mset_union)

definition schedule_all :: "(time_point \<times> 't) list \<Rightarrow> 't scheduler" where
  "schedule_all ts = fold (\<lambda>(at, t). Scheduler_Schedule at t) ts Scheduler_init"

lemma schedule_all_fold:
  "PQ_elems (fold (\<lambda>(at, t). Scheduler_Schedule at t) ts q) =
     PQ_elems q @ map (\<lambda>(at, t). \<lparr>at_time = at, task = t\<rparr>) ts"
  "PQ_inv q \<Longrightarrow> PQ_inv (fold (\<lambda>(at, t). Scheduler_Schedule at t) ts q)"
proof (induction ts arbitrary: q)
  case Nil
  { case 1 show ?case by simp }
  { case 2 then show ?case by simp }
next
  case (Cons p ts)
  { case 1 show ?case by (cases p) (simp add: Cons.IH, simp add: Scheduler_Schedule_def ScheduleImpl_def) }
  { case 2 then show ?case by (cases p) (simp add: Cons.IH inv_rules) }
qed

lemma schedule_all_simps [simp]:
  "PQ_elems (schedule_all ts) = map (\<lambda>(at, t). \<lparr>at_time = at, task = t\<rparr>) ts"
  "PQ_inv (schedule_all ts)"
  by (simp_all add: schedule_all_def schedule_all_fold Scheduler_init_def)

lemma insort_key_map: "insort_key f (g x) (map g xs) = map g (insort_key (\<lambda>x. f (g x)) x xs)"
  by (induction xs) auto

lemma sort_key_map: "sort_key f (map g xs) = map g (sort_key (\<lambda>x. f (g x)) xs)"
  by (induction xs) (auto simp: insort_key_map)

lemma sort_key_scheduled:
  "sort_key at_time (map (\<lambda>(at, t). \<lparr>at_time = at, task = t\<rparr>) ts) =
     map (\<lambda>(at, t). \<lparr>at_time = at, task = t\<rparr>) (sort_key fst ts)"
  by (simp add: sort_key_map case_prod_beta)

lemma insort_key_append_less:
  "\<forall>y \<in> set us. f y < f x \<Longrightarrow> insort_key f x (us @ vs) = us @ insort_key f x vs"
  by (induction us) auto

lemma sort_key_equal: "\<forall>y \<in> set ys. f y = a \<Longrightarrow> sort_key f ys = ys"
proof (induction ys)
  case (Cons y ys)
  have "sort_key f ys = ys" using Cons.prems by (intro Cons.IH) simp
  moreover have "\<forall>z \<in> set ys. f y \<le> f z" using Cons.prems by simp
  ultimately show ?case by (simp add: insort_is_Cons)
qed simp

text \<open>Elements with the least key, appended to a list, move in front of all larger ones.\<close>

lemma sort_key_append_least:
  assumes "\<forall>y \<in> set ys. f y = a" and "\<forall>x \<in> set xs. a \<le> f x"
  shows "sort_key f (xs @ ys) =
    filter (\<lambda>x. f x = a) xs @ ys @ sort_key f (filter (\<lambda>x. a < f x) xs)"
  using assms(2)
proof (induction xs)
  case Nil
  then show ?case using sort_key_equal [OF assms(1)] by simp
next
  case (Cons x xs)
  then have IH: "sort_key f (xs @ ys) =
      filter (\<lambda>x. f x = a) xs @ ys @ sort_key f (filter (\<lambda>x. a < f x) xs)" by simp
  show ?case
  proof (cases "f x = a")
    case True
    have "\<forall>z \<in> set (sort_key f (xs @ ys)). f x \<le> f z" using Cons.prems assms(1) True by auto
    then show ?thesis using True IH by (simp add: insort_is_Cons)
  next
    case False
    then have "a < f x" using Cons.prems by auto
    with assms(1) have "\<forall>y \<in> set (filter (\<lambda>x. f x = a) xs @ ys). f y < f x" by auto
    from insort_key_append_less [OF this] show ?thesis using IH \<open>a < f x\<close> False by simp
  qed
qed

lemma at_or_after:
  "at \<le> x \<and> x = at \<longleftrightarrow> x = at" "at \<le> x \<and> at < x \<longleftrightarrow> at < x" for x :: "'a::linorder"
  by auto

text \<open>C24. The world runs the tasks of a server in the order of their times, and tasks of equal time in
  the order in which they were scheduled, whatever \<open>std::priority_queue\<close> does with equal elements:
  the run order is the stable sort of the calls of \<open>Schedule\<close>.\<close>

theorem scheduler_run_order: "run_order (length ts) (schedule_all ts) = map snd (sort_key fst ts)"
  by (simp add: run_order_sort Scheduler_QueueSize_def PQ_Size_elems sort_key_scheduled
      case_prod_beta o_def)

text \<open>\<open>Resume\<close> ends for every queue and loses no task. No task is left before the time of the
  resumption: the tasks scheduled exactly for that time run first, then the overdue ones in the order
  they would have run in, then the later ones.\<close>

theorem scheduler_resume:
  "run_order (length ts) (Scheduler_Resume at (schedule_all ts)) =
     map snd (filter (\<lambda>p. fst p = at) ts) @
     map snd (sort_key fst (filter (\<lambda>p. fst p < at) ts)) @
     map snd (sort_key fst (filter (\<lambda>p. at < fst p) ts))"
proof -
  let ?g = "\<lambda>(at, t). \<lparr>at_time = at, task = t\<rparr> :: 'a scheduled_task"
  let ?q = "Scheduler_Resume at (schedule_all ts)"
  have q: "PQ_elems ?q = resumed at (map ?g ts)" "PQ_inv ?q" by (simp_all add: Resume_correct)
  have "length (PQ_elems ?q) = length ts"
    using arg_cong [OF Resume_mset, of "schedule_all ts" size at] by simp
  then have "run_order (length ts) ?q = map task (sort_key at_time (resumed at (map ?g ts)))"
    using q by (simp add: run_order_sort Scheduler_QueueSize_def PQ_Size_elems)
  also have "\<dots> = map task (filter (\<lambda>s. at_time s = at) (map ?g ts)) @
      map task (sort_key at_time (filter (\<lambda>s. at_time s < at) (map ?g ts))) @
      map task (sort_key at_time (filter (\<lambda>s. at < at_time s) (map ?g ts)))"
    unfolding resumed_def
    by (subst sort_key_append_least [where a = at]) (auto simp: o_def at_or_after)
  also have "\<dots> = map snd (filter (\<lambda>p. fst p = at) ts) @
      map snd (sort_key fst (filter (\<lambda>p. fst p < at) ts)) @
      map snd (sort_key fst (filter (\<lambda>p. at < fst p) ts))"
    by (simp add: filter_map sort_key_scheduled o_def case_prod_beta)
  finally show ?thesis .
qed

end
