(* ===== verification/Printers.thy ===== *)
theory Printers
  imports KV_Model Ordered_Map
begin

text \<open>
  \<open>semantics/printers/{print,kv}.hpp\<close>: the textual picture of a history. Time points are
  compacted to consecutive columns, each call gets a line with its text and a line with its
  interval. Writing outside the interval string is undefined behaviour of the code.
\<close>

section \<open>The code\<close>

definition kUnitLength :: u64 where
  "kUnitLength = 3"

fun join_labels :: "string list \<Rightarrow> string" where
  "join_labels [] = []"
| "join_labels [l] = l"
| "join_labels (l # ls) = l @ '', '' @ join_labels ls"

definition PrintLabels :: "string list \<Rightarrow> string" where
  "PrintLabels ls = (if ls = [] then [] else ''{'' @ join_labels ls @ ''}'')"

definition MakeSpace :: "time_point \<Rightarrow> string" where
  "MakeSpace start_ts = replicate (unat (start_ts * kUnitLength)) CHR '' ''"

text \<open>\<open>s[i] = c\<close> for a string: the index must be inside.\<close>

definition put_char :: "nat \<Rightarrow> char \<Rightarrow> string \<Rightarrow> string res" where
  "put_char i c s = (if i < length s then Inr (s[i := c]) else Inl (Undefined ''string index''))"

definition MakeCallSegment :: "time_point \<Rightarrow> time_point \<Rightarrow> bool \<Rightarrow> string res" where
  "MakeCallSegment start end_ts completed =
     (let call = replicate (unat ((end_ts - start) * kUnitLength)) CHR ''-'' in
      res_bind (put_char 0 CHR ''['' call) (\<lambda>call.
        if completed then put_char (length call - 1) CHR '']'' call else Inr call))"

text \<open>The \<open>std::set\<close> of time points, and the map from them to columns.\<close>

fun collect_tps :: "history \<Rightarrow> time_point list \<Rightarrow> time_point list" where
  "collect_tps [] tps = tps"
| "collect_tps (c # h) tps =
     (let tps = insort_insert (start_time c) tps in
      collect_tps h (case end_time c of None \<Rightarrow> tps | Some e \<Rightarrow> insort_insert e tps))"

fun compact :: "time_point list \<Rightarrow> (time_point, u64) omap \<times> u64 \<Rightarrow> (time_point, u64) omap \<times> u64" where
  "compact [] acc = acc"
| "compact (tp # tps) (m, ctp) = compact tps (om_assign tp (ctp + 1) m, ctp + 1)"

definition column :: "(time_point, u64) omap \<Rightarrow> time_point \<Rightarrow> u64" where
  "column m t = (case om_find m t of None \<Rightarrow> 0 | Some ctp \<Rightarrow> ctp)"

definition end_column :: "(time_point, u64) omap \<Rightarrow> u64 \<Rightarrow> call \<Rightarrow> u64" where
  "end_column m max_tp c = (case end_time c of None \<Rightarrow> max_tp | Some e \<Rightarrow> column m e)"

fun print_calls ::
    "(call \<Rightarrow> string res) \<Rightarrow> (time_point, u64) omap \<Rightarrow> u64 \<Rightarrow> nat \<Rightarrow> history \<Rightarrow> string res" where
  "print_calls pr m max_tp i [] = Inr []"
| "print_calls pr m max_tp i (c # h) =
     (let start_ts = column m (start_time c); end_ts = end_column m max_tp c in
      res_bind (pr c) (\<lambda>text.
      res_bind (MakeCallSegment start_ts end_ts (IsCompleted c)) (\<lambda>seg.
      res_bind (print_calls pr m max_tp (Suc i) h) (\<lambda>rest.
        Inr (MakeSpace start_ts @ show_nat (i + 1) @ ''. '' @ text @ [CHR 0x09] @
             PrintLabels (labels c) @ [CHR 0x0A] @
             MakeSpace start_ts @ seg @ [CHR 0x0A] @ rest)))))"

definition Print_history :: "(call \<Rightarrow> string res) \<Rightarrow> history \<Rightarrow> string res" where
  "Print_history pr h =
     (let tps = collect_tps h []; (compact_tps, ctp) = compact tps ([], 0); max_tp = ctp + 1 in
      print_calls pr compact_tps max_tp 0 h)"

text \<open>\<open>KVCallPrinter\<close>: the stream operators of keys and values and the deserialiser of results are
  arguments, like the codec.\<close>

record ('k, 'v) kv_show =
  show_key :: "'k \<Rightarrow> string"
  show_value :: "'v \<Rightarrow> string"
  As_V :: "bytes \<Rightarrow> 'v option"

definition print_result :: "('k, 'v) kv_show \<Rightarrow> call \<Rightarrow> string res" where
  "print_result sh c =
     (if IsCompleted c then
        (case result c of
           None \<Rightarrow> Inl (Undefined ''empty optional'')
         | Some b \<Rightarrow> as_args (As_V sh b) (\<lambda>v. Inr ('': '' @ show_value sh v)))
      else Inr ''?'')"

definition PrintSet :: "('k, 'v) kv_codec \<Rightarrow> ('k, 'v) kv_show \<Rightarrow> call \<Rightarrow> string res" where
  "PrintSet cd sh c = as_args (As_KV cd (arguments c)) (\<lambda>(k, v).
     Inr (call_method c @ ''('' @ show_key sh k @ '', '' @ show_value sh v @ '')'' @
          (if IsCompleted c then [] else ''?'')))"

definition PrintGet :: "('k, 'v) kv_codec \<Rightarrow> ('k, 'v) kv_show \<Rightarrow> call \<Rightarrow> string res" where
  "PrintGet cd sh c = as_args (As_K cd (arguments c)) (\<lambda>k.
     res_bind (print_result sh c) (\<lambda>r. Inr (call_method c @ ''('' @ show_key sh k @ '')'' @ r)))"

definition PrintCas :: "('k, 'v) kv_codec \<Rightarrow> ('k, 'v) kv_show \<Rightarrow> call \<Rightarrow> string res" where
  "PrintCas cd sh c = as_args (As_KVV cd (arguments c)) (\<lambda>(k, e, t).
     res_bind (print_result sh c) (\<lambda>r.
       Inr (call_method c @ ''('' @ show_key sh k @ '', '' @ show_value sh e @ '', '' @
            show_value sh t @ '')'' @ r)))"

definition KVCallPrinter_Print :: "('k, 'v) kv_codec \<Rightarrow> ('k, 'v) kv_show \<Rightarrow> call \<Rightarrow> string res" where
  "KVCallPrinter_Print cd sh c =
     (if call_method c = ''Set'' then PrintSet cd sh c
      else if call_method c = ''Get'' then PrintGet cd sh c
      else if call_method c = ''Cas'' then PrintCas cd sh c
      else Inr [])"

definition PrintKVHistory :: "('k, 'v) kv_codec \<Rightarrow> ('k, 'v) kv_show \<Rightarrow> history \<Rightarrow> string res" where
  "PrintKVHistory cd sh h = Print_history (KVCallPrinter_Print cd sh) h"

section \<open>Columns\<close>

lemma collect_tps_ok:
  "sorted tps \<Longrightarrow> distinct tps \<Longrightarrow> sorted (collect_tps h tps) \<and> distinct (collect_tps h tps)"
  by (induction h tps rule: collect_tps.induct)
    (auto simp: Let_def sorted_insort_insert distinct_insort_insert split: option.splits)

definition time_points :: "history \<Rightarrow> time_point set" where
  "time_points h = (\<Union>c \<in> set h. insert (start_time c) (set_option (end_time c)))"

lemma set_collect_tps: "set (collect_tps h tps) = set tps \<union> time_points h"
  by (induction h tps rule: collect_tps.induct)
    (auto simp: time_points_def Let_def set_insort_insert split: option.splits)

text \<open>Columns are handed out in ascending order, starting at 1.\<close>

lemma compact_eq:
  "sorted_wrt (<) (map fst m @ tps) \<Longrightarrow>
   compact tps (m, n) = (m @ zip tps (map (\<lambda>i. n + 1 + of_nat i) [0..<length tps]), n + of_nat (length tps))"
proof (induction tps arbitrary: m n)
  case (Cons tp tps)
  have "om_assign tp (n + 1) m = m @ [(tp, n + 1)]"
    using Cons.prems by (intro om_assign_last) (auto simp: sorted_wrt_append)
  moreover have "map (\<lambda>i. n + 1 + of_nat i) [0..<length (tp # tps)] =
      (n + 1) # map (\<lambda>i. (n + 1) + 1 + of_nat i) [0..<length tps]"
    by (simp add: upt_conv_Cons map_Suc_upt [symmetric] o_def algebra_simps del: upt_Suc)
  ultimately show ?case
    using Cons.IH [of "m @ [(tp, n + 1)]" "n + 1"] Cons.prems by (simp add: algebra_simps)
qed simp

definition tps_of :: "history \<Rightarrow> time_point list" where
  "tps_of h = collect_tps h []"

lemma tps_of: "sorted_wrt (<) (tps_of h)" "set (tps_of h) = time_points h"
  using collect_tps_ok [of "[]" h] set_collect_tps [of h "[]"]
  by (simp_all add: tps_of_def strict_sorted_iff)

definition columns_of :: "history \<Rightarrow> (time_point, u64) omap" where
  "columns_of h = fst (compact (tps_of h) ([], 0))"

lemma columns_of:
  "columns_of h = zip (tps_of h) (map (\<lambda>i. of_nat (Suc i)) [0..<length (tps_of h)])"
  using compact_eq [of "[]" "tps_of h" 0] tps_of(1) by (simp add: columns_of_def algebra_simps)

lemma Print_history_eq:
  "Print_history pr h = print_calls pr (columns_of h) (of_nat (Suc (length (tps_of h)))) 0 h"
  using compact_eq [of "[]" "tps_of h" 0] tps_of(1)
  by (simp add: Print_history_def columns_of_def Let_def algebra_simps flip: tps_of_def
      split: prod.split)

lemma column_nth:
  "i < length (tps_of h) \<Longrightarrow> column (columns_of h) (tps_of h ! i) = of_nat (Suc i)"
proof -
  assume i: "i < length (tps_of h)"
  have "om_ok (columns_of h)" using tps_of(1) [of h] by (simp add: om_ok_def columns_of)
  moreover have "(tps_of h ! i, of_nat (Suc i)) \<in> set (columns_of h)"
    using i by (auto simp: columns_of set_zip)
  ultimately show ?thesis by (simp add: column_def flip: om_find_Some split: option.split)
qed

lemma length_tps_of: "length (tps_of h) \<le> 2 * length h"
proof -
  have "card (time_points h) \<le> 2 * length h"
  proof (induction h)
    case (Cons c h)
    have "card (insert (start_time c) (set_option (end_time c))) \<le> 2"
      by (cases "end_time c") (auto simp: card_insert_if)
    moreover have "time_points (c # h) = insert (start_time c) (set_option (end_time c)) \<union> time_points h"
      by (simp add: time_points_def)
    ultimately show ?case
      using Cons.IH card_Un_le [of "insert (start_time c) (set_option (end_time c))" "time_points h"]
      by simp
  qed (simp add: time_points_def)
  then show ?thesis
    using tps_of [of h] distinct_card [of "tps_of h"] by (simp add: strict_sorted_iff)
qed

definition printable_size :: "history \<Rightarrow> bool" where
  "printable_size h \<longleftrightarrow> length h < 2 ^ 60"

lemma unat_column:
  assumes "printable_size h" and "i \<le> length (tps_of h)"
  shows "unat (of_nat (Suc i) :: u64) = Suc i"
  using assms length_tps_of [of h] by (simp add: printable_size_def unat_of_nat del: of_nat_Suc)

lemma column_cases:
  assumes "t \<in> time_points h"
  obtains i where "i < length (tps_of h)" and "t = tps_of h ! i"
    and "column (columns_of h) t = of_nat (Suc i)"
  using assms tps_of(2) [of h] column_nth by (metis in_set_conv_nth)

lemma column_order:
  assumes "printable_size h" and "s \<in> time_points h" and "t \<in> time_points h"
  shows "column (columns_of h) s < column (columns_of h) t \<longleftrightarrow> s < t"
proof -
  obtain i where i: "i < length (tps_of h)" "s = tps_of h ! i"
      "column (columns_of h) s = of_nat (Suc i)"
    using assms(2) by (rule column_cases)
  obtain j where j: "j < length (tps_of h)" "t = tps_of h ! j"
      "column (columns_of h) t = of_nat (Suc j)"
    using assms(3) by (rule column_cases)
  have "s < t \<longleftrightarrow> i < j"
    using i j tps_of(1) [of h] unfolding sorted_wrt_iff_nth_less
    by (metis less_asym' linorder_neqE_nat)
  moreover have "column (columns_of h) s < column (columns_of h) t \<longleftrightarrow> i < j"
    using i(1) j(1) unat_column [OF assms(1), of i] unat_column [OF assms(1), of j]
    by (simp add: i(3) j(3) word_less_nat_alt del: of_nat_Suc)
  ultimately show ?thesis by simp
qed

definition max_column :: "history \<Rightarrow> u64" where
  "max_column h = of_nat (Suc (length (tps_of h)))"

lemma column_less_max:
  assumes "printable_size h" and "t \<in> time_points h"
  shows "column (columns_of h) t < max_column h"
proof -
  obtain i where "i < length (tps_of h)" "column (columns_of h) t = of_nat (Suc i)"
    using assms(2) by (rule column_cases)
  then show ?thesis
    using unat_column [OF assms(1), of i] unat_column [OF assms(1), of "length (tps_of h)"]
    by (simp add: word_less_nat_alt max_column_def del: of_nat_Suc)
qed

lemma time_points_call:
  "c \<in> set h \<Longrightarrow> start_time c \<in> time_points h"
  "c \<in> set h \<Longrightarrow> end_time c = Some e \<Longrightarrow> e \<in> time_points h"
  by (force simp: time_points_def)+

lemma unat_max_column: "printable_size h \<Longrightarrow> unat (max_column h) < 2 ^ 62"
  using unat_column [of h "length (tps_of h)"] length_tps_of [of h]
  by (simp add: max_column_def printable_size_def del: of_nat_Suc)

section \<open>Segments\<close>

lemma MakeCallSegment_shape:
  assumes "start < e" and "unat e < 2 ^ 62"
  shows "MakeCallSegment start e completed =
    Inr (CHR ''['' # replicate (3 * (unat e - unat start) - 2) CHR ''-'' @
         [if completed then CHR '']'' else CHR ''-''])"
proof -
  define n where "n = unat e - unat start"
  have lt: "unat start < unat e" using assms(1) by (simp add: word_less_nat_alt)
  then have n: "0 < n" "3 * n = Suc (Suc (3 * n - 2))" by (simp_all add: n_def)
  have "unat (e - start) = n" using lt by (simp add: n_def unat_sub_if_size)
  then have len: "unat ((e - start) * kUnitLength) = 3 * n"
    unfolding unat_word_ariths(2) using assms(2) n_def by (simp add: kUnitLength_def)
  define k where "k = 3 * n - 2"
  have k: "3 * n = Suc (Suc k)" using n(2) by (simp add: k_def)
  have "replicate (Suc k) CHR ''-'' = replicate k CHR ''-'' @ ''-''"
    by (simp add: replicate_append_same)
  then show ?thesis
    unfolding MakeCallSegment_def Let_def len n_def [symmetric] k
    by (simp add: put_char_def list_update_append del: replicate_Suc)
       (simp add: list_update_append)
qed

lemma MakeCallSegment_empty: "MakeCallSegment t t completed = Inl (Undefined ''string index'')"
  by (simp add: MakeCallSegment_def put_char_def)

section \<open>Properties\<close>

lemma print_calls_ok:
  assumes "\<And>c. c \<in> set h \<Longrightarrow> \<exists>t. pr c = Inr t"
    and "\<And>c. c \<in> set h \<Longrightarrow>
      (\<exists>s. MakeCallSegment (column m (start_time c)) (end_column m mx c) (IsCompleted c) = Inr s) \<longleftrightarrow> ok_call c"
  shows "(\<exists>s. print_calls pr m mx i h = Inr s) \<longleftrightarrow> (\<forall>c \<in> set h. ok_call c)"
  using assms
proof (induction h arbitrary: i)
  case (Cons c h)
  obtain t where t: "pr c = Inr t" using Cons.prems(1) by auto
  have "(\<exists>s. print_calls pr m mx (Suc i) h = Inr s) \<longleftrightarrow> (\<forall>c \<in> set h. ok_call c)"
    using Cons by simp
  with Cons.prems(2) [of c] t show ?case
    by (auto simp: Let_def res_bind_def split: sum.splits)
qed simp

text \<open>The picture shows the real-time order: for the calls of a history (of fewer than \<open>2^60\<close>
  calls), one precedes the other in real time exactly when the interval of the first ends in a column
  before the one in which the interval of the second starts.\<close>

theorem print_shows_real_time:
  assumes "printable_size h" and "c \<in> set h" and "d \<in> set h"
  shows "PrecedesInRealTime c d \<longleftrightarrow>
    end_column (columns_of h) (max_column h) c < column (columns_of h) (start_time d)"
proof (cases "end_time c")
  case None
  then show ?thesis
    using column_less_max [OF assms(1) time_points_call(1) [OF assms(3)]]
    by (auto simp: PrecedesInRealTime_def end_column_def)
next
  case (Some e)
  then show ?thesis
    using column_order [OF assms(1) time_points_call(2) [OF assms(2) Some] time_points_call(1) [OF assms(3)]]
    by (simp add: PrecedesInRealTime_def end_column_def)
qed

theorem print_shows_real_time_witness:
  "PrecedesInRealTime set_1 stale_get \<longleftrightarrow>
     end_column (columns_of [set_1, stale_get]) (max_column [set_1, stale_get]) set_1
       < column (columns_of [set_1, stale_get]) (start_time stale_get)"
  by (rule print_shows_real_time) (simp_all add: printable_size_def)

text \<open>Printing a history of proper calls works exactly when no call completes at the very time it
  started: the interval of such a call is an empty string, and the code writes its brackets outside
  of it, which is undefined.\<close>

theorem Print_defined_iff:
  assumes "printable_size h" and "\<forall>c \<in> set h. proper_call c" and "\<forall>c \<in> set h. \<exists>t. pr c = Inr t"
  shows "(\<exists>s. Print_history pr h = Inr s) \<longleftrightarrow> (\<forall>c \<in> set h. end_time c \<noteq> Some (start_time c))"
  unfolding Print_history_eq max_column_def [symmetric]
proof (rule print_calls_ok)
  fix c assume c: "c \<in> set h"
  let ?s = "column (columns_of h) (start_time c)" and ?e = "end_column (columns_of h) (max_column h) c"
  have "?s < ?e" and "unat ?e < 2 ^ 62" if "end_time c \<noteq> Some (start_time c)"
  proof -
    have "start_time c < e" if "end_time c = Some e" for e
      using that assms(2) c \<open>end_time c \<noteq> Some (start_time c)\<close>
      by (auto simp: proper_call_def less_le split: option.splits)
    then show "?s < ?e"
      using column_order [OF assms(1) time_points_call(1) [OF c] time_points_call(2) [OF c]]
        column_less_max [OF assms(1) time_points_call(1) [OF c]]
      by (simp add: end_column_def split: option.split)
    have "?e \<le> max_column h"
      using column_less_max [OF assms(1) time_points_call(2) [OF c]]
      by (auto simp: end_column_def less_imp_le split: option.split)
    then show "unat ?e < 2 ^ 62"
      using unat_max_column [OF assms(1)] by (simp add: word_le_nat_alt)
  qed
  then show "(\<exists>s. MakeCallSegment ?s ?e (IsCompleted c) = Inr s) \<longleftrightarrow>
      end_time c \<noteq> Some (start_time c)"
    using MakeCallSegment_shape [of ?s ?e] MakeCallSegment_empty [of ?s]
    by (cases "end_time c = Some (start_time c)") (auto simp: end_column_def)
qed (use assms(3) in auto)

definition instant_get :: call where
  "instant_get = \<lparr>call_method = ''Get'', arguments = ''k'', result = Some ''v'', start_time = 5,
     end_time = Some 5, labels = []\<rparr>"

theorem Print_defined_iff_witness:
  "\<not> (\<exists>s. Print_history (\<lambda>c. Inr (call_method c)) [set_1, instant_get] = Inr s) \<and>
   (\<exists>s. Print_history (\<lambda>c. Inr (call_method c)) [set_1, stale_get] = Inr s)"
  using Print_defined_iff [of "[set_1, instant_get]" "\<lambda>c. Inr (call_method c)"]
    Print_defined_iff [of "[set_1, stale_get]" "\<lambda>c. Inr (call_method c)"]
  by (simp add: printable_size_def proper_call_def set_1_def stale_get_def instant_get_def)

end
