(* ===== verification/File_System.thy ===== *)
theory File_System
  imports Ordered_Map "HOL-Library.Sublist"
begin

text \<open>
  \<open>fs/{file,fs}.{hpp,cpp}\<close>, \<open>server/runtime/filesystem.hpp\<close> and \<open>Server::ListFiles\<close>: the simulated
  disk of a server. A \<open>File\<close> object is shared (\<open>std::shared_ptr\<close>) between the directory and the
  descriptors opened on it, so the model keeps the file objects in a list and passes indices around:
  an unlinked file stays readable through its descriptors. \<open>wheels::io::MemoryReader\<close> is the
  parameter \<open>rd\<close>: the bytes it copies from a view into a buffer of the given size.
\<close>

section \<open>Files\<close>

type_synonym file_ref = nat
type_synonym fd = nat
type_synonym path = string

definition File_Size :: "string \<Rightarrow> nat" where
  "File_Size d = length d"

definition File_Truncate :: "nat \<Rightarrow> string \<Rightarrow> string" where
  "File_Truncate new_size d = take new_size d @ replicate (new_size - length d) CHR 0x00"

text \<open>\<open>Append\<close> takes the address of \<open>data_[curr_size]\<close>, which exists only when bytes are added.\<close>

definition File_Append :: "string \<Rightarrow> string \<Rightarrow> string res" where
  "File_Append app d =
     (let curr_size = length d; new_size = curr_size + length app in
      if curr_size < new_size then Inr (d @ app) else Inl (Undefined ''vector index''))"

definition File_Tail :: "nat \<Rightarrow> string \<Rightarrow> string" where
  "File_Tail offset d = (if offset \<ge> length d then [] else drop offset d)"

definition File_PRead :: "(string \<Rightarrow> nat \<Rightarrow> string) \<Rightarrow> nat \<Rightarrow> nat \<Rightarrow> string \<Rightarrow> string" where
  "File_PRead rd offset buffer_size d = rd (File_Tail offset d) buffer_size"

section \<open>The file system\<close>

datatype file_mode = ReadMode | AppendMode

datatype errc = no_such_file_or_directory

record opened_file =
  of_fd :: fd
  of_path :: path
  of_mode :: file_mode
  of_offset :: nat
  of_file :: file_ref

record file_system =
  inodes :: "string list"
  files :: "(path, file_ref) omap"
  opened_files :: "(fd, opened_file) omap"
  next_fd :: fd

definition FS_init :: file_system where
  "FS_init = \<lparr>inodes = [], files = [], opened_files = [], next_fd = 0\<rparr>"

definition RaiseError :: "string \<Rightarrow> 'a res" where
  "RaiseError msg = Inl (Panic (''Filesystem error: '' @ msg))"

definition FS_Exists :: "path \<Rightarrow> file_system \<Rightarrow> bool" where
  "FS_Exists p s \<longleftrightarrow> om_find (files s) p \<noteq> None"

definition CreateFile :: "file_system \<Rightarrow> file_ref \<times> file_system" where
  "CreateFile s = (length (inodes s), s\<lparr>inodes := inodes s @ [[]]\<rparr>)"

definition FindOrCreateFile :: "path \<Rightarrow> file_mode \<Rightarrow> file_system \<Rightarrow> file_ref option \<times> file_system" where
  "FindOrCreateFile p open_mode s =
     (case om_find (files s) p of
        Some f \<Rightarrow> (Some f, s)
      | None \<Rightarrow>
          if open_mode = AppendMode then
            (let (f, s) = CreateFile s in (Some f, s\<lparr>files := om_emplace p f (files s)\<rparr>))
          else (None, s))"

definition FindExistingFile :: "path \<Rightarrow> file_system \<Rightarrow> file_ref res" where
  "FindExistingFile p s =
     (case om_find (files s) p of None \<Rightarrow> RaiseError ''File not found'' | Some f \<Rightarrow> Inr f)"

definition CheckMode :: "opened_file \<Rightarrow> file_mode \<Rightarrow> 'a res \<Rightarrow> 'a res" where
  "CheckMode f expected k = (if of_mode f \<noteq> expected then RaiseError ''Unexpected file mode'' else k)"

definition InitOffset :: "file_ref \<Rightarrow> file_mode \<Rightarrow> file_system \<Rightarrow> nat" where
  "InitOffset f open_mode s =
     (case open_mode of ReadMode \<Rightarrow> 0 | AppendMode \<Rightarrow> File_Size (inodes s ! f))"

definition GetOpenedFile :: "fd \<Rightarrow> file_system \<Rightarrow> opened_file res" where
  "GetOpenedFile d s =
     (case om_find (opened_files s) d of None \<Rightarrow> RaiseError ''Fd not found'' | Some f \<Rightarrow> Inr f)"

definition FS_Open :: "path \<Rightarrow> file_mode \<Rightarrow> file_system \<Rightarrow> (errc + fd) \<times> file_system" where
  "FS_Open p mode s =
     (let (file, s) = FindOrCreateFile p mode s in
      case file of
        None \<Rightarrow> (Inl no_such_file_or_directory, s)
      | Some f \<Rightarrow>
          let d = Suc (next_fd s);
              offset = InitOffset f mode s;
              opened = \<lparr>of_fd = d, of_path = p, of_mode = mode, of_offset = offset, of_file = f\<rparr>
          in (Inr d, s\<lparr>next_fd := d, opened_files := om_emplace d opened (opened_files s)\<rparr>))"

definition FS_Read ::
    "(string \<Rightarrow> nat \<Rightarrow> string) \<Rightarrow> fd \<Rightarrow> nat \<Rightarrow> file_system \<Rightarrow> (string \<times> file_system) res" where
  "FS_Read rd d buffer_size s =
     res_bind (GetOpenedFile d s) (\<lambda>f.
       CheckMode f ReadMode
         (let bytes = File_PRead rd (of_offset f) buffer_size (inodes s ! of_file f);
              f' = f\<lparr>of_offset := of_offset f + length bytes\<rparr>
          in Inr (bytes, s\<lparr>opened_files := om_assign d f' (opened_files s)\<rparr>)))"

definition FS_Append :: "fd \<Rightarrow> string \<Rightarrow> file_system \<Rightarrow> file_system res" where
  "FS_Append d data s =
     res_bind (GetOpenedFile d s) (\<lambda>f.
       CheckMode f AppendMode
         (res_bind (File_Append data (inodes s ! of_file f)) (\<lambda>c.
           Inr (s\<lparr>inodes := (inodes s)[of_file f := c]\<rparr>))))"

definition FS_SyncDir :: "path \<Rightarrow> file_system \<Rightarrow> file_system res" where
  "FS_SyncDir p s = Inr s"

definition FS_Sync :: "fd \<Rightarrow> file_system \<Rightarrow> file_system res" where
  "FS_Sync d s = Inr s"

definition FS_Close :: "fd \<Rightarrow> file_system \<Rightarrow> file_system res" where
  "FS_Close d s =
     (case om_find (opened_files s) d of
        Some _ \<Rightarrow> Inr (s\<lparr>opened_files := om_erase d (opened_files s)\<rparr>)
      | None \<Rightarrow> RaiseError ''File not found by fd'')"

definition FS_Create :: "path \<Rightarrow> file_system \<Rightarrow> bool \<times> file_system" where
  "FS_Create p s =
     (if om_find (files s) p \<noteq> None then (False, s)
      else let (f, s) = CreateFile s in (True, s\<lparr>files := om_emplace p f (files s)\<rparr>))"

definition FS_Truncate :: "path \<Rightarrow> nat \<Rightarrow> file_system \<Rightarrow> file_system res" where
  "FS_Truncate p new_size s =
     res_bind (FindExistingFile p s) (\<lambda>f.
       Inr (s\<lparr>inodes := (inodes s)[f := File_Truncate new_size (inodes s ! f)]\<rparr>))"

definition FS_Unlink :: "path \<Rightarrow> file_system \<Rightarrow> file_system" where
  "FS_Unlink p s = s\<lparr>files := om_erase p (files s)\<rparr>"

definition FS_Corrupt :: "path \<Rightarrow> file_system \<Rightarrow> file_system" where
  "FS_Corrupt p s = s"

definition FS_Reset :: "file_system \<Rightarrow> file_system" where
  "FS_Reset s = s\<lparr>opened_files := [], next_fd := 0\<rparr>"

lemmas fs_defs = FS_Open_def FS_Read_def FS_Append_def FS_Close_def FS_Create_def FS_Truncate_def
  FS_Unlink_def FS_Reset_def FindOrCreateFile_def FindExistingFile_def CreateFile_def
  GetOpenedFile_def CheckMode_def RaiseError_def

section \<open>Paths\<close>

definition RootPath :: path where "RootPath = ''/''"

definition TmpPath :: path where "TmpPath = ''/tmp''"

definition PathAppend :: "path \<Rightarrow> string \<Rightarrow> path" where
  "PathAppend base name =
     (if base \<noteq> [] \<and> last base = CHR ''/'' then base @ name else base @ ''/'' @ name)"

fun find_last_of :: "char \<Rightarrow> string \<Rightarrow> nat option" where
  "find_last_of c [] = None"
| "find_last_of c (x # xs) =
     (case find_last_of c xs of Some i \<Rightarrow> Some (Suc i) | None \<Rightarrow> if x = c then Some 0 else None)"

definition PathSplit :: "path \<Rightarrow> path \<times> string" where
  "PathSplit p =
     (case find_last_of CHR ''/'' p of
        Some split_pos \<Rightarrow> (take split_pos p, drop (split_pos + 1) p)
      | None \<Rightarrow> (p, []))"

section \<open>Listing\<close>

record dir_iterator =
  it :: nat
  it_end :: nat

definition ListAllFiles :: "file_system \<Rightarrow> dir_iterator" where
  "ListAllFiles s = \<lparr>it = 0, it_end = length (files s)\<rparr>"

definition DirIterator_IsValid :: "dir_iterator \<Rightarrow> bool" where
  "DirIterator_IsValid i \<longleftrightarrow> it i \<noteq> it_end i"

definition DirIterator_deref :: "file_system \<Rightarrow> dir_iterator \<Rightarrow> path" where
  "DirIterator_deref s i = fst (files s ! it i)"

definition DirIterator_next :: "dir_iterator \<Rightarrow> dir_iterator" where
  "DirIterator_next i = i\<lparr>it := Suc (it i)\<rparr>"

partial_function (option) FS_ListFiles_loop ::
    "file_system \<Rightarrow> string \<Rightarrow> dir_iterator \<Rightarrow> path list \<Rightarrow> path list option" where
  "FS_ListFiles_loop s pre iter listed =
     (if DirIterator_IsValid iter then
        FS_ListFiles_loop s pre (DirIterator_next iter)
          (if prefix pre (DirIterator_deref s iter) then listed @ [DirIterator_deref s iter] else listed)
      else Some listed)"

definition FS_ListFiles :: "file_system \<Rightarrow> string \<Rightarrow> path list option" where
  "FS_ListFiles s pre = FS_ListFiles_loop s pre (ListAllFiles s) []"

text \<open>\<open>Server::ListFiles\<close>, the fault-injection interface: the same loop, without the increment.\<close>

partial_function (option) Server_ListFiles_loop ::
    "file_system \<Rightarrow> string \<Rightarrow> dir_iterator \<Rightarrow> path list \<Rightarrow> path list option" where
  "Server_ListFiles_loop s pre iter listed =
     (if DirIterator_IsValid iter then
        Server_ListFiles_loop s pre iter
          (if prefix pre (DirIterator_deref s iter) then listed @ [DirIterator_deref s iter] else listed)
      else Some listed)"

definition Server_ListFiles :: "file_system \<Rightarrow> string \<Rightarrow> path list option" where
  "Server_ListFiles s pre = Server_ListFiles_loop s pre (ListAllFiles s) []"

text \<open>The digest folds over the directory; the hash functions of \<open>wheels\<close> and \<open>std\<close> are arguments.\<close>

definition FS_ComputeDigest ::
    "(nat \<Rightarrow> string \<Rightarrow> nat) \<Rightarrow> (string \<Rightarrow> nat) \<Rightarrow> (nat \<Rightarrow> nat \<Rightarrow> nat) \<Rightarrow> file_system \<Rightarrow> nat" where
  "FS_ComputeDigest hash_range hash_path combine s =
     fold (\<lambda>(p, f) digest. combine (combine digest (hash_path p)) (hash_range 17 (inodes s ! f)))
       (files s) 0"

section \<open>System calls as steps\<close>

datatype fs_op =
    Create path
  | Open path file_mode
  | Read fd nat
  | Append fd string
  | Truncate path nat
  | Unlink path
  | Close fd
  | Crash

fun fs_step :: "(string \<Rightarrow> nat \<Rightarrow> string) \<Rightarrow> fs_op \<Rightarrow> file_system \<Rightarrow> file_system res" where
  "fs_step rd (Create p) s = Inr (snd (FS_Create p s))"
| "fs_step rd (Open p mode) s = Inr (snd (FS_Open p mode s))"
| "fs_step rd (Read d n) s = res_bind (FS_Read rd d n s) (\<lambda>r. Inr (snd r))"
| "fs_step rd (Append d data) s = FS_Append d data s"
| "fs_step rd (Truncate p n) s = FS_Truncate p n s"
| "fs_step rd (Unlink p) s = Inr (FS_Unlink p s)"
| "fs_step rd (Close d) s = FS_Close d s"
| "fs_step rd Crash s = Inr (FS_Reset s)"

definition fs_run :: "(string \<Rightarrow> nat \<Rightarrow> string) \<Rightarrow> fs_op list \<Rightarrow> file_system \<Rightarrow> file_system res" where
  "fs_run rd = res_fold (fs_step rd)"

section \<open>Invariant\<close>

text \<open>The directory shares no file between two names, every reference is alive, and a descriptor whose
  file is still linked somewhere is linked under the name it was opened with.\<close>

definition handle_ok :: "file_system \<Rightarrow> fd \<Rightarrow> opened_file \<Rightarrow> bool" where
  "handle_ok s d f \<longleftrightarrow> of_fd f = d \<and> 0 < d \<and> d \<le> next_fd s \<and> of_file f < length (inodes s) \<and>
     (\<forall>p. om_find (files s) p = Some (of_file f) \<longrightarrow> p = of_path f)"

definition fs_ok :: "file_system \<Rightarrow> bool" where
  "fs_ok s \<longleftrightarrow> om_ok (files s) \<and> om_ok (opened_files s) \<and>
     (\<forall>p r. om_find (files s) p = Some r \<longrightarrow> r < length (inodes s)) \<and>
     (\<forall>p q r. om_find (files s) p = Some r \<longrightarrow> om_find (files s) q = Some r \<longrightarrow> p = q) \<and>
     (\<forall>d f. om_find (opened_files s) d = Some f \<longrightarrow> handle_ok s d f)"

lemma fs_okD:
  assumes "fs_ok s"
  shows "om_ok (files s)" "om_ok (opened_files s)"
    "om_find (files s) p = Some r \<Longrightarrow> r < length (inodes s)"
    "om_find (files s) p = Some r \<Longrightarrow> om_find (files s) q = Some r \<Longrightarrow> p = q"
    "om_find (opened_files s) d = Some f \<Longrightarrow> handle_ok s d f"
  using assms unfolding fs_ok_def by blast+

lemma fs_ok_init: "fs_ok FS_init"
  by (simp add: fs_ok_def FS_init_def)

text \<open>Linking a new, empty file under a free name.\<close>

definition link_new :: "path \<Rightarrow> file_system \<Rightarrow> file_system" where
  "link_new p s = s\<lparr>inodes := inodes s @ [[]], files := om_assign p (length (inodes s)) (files s)\<rparr>"

lemma fs_ok_link_new:
  assumes "fs_ok s" and "om_find (files s) p = None"
  shows "fs_ok (link_new p s)"
proof -
  note ok = fs_okD [OF assms(1)]
  have old: "r < length (inodes s)" if "om_find (files s) q = Some r" for q r
    using ok(3) [OF that] .
  then have new: "om_find (files s) q \<noteq> Some (length (inodes s))" for q by blast
  have "handle_ok (link_new p s) d f" if "om_find (opened_files s) d = Some f" for d f
    using ok(5) [OF that] by (auto simp: handle_ok_def link_new_def om_find_assign ok(1))
  moreover have "om_find (files (link_new p s)) = (om_find (files s))(p \<mapsto> length (inodes s))"
    by (simp add: link_new_def om_find_assign ok(1))
  moreover have "om_ok (files (link_new p s))" "opened_files (link_new p s) = opened_files s"
    "length (inodes (link_new p s)) = Suc (length (inodes s))"
    by (simp_all add: link_new_def om_ok_assign ok(1))
  ultimately show ?thesis
    unfolding fs_ok_def using ok(2,4) old new
    by (auto simp: less_Suc_eq split: if_splits)
qed

lemma FS_Create_eq: "snd (FS_Create p s) = (if FS_Exists p s then s else link_new p s)"
  by (simp add: FS_Create_def FS_Exists_def CreateFile_def link_new_def om_emplace_def)

definition add_handle :: "path \<Rightarrow> file_mode \<Rightarrow> file_ref \<Rightarrow> file_system \<Rightarrow> file_system" where
  "add_handle p mode f s = s\<lparr>next_fd := Suc (next_fd s), opened_files := om_emplace (Suc (next_fd s))
     \<lparr>of_fd = Suc (next_fd s), of_path = p, of_mode = mode, of_offset = InitOffset f mode s, of_file = f\<rparr>
     (opened_files s)\<rparr>"

lemma FS_Open_eq:
  "FS_Open p mode s =
     (case om_find (files s) p of
        Some f \<Rightarrow> (Inr (Suc (next_fd s)), add_handle p mode f s)
      | None \<Rightarrow>
          if mode = AppendMode
          then (Inr (Suc (next_fd s)), add_handle p mode (length (inodes s)) (link_new p s))
          else (Inl no_such_file_or_directory, s))"
  by (auto simp: FS_Open_def FindOrCreateFile_def CreateFile_def add_handle_def link_new_def
      om_emplace_def InitOffset_def split: option.split file_mode.split)

lemma handles_below: "fs_ok s \<Longrightarrow> \<forall>d \<in> om_keys (opened_files s). d < Suc (next_fd s)"
  using fs_okD(2,5) by (fastforce simp: handle_ok_def om_find_Some [symmetric])

lemma fs_ok_add_handle:
  assumes "fs_ok s" and "om_find (files s) p = Some f"
  shows "fs_ok (add_handle p mode f s)"
proof -
  note ok = fs_okD [OF assms(1)]
  have "om_find (opened_files s) (Suc (next_fd s)) = None"
    using handles_below [OF assms(1)] by (auto simp: om_find_None)
  then have new: "om_find (opened_files (add_handle p mode f s)) = (om_find (opened_files s))(Suc (next_fd s) \<mapsto>
      \<lparr>of_fd = Suc (next_fd s), of_path = p, of_mode = mode, of_offset = InitOffset f mode s, of_file = f\<rparr>)"
    by (simp add: add_handle_def om_emplace_def om_find_assign ok(2))
  have "handle_ok (add_handle p mode f s) d h" if "om_find (opened_files s) d = Some h" for d h
    using ok(5) [OF that] by (auto simp: handle_ok_def add_handle_def)
  moreover have "handle_ok (add_handle p mode f s) (Suc (next_fd s))
      \<lparr>of_fd = Suc (next_fd s), of_path = p, of_mode = mode, of_offset = InitOffset f mode s, of_file = f\<rparr>"
    using ok(3) [OF assms(2)] ok(4) [OF assms(2)] by (simp add: handle_ok_def add_handle_def)
  moreover have "files (add_handle p mode f s) = files s" "inodes (add_handle p mode f s) = inodes s"
    "om_ok (opened_files (add_handle p mode f s))"
    by (simp_all add: add_handle_def om_ok_emplace ok(2))
  ultimately show ?thesis using ok unfolding fs_ok_def new by (auto split: if_splits)
qed

lemma fs_ok_inodes:
  assumes "fs_ok s"
  shows "fs_ok (s\<lparr>inodes := (inodes s)[r := c]\<rparr>)"
  using assms by (simp add: fs_ok_def handle_ok_def)

lemma link_new_find:
  "fs_ok s \<Longrightarrow> om_find (files (link_new p s)) p = Some (length (inodes s))"
  by (simp add: link_new_def om_find_assign fs_okD(1))

lemma fs_ok_Open: "fs_ok s \<Longrightarrow> fs_ok (snd (FS_Open p mode s))"
  by (auto simp: FS_Open_eq fs_ok_add_handle fs_ok_link_new link_new_find split: option.split)

lemma FS_Read_Inr:
  "FS_Read rd d n s = Inr (bytes, s') \<longleftrightarrow>
     (\<exists>f. om_find (opened_files s) d = Some f \<and> of_mode f = ReadMode \<and>
        bytes = File_PRead rd (of_offset f) n (inodes s ! of_file f) \<and>
        s' = s\<lparr>opened_files := om_assign d (f\<lparr>of_offset := of_offset f + length bytes\<rparr>) (opened_files s)\<rparr>)"
  by (auto simp: FS_Read_def GetOpenedFile_def CheckMode_def RaiseError_def Let_def split: option.split)

lemma FS_Append_Inr:
  "FS_Append d data s = Inr s' \<longleftrightarrow>
     (\<exists>f. om_find (opened_files s) d = Some f \<and> of_mode f = AppendMode \<and> data \<noteq> [] \<and>
        s' = s\<lparr>inodes := (inodes s)[of_file f := inodes s ! of_file f @ data]\<rparr>)"
  by (auto simp: FS_Append_def GetOpenedFile_def CheckMode_def RaiseError_def File_Append_def
      split: option.split)

lemma FS_Truncate_Inr:
  "FS_Truncate p n s = Inr s' \<longleftrightarrow>
     (\<exists>f. om_find (files s) p = Some f \<and>
        s' = s\<lparr>inodes := (inodes s)[f := File_Truncate n (inodes s ! f)]\<rparr>)"
  by (auto simp: FS_Truncate_def FindExistingFile_def RaiseError_def split: option.split)

lemma FS_Close_Inr:
  "FS_Close d s = Inr s' \<longleftrightarrow>
     om_find (opened_files s) d \<noteq> None \<and> s' = s\<lparr>opened_files := om_erase d (opened_files s)\<rparr>"
  by (auto simp: FS_Close_def RaiseError_def split: option.split)

lemmas fs_Inr = FS_Read_Inr FS_Append_Inr FS_Truncate_Inr FS_Close_Inr

lemma fs_ok_handles:
  assumes "fs_ok s" and "om_ok m"
    and "\<And>d f. om_find m d = Some f \<Longrightarrow> \<exists>f'. om_find (opened_files s) d = Some f' \<and>
      of_fd f = of_fd f' \<and> of_file f = of_file f' \<and> of_path f = of_path f'"
  shows "fs_ok (s\<lparr>opened_files := m\<rparr>)"
proof -
  have "handle_ok (s\<lparr>opened_files := m\<rparr>) d f" if "om_find m d = Some f" for d f
    using assms(3) [OF that] fs_okD(5) [OF assms(1)] by (fastforce simp: handle_ok_def)
  then show ?thesis using assms(1,2) by (auto simp: fs_ok_def)
qed

lemma fs_ok_step:
  assumes ok: "fs_ok s" and step: "fs_step rd op s = Inr s'"
  shows "fs_ok s'"
proof (cases op)
  case (Create p)
  then show ?thesis
    using step ok by (auto simp: FS_Create_eq FS_Exists_def fs_ok_link_new)
next
  case (Open p mode)
  then show ?thesis using step fs_ok_Open [OF ok] by auto
next
  case (Read d n)
  with step obtain f k where f: "om_find (opened_files s) d = Some f" and
      s': "s' = s\<lparr>opened_files := om_assign d (f\<lparr>of_offset := k\<rparr>) (opened_files s)\<rparr>"
    by (auto simp: res_bind_Inr fs_Inr)
  show ?thesis
    unfolding s' by (rule fs_ok_handles [OF ok])
      (use f fs_okD(2) [OF ok] in \<open>auto simp: om_ok_assign om_find_assign split: if_splits\<close>)
next
  case (Unlink p)
  then show ?thesis
    using step ok
    by (auto simp: FS_Unlink_def fs_ok_def om_find_erase om_ok_erase handle_ok_def split: if_splits)
next
  case (Close d)
  then have s': "s' = s\<lparr>opened_files := om_erase d (opened_files s)\<rparr>"
    using step by (simp add: fs_Inr)
  show ?thesis
    unfolding s' by (rule fs_ok_handles [OF ok])
      (use fs_okD(2) [OF ok] in \<open>auto simp: om_ok_erase om_find_erase split: if_splits\<close>)
next
  case Crash
  then show ?thesis using step ok by (auto simp: FS_Reset_def fs_ok_def)
qed (use step ok in \<open>auto simp: fs_Inr fs_ok_inodes\<close>)

lemma fs_ok_run: "fs_run rd ops s = Inr s' \<Longrightarrow> fs_ok s \<Longrightarrow> fs_ok s'"
  unfolding fs_run_def by (erule res_fold_inv) (auto intro: fs_ok_step)

section \<open>Specification: a map from paths to contents\<close>

definition content :: "file_system \<Rightarrow> path \<rightharpoonup> string" where
  "content s = (\<lambda>p. map_option ((!) (inodes s)) (om_find (files s) p))"

text \<open>The name a descriptor's file is still linked under, if any.\<close>

definition linked_path :: "file_system \<Rightarrow> fd \<Rightarrow> path option" where
  "linked_path s d =
     (case om_find (opened_files s) d of
        None \<Rightarrow> None
      | Some f \<Rightarrow> if om_find (files s) (of_path f) = Some (of_file f) then Some (of_path f) else None)"

fun abs_step :: "fs_op \<Rightarrow> file_system \<Rightarrow> (path \<rightharpoonup> string) \<Rightarrow> path \<rightharpoonup> string" where
  "abs_step (Create p) s m = (if m p = None then m(p \<mapsto> []) else m)"
| "abs_step (Open p mode) s m = (if m p = None \<and> mode = AppendMode then m(p \<mapsto> []) else m)"
| "abs_step (Read d n) s m = m"
| "abs_step (Append d data) s m =
     (case linked_path s d of None \<Rightarrow> m | Some p \<Rightarrow> m(p \<mapsto> the (m p) @ data))"
| "abs_step (Truncate p n) s m = m(p \<mapsto> File_Truncate n (the (m p)))"
| "abs_step (Unlink p) s m = m(p := None)"
| "abs_step (Close d) s m = m"
| "abs_step Crash s m = m"

fun fs_allowed :: "fs_op \<Rightarrow> file_system \<Rightarrow> bool" where
  "fs_allowed (Read d n) s \<longleftrightarrow> (\<exists>f. om_find (opened_files s) d = Some f \<and> of_mode f = ReadMode)"
| "fs_allowed (Append d data) s \<longleftrightarrow>
     (\<exists>f. om_find (opened_files s) d = Some f \<and> of_mode f = AppendMode) \<and> data \<noteq> []"
| "fs_allowed (Truncate p n) s \<longleftrightarrow> content s p \<noteq> None"
| "fs_allowed (Close d) s \<longleftrightarrow> om_find (opened_files s) d \<noteq> None"
| "fs_allowed _ s \<longleftrightarrow> True"

lemma content_link_new:
  assumes "fs_ok s" shows "content (link_new p s) = (content s)(p \<mapsto> [])"
proof (rule ext)
  fix q
  show "content (link_new p s) q = ((content s)(p \<mapsto> [])) q"
    using fs_okD(3) [OF assms, of q]
    by (cases "om_find (files s) q") (auto simp: content_def link_new_def om_find_assign
        fs_okD(1) [OF assms] nth_append)
qed

lemma content_add_handle [simp]: "content (add_handle p mode f s) = content s"
  by (simp add: content_def add_handle_def)

lemma content_update:
  assumes "fs_ok s" and "om_find (files s) p = Some f"
  shows "content (s\<lparr>inodes := (inodes s)[f := c]\<rparr>) = (content s)(p \<mapsto> c)"
proof (rule ext)
  fix q
  show "content (s\<lparr>inodes := (inodes s)[f := c]\<rparr>) q = ((content s)(p \<mapsto> c)) q"
  proof (cases "om_find (files s) q")
    case (Some g)
    then have "f = g \<longleftrightarrow> p = q" using fs_okD(4) [OF assms(1)] assms(2) by auto
    then show ?thesis
      using Some assms fs_okD(3) [OF assms(1)] by (auto simp: content_def nth_list_update)
  qed (use assms in \<open>auto simp: content_def\<close>)
qed

lemma content_update_unlinked:
  assumes "\<forall>p. om_find (files s) p \<noteq> Some f"
  shows "content (s\<lparr>inodes := (inodes s)[f := c]\<rparr>) = content s"
proof (rule ext)
  fix q
  show "content (s\<lparr>inodes := (inodes s)[f := c]\<rparr>) q = content s q"
    using assms by (cases "om_find (files s) q") (auto simp: content_def, metis nth_list_update_neq)
qed

lemma content_None [simp]: "content s p = None \<longleftrightarrow> om_find (files s) p = None"
  by (simp add: content_def)

lemma content_Append:
  assumes ok: "fs_ok s" and f: "om_find (opened_files s) d = Some f"
  shows "content (s\<lparr>inodes := (inodes s)[of_file f := inodes s ! of_file f @ data]\<rparr>) =
    (case linked_path s d of None \<Rightarrow> content s | Some p \<Rightarrow> (content s)(p \<mapsto> the (content s p) @ data))"
proof (cases "om_find (files s) (of_path f) = Some (of_file f)")
  case True
  then show ?thesis
    using content_update [OF ok True] f by (simp add: linked_path_def content_def)
next
  case False
  then have "\<forall>p. om_find (files s) p \<noteq> Some (of_file f)"
    using fs_okD(5) [OF ok f] by (auto simp: handle_ok_def)
  then show ?thesis using False f by (simp add: linked_path_def content_update_unlinked)
qed

lemma content_step:
  assumes ok: "fs_ok s" and step: "fs_step rd op s = Inr s'"
  shows "content s' = abs_step op s (content s)"
proof (cases op)
  case (Create p)
  then show ?thesis
    using step by (auto simp: FS_Create_eq FS_Exists_def content_link_new [OF ok])
next
  case (Open p mode)
  then show ?thesis
    using step by (auto simp: FS_Open_eq content_link_new [OF ok] split: option.splits)
next
  case (Append d data)
  then show ?thesis using step content_Append [OF ok] by (auto simp: fs_Inr)
next
  case (Truncate p n)
  then show ?thesis using step content_update [OF ok] by (auto simp: fs_Inr content_def)
next
  case (Unlink p)
  then show ?thesis using step by (auto simp: FS_Unlink_def content_def om_find_erase)
qed (use step in \<open>auto simp: fs_Inr FS_Reset_def content_def res_bind_Inr\<close>)

lemma fs_step_allowed: "(\<exists>s'. fs_step rd op s = Inr s') \<longleftrightarrow> fs_allowed op s"
  by (cases op) (auto simp: fs_Inr res_bind_Inr content_def)

section \<open>Properties\<close>

text \<open>C12. The file system refines a map from paths to contents. In every state a sequence of system
  calls and crashes can reach, a call aborts exactly when it names a descriptor that is not open in the
  right mode, truncates a missing file or appends nothing; otherwise it changes exactly the contents
  its specification names: appending through a descriptor grows the file it is still linked to and no
  other, an unlinked file is no longer visible, and a crash loses no byte of any file.\<close>

theorem fs_refines_map:
  assumes "fs_run rd ops FS_init = Inr s"
  shows "(case fs_step rd op s of
      Inl _ \<Rightarrow> \<not> fs_allowed op s
    | Inr s' \<Rightarrow> fs_allowed op s \<and> content s' = abs_step op s (content s))"
  using content_step [OF fs_ok_run [OF assms fs_ok_init], of rd op] fs_step_allowed [of rd op s]
  by (auto split: sum.split)

definition take_reader :: "string \<Rightarrow> nat \<Rightarrow> string" where
  "take_reader d n = take n d"

theorem fs_refines_map_witness:
  "\<exists>s s'. fs_run take_reader [Create ''/a'', Open ''/a'' AppendMode, Append 1 ''x''] FS_init = Inr s \<and>
     fs_step take_reader (Append 1 ''yz'') s = Inr s' \<and> content s' = [''/a'' \<mapsto> ''xyz'']"
proof -
  let ?f = "\<lparr>of_fd = 1, of_path = ''/a'', of_mode = AppendMode, of_offset = 0, of_file = 0\<rparr>"
  let ?s = "\<lambda>c. \<lparr>inodes = [c], files = [(''/a'', 0)], opened_files = [(1, ?f)], next_fd = 1\<rparr>"
  have run: "fs_run take_reader [Create ''/a'', Open ''/a'' AppendMode, Append 1 ''x''] FS_init = Inr (?s ''x'')"
    by (simp add: fs_run_def FS_init_def fs_defs om_emplace_def InitOffset_def File_Size_def
        File_Append_def)
  have step: "fs_step take_reader (Append 1 ''yz'') (?s ''x'') = Inr (?s ''xyz'')"
    by (simp add: fs_defs File_Append_def)
  have "content (?s ''x'') = [''/a'' \<mapsto> ''x'']" by (auto simp: content_def fun_eq_iff)
  then have "content (?s ''xyz'') = [''/a'' \<mapsto> ''xyz'']"
    using fs_refines_map [OF run, of "Append 1 ''yz''"] unfolding step by (simp add: linked_path_def)
  with run step show ?thesis by blast
qed

text \<open>Reading a descriptor to its end with a buffer of a fixed size.\<close>

fun read_all ::
    "(string \<Rightarrow> nat \<Rightarrow> string) \<Rightarrow> nat \<Rightarrow> fd \<Rightarrow> nat \<Rightarrow> file_system \<Rightarrow> (string \<times> file_system) res option" where
  "read_all rd 0 d n s = None"
| "read_all rd (Suc fuel) d n s =
     (case FS_Read rd d n s of
        Inl e \<Rightarrow> Some (Inl e)
      | Inr (bytes, s') \<Rightarrow>
          if bytes = [] then Some (Inr ([], s'))
          else map_option (\<lambda>r. res_bind r (\<lambda>(rest, s''). Inr (bytes @ rest, s'')))
            (read_all rd fuel d n s'))"

text \<open>What a memory reader does: it copies a prefix of the view that fits into the buffer, and copies
  something when there is something to copy and room for it.\<close>

definition reader_ok :: "(string \<Rightarrow> nat \<Rightarrow> string) \<Rightarrow> bool" where
  "reader_ok rd \<longleftrightarrow> (\<forall>d n. prefix (rd d n) d \<and> length (rd d n) \<le> n \<and>
     (d \<noteq> [] \<longrightarrow> 0 < n \<longrightarrow> rd d n \<noteq> []))"

lemma read_all_rest:
  assumes "reader_ok rd" and "0 < n"
  shows "om_ok (opened_files s) \<Longrightarrow> om_find (opened_files s) d = Some f \<Longrightarrow> of_mode f = ReadMode \<Longrightarrow>
    length (inodes s ! of_file f) - of_offset f < fuel \<Longrightarrow>
    \<exists>s'. read_all rd fuel d n s = Some (Inr (drop (of_offset f) (inodes s ! of_file f), s')) \<and>
      inodes s' = inodes s \<and> files s' = files s"
proof (induction fuel arbitrary: s f)
  case (Suc fuel)
  let ?c = "inodes s ! of_file f" and ?k = "of_offset f"
  let ?tail = "drop ?k ?c"
  define bytes where "bytes = rd ?tail n"
  let ?f' = "f\<lparr>of_offset := ?k + length bytes\<rparr>"
  let ?s' = "s\<lparr>opened_files := om_assign d ?f' (opened_files s)\<rparr>"
  have rd: "prefix bytes ?tail" "?tail \<noteq> [] \<longrightarrow> bytes \<noteq> []"
    using assms by (auto simp: reader_ok_def bytes_def)
  have read: "FS_Read rd d n s = Inr (bytes, ?s')"
    using Suc.prems(2,3) by (simp add: FS_Read_Inr File_PRead_def File_Tail_def bytes_def)
  show ?case
  proof (cases "bytes = []")
    case True
    with rd(2) read show ?thesis by simp
  next
    case False
    obtain rest where rest: "?tail = bytes @ rest" using rd(1) by (auto simp: prefix_def)
    have len: "length bytes + length rest = length ?c - ?k"
      using rest by (metis length_append length_drop)
    have "drop (?k + length bytes) ?c = drop (length bytes) ?tail" by (simp add: add.commute)
    then have tl: "drop (?k + length bytes) ?c = rest" using rest by simp
    have "\<exists>s''. read_all rd fuel d n ?s' =
        Some (Inr (drop (of_offset ?f') (inodes ?s' ! of_file ?f'), s'')) \<and>
        inodes s'' = inodes ?s' \<and> files s'' = files ?s'"
    proof (rule Suc.IH)
      obtain k where "length bytes = Suc k" using False by (cases bytes) auto
      with Suc.prems(4) len show "length (inodes ?s' ! of_file ?f') - of_offset ?f' < fuel"
        by simp
    qed (use Suc.prems in \<open>simp_all add: om_ok_assign om_find_assign\<close>)
    then obtain s'' where "read_all rd fuel d n ?s' = Some (Inr (rest, s''))"
        "inodes s'' = inodes s" "files s'' = files s"
      using tl by auto
    with read False rest show ?thesis by simp
  qed
qed simp

text \<open>A file that was opened for reading is read back completely: reading through the fresh
  descriptor in chunks of any size ends after at most one read per byte and one more, and returns the
  content of the file, whatever the memory reader copies per call.\<close>

theorem fs_read_back:
  assumes "reader_ok rd" and "0 < n" and "fs_run rd ops FS_init = Inr s" and "content s p = Some c"
  shows "\<exists>d s1 s2. FS_Open p ReadMode s = (Inr d, s1) \<and>
    read_all rd (Suc (length c)) d n s1 = Some (Inr (c, s2)) \<and> content s2 = content s"
proof -
  have ok: "fs_ok s" using fs_ok_run [OF assms(3) fs_ok_init] .
  obtain f where f: "om_find (files s) p = Some f" "inodes s ! f = c"
    using assms(4) by (auto simp: content_def)
  let ?s1 = "add_handle p ReadMode f s"
  let ?h = "\<lparr>of_fd = Suc (next_fd s), of_path = p, of_mode = ReadMode, of_offset = 0, of_file = f\<rparr>"
  have "om_find (opened_files s) (Suc (next_fd s)) = None"
    using handles_below [OF ok] by (auto simp: om_find_None)
  then have h: "om_find (opened_files ?s1) (Suc (next_fd s)) = Some ?h"
    by (simp add: add_handle_def om_emplace_def om_find_assign fs_okD(2) [OF ok] InitOffset_def)
  have "om_ok (opened_files ?s1)" using fs_okD(2) [OF fs_ok_add_handle [OF ok f(1)]] .
  from read_all_rest [OF assms(1,2) this h, of "Suc (length c)"] f(2)
  obtain s2 where "read_all rd (Suc (length c)) (Suc (next_fd s)) n ?s1 = Some (Inr (c, s2))"
      "inodes s2 = inodes s" "files s2 = files s"
    by (auto simp: add_handle_def)
  then show ?thesis
    using f(1) by (auto simp: FS_Open_eq content_def)
qed

lemma take_reader_ok: "reader_ok take_reader"
  by (simp add: reader_ok_def take_reader_def take_is_prefix)

definition small_disk :: "fs_op list" where
  "small_disk = [Open ''/a'' AppendMode, Append 1 ''abc'', Create ''/b'', Append 1 ''de'', Crash]"

lemma small_disk_run:
  "fs_run rd small_disk FS_init =
     Inr \<lparr>inodes = [''abcde'', []], files = [(''/a'', 0), (''/b'', 1)], opened_files = [], next_fd = 0\<rparr>"
  by (simp add: small_disk_def fs_run_def FS_init_def fs_defs om_emplace_def InitOffset_def
      File_Size_def File_Append_def)

theorem fs_read_back_witness:
  "\<exists>s d s1 s2. fs_run take_reader small_disk FS_init = Inr s \<and>
     FS_Open ''/a'' ReadMode s = (Inr d, s1) \<and>
     read_all take_reader 6 d 2 s1 = Some (Inr (''abcde'', s2)) \<and> content s2 = content s"
proof -
  let ?s = "\<lparr>inodes = [''abcde'', []], files = [(''/a'', 0), (''/b'', 1)], opened_files = [], next_fd = 0\<rparr>"
  have "content ?s ''/a'' = Some ''abcde''" by (simp add: content_def)
  from fs_read_back [OF take_reader_ok _ small_disk_run this, of 2] show ?thesis
    using small_disk_run [of take_reader] by (simp add: eval_nat_numeral)
qed

text \<open>A crash of the server closes every descriptor and keeps every file: afterwards each use of an
  old descriptor aborts, and reading a file back gives the content it had before the crash.\<close>

theorem fs_crash:
  "content (FS_Reset s) = content s \<and>
   (\<forall>d n data. \<not> fs_allowed (Read d n) (FS_Reset s) \<and> \<not> fs_allowed (Append d data) (FS_Reset s) \<and>
      (\<exists>m. FS_Close d (FS_Reset s) = Inl (Panic m)))"
  by (simp add: FS_Reset_def content_def FS_Close_def RaiseError_def)

text \<open>\<open>PathSplit\<close> undoes \<open>PathAppend\<close>: for a name without a slash it gives back the name and the
  base, less the slash the base ended with.\<close>

lemma find_last_of_append:
  "c \<notin> set ys \<Longrightarrow> find_last_of c (xs @ c # ys) = Some (length xs)"
proof -
  assume "c \<notin> set ys"
  then have "find_last_of c ys = None" by (induction ys) auto
  then show ?thesis by (induction xs) auto
qed

theorem PathSplit_PathAppend:
  assumes "CHR ''/'' \<notin> set name"
  shows "PathSplit (PathAppend base name) =
    ((if base \<noteq> [] \<and> last base = CHR ''/'' then butlast base else base), name)"
proof (cases "base \<noteq> [] \<and> last base = CHR ''/''")
  case True
  then obtain b where b: "base = b @ ''/''" by (metis append_butlast_last_id)
  show ?thesis
    using find_last_of_append [OF assms, of b] unfolding b
    by (simp add: PathSplit_def PathAppend_def)
next
  case False
  with find_last_of_append [OF assms, of base] show ?thesis
    by (auto simp: PathSplit_def PathAppend_def)
qed

theorem PathSplit_PathAppend_witness:
  "PathSplit (PathAppend ''/tmp'' ''wal'') = (''/tmp'', ''wal'')"
  using PathSplit_PathAppend [of "''wal''" "''/tmp''"] by simp

section \<open>Listing files\<close>

lemma ListFiles_loop:
  "it i \<le> length (files s) \<Longrightarrow> it_end i = length (files s) \<Longrightarrow>
   FS_ListFiles_loop s pre i listed =
     Some (listed @ filter (prefix pre) (map fst (drop (it i) (files s))))"
proof (induction "length (files s) - it i" arbitrary: i listed)
  case 0
  then show ?case by (simp add: FS_ListFiles_loop.simps DirIterator_IsValid_def)
next
  case (Suc n)
  then have lt: "it i < length (files s)" by simp
  let ?p = "fst (files s ! it i)"
  have "FS_ListFiles_loop s pre i listed = FS_ListFiles_loop s pre (DirIterator_next i)
      (if prefix pre ?p then listed @ [?p] else listed)"
    using Suc.prems lt
    by (subst FS_ListFiles_loop.simps) (simp add: DirIterator_IsValid_def DirIterator_deref_def)
  also have "\<dots> = Some ((if prefix pre ?p then listed @ [?p] else listed) @
      filter (prefix pre) (map fst (drop (Suc (it i)) (files s))))"
    using Suc lt by (subst Suc.hyps(1)) (simp_all add: DirIterator_next_def)
  finally show ?case by (simp add: Cons_nth_drop_Suc [OF lt, symmetric])
qed

lemma Server_loop_diverges:
  assumes "DirIterator_IsValid i"
  shows "Server_ListFiles_loop s pre i listed = None"
proof -
  have "\<not> DirIterator_IsValid i" if "Server_ListFiles_loop s pre i listed = Some r" for r
    using that
    by (rule Server_ListFiles_loop.raw_induct [rotated]) (auto split: if_splits)
  then show ?thesis using assms by (cases "Server_ListFiles_loop s pre i listed") auto
qed

text \<open>The listing a node asks for ends and returns the names with the given prefix in ascending
  order; the listing of the fault-injection interface never returns unless the disk is empty, because
  its loop does not advance the iterator.\<close>

theorem ListFiles_node_and_server:
  "FS_ListFiles s pre = Some (filter (prefix pre) (map fst (files s))) \<and>
   (Server_ListFiles s pre = None \<longleftrightarrow> files s \<noteq> [])"
proof -
  have "FS_ListFiles s pre = Some (filter (prefix pre) (map fst (files s)))"
    by (simp add: FS_ListFiles_def ListAllFiles_def ListFiles_loop)
  moreover have "Server_ListFiles s pre = None \<longleftrightarrow> files s \<noteq> []"
  proof (cases "files s = []")
    case True
    then show ?thesis
      by (simp add: Server_ListFiles_def ListAllFiles_def Server_ListFiles_loop.simps
          DirIterator_IsValid_def)
  next
    case False
    then have "DirIterator_IsValid (ListAllFiles s)"
      by (simp add: DirIterator_IsValid_def ListAllFiles_def)
    with False show ?thesis by (simp add: Server_ListFiles_def Server_loop_diverges)
  qed
  ultimately show ?thesis by simp
qed

end
