(* ===== verification/Database.thy ===== *)
theory Database
  imports Ordered_Map
begin

text \<open>
  \<open>db/{entries,mem_table,wal,snapshot,iterator,database}\<close>: the key-value database a node keeps on its
  disk. A write appends one record to the write-ahead log and then updates the sorted memory table;
  opening the database replays the log. The libraries below it (the log of \<open>persist\<close>, the serialiser
  \<open>muesli\<close>, the write batches of \<open>whirl\<close>) are the fields of a \<open>wal_lib\<close>, an argument of the
  definitions, over a type \<open>'f\<close> of disk states and a type \<open>'r\<close> of serialised records; \<open>wal_laws\<close> says what is relied on.
\<close>

section \<open>Libraries\<close>

type_synonym key = string
type_synonym db_value = string
type_synonym db_path = string

datatype mutation_type = MutPut | MutDelete

record mutation =
  mut_type :: mutation_type
  mut_key :: key
  mut_value :: "db_value option"

text \<open>\<open>log_read f p k\<close> is what the call number \<open>k\<close> of \<open>ReadNext\<close> on a fresh reader returns, and
  \<open>log_offset f p k\<close> what \<open>OffsetForWriter\<close> returns after \<open>k\<close> successful reads.\<close>

record ('f, 'r) wal_lib =
  fs_exists :: "'f \<Rightarrow> db_path \<Rightarrow> bool"
  log_open :: "db_path \<Rightarrow> nat \<Rightarrow> 'f \<Rightarrow> 'f"
  log_append :: "db_path \<Rightarrow> 'r \<Rightarrow> 'f \<Rightarrow> 'f"
  log_read :: "'f \<Rightarrow> db_path \<Rightarrow> nat \<Rightarrow> 'r option"
  log_offset :: "'f \<Rightarrow> db_path \<Rightarrow> nat \<Rightarrow> nat"
  sst_write :: "db_path \<Rightarrow> 'f \<Rightarrow> 'f"
  sst_read :: "db_path \<Rightarrow> 'f \<Rightarrow> 'f"
  path_join :: "db_path \<Rightarrow> string \<Rightarrow> db_path"
  serialize :: "mutation list \<Rightarrow> 'r"
  deserialize :: "'r \<Rightarrow> mutation list option"
  batch_put :: "key \<Rightarrow> db_value \<Rightarrow> mutation list"
  batch_delete :: "key \<Rightarrow> mutation list"

section \<open>Memory table\<close>

type_synonym entries = "(key, db_value) omap"

definition MemTable_Put :: "key \<Rightarrow> db_value \<Rightarrow> entries \<Rightarrow> entries" where
  "MemTable_Put k v es = om_assign k v es"

definition MemTable_TryGet :: "entries \<Rightarrow> key \<Rightarrow> db_value option" where
  "MemTable_TryGet es k = om_find es k"

definition MemTable_Delete :: "key \<Rightarrow> entries \<Rightarrow> entries" where
  "MemTable_Delete k es = om_erase k es"

definition MemTable_Clear :: "entries \<Rightarrow> entries" where
  "MemTable_Clear es = []"

definition MemTable_GetEntries :: "entries \<Rightarrow> entries" where
  "MemTable_GetEntries es = es"

interpretation memtable: dictionary "[]" MemTable_Put MemTable_Delete MemTable_TryGet om_ok
  by unfold_locales (auto simp: MemTable_Put_def MemTable_TryGet_def MemTable_Delete_def
      om_find_assign om_find_erase om_ok_assign om_ok_erase)

section \<open>The database\<close>

record database =
  dir :: "db_path option"
  mem_table :: entries
  wal :: "db_path option"
  version :: u64

definition Database_init :: database where
  "Database_init = \<lparr>dir = None, mem_table = [], wal = None, version = 0\<rparr>"

definition EnsureOpened :: "database \<Rightarrow> 'a res \<Rightarrow> 'a res" where
  "EnsureOpened db k = verify (dir db \<noteq> None) ''Open database first'' k"

definition LogPath :: "('f, 'r) wal_lib \<Rightarrow> database \<Rightarrow> db_path" where
  "LogPath L db = path_join L (the (dir db)) ''wal''"

definition SSTablePath :: "('f, 'r) wal_lib \<Rightarrow> database \<Rightarrow> db_path" where
  "SSTablePath L db = path_join L (the (dir db)) ''sstable''"

fun apply_mutation :: "mutation \<Rightarrow> entries \<Rightarrow> entries res" where
  "apply_mutation mut es =
     (case mut_type mut of
        MutPut \<Rightarrow>
          (case mut_value mut of
             None \<Rightarrow> Inl (Undefined ''empty optional'')
           | Some v \<Rightarrow> Inr (MemTable_Put (mut_key mut) v es))
      | MutDelete \<Rightarrow> Inr (MemTable_Delete (mut_key mut) es))"

definition ApplyToMemTable :: "mutation list \<Rightarrow> database \<Rightarrow> database res" where
  "ApplyToMemTable batch db =
     res_bind (res_fold apply_mutation batch (mem_table db)) (\<lambda>es. Inr (db\<lparr>mem_table := es\<rparr>))"

text \<open>\<open>WALReader\<close> and \<open>WALWriter\<close>. A record that does not deserialise is an exception.\<close>

definition WALReader_ReadNext ::
    "('f, 'r) wal_lib \<Rightarrow> 'f \<Rightarrow> db_path \<Rightarrow> nat \<Rightarrow> mutation list option res" where
  "WALReader_ReadNext L f p k =
     (case log_read L f p k of
        None \<Rightarrow> Inr None
      | Some r \<Rightarrow>
          (case deserialize L r of
             None \<Rightarrow> Inl (Thrown ''muesli::Deserialize'')
           | Some muts \<Rightarrow> Inr (Some muts)))"

definition WALReader_WriterOffset :: "('f, 'r) wal_lib \<Rightarrow> 'f \<Rightarrow> db_path \<Rightarrow> nat \<Rightarrow> nat" where
  "WALReader_WriterOffset L f p k = log_offset L f p k"

definition WALWriter_Open :: "('f, 'r) wal_lib \<Rightarrow> db_path \<Rightarrow> nat \<Rightarrow> 'f \<Rightarrow> 'f" where
  "WALWriter_Open L p offset f = log_open L p offset f"

definition WALWriter_Append :: "('f, 'r) wal_lib \<Rightarrow> db_path \<Rightarrow> mutation list \<Rightarrow> 'f \<Rightarrow> 'f" where
  "WALWriter_Append L p batch f = log_append L p (serialize L batch) f"

text \<open>The loop of \<open>ReplayWAL\<close>; \<open>k\<close> counts the records read. \<open>None\<close> would be a log that never ends.\<close>

partial_function (option) replay_loop ::
    "('f, 'r) wal_lib \<Rightarrow> 'f \<Rightarrow> db_path \<Rightarrow> nat \<Rightarrow> database \<Rightarrow> (nat \<times> database) res option" where
  "replay_loop L f p k db =
     (case WALReader_ReadNext L f p k of
        Inl e \<Rightarrow> Some (Inl e)
      | Inr None \<Rightarrow> Some (Inr (WALReader_WriterOffset L f p k, db))
      | Inr (Some batch) \<Rightarrow>
          (case ApplyToMemTable batch db of
             Inl e \<Rightarrow> Some (Inl e)
           | Inr db' \<Rightarrow> replay_loop L f p (Suc k) (db'\<lparr>version := version db' + 1\<rparr>)))"

definition ReplayWAL :: "('f, 'r) wal_lib \<Rightarrow> 'f \<Rightarrow> db_path \<Rightarrow> database \<Rightarrow> (nat \<times> database) res option" where
  "ReplayWAL L f wal_path db =
     (let db = db\<lparr>mem_table := MemTable_Clear (mem_table db)\<rparr> in
      if \<not> fs_exists L f wal_path then Some (Inr (0, db))
      else replay_loop L f wal_path 0 (db\<lparr>version := 0\<rparr>))"

definition PrepareSSTable :: "('f, 'r) wal_lib \<Rightarrow> database \<Rightarrow> 'f \<Rightarrow> 'f" where
  "PrepareSSTable L db f =
     (if \<not> fs_exists L f (SSTablePath L db) then sst_write L (SSTablePath L db) f else f)"

definition AccessSSTable :: "('f, 'r) wal_lib \<Rightarrow> database \<Rightarrow> 'f \<Rightarrow> 'f" where
  "AccessSSTable L db f = sst_read L (SSTablePath L db) f"

definition Database_Open :: "('f, 'r) wal_lib \<Rightarrow> db_path \<Rightarrow> database \<Rightarrow> 'f \<Rightarrow> (database \<times> 'f) res option" where
  "Database_Open L directory db f =
     (let db = db\<lparr>dir := Some directory\<rparr>;
          wal_path = LogPath L db;
          db = db\<lparr>wal := Some wal_path\<rparr>
      in case ReplayWAL L f wal_path db of
           None \<Rightarrow> None
         | Some (Inl e) \<Rightarrow> Some (Inl e)
         | Some (Inr (offset, db)) \<Rightarrow>
             Some (Inr (db, PrepareSSTable L db (WALWriter_Open L wal_path offset f))))"

definition DoWrite :: "('f, 'r) wal_lib \<Rightarrow> mutation list \<Rightarrow> database \<Rightarrow> 'f \<Rightarrow> (database \<times> 'f) res" where
  "DoWrite L batch db f =
     (case wal db of
        None \<Rightarrow> Inl (Undefined ''empty optional'')
      | Some p \<Rightarrow>
          let f = WALWriter_Append L p batch f in
          res_bind (ApplyToMemTable batch db) (\<lambda>db. Inr (db\<lparr>version := version db + 1\<rparr>, f)))"

definition Database_Put ::
    "('f, 'r) wal_lib \<Rightarrow> key \<Rightarrow> db_value \<Rightarrow> database \<Rightarrow> 'f \<Rightarrow> (database \<times> 'f) res" where
  "Database_Put L k v db f = EnsureOpened db (DoWrite L (batch_put L k v) db f)"

definition Database_Delete :: "('f, 'r) wal_lib \<Rightarrow> key \<Rightarrow> database \<Rightarrow> 'f \<Rightarrow> (database \<times> 'f) res" where
  "Database_Delete L k db f = EnsureOpened db (DoWrite L (batch_delete L k) db f)"

definition Database_Write ::
    "('f, 'r) wal_lib \<Rightarrow> mutation list \<Rightarrow> database \<Rightarrow> 'f \<Rightarrow> (database \<times> 'f) res" where
  "Database_Write L batch db f = EnsureOpened db (DoWrite L batch db f)"

text \<open>\<open>miss\<close> is the answer of the time model's \<open>GetCacheMiss\<close>.\<close>

definition Database_TryGet ::
    "('f, 'r) wal_lib \<Rightarrow> bool \<Rightarrow> key \<Rightarrow> database \<Rightarrow> 'f \<Rightarrow> (db_value option \<times> 'f) res" where
  "Database_TryGet L miss k db f =
     EnsureOpened db
       (let f = (if miss then AccessSSTable L db f else f) in Inr (MemTable_TryGet (mem_table db) k, f))"

text \<open>A move of an iterator reads the table on disk with \<open>IteratorCacheMiss\<close>.\<close>

definition Database_IteratorMove :: "('f, 'r) wal_lib \<Rightarrow> bool \<Rightarrow> database \<Rightarrow> 'f \<Rightarrow> 'f" where
  "Database_IteratorMove L miss db f = (if miss then AccessSSTable L db f else f)"

record snapshot =
  snap_entries :: entries
  snap_version :: u64

definition Database_MakeSnapshot :: "database \<Rightarrow> snapshot res" where
  "Database_MakeSnapshot db =
     EnsureOpened db
       (Inr \<lparr>snap_entries = MemTable_GetEntries (mem_table db), snap_version = version db\<rparr>)"

definition Snapshot_TryGet :: "snapshot \<Rightarrow> key \<Rightarrow> db_value option" where
  "Snapshot_TryGet s k = om_find (snap_entries s) k"

lemmas database_defs = Database_Open_def DoWrite_def Database_Put_def Database_Delete_def
  Database_Write_def Database_TryGet_def Database_MakeSnapshot_def EnsureOpened_def
  ApplyToMemTable_def PrepareSSTable_def AccessSSTable_def LogPath_def SSTablePath_def
  WALReader_ReadNext_def WALReader_WriterOffset_def WALWriter_Open_def WALWriter_Append_def

section \<open>What the libraries promise\<close>

text \<open>\<open>recs f p\<close> is the list of records of the log at \<open>p\<close>. A reader returns them in order and then
  ends; a writer opened at the reader's final offset keeps them and appends behind them; the other
  file of the database does not touch them.\<close>

definition wal_laws :: "('f, 'r) wal_lib \<Rightarrow> ('f \<Rightarrow> db_path \<Rightarrow> 'r list) \<Rightarrow> bool" where
  "wal_laws L recs \<longleftrightarrow>
     (\<forall>f p k. log_read L f p k = (if k < length (recs f p) then Some (recs f p ! k) else None)) \<and>
     (\<forall>f p. fs_exists L f p \<longrightarrow> recs (log_open L p (log_offset L f p (length (recs f p))) f) p = recs f p) \<and>
     (\<forall>f p. \<not> fs_exists L f p \<longrightarrow> recs (log_open L p 0 f) p = []) \<and>
     (\<forall>f p n. fs_exists L (log_open L p n f) p) \<and>
     (\<forall>f p r. fs_exists L f p \<longrightarrow>
        recs (log_append L p r f) p = recs f p @ [r] \<and> fs_exists L (log_append L p r f) p) \<and>
     (\<forall>f p q. p \<noteq> q \<longrightarrow> recs (sst_write L q f) p = recs f p \<and>
        fs_exists L (sst_write L q f) p = fs_exists L f p) \<and>
     (\<forall>f p q. recs (sst_read L q f) p = recs f p \<and> fs_exists L (sst_read L q f) p = fs_exists L f p) \<and>
     (\<forall>d. path_join L d ''wal'' \<noteq> path_join L d ''sstable'') \<and>
     (\<forall>b. deserialize L (serialize L b) = Some b) \<and>
     (\<forall>k v. batch_put L k v = [\<lparr>mut_type = MutPut, mut_key = k, mut_value = Some v\<rparr>]) \<and>
     (\<forall>k. batch_delete L k = [\<lparr>mut_type = MutDelete, mut_key = k, mut_value = None\<rparr>])"

lemma wal_lawsD:
  assumes "wal_laws L recs"
  shows "log_read L f p k = (if k < length (recs f p) then Some (recs f p ! k) else None)"
    "fs_exists L f p \<Longrightarrow> recs (log_open L p (log_offset L f p (length (recs f p))) f) p = recs f p"
    "\<not> fs_exists L f p \<Longrightarrow> recs (log_open L p 0 f) p = []"
    "fs_exists L (log_open L p n f) p"
    "fs_exists L f p \<Longrightarrow> recs (log_append L p r f) p = recs f p @ [r]"
    "fs_exists L f p \<Longrightarrow> fs_exists L (log_append L p r f) p"
    "p \<noteq> q \<Longrightarrow> recs (sst_write L q f) p = recs f p"
    "p \<noteq> q \<Longrightarrow> fs_exists L (sst_write L q f) p = fs_exists L f p"
    "recs (sst_read L q f) p = recs f p"
    "fs_exists L (sst_read L q f) p = fs_exists L f p"
    "path_join L d ''wal'' \<noteq> path_join L d ''sstable''"
    "deserialize L (serialize L b) = Some b"
    "batch_put L k' v = [\<lparr>mut_type = MutPut, mut_key = k', mut_value = Some v\<rparr>]"
    "batch_delete L k' = [\<lparr>mut_type = MutDelete, mut_key = k', mut_value = None\<rparr>]"
  using assms unfolding wal_laws_def by simp_all

section \<open>Specification: the batches written so far\<close>

definition as_update :: "mutation \<Rightarrow> key \<times> db_value option" where
  "as_update m = (mut_key m, case mut_type m of MutPut \<Rightarrow> mut_value m | MutDelete \<Rightarrow> None)"

definition apply_batch :: "mutation list \<Rightarrow> (key \<rightharpoonup> db_value) \<Rightarrow> key \<rightharpoonup> db_value" where
  "apply_batch b m = fold (\<lambda>u m. m(fst u := snd u)) (map as_update b) m"

definition state_after :: "mutation list list \<Rightarrow> key \<rightharpoonup> db_value" where
  "state_after bs = fold apply_batch bs Map.empty"

definition good_batch :: "mutation list \<Rightarrow> bool" where
  "good_batch b \<longleftrightarrow> (\<forall>m \<in> set b. mut_type m = MutPut \<longrightarrow> mut_value m \<noteq> None)"

definition holds ::
    "('f, 'r) wal_lib \<Rightarrow> ('f \<Rightarrow> db_path \<Rightarrow> 'r list) \<Rightarrow> db_path \<Rightarrow> mutation list list \<Rightarrow> database \<times> 'f \<Rightarrow> bool"
where
  "holds L recs d bs s \<longleftrightarrow> (case s of (db, f) \<Rightarrow>
     dir db = Some d \<and> wal db = Some (path_join L d ''wal'') \<and> om_ok (mem_table db) \<and>
     MemTable_TryGet (mem_table db) = state_after bs \<and> version db = of_nat (length bs) \<and>
     fs_exists L f (path_join L d ''wal'') \<and>
     recs f (path_join L d ''wal'') = map (serialize L) bs \<and> (\<forall>b \<in> set bs. good_batch b))"

lemma state_after_snoc: "state_after (bs @ [b]) = apply_batch b (state_after bs)"
  by (simp add: state_after_def)

lemma apply_mutation_good:
  "mut_type m = MutPut \<longrightarrow> mut_value m \<noteq> None \<Longrightarrow>
   apply_mutation m es = Inr (memtable.update (as_update m) es)"
  by (auto simp: memtable.update_def as_update_def split: mutation_type.split)

lemma res_fold_good:
  "good_batch b \<Longrightarrow>
   res_fold apply_mutation b es = Inr (fold memtable.update (map as_update b) es)"
proof (induction b arbitrary: es)
  case (Cons m b)
  then have "apply_mutation m es = Inr (memtable.update (as_update m) es)"
    by (intro apply_mutation_good) (simp add: good_batch_def)
  with Cons show ?case by (simp add: good_batch_def del: apply_mutation.simps)
qed simp

lemma ApplyToMemTable_good:
  assumes "good_batch b" and "om_ok (mem_table db)"
  shows "\<exists>es. ApplyToMemTable b db = Inr (db\<lparr>mem_table := es\<rparr>) \<and> om_ok es \<and>
    MemTable_TryGet es = apply_batch b (MemTable_TryGet (mem_table db))"
  using assms memtable.wf_fold_update memtable.get_fold_update
  by (auto simp: ApplyToMemTable_def res_fold_good apply_batch_def)

section \<open>Every operation keeps the database in step with the batches\<close>

lemma replay_loop_reads:
  assumes laws: "wal_laws L recs" and recs: "recs f p = map (serialize L) bs"
    and good: "\<forall>b \<in> set bs. good_batch b"
  shows "k \<le> length bs \<Longrightarrow> om_ok (mem_table db) \<Longrightarrow>
    MemTable_TryGet (mem_table db) = state_after (take k bs) \<Longrightarrow> version db = of_nat k \<Longrightarrow>
    \<exists>es. replay_loop L f p k db = Some (Inr (log_offset L f p (length bs),
        db\<lparr>mem_table := es, version := of_nat (length bs)\<rparr>)) \<and>
      om_ok es \<and> MemTable_TryGet es = state_after bs"
proof (induction "length bs - k" arbitrary: k db)
  case 0
  then have "WALReader_ReadNext L f p k = Inr None"
    by (simp add: WALReader_ReadNext_def wal_lawsD(1) [OF laws] recs)
  with 0 show ?case
    by (subst replay_loop.simps) (auto simp: WALReader_WriterOffset_def intro!: exI [of _ "mem_table db"])
next
  case (Suc n)
  then have k: "k < length bs" by simp
  then have "WALReader_ReadNext L f p k = Inr (Some (bs ! k))"
    by (simp add: WALReader_ReadNext_def wal_lawsD(1,12) [OF laws] recs)
  moreover obtain es where es: "ApplyToMemTable (bs ! k) db = Inr (db\<lparr>mem_table := es\<rparr>)" "om_ok es"
      "MemTable_TryGet es = apply_batch (bs ! k) (MemTable_TryGet (mem_table db))"
    using ApplyToMemTable_good [of "bs ! k" db] good k Suc.prems(2) by auto
  ultimately have step: "replay_loop L f p k db =
      replay_loop L f p (Suc k) (db\<lparr>mem_table := es, version := version db + 1\<rparr>)"
    by (subst replay_loop.simps) simp
  have "MemTable_TryGet es = state_after (take (Suc k) bs)"
    using es(3) Suc.prems(3) k by (simp add: take_Suc_conv_app_nth state_after_snoc)
  then show ?case
    unfolding step
    using Suc.hyps(1) [of "Suc k" "db\<lparr>mem_table := es, version := version db + 1\<rparr>"] Suc.hyps(2)
      es(2) k Suc.prems(4) by (simp add: add.commute)
qed

lemma Open_existing:
  assumes laws: "wal_laws L recs" and ex: "fs_exists L f (path_join L d ''wal'')"
    and recs: "recs f (path_join L d ''wal'') = map (serialize L) bs"
    and good: "\<forall>b \<in> set bs. good_batch b"
  shows "\<exists>s. Database_Open L d db f = Some (Inr s) \<and> holds L recs d bs s"
proof -
  let ?p = "path_join L d ''wal''" and ?n = "log_offset L f (path_join L d ''wal'') (length bs)"
  let ?db = "db\<lparr>dir := Some d, wal := Some ?p, mem_table := [], version := 0\<rparr>"
  have "\<exists>es. replay_loop L f ?p 0 ?db = Some (Inr (?n, ?db\<lparr>mem_table := es,
      version := of_nat (length bs)\<rparr>)) \<and> om_ok es \<and> MemTable_TryGet es = state_after bs"
    by (rule replay_loop_reads [OF laws recs good])
      (auto simp: state_after_def MemTable_TryGet_def)
  then obtain es where es: "replay_loop L f ?p 0 ?db = Some (Inr (?n, ?db\<lparr>mem_table := es,
      version := of_nat (length bs)\<rparr>))" "om_ok es" "MemTable_TryGet es = state_after bs" by blast
  have "recs (log_open L ?p ?n f) ?p = recs f ?p"
    using wal_lawsD(2) [OF laws ex] recs by simp
  with es ex good recs show ?thesis
    by (auto simp: holds_def database_defs ReplayWAL_def MemTable_Clear_def Let_def
        wal_lawsD(4,7,8,11) [OF laws])
qed

lemma Open_fresh:
  assumes laws: "wal_laws L recs" and ex: "\<not> fs_exists L f (path_join L d ''wal'')"
  shows "\<exists>s. Database_Open L d Database_init f = Some (Inr s) \<and> holds L recs d [] s"
  using ex wal_lawsD(3) [OF laws ex]
  by (auto simp: holds_def database_defs ReplayWAL_def MemTable_Clear_def Let_def Database_init_def
      wal_lawsD(4,7,8,11) [OF laws] state_after_def MemTable_TryGet_def)

lemma DoWrite_holds:
  assumes laws: "wal_laws L recs" and h: "holds L recs d bs (db, f)" and b: "good_batch b"
  shows "\<exists>s. DoWrite L b db f = Inr s \<and> holds L recs d (bs @ [b]) s"
proof -
  obtain es where es: "ApplyToMemTable b db = Inr (db\<lparr>mem_table := es\<rparr>)" "om_ok es"
      "MemTable_TryGet es = apply_batch b (MemTable_TryGet (mem_table db))"
    using ApplyToMemTable_good [OF b, of db] h by (auto simp: holds_def)
  with h b show ?thesis
    by (auto simp: DoWrite_def WALWriter_Append_def holds_def state_after_snoc
        wal_lawsD(5,6) [OF laws])
qed

lemma TryGet_holds:
  assumes laws: "wal_laws L recs" and h: "holds L recs d bs (db, f)"
  shows "\<exists>f'. Database_TryGet L miss k db f = Inr (state_after bs k, f') \<and>
    holds L recs d bs (db, f')"
  using h by (auto simp: database_defs holds_def wal_lawsD(9,10) [OF laws])

lemma IteratorMove_holds:
  assumes laws: "wal_laws L recs" and h: "holds L recs d bs (db, f)"
  shows "holds L recs d bs (db, foldl (\<lambda>f miss. Database_IteratorMove L miss db f) f misses)"
  using h by (induction misses arbitrary: f)
    (auto simp: database_defs Database_IteratorMove_def holds_def wal_lawsD(9,10) [OF laws])

section \<open>A life of the database\<close>

text \<open>Client calls, crashes of the node, and crashes in the middle of a write, before or after the log
  record reached the disk. After a crash the node starts with a new object and opens the directory.\<close>

datatype db_op =
    DPut key db_value
  | DDelete key
  | DWrite "mutation list"
  | DGet key bool
  | DCrash
  | DCrashInWrite "mutation list" bool

fun db_step :: "('f, 'r) wal_lib \<Rightarrow> db_path \<Rightarrow> db_op \<Rightarrow> database \<times> 'f \<Rightarrow> (database \<times> 'f) res option" where
  "db_step L d (DPut k v) (db, f) = Some (Database_Put L k v db f)"
| "db_step L d (DDelete k) (db, f) = Some (Database_Delete L k db f)"
| "db_step L d (DWrite b) (db, f) = Some (Database_Write L b db f)"
| "db_step L d (DGet k miss) (db, f) =
     Some (res_bind (Database_TryGet L miss k db f) (\<lambda>r. Inr (db, snd r)))"
| "db_step L d DCrash (db, f) = Database_Open L d Database_init f"
| "db_step L d (DCrashInWrite b logged) (db, f) = Database_Open L d Database_init
     (if logged then WALWriter_Append L (LogPath L db) b f else f)"

fun db_run :: "('f, 'r) wal_lib \<Rightarrow> db_path \<Rightarrow> db_op list \<Rightarrow> database \<times> 'f \<Rightarrow> (database \<times> 'f) res option" where
  "db_run L d [] s = Some (Inr s)"
| "db_run L d (op # ops) s =
     (case db_step L d op s of
        Some (Inr s') \<Rightarrow> db_run L d ops s'
      | r \<Rightarrow> r)"

text \<open>The batches an operation makes durable.\<close>

fun db_log :: "db_op \<Rightarrow> mutation list list" where
  "db_log (DPut k v) = [[\<lparr>mut_type = MutPut, mut_key = k, mut_value = Some v\<rparr>]]"
| "db_log (DDelete k) = [[\<lparr>mut_type = MutDelete, mut_key = k, mut_value = None\<rparr>]]"
| "db_log (DWrite b) = [b]"
| "db_log (DGet k miss) = []"
| "db_log DCrash = []"
| "db_log (DCrashInWrite b logged) = (if logged then [b] else [])"

lemma db_step_holds:
  assumes laws: "wal_laws L recs" and h: "holds L recs d bs s" and good: "\<forall>b \<in> set (db_log op). good_batch b"
  shows "\<exists>s'. db_step L d op s = Some (Inr s') \<and> holds L recs d (bs @ db_log op) s'"
proof -
  obtain db f where s: "s = (db, f)" by (cases s)
  have opened: "EnsureOpened db k = k" and path: "LogPath L db = path_join L d ''wal''" for k :: "'c res"
    using h by (auto simp: s holds_def EnsureOpened_def LogPath_def)
  note h' = h [unfolded s]
  have disk: "fs_exists L f (path_join L d ''wal'')" "recs f (path_join L d ''wal'') = map (serialize L) bs"
      "\<forall>b \<in> set bs. good_batch b"
    using h' by (auto simp: holds_def)
  show ?thesis
  proof (cases op)
    case (DGet k miss)
    then show ?thesis using TryGet_holds [OF laws h', of miss k] by (auto simp: s)
  next
    case DCrash
    then show ?thesis using Open_existing [OF laws disk] by (simp add: s)
  next
    case (DCrashInWrite b logged)
    show ?thesis
    proof (cases logged)
      case True
      then have "\<exists>s. Database_Open L d Database_init (log_append L (path_join L d ''wal'') (serialize L b) f) =
          Some (Inr s) \<and> holds L recs d (bs @ [b]) s"
        using good disk DCrashInWrite
        by (intro Open_existing [OF laws]) (auto simp: wal_lawsD(5,6) [OF laws])
      with True DCrashInWrite show ?thesis by (simp add: s path WALWriter_Append_def)
    next
      case False
      with DCrashInWrite Open_existing [OF laws disk] show ?thesis by (simp add: s)
    qed
  qed (use good DoWrite_holds [OF laws h'] in
      \<open>simp_all add: s Database_Put_def Database_Delete_def Database_Write_def opened wal_lawsD(13,14) [OF laws]\<close>)
qed

lemma db_run_holds:
  assumes laws: "wal_laws L recs"
  shows "holds L recs d bs s \<Longrightarrow> \<forall>op \<in> set ops. \<forall>b \<in> set (db_log op). good_batch b \<Longrightarrow>
    \<exists>s'. db_run L d ops s = Some (Inr s') \<and> holds L recs d (bs @ concat (map db_log ops)) s'"
proof (induction ops arbitrary: bs s)
  case (Cons op ops)
  from Cons.prems db_step_holds [OF laws Cons.prems(1), of op] obtain s1
    where s1: "db_step L d op s = Some (Inr s1)" "holds L recs d (bs @ db_log op) s1" by auto
  from Cons.IH [OF s1(2)] Cons.prems(2) s1(1) show ?case by simp
qed simp

section \<open>A disk for the examples\<close>

text \<open>A disk that keeps the records of each log in a list.\<close>

definition list_disk :: "(db_path \<Rightarrow> mutation list list option, mutation list) wal_lib" where
  "list_disk = \<lparr>
     fs_exists = (\<lambda>f p. f p \<noteq> None),
     log_open = (\<lambda>p n f. f(p \<mapsto> take n (case f p of None \<Rightarrow> [] | Some rs \<Rightarrow> rs))),
     log_append = (\<lambda>p r f. f(p \<mapsto> (case f p of None \<Rightarrow> [] | Some rs \<Rightarrow> rs) @ [r])),
     log_read = (\<lambda>f p k. case f p of None \<Rightarrow> None | Some rs \<Rightarrow> if k < length rs then Some (rs ! k) else None),
     log_offset = (\<lambda>f p k. k),
     sst_write = (\<lambda>p f. f(p \<mapsto> [])),
     sst_read = (\<lambda>p f. f),
     path_join = (\<lambda>d n. d @ ''/'' @ n),
     serialize = (\<lambda>b. b),
     deserialize = Some,
     batch_put = (\<lambda>k v. [\<lparr>mut_type = MutPut, mut_key = k, mut_value = Some v\<rparr>]),
     batch_delete = (\<lambda>k. [\<lparr>mut_type = MutDelete, mut_key = k, mut_value = None\<rparr>])\<rparr>"

lemma list_disk_laws: "wal_laws list_disk (\<lambda>f p. case f p of None \<Rightarrow> [] | Some rs \<Rightarrow> rs)"
  by (simp add: wal_laws_def list_disk_def split: option.split)

section \<open>Iterators\<close>

text \<open>\<open>db/iterator.cpp\<close>: a position in the entries of a snapshot. \<open>Move\<close> only costs time (it may access
  the disk); the model counts the calls.\<close>

record db_iterator =
  it_entries :: entries
  it_valid :: bool
  it_pos :: nat
  it_moves :: nat

definition Iterator_Move :: "db_iterator \<Rightarrow> db_iterator" where
  "Iterator_Move i = i\<lparr>it_moves := Suc (it_moves i)\<rparr>"

definition Iterator_EnsureValid :: "db_iterator \<Rightarrow> 'a res \<Rightarrow> 'a res" where
  "Iterator_EnsureValid i k = verify (it_valid i) ''Invalid iterator'' k"

definition Iterator_Key :: "db_iterator \<Rightarrow> key res" where
  "Iterator_Key i = Iterator_EnsureValid i (Inr (fst (it_entries i ! it_pos i)))"

definition Iterator_Value :: "db_iterator \<Rightarrow> db_value res" where
  "Iterator_Value i = Iterator_EnsureValid i (Inr (snd (it_entries i ! it_pos i)))"

definition Iterator_SeekToFirst :: "db_iterator \<Rightarrow> db_iterator" where
  "Iterator_SeekToFirst i =
     (if it_entries i = [] then i\<lparr>it_valid := False\<rparr>
      else Iterator_Move (i\<lparr>it_valid := True, it_pos := 0\<rparr>))"

definition Iterator_SeekToLast :: "db_iterator \<Rightarrow> db_iterator" where
  "Iterator_SeekToLast i =
     (if it_entries i = [] then i\<lparr>it_valid := False\<rparr>
      else Iterator_Move (i\<lparr>it_valid := True, it_pos := length (it_entries i) - 1\<rparr>))"

definition Iterator_Seek :: "key \<Rightarrow> db_iterator \<Rightarrow> db_iterator" where
  "Iterator_Seek target i =
     (let i = i\<lparr>it_pos := om_lower_bound (it_entries i) target\<rparr> in
      if it_pos i \<noteq> length (it_entries i) then Iterator_Move (i\<lparr>it_valid := True\<rparr>)
      else i\<lparr>it_valid := False\<rparr>)"

definition Iterator_Next :: "db_iterator \<Rightarrow> db_iterator res" where
  "Iterator_Next i = Iterator_EnsureValid i
     (let i = i\<lparr>it_pos := Suc (it_pos i)\<rparr> in
      if it_pos i \<noteq> length (it_entries i) then Inr (Iterator_Move i) else Inr (i\<lparr>it_valid := False\<rparr>))"

definition Iterator_Prev :: "db_iterator \<Rightarrow> db_iterator res" where
  "Iterator_Prev i = Iterator_EnsureValid i
     (if it_pos i \<noteq> 0 then Inr (Iterator_Move (i\<lparr>it_pos := it_pos i - 1\<rparr>)) else Inr (i\<lparr>it_valid := False\<rparr>))"

definition MakeIterator :: "snapshot \<Rightarrow> db_iterator" where
  "MakeIterator s = Iterator_SeekToFirst
     \<lparr>it_entries = snap_entries s, it_valid = False, it_pos = 0, it_moves = 0\<rparr>"

lemmas iterator_defs = Iterator_Move_def Iterator_EnsureValid_def Iterator_Key_def Iterator_Value_def
  Iterator_SeekToFirst_def Iterator_SeekToLast_def Iterator_Seek_def Iterator_Next_def
  Iterator_Prev_def MakeIterator_def

text \<open>Reading key and value and moving on until the iterator is no longer valid.\<close>

fun scan :: "(db_iterator \<Rightarrow> db_iterator res) \<Rightarrow> nat \<Rightarrow> db_iterator \<Rightarrow> entries res option" where
  "scan move 0 i = None"
| "scan move (Suc n) i =
     (if \<not> it_valid i then Some (Inr [])
      else map_option (\<lambda>r. res_bind (Iterator_Key i) (\<lambda>k. res_bind (Iterator_Value i) (\<lambda>v.
             res_bind r (\<lambda>es. Inr ((k, v) # es)))))
        (case move i of Inl e \<Rightarrow> Some (Inl e) | Inr i' \<Rightarrow> scan move n i'))"

lemma Key_Value:
  "it_valid i \<Longrightarrow> Iterator_Key i = Inr (fst (it_entries i ! it_pos i))"
  "it_valid i \<Longrightarrow> Iterator_Value i = Inr (snd (it_entries i ! it_pos i))"
  by (simp_all add: iterator_defs)

lemma Next_Prev:
  "it_valid i \<Longrightarrow> Suc (it_pos i) \<noteq> length (it_entries i) \<Longrightarrow>
     Iterator_Next i = Inr (i\<lparr>it_pos := Suc (it_pos i), it_moves := Suc (it_moves i)\<rparr>)"
  "it_valid i \<Longrightarrow> it_pos i = Suc k \<Longrightarrow>
     Iterator_Prev i = Inr (i\<lparr>it_pos := k, it_moves := Suc (it_moves i)\<rparr>)"
  by (simp_all add: iterator_defs Let_def)

lemma scan_forward:
  "it_valid i \<Longrightarrow> it_pos i < length (it_entries i) \<Longrightarrow> length (it_entries i) - it_pos i < n \<Longrightarrow>
   scan Iterator_Next n i = Some (Inr (drop (it_pos i) (it_entries i)))"
proof (induction n arbitrary: i)
  case (Suc n)
  show ?case
  proof (cases "Suc (it_pos i) = length (it_entries i)")
    case True
    then have "drop (it_pos i) (it_entries i) = [it_entries i ! it_pos i]"
      using Suc.prems(2) by (simp flip: Cons_nth_drop_Suc)
    moreover obtain m where "n = Suc m" using Suc.prems by (cases n) auto
    ultimately show ?thesis using True Suc.prems by (simp add: iterator_defs)
  next
    case False
    let ?i = "i\<lparr>it_pos := Suc (it_pos i), it_moves := Suc (it_moves i)\<rparr>"
    have "scan Iterator_Next n ?i = Some (Inr (drop (Suc (it_pos i)) (it_entries i)))"
      using Suc.IH [of ?i] Suc.prems False by simp
    then show ?thesis
      using Suc.prems False by (simp add: Key_Value Next_Prev Cons_nth_drop_Suc)
  qed
qed simp

lemma scan_backward:
  "it_valid i \<Longrightarrow> it_pos i < length (it_entries i) \<Longrightarrow> it_pos i + 1 < n \<Longrightarrow>
   scan Iterator_Prev n i = Some (Inr (rev (take (Suc (it_pos i)) (it_entries i))))"
proof (induction n arbitrary: i)
  case (Suc n)
  show ?case
  proof (cases "it_pos i")
    case 0
    moreover obtain m where "n = Suc m" using Suc.prems by (cases n) auto
    ultimately show ?thesis using Suc.prems by (simp add: iterator_defs take_Suc_conv_app_nth)
  next
    case (Suc k)
    let ?i = "i\<lparr>it_pos := k, it_moves := Suc (it_moves i)\<rparr>"
    have "scan Iterator_Prev n ?i = Some (Inr (rev (take (Suc k) (it_entries i))))"
      using Suc.IH [of ?i] Suc.prems Suc by simp
    then show ?thesis
      using Suc.prems Suc by (simp add: Key_Value Next_Prev take_Suc_conv_app_nth)
  qed
qed simp

text \<open>The scans of a snapshot.\<close>

lemma scan_all: "scan Iterator_Next (Suc (length (snap_entries s))) (MakeIterator s) = Some (Inr (snap_entries s))"
proof (cases "snap_entries s = []")
  case True
  then show ?thesis by (simp add: iterator_defs)
next
  case False
  then have "it_valid (MakeIterator s)" "it_pos (MakeIterator s) = 0" "it_entries (MakeIterator s) = snap_entries s"
    by (simp_all add: iterator_defs)
  then show ?thesis using scan_forward [of "MakeIterator s" "Suc (length (snap_entries s))"] False by simp
qed

lemma scan_reverse:
  "scan Iterator_Prev (Suc (length (snap_entries s))) (Iterator_SeekToLast (MakeIterator s)) = Some (Inr (rev (snap_entries s)))"
proof (cases "snap_entries s = []")
  case True
  then show ?thesis by (simp add: iterator_defs)
next
  case False
  let ?l = "Iterator_SeekToLast (MakeIterator s)"
  from False have "it_valid ?l" "Suc (it_pos ?l) = length (snap_entries s)" "it_entries ?l = snap_entries s"
    by (auto simp: iterator_defs)
  then show ?thesis using scan_backward [of ?l "Suc (length (snap_entries s))"] False by simp
qed

lemma filter_lower_bound:
  assumes "om_ok es"
  shows "filter (\<lambda>e. target \<le> fst e) es = drop (om_lower_bound es target) es"
proof -
  let ?k = "om_lower_bound es target"
  have "filter (\<lambda>e. target \<le> fst e) (take ?k es) = []"
    using om_lower_bound_less [of _ es target]
    by (fastforce simp: filter_empty_conv in_set_conv_nth not_le)
  moreover have "target \<le> fst e" if e: "e \<in> set (drop ?k es)" for e
  proof -
    obtain i where "i < length es - ?k" "e = es ! (?k + i)"
      using e by (auto simp: in_set_conv_nth)
    then show ?thesis using om_lower_bound_ge [OF assms, of target "?k + i"] by simp
  qed
  then have "filter (\<lambda>e. target \<le> fst e) (drop ?k es) = drop ?k es" by simp
  ultimately show ?thesis by (metis append_Nil append_take_drop_id filter_append)
qed

lemma scan_from:
  assumes "om_ok (snap_entries s)"
  shows "scan Iterator_Next (Suc (length (snap_entries s))) (Iterator_Seek target (MakeIterator s)) =
      Some (Inr (filter (\<lambda>e. target \<le> fst e) (snap_entries s)))"
proof -
  let ?es = "snap_entries s" and ?j = "Iterator_Seek target (MakeIterator s)"
  let ?k = "om_lower_bound ?es target"
  have j: "it_entries ?j = ?es" "it_pos ?j = ?k" "it_valid ?j \<longleftrightarrow> ?k \<noteq> length ?es"
    by (auto simp: iterator_defs Let_def)
  show ?thesis
  proof (cases "?k = length ?es")
    case True
    then show ?thesis using j filter_lower_bound [OF assms, of target] by simp
  next
    case False
    then have "?k < length ?es" using om_lower_bound_le [of ?es target] by simp
    then show ?thesis using scan_forward [of ?j "Suc (length ?es)"] j filter_lower_bound [OF assms, of target] by simp
  qed
qed

section \<open>Properties\<close>

text \<open>C13. Durability and atomicity. Whatever sequence of writes, reads, crashes and crashes in the middle
  of a write a database lives through, starting from an empty directory, no call aborts, replaying the
  log ends, and the database answers every read from the batches written so far, in order: all of a
  batch or, when the crash came before its log record, none of it. The version counts the batches.\<close>

theorem database_durable:
  assumes "wal_laws L recs" and "\<not> fs_exists L f0 (path_join L d ''wal'')"
    and "Database_Open L d Database_init f0 = Some (Inr s0)"
    and "\<forall>op \<in> set ops. \<forall>b \<in> set (db_log op). good_batch b"
  shows "\<exists>db f. db_run L d ops s0 = Some (Inr (db, f)) \<and>
    (\<forall>k miss. \<exists>f'. Database_TryGet L miss k db f =
       Inr (state_after (concat (map db_log ops)) k, f')) \<and>
    version db = of_nat (length (concat (map db_log ops)))"
proof -
  from Open_fresh [OF assms(1,2)] assms(3) have "holds L recs d [] s0" by auto
  from db_run_holds [OF assms(1) this assms(4)] obtain db f
    where run: "db_run L d ops s0 = Some (Inr (db, f))"
      and h: "holds L recs d (concat (map db_log ops)) (db, f)" by auto
  have "\<exists>f'. Database_TryGet L miss k db f = Inr (state_after (concat (map db_log ops)) k, f')" for k miss
    using TryGet_holds [OF assms(1) h] by blast
  with run h show ?thesis by (auto simp: holds_def)
qed

theorem database_durable_witness:
  "\<exists>s0 db f. Database_Open list_disk ''/db'' Database_init Map.empty = Some (Inr s0) \<and>
     db_run list_disk ''/db'' [DPut ''a'' ''1'', DPut ''b'' ''2'', DCrash,
       DCrashInWrite [\<lparr>mut_type = MutDelete, mut_key = ''a'', mut_value = None\<rparr>] True] s0 =
       Some (Inr (db, f)) \<and>
     (\<forall>miss. \<exists>f'. Database_TryGet list_disk miss ''a'' db f = Inr (None, f')) \<and>
     (\<forall>miss. \<exists>f'. Database_TryGet list_disk miss ''b'' db f = Inr (Some ''2'', f')) \<and> version db = 3"
proof -
  let ?ops = "[DPut ''a'' ''1'', DPut ''b'' ''2'', DCrash,
       DCrashInWrite [\<lparr>mut_type = MutDelete, mut_key = ''a'', mut_value = None\<rparr>] True]"
  have fresh: "\<not> fs_exists list_disk Map.empty (path_join list_disk ''/db'' ''wal'')"
    by (simp add: list_disk_def)
  obtain s0 where s0: "Database_Open list_disk ''/db'' Database_init Map.empty = Some (Inr s0)"
    using Open_fresh [OF list_disk_laws fresh] by blast
  have "state_after (concat (map db_log ?ops)) ''a'' = None"
      "state_after (concat (map db_log ?ops)) ''b'' = Some ''2''"
    by (simp_all add: state_after_def apply_batch_def as_update_def)
  moreover have good: "\<forall>op \<in> set ?ops. \<forall>b \<in> set (db_log op). good_batch b"
    by (simp add: good_batch_def)
  obtain db f
    where run: "db_run list_disk ''/db'' ?ops s0 = Some (Inr (db, f))"
      and get: "\<And>k miss. \<exists>f'. Database_TryGet list_disk miss k db f =
        Inr (state_after (concat (map db_log ?ops)) k, f')"
      and ver: "version db = of_nat (length (concat (map db_log ?ops)))"
    using database_durable [OF list_disk_laws fresh s0 good] by blast
  ultimately have "\<forall>miss. \<exists>f'. Database_TryGet list_disk miss ''a'' db f = Inr (None, f')"
      "\<forall>miss. \<exists>f'. Database_TryGet list_disk miss ''b'' db f = Inr (Some ''2'', f')"
    by metis+
  moreover have "version db = 3" using ver by simp
  ultimately show ?thesis using s0 run by blast
qed

text \<open>C27. A scan of a snapshot visits exactly its entries in ascending key order: from \<open>SeekToFirst\<close> all of
  them, from \<open>Seek(target)\<close> those not below the target, and backwards from \<open>SeekToLast\<close> all of them in
  reverse. Each scan ends, and no step of it aborts.\<close>

theorem iterator_scans:
  assumes "om_ok (snap_entries s)"
  defines "n \<equiv> Suc (length (snap_entries s))"
  shows "scan Iterator_Next n (MakeIterator s) = Some (Inr (snap_entries s)) \<and>
    scan Iterator_Next n (Iterator_Seek target (MakeIterator s)) =
      Some (Inr (filter (\<lambda>e. target \<le> fst e) (snap_entries s))) \<and>
    scan Iterator_Prev n (Iterator_SeekToLast (MakeIterator s)) = Some (Inr (rev (snap_entries s)))"
  unfolding n_def using scan_all scan_from [OF assms(1)] scan_reverse by blast

theorem iterator_scans_witness:
  "scan Iterator_Next 4 (Iterator_Seek ''b'' (MakeIterator
     \<lparr>snap_entries = [(''a'', ''1''), (''bc'', ''2''), (''d'', ''3'')], snap_version = 3\<rparr>)) =
   Some (Inr [(''bc'', ''2''), (''d'', ''3'')])"
  using iterator_scans [of "\<lparr>snap_entries = [(''a'', ''1''), (''bc'', ''2''), (''d'', ''3'')],
    snap_version = 3\<rparr>" "''b''"]
  by (simp add: om_ok_def eval_nat_numeral)

text \<open>Opening a database again in a directory without a log keeps the version of the old one although
  the table is empty: \<open>ReplayWAL\<close> returns before it resets the counter.\<close>

theorem reopen_keeps_version:
  assumes "\<not> fs_exists L f (path_join L d ''wal'')"
  shows "\<exists>db' f'. Database_Open L d db f = Some (Inr (db', f')) \<and> mem_table db' = [] \<and>
    version db' = version db"
  using assms by (auto simp: database_defs ReplayWAL_def MemTable_Clear_def Let_def)

theorem reopen_keeps_version_witness:
  "\<exists>db' f'. Database_Open list_disk ''/other''
      \<lparr>dir = Some ''/db'', mem_table = [(''a'', ''1'')], wal = Some ''/db/wal'', version = 1\<rparr> Map.empty =
      Some (Inr (db', f')) \<and> mem_table db' = [] \<and> version db' = 1"
  using reopen_keeps_version [of list_disk Map.empty "''/other''"
      "\<lparr>dir = Some ''/db'', mem_table = [(''a'', ''1'')], wal = Some ''/db/wal'', version = 1\<rparr>"]
  by (simp add: list_disk_def)

end
