(* ===== verification/Clocks.thy ===== *)
theory Clocks
  imports Scheduler
begin

text \<open>
  \<open>time/time.hpp\<close>, \<open>clocks/{drift,monotonic,wall}.hpp\<close> and the time services of
  \<open>server/runtime/{time,true_time}.hpp\<close>: virtual time and what a node sees of it. All values are
  64-bit words; what the server's time model draws (drift, offsets, uncertainty) is an argument.
\<close>

section \<open>Virtual time\<close>

definition FastForwardTo :: "time_point \<Rightarrow> time_point \<Rightarrow> time_point res" where
  "FastForwardTo future now = verify (future \<ge> now) ''Cannot fast-forward time'' (Inr future)"

section \<open>Drift\<close>

text \<open>The \<open>int\<close> sum \<open>100 + drift\<close> is converted to \<open>uint64_t\<close> for the product and the quotient. A
  drift of -100 makes \<open>SleepOrTimeout\<close> divide by zero.\<close>

definition rate :: "int \<Rightarrow> u64" where
  "rate drift = word_of_int (100 + drift)"

definition Drift_Elapsed :: "int \<Rightarrow> jiffies \<Rightarrow> jiffies" where
  "Drift_Elapsed drift real = (real * rate drift) div 100"

definition Drift_SleepOrTimeout :: "int \<Rightarrow> jiffies \<Rightarrow> jiffies res" where
  "Drift_SleepOrTimeout drift user =
     (if user = 0 then Inr 0
      else if rate drift = 0 then Inl (Undefined ''division by zero'')
      else let real = (user * 100) div rate drift in Inr (max real 1))"

section \<open>Clocks\<close>

record monotonic_clock =
  drift :: int
  last_reset :: time_point
  init :: time_point

definition MonotonicClock :: monotonic_clock where
  "MonotonicClock = \<lparr>drift = 0, last_reset = 0, init = 0\<rparr>"

definition MonotonicClock_Reset :: "time_point \<Rightarrow> time_point \<Rightarrow> monotonic_clock \<Rightarrow> monotonic_clock" where
  "MonotonicClock_Reset reset_value now c = c\<lparr>init := reset_value, last_reset := now\<rparr>"

definition MonotonicClock_Init ::
    "int \<Rightarrow> time_point \<Rightarrow> time_point \<Rightarrow> monotonic_clock \<Rightarrow> monotonic_clock" where
  "MonotonicClock_Init init_drift reset_value now c =
     MonotonicClock_Reset reset_value now (c\<lparr>drift := init_drift\<rparr>)"

definition ElapsedSinceLastReset :: "monotonic_clock \<Rightarrow> time_point \<Rightarrow> jiffies" where
  "ElapsedSinceLastReset c now = now - last_reset c"

definition MonotonicClock_Now :: "monotonic_clock \<Rightarrow> time_point \<Rightarrow> time_point" where
  "MonotonicClock_Now c now = Drift_Elapsed (drift c) (ElapsedSinceLastReset c now) + init c"

definition MonotonicClock_SleepOrTimeout :: "monotonic_clock \<Rightarrow> jiffies \<Rightarrow> jiffies res" where
  "MonotonicClock_SleepOrTimeout c delay = Drift_SleepOrTimeout (drift c) delay"

type_synonym wall_clock = jiffies

definition WallClock_Init :: "jiffies \<Rightarrow> wall_clock \<Rightarrow> wall_clock" where
  "WallClock_Init offset c = offset"

definition WallClock_AdjustOffset :: "jiffies \<Rightarrow> wall_clock \<Rightarrow> wall_clock" where
  "WallClock_AdjustOffset offset c = offset"

definition WallClock_Now :: "wall_clock \<Rightarrow> time_point \<Rightarrow> time_point" where
  "WallClock_Now c now = now + c"

section \<open>Time services of a node\<close>

definition ToRealTimeDelay :: "monotonic_clock \<Rightarrow> jiffies \<Rightarrow> jiffies res" where
  "ToRealTimeDelay c delay = MonotonicClock_SleepOrTimeout c delay"

definition AfterRealTime :: "monotonic_clock \<Rightarrow> time_point \<Rightarrow> jiffies \<Rightarrow> time_point res" where
  "AfterRealTime c now delay = res_bind (ToRealTimeDelay c delay) (\<lambda>d. Inr (now + d))"

text \<open>The callback \<open>cb\<close> fulfils the promise of the timer.\<close>

definition AfterJiffies ::
    "monotonic_clock \<Rightarrow> time_point \<Rightarrow> jiffies \<Rightarrow> 't \<Rightarrow> 't scheduler \<Rightarrow> 't scheduler res" where
  "AfterJiffies c now d cb q =
     res_bind (AfterRealTime c now d) (\<lambda>after. Inr (Scheduler_Schedule after cb q))"

definition TrueTime_Now :: "jiffies \<Rightarrow> time_point \<Rightarrow> time_point \<times> time_point" where
  "TrueTime_Now u now =
     (let earliest = (if now > u then now - u else 0); latest = now + u in (earliest, latest))"

text \<open>\<open>ThreadPool::Submit\<close>: tasks of fibers run at the current time.\<close>

definition ThreadPool_Submit :: "time_point \<Rightarrow> 't \<Rightarrow> 't scheduler \<Rightarrow> 't scheduler" where
  "ThreadPool_Submit now t q = Scheduler_Schedule now t q"

section \<open>Arithmetic of drifting clocks\<close>

definition sane_drift :: "int \<Rightarrow> bool" where
  "sane_drift dr \<longleftrightarrow> -99 \<le> dr \<and> dr \<le> 1000000"

lemma unat_rate: "sane_drift dr \<Longrightarrow> unat (rate dr) = nat (100 + dr)"
proof -
  assume "sane_drift dr"
  then have "0 \<le> 100 + dr" "100 + dr < 2 ^ 64" by (simp_all add: sane_drift_def)
  then have "uint (word_of_int (100 + dr) :: u64) = 100 + dr"
    by (simp only: uint_word_of_int take_bit_eq_mod mod_pos_pos_trivial len_of_numeral_defs) simp
  then show ?thesis by (simp only: rate_def unat_eq_nat_uint)
qed

lemma rate_pos: "sane_drift dr \<Longrightarrow> rate dr \<noteq> 0"
  using unat_rate [of dr] by (auto simp: sane_drift_def)

lemma unat_mult_bounded: "unat a < 2 ^ 40 \<Longrightarrow> unat b < 2 ^ 24 \<Longrightarrow> unat (a * b) = unat a * unat b"
  for a b :: u64
proof -
  assume "unat a < 2 ^ 40" "unat b < 2 ^ 24"
  then have "unat a * unat b < 2 ^ 40 * 2 ^ 24" by (intro mult_strict_mono) auto
  then show ?thesis unfolding unat_word_ariths(2) by simp
qed

lemma unat_Elapsed:
  assumes "sane_drift dr" and "unat real < 2 ^ 40"
  shows "unat (Drift_Elapsed dr real) = unat real * nat (100 + dr) div 100"
proof -
  have "unat (rate dr) < 2 ^ 24" using assms(1) by (auto simp: unat_rate sane_drift_def)
  then show ?thesis
    using assms by (simp add: Drift_Elapsed_def unat_div unat_mult_bounded unat_rate)
qed

lemma unat_Sleep:
  assumes "sane_drift dr" and "unat user < 2 ^ 40"
  shows "\<exists>real. Drift_SleepOrTimeout dr user = Inr real \<and>
    unat real = (if user = 0 then 0 else max (unat user * 100 div nat (100 + dr)) 1)"
proof -
  have "unat (max ((user * 100) div rate dr) 1) = max (unat user * 100 div nat (100 + dr)) 1"
    using assms by (auto simp: max_def word_le_nat_alt unat_div unat_rate unat_mult_bounded)
  then show ?thesis using rate_pos [OF assms(1)] by (auto simp: Drift_SleepOrTimeout_def Let_def)
qed

lemma div_add_bounds:
  "(a + b) div 100 \<le> a div 100 + b div 100 + 1" "a div 100 + b div 100 \<le> (a + b) div 100" for a b :: nat
  by linarith+

text \<open>The two roundings of a timer: \<open>r\<close> is the real delay computed from the user's delay \<open>u\<close>.\<close>

lemma rounding:
  fixes u d :: nat
  assumes "0 < d"
  defines "r \<equiv> (u * 100) div d"
  shows "r * d div 100 \<le> u" and "u \<le> r * d div 100 + d div 100 + 1"
proof -
  have "r * d \<le> u * 100" by (simp add: r_def)
  then show "r * d div 100 \<le> u" by linarith
  have "u * 100 < r * d + d"
    using assms(1) dividend_less_div_times [of d "u * 100"] by (simp add: r_def add.commute)
  then show "u \<le> r * d div 100 + d div 100 + 1" by linarith
qed

section \<open>Properties\<close>

lemma MonotonicClock_reading:
  assumes sane: "sane_drift (drift c)" and t: "unat (t - last_reset c) < 2 ^ 39" and init: "unat (init c) < 2 ^ 62"
  shows "unat (MonotonicClock_Now c t) = unat (t - last_reset c) * nat (100 + drift c) div 100 + unat (init c)"
proof -
  have "nat (100 + drift c) < 2 ^ 24" using sane by (auto simp: sane_drift_def)
  then have "unat (t - last_reset c) * nat (100 + drift c) < 2 ^ 39 * 2 ^ 24"
    using t by (intro mult_strict_mono) auto
  then have "unat (t - last_reset c) * nat (100 + drift c) div 100 < 2 ^ 62" by (intro less_mult_imp_div_less) simp
  then show ?thesis
    using unat_Elapsed [OF sane, of "t - last_reset c"] t init
    by (simp add: MonotonicClock_Now_def ElapsedSinceLastReset_def unat_word_ariths)
qed

text \<open>The real delay of a timer: at least one jiffy, and right on the drifting clock up to rounding.\<close>

lemma Drift_delay:
  assumes sane: "sane_drift f" and u: "0 < u" "unat u < 2 ^ 30"
  defines "d \<equiv> nat (100 + f)"
  obtains real where "Drift_SleepOrTimeout f u = Inr real" and "0 < unat real" and "unat real < 2 ^ 38"
    and "unat real * d div 100 \<le> max (unat u) (d div 100)" and "unat u \<le> unat real * d div 100 + d div 100 + 1"
proof -
  have d: "0 < d" "d < 2 ^ 24" using sane by (auto simp: d_def sane_drift_def)
  let ?q = "unat u * 100 div d"
  obtain real where real: "Drift_SleepOrTimeout f u = Inr real" "unat real = max ?q 1"
    using unat_Sleep [OF sane, of u] u by (auto simp: d_def)
  have "unat u * 100 < 2 ^ 38" using u by simp
  then have "?q < 2 ^ 38" using div_le_dividend [of "unat u * 100" d] by (rule le_less_trans [rotated])
  then have small: "unat real < 2 ^ 38" using real(2) by simp
  have up: "unat real * d div 100 \<le> max (unat u) (d div 100)"
    using rounding(1) [OF d(1), of "unat u"] real(2) by (cases "?q < 1") (simp_all add: max_def)
  have "?q * d div 100 \<le> unat real * d div 100" using real(2) by (intro div_le_mono mult_le_mono1) simp
  then have low: "unat u \<le> unat real * d div 100 + d div 100 + 1"
    using rounding(2) [OF d(1), of "unat u"] by linarith
  have "0 < unat real" using real(2) by simp
  from that [OF real(1) this small up low] show thesis .
qed

text \<open>C23. Timers are accurate on the clock of the node that sets them: for a clock whose drift keeps it
  running (and at most \<open>10001\<close> times as fast as the world, in runs of at most \<open>2^39\<close> jiffies), the task of a
  timer of \<open>u > 0\<close> jiffies is scheduled strictly later in virtual time, the reading of the node's
  monotonic clock at that time shows at most \<open>u + 1\<close> more than now (for a delay shorter than a tick of
  the fast clock, at most one tick more), and falls short of \<open>u\<close> by at most one tick and one.\<close>

theorem timer_accuracy:
  assumes "sane_drift (drift c)" and "last_reset c \<le> now" and "unat (now - last_reset c) < 2 ^ 38"
    and "unat now < 2 ^ 62" and "unat (init c) < 2 ^ 62" and "0 < u" and "unat u < 2 ^ 30"
  defines "d \<equiv> nat (100 + drift c)"
  shows "\<exists>after. AfterRealTime c now u = Inr after \<and> now < after \<and>
    unat (MonotonicClock_Now c after) \<le> unat (MonotonicClock_Now c now) + max (unat u) (d div 100) + 1 \<and>
    unat (MonotonicClock_Now c now) + unat u \<le> unat (MonotonicClock_Now c after) + d div 100 + 1"
proof -
  obtain real where real: "Drift_SleepOrTimeout (drift c) u = Inr real" "0 < unat real" "unat real < 2 ^ 38"
    "unat real * d div 100 \<le> max (unat u) (d div 100)" "unat u \<le> unat real * d div 100 + d div 100 + 1"
    unfolding d_def by (rule Drift_delay [OF assms(1,6,7)])
  let ?e = "unat (now - last_reset c)"
  have now: "unat (now + real) = unat now + unat real" using real(3) assms(4) by (simp add: unat_word_ariths)
  have "unat (last_reset c) \<le> unat now" using assms(2) by (simp add: word_le_nat_alt)
  then have e: "unat (now + real - last_reset c) = ?e + unat real" using now by (simp add: unat_sub_if_size)
  have r0: "unat (MonotonicClock_Now c now) = ?e * d div 100 + unat (init c)"
    using MonotonicClock_reading [OF assms(1) _ assms(5), of now] assms(3) by (simp add: d_def)
  have r1: "unat (MonotonicClock_Now c (now + real)) = (?e * d + unat real * d) div 100 + unat (init c)"
    using MonotonicClock_reading [OF assms(1) _ assms(5), of "now + real"] real(3) assms(3) e
    by (simp add: d_def add_mult_distrib)
  have "now < now + real" using now real(2) by (simp add: word_less_nat_alt)
  with r0 r1 real(1,4,5) div_add_bounds [of "?e * d" "unat real * d"] show ?thesis
    by (intro exI [of _ "now + real"])
      (auto simp: AfterRealTime_def ToRealTimeDelay_def MonotonicClock_SleepOrTimeout_def)
qed

theorem timer_accuracy_witness:
  "\<exists>after. AfterRealTime \<lparr>drift = -75, last_reset = 10, init = 5\<rparr> 17 10 = Inr after \<and> 17 < after"
  using timer_accuracy [of "\<lparr>drift = -75, last_reset = 10, init = 5\<rparr>" 17 10]
  by (auto simp: sane_drift_def)

text \<open>The timer of a drifting clock can fire too early: a node whose clock runs four times as fast as
  the world (the drift 299, which the standard time model draws) asks to sleep for 7 of its own
  jiffies and is woken when its clock has advanced by 3.\<close>

theorem timer_early:
  "AfterRealTime \<lparr>drift = 299, last_reset = 0, init = 0\<rparr> 0 7 = Inr 1 \<and>
   MonotonicClock_Now \<lparr>drift = 299, last_reset = 0, init = 0\<rparr> 0 = 0 \<and>
   MonotonicClock_Now \<lparr>drift = 299, last_reset = 0, init = 0\<rparr> 1 = 3"
  by (simp add: AfterRealTime_def ToRealTimeDelay_def MonotonicClock_SleepOrTimeout_def
      Drift_SleepOrTimeout_def rate_def MonotonicClock_Now_def ElapsedSinceLastReset_def
      Drift_Elapsed_def Let_def max_def)

text \<open>The monotonic clock of a node never runs backwards between two resets.\<close>

theorem monotonic_clock_monotone:
  assumes "sane_drift (drift c)" and "last_reset c \<le> s" and "s \<le> t"
    and "unat (t - last_reset c) < 2 ^ 38" and "unat (init c) < 2 ^ 62"
  shows "MonotonicClock_Now c s \<le> MonotonicClock_Now c t"
proof -
  have "unat (s - last_reset c) \<le> unat (t - last_reset c)"
    using assms(2,3) by (simp add: word_le_nat_alt unat_sub_if_size)
  then show ?thesis
    using MonotonicClock_reading [OF assms(1) _ assms(5), of s] MonotonicClock_reading [OF assms(1) _ assms(5), of t] assms(4)
    by (simp add: word_le_nat_alt div_le_mono mult_le_mono1)
qed

theorem monotonic_clock_monotone_witness:
  "MonotonicClock_Now \<lparr>drift = 50, last_reset = 10, init = 5\<rparr> 20 \<le>
   MonotonicClock_Now \<lparr>drift = 50, last_reset = 10, init = 5\<rparr> 31"
  by (rule monotonic_clock_monotone) (simp_all add: sane_drift_def)

text \<open>The interval of the TrueTime service contains the time of the world, as long as adding the
  uncertainty does not overflow; when it does, the latest bound lies before now.\<close>

theorem TrueTime_contains_now:
  "fst (TrueTime_Now u now) \<le> now \<and>
   (now \<le> snd (TrueTime_Now u now) \<longleftrightarrow> unat now + unat u < 2 ^ 64)"
proof -
  have "fst (TrueTime_Now u now) \<le> now"
    by (simp add: TrueTime_Now_def Let_def word_le_nat_alt word_less_nat_alt unat_sub_if_size)
  moreover have "now \<le> now + u \<longleftrightarrow> unat now + unat u < 2 ^ 64"
  proof (cases "unat now + unat u < 2 ^ 64")
    case True
    then show ?thesis by (simp add: word_le_nat_alt unat_word_ariths)
  next
    case False
    have "unat now < 2 ^ 64" "unat u < 2 ^ 64" using unsigned_less [of now] unsigned_less [of u] by simp_all
    then have "unat (now + u) = unat now + unat u - 2 ^ 64"
      using False by (simp add: unat_word_ariths mod_if)
    then show ?thesis using False \<open>unat u < 2 ^ 64\<close> by (simp add: word_le_nat_alt)
  qed
  ultimately show ?thesis by (simp add: TrueTime_Now_def Let_def)
qed

end
