(* ===== verification/Randomness.thy ===== *)
theory Randomness
  imports Clocks
begin

text \<open>
  \<open>world/random_source.hpp\<close>, \<open>world/global/{random.hpp,service.cpp}\<close> and the catalog of time models:
  the single source of randomness of a simulation and the delays drawn from it. \<open>std::mt19937\<close> is
  the parameter: the stream of its outputs for a seed. A computation that draws numbers is a function
  of the random source that may abort; \<open>yields m P\<close> says that it does not, and that its result
  satisfies \<open>P\<close> whatever the source delivers.
\<close>

section \<open>The source\<close>

record random_source =
  stream :: "nat \<Rightarrow> u32"
  rsteps :: nat

definition RandomSource_Reset :: "(u64 \<Rightarrow> nat \<Rightarrow> u32) \<Rightarrow> u64 \<Rightarrow> random_source \<Rightarrow> random_source" where
  "RandomSource_Reset mt19937 seed r = r\<lparr>rsteps := 0, stream := mt19937 seed\<rparr>"

definition RandomSource :: "(u64 \<Rightarrow> nat \<Rightarrow> u32) \<Rightarrow> u64 \<Rightarrow> random_source" where
  "RandomSource mt19937 seed = RandomSource_Reset mt19937 seed \<lparr>stream = \<lambda>n. 0, rsteps = 0\<rparr>"

definition RandomSource_Next :: "random_source \<Rightarrow> u32 \<times> random_source" where
  "RandomSource_Next r = (stream r (rsteps r), r\<lparr>rsteps := Suc (rsteps r)\<rparr>)"

definition RandomSource_Steps :: "random_source \<Rightarrow> nat" where
  "RandomSource_Steps r = rsteps r"

type_synonym 'a rnd = "random_source \<Rightarrow> ('a \<times> random_source) res"

definition rnd_return :: "'a \<Rightarrow> 'a rnd" where
  "rnd_return x s = Inr (x, s)"

definition rnd_fail :: "error \<Rightarrow> 'a rnd" where
  "rnd_fail e s = Inl e"

definition rnd_bind :: "'a rnd \<Rightarrow> ('a \<Rightarrow> 'b rnd) \<Rightarrow> 'b rnd" where
  "rnd_bind m f s = res_bind (m s) (\<lambda>(x, s'). f x s')"

definition yields :: "'a rnd \<Rightarrow> ('a \<Rightarrow> bool) \<Rightarrow> bool" where
  "yields m P \<longleftrightarrow> (\<forall>s. \<exists>x s'. m s = Inr (x, s') \<and> P x)"

named_theorems yields_rules \<open>bounds on what a random computation returns\<close>

lemma yields_return [yields_rules]: "P x \<Longrightarrow> yields (rnd_return x) P"
  by (simp add: yields_def rnd_return_def)

lemma yields_bind: "yields m P \<Longrightarrow> (\<And>x. P x \<Longrightarrow> yields (f x) Q) \<Longrightarrow> yields (rnd_bind m f) Q"
  unfolding yields_def rnd_bind_def by (metis (mono_tags, lifting) case_prod_conv res_bind_simps(1))

lemma yields_mono: "yields m P \<Longrightarrow> (\<And>x. P x \<Longrightarrow> Q x) \<Longrightarrow> yields m Q"
  unfolding yields_def by blast

lemma yields_if [yields_rules]:
  "(b \<Longrightarrow> yields m P) \<Longrightarrow> (\<not> b \<Longrightarrow> yields n P) \<Longrightarrow> yields (if b then m else n) P"
  by simp

section \<open>Numbers\<close>

definition GlobalRandomNumber :: "u64 rnd" where
  "GlobalRandomNumber s = (let (x, s') = RandomSource_Next s in Inr (ucast x, s'))"

definition GlobalRandomNumber_bound :: "u64 \<Rightarrow> u64 rnd" where
  "GlobalRandomNumber_bound bound =
     (if bound > 0 then rnd_bind GlobalRandomNumber (\<lambda>x. rnd_return (x mod bound))
      else rnd_fail (Panic ''bound = 0''))"

definition GlobalRandomNumber_range :: "u64 \<Rightarrow> u64 \<Rightarrow> u64 rnd" where
  "GlobalRandomNumber_range lo hi =
     (if lo \<le> hi then rnd_bind (GlobalRandomNumber_bound (hi - lo)) (\<lambda>x. rnd_return (lo + x))
      else rnd_fail (Panic ''Invalid range''))"

text \<open>\<open>RandomGenerator\<close>, the service of the node, with the assertion of the debug build.\<close>

definition GenerateNumber :: "u64 \<Rightarrow> u64 rnd" where
  "GenerateNumber bound =
     (if bound > 0 then rnd_bind GlobalRandomNumber (\<lambda>x. rnd_return (x mod bound))
      else rnd_fail (Panic ''bound == 0''))"

text \<open>The loop of \<open>GlobalRandomSelect\<close>; \<open>n\<close> iterations are left, the next one is number \<open>i\<close>.\<close>

fun select_loop :: "nat \<Rightarrow> nat \<Rightarrow> 'a list \<Rightarrow> 'a list \<Rightarrow> 'a list rnd" where
  "select_loop 0 i xs selected = rnd_return selected"
| "select_loop (Suc n) i xs selected =
     rnd_bind (GlobalRandomNumber_range (of_nat i) (of_nat (length xs))) (\<lambda>j.
       if unat j < length xs then
         (let xs = swap_at i (unat j) xs in select_loop n (Suc i) xs (selected @ [xs ! i]))
       else rnd_fail (Undefined ''vector index''))"

definition GlobalRandomSelect :: "'a list \<Rightarrow> nat \<Rightarrow> 'a list rnd" where
  "GlobalRandomSelect xs k =
     (if k \<le> length xs then select_loop k 0 xs [] else rnd_fail (Panic ''K > items.size()''))"

section \<open>The standard time model\<close>

definition when_multiple :: "u64 \<Rightarrow> 'a rnd \<Rightarrow> 'a rnd \<Rightarrow> 'a rnd" where
  "when_multiple n a b = rnd_bind GlobalRandomNumber (\<lambda>x. if x mod n = 0 then a else b)"

definition Crazy_InitClockDrift :: "int rnd" where
  "Crazy_InitClockDrift =
     rnd_bind GlobalRandomNumber (\<lambda>a.
       if a mod 3 = 0 then rnd_bind (GlobalRandomNumber_bound 100) (\<lambda>x. rnd_return (200 + uint x))
       else rnd_bind GlobalRandomNumber (\<lambda>b.
         if b mod 2 = 0 then rnd_bind (GlobalRandomNumber_bound 25) (\<lambda>x. rnd_return (75 + uint x))
         else rnd_bind (GlobalRandomNumber_bound (25 + 1)) (\<lambda>x. rnd_return (- 75 + uint x))))"

definition Crazy_ResetMonotonicClock :: "time_point rnd" where
  "Crazy_ResetMonotonicClock = GlobalRandomNumber_range 1 100"

definition Crazy_InitWallClockOffset :: "jiffies rnd" where
  "Crazy_InitWallClockOffset = GlobalRandomNumber_bound 1000"

definition Crazy_TrueTimeUncertainty :: "jiffies rnd" where
  "Crazy_TrueTimeUncertainty =
     when_multiple 7 (GlobalRandomNumber_range 300 1000) (GlobalRandomNumber_range 5 50)"

definition Crazy_DiskWrite :: "nat \<Rightarrow> jiffies rnd" where
  "Crazy_DiskWrite bytes = GlobalRandomNumber_range 10 250"

definition Crazy_DiskRead :: "nat \<Rightarrow> jiffies rnd" where
  "Crazy_DiskRead bytes = GlobalRandomNumber_range 10 50"

definition Crazy_GetCacheMiss :: "bool rnd" where
  "Crazy_GetCacheMiss = rnd_bind (GlobalRandomNumber_bound 11) (\<lambda>x. rnd_return (x = 0))"

definition Crazy_IteratorCacheMiss :: "bool rnd" where
  "Crazy_IteratorCacheMiss = rnd_bind (GlobalRandomNumber_bound 17) (\<lambda>x. rnd_return (x = 0))"

definition Crazy_ThreadPause :: "jiffies rnd" where
  "Crazy_ThreadPause = GlobalRandomNumber_range 5 50"

definition Crazy_GlobalStartTime :: "time_point rnd" where
  "Crazy_GlobalStartTime = GlobalRandomNumber_range 1 200"

definition Crazy_EstimateRtt :: jiffies where
  "Crazy_EstimateRtt = 500"

definition Crazy_FlightTime :: "bool \<Rightarrow> jiffies rnd" where
  "Crazy_FlightTime is_data =
     (if \<not> is_data then rnd_return 50
      else when_multiple 11 (GlobalRandomNumber_range 400 1000)
        (when_multiple 7 (GlobalRandomNumber_range 5 10)
          (when_multiple 5 (GlobalRandomNumber_range 10 1000)
            (GlobalRandomNumber_range 30 60))))"

text \<open>\<open>BackoffParams\<close>: initial delay, maximal delay and factor.\<close>

definition Crazy_BackoffParams :: "nat \<times> nat \<times> nat" where
  "Crazy_BackoffParams = (50, 1000, 2)"

section \<open>The time model of adversaries\<close>

text \<open>Constants, in the order of the interface: drift, reset value, wall clock offset, uncertainty, disk
  write and read, the two cache misses, thread pause.\<close>

record server_time_model =
  m_InitClockDrift :: "int rnd"
  m_ResetMonotonicClock :: "time_point rnd"
  m_InitWallClockOffset :: "jiffies rnd"
  m_TrueTimeUncertainty :: "jiffies rnd"
  m_DiskWrite :: "nat \<Rightarrow> jiffies rnd"
  m_DiskRead :: "nat \<Rightarrow> jiffies rnd"
  m_GetCacheMiss :: "bool rnd"
  m_IteratorCacheMiss :: "bool rnd"
  m_ThreadPause :: "jiffies rnd"

definition AdversaryTimeModel :: server_time_model where
  "AdversaryTimeModel = \<lparr>
     m_InitClockDrift = rnd_return 0,
     m_ResetMonotonicClock = rnd_return 0,
     m_InitWallClockOffset = rnd_return 0,
     m_TrueTimeUncertainty = rnd_return 1,
     m_DiskWrite = (\<lambda>bytes. rnd_return 1),
     m_DiskRead = (\<lambda>bytes. rnd_return 1),
     m_GetCacheMiss = rnd_return False,
     m_IteratorCacheMiss = rnd_return False,
     m_ThreadPause = rnd_return 1\<rparr>"

definition CrazyServerTimeModel :: server_time_model where
  "CrazyServerTimeModel = \<lparr>
     m_InitClockDrift = Crazy_InitClockDrift,
     m_ResetMonotonicClock = Crazy_ResetMonotonicClock,
     m_InitWallClockOffset = Crazy_InitWallClockOffset,
     m_TrueTimeUncertainty = Crazy_TrueTimeUncertainty,
     m_DiskWrite = Crazy_DiskWrite,
     m_DiskRead = Crazy_DiskRead,
     m_GetCacheMiss = Crazy_GetCacheMiss,
     m_IteratorCacheMiss = Crazy_IteratorCacheMiss,
     m_ThreadPause = Crazy_ThreadPause\<rparr>"

section \<open>Bounds\<close>

lemma yields_number [yields_rules]: "yields GlobalRandomNumber (\<lambda>x. True)"
  by (simp add: yields_def GlobalRandomNumber_def RandomSource_Next_def)

lemma word_mod_less: "0 < b \<Longrightarrow> x mod b < b" for x b :: u64
  by (simp add: word_less_nat_alt unat_mod)

lemma yields_bound [yields_rules]: "0 < b \<Longrightarrow> yields (GlobalRandomNumber_bound b) (\<lambda>x. x < b)"
  unfolding GlobalRandomNumber_bound_def
  by (auto intro!: yields_bind [OF yields_number] yields_return simp: word_mod_less)

lemma range_shift: "lo < hi \<Longrightarrow> x < hi - lo \<Longrightarrow> lo \<le> lo + x \<and> lo + x < hi" for lo hi x :: u64
  unfolding word_less_nat_alt word_le_nat_alt by unat_arith

lemma range_gap: "lo < hi \<Longrightarrow> 0 < hi - lo" for lo hi :: u64
  unfolding word_less_nat_alt by unat_arith

lemma yields_range [yields_rules]:
  "lo < hi \<Longrightarrow> yields (GlobalRandomNumber_range lo hi) (\<lambda>x. lo \<le> x \<and> x < hi)"
  unfolding GlobalRandomNumber_range_def
  using range_shift [of lo hi]
  by (auto intro!: yields_bind [OF yields_bound] yields_return simp: range_gap less_imp_le)

lemma yields_range_in:
  "lo < hi \<Longrightarrow> a \<le> lo \<Longrightarrow> hi \<le> b \<Longrightarrow> yields (GlobalRandomNumber_range lo hi) (\<lambda>x. a \<le> x \<and> x < b)"
  by (rule yields_mono [OF yields_range]) auto

lemma yields_multiple:
  "yields a P \<Longrightarrow> yields b P \<Longrightarrow> yields (when_multiple n a b) P"
  unfolding when_multiple_def by (rule yields_bind [OF yields_number]) (rule yields_if)

lemma yields_select_loop:
  assumes "length xs < 2 ^ 31"
  shows "i + n \<le> length xs \<Longrightarrow> yields (select_loop n i xs sel)
    (\<lambda>r. length r = length sel + n \<and> (\<exists>rest. mset r + rest = mset sel + mset (drop i xs)))"
  using assms
proof (induction n arbitrary: i xs sel)
  case 0
  show ?case by (simp, rule yields_return) auto
next
  case (Suc n)
  have lt: "(of_nat i :: u64) < of_nat (length xs)"
    using Suc.prems by (simp add: word_less_nat_alt unat_of_nat)
  show ?case
    unfolding select_loop.simps
  proof (rule yields_bind [OF yields_range [OF lt]])
    fix j :: u64
    assume j: "of_nat i \<le> j \<and> j < of_nat (length xs)"
    then have ij: "i \<le> unat j" "unat j < length xs"
      using Suc.prems by (simp_all add: word_less_nat_alt word_le_nat_alt unat_of_nat)
    let ?ys = "swap_at i (unat j) xs"
    have i: "i < length xs" using Suc.prems(1) by simp
    have "mset (take i ?ys) = mset (take i xs)" using i ij by (simp add: take_swap_at)
    moreover have "mset (take i zs) + mset (drop i zs) = mset zs" for zs :: "'a list"
      by (metis append_take_drop_id mset_append)
    ultimately have "mset (drop i ?ys) = mset (drop i xs)"
      using mset_swap_at [OF i ij(2)] by (metis add_left_cancel)
    then have eq: "mset (sel @ [?ys ! i]) + mset (drop (Suc i) ?ys) = mset sel + mset (drop i xs)"
      using i by (simp flip: Cons_nth_drop_Suc)
    have y: "yields (select_loop n (Suc i) ?ys (sel @ [?ys ! i])) (\<lambda>r. length r = length (sel @ [?ys ! i]) + n \<and>
        (\<exists>rest. mset r + rest = mset (sel @ [?ys ! i]) + mset (drop (Suc i) ?ys)))"
      using Suc.prems by (intro Suc.IH) simp_all
    show "yields (if unat j < length xs
        then let xs = swap_at i (unat j) xs in select_loop n (Suc i) xs (sel @ [xs ! i])
        else rnd_fail (Undefined ''vector index''))
      (\<lambda>r. length r = length sel + Suc n \<and> (\<exists>rest. mset r + rest = mset sel + mset (drop i xs)))"
      using y [unfolded eq] ij by (simp add: Let_def)
  qed
qed

section \<open>Properties\<close>

text \<open>A random number from a range lies in it. The check of the range admits an empty one, for which
  the function aborts all the same, with the message of the other overload.\<close>

theorem random_range:
  "(lo < hi \<longrightarrow> yields (GlobalRandomNumber_range lo hi) (\<lambda>x. lo \<le> x \<and> x < hi)) \<and>
   GlobalRandomNumber_range lo lo s = Inl (Panic ''bound = 0'') \<and>
   (hi < lo \<longrightarrow> GlobalRandomNumber_range lo hi s = Inl (Panic ''Invalid range''))"
  by (intro conjI impI yields_range) (auto simp: GlobalRandomNumber_range_def GlobalRandomNumber_bound_def
      rnd_fail_def rnd_bind_def dest: leD)

theorem random_range_witness:
  "yields (GlobalRandomNumber_range 5 10) (\<lambda>x. 5 \<le> x \<and> x < 10) \<and>
   GlobalRandomNumber_range 10 5 \<lparr>stream = \<lambda>n. 7, rsteps = 0\<rparr> = Inl (Panic ''Invalid range'')"
  using random_range [of 5 10] random_range [of 10 5 "\<lparr>stream = \<lambda>n. 7, rsteps = 0\<rparr>"] by simp

text \<open>\<open>GlobalRandomSelect\<close> returns \<open>k\<close> of the items, each at most as often as it occurs among them,
  for every source of randomness; asking for more than there are aborts.\<close>

theorem random_select:
  assumes "length xs < 2 ^ 31"
  shows "(k \<le> length xs \<longrightarrow>
      yields (GlobalRandomSelect xs k) (\<lambda>sel. length sel = k \<and> mset sel \<subseteq># mset xs)) \<and>
    (length xs < k \<longrightarrow> GlobalRandomSelect xs k s = Inl (Panic ''K > items.size()''))"
proof (intro conjI impI)
  assume k: "k \<le> length xs"
  have "yields (select_loop k 0 xs []) (\<lambda>r. length r = k \<and> mset r \<subseteq># mset xs)"
    by (rule yields_mono [OF yields_select_loop [OF assms]]) (use k in \<open>auto intro: mset_subset_eq_add_left
        simp: subset_mset.add_increasing2 mset_subset_eq_exists_conv dest: sym\<close>)
  with k show "yields (GlobalRandomSelect xs k) (\<lambda>sel. length sel = k \<and> mset sel \<subseteq># mset xs)"
    by (simp add: GlobalRandomSelect_def)
qed (simp add: GlobalRandomSelect_def rnd_fail_def)

theorem random_select_witness:
  "yields (GlobalRandomSelect [''Server-1'', ''Server-2'', ''Server-3''] 2)
     (\<lambda>sel. length sel = 2 \<and> mset sel \<subseteq># {#''Server-1'', ''Server-2'', ''Server-3''#})"
  using random_select [of "[''Server-1'', ''Server-2'', ''Server-3'']" 2] by simp

lemma uint_bound: "x < b \<Longrightarrow> 0 \<le> uint x \<and> uint x < uint b" for x b :: u64
  by (simp add: word_less_def)

lemma yields_drift:
  "yields Crazy_InitClockDrift
     (\<lambda>d. -75 \<le> d \<and> d \<le> -50 \<or> 75 \<le> d \<and> d \<le> 99 \<or> 200 \<le> d \<and> d \<le> 299)"
  unfolding Crazy_InitClockDrift_def
  by (intro yields_bind [OF yields_number] yields_if yields_bind [OF yields_bound] yields_return)
    (auto dest: uint_bound)

text \<open>The standard time model draws only clock drifts that keep clocks running, so that the accuracy
  of timers applies to every server, but they are not within the range \<open>[-75, +75]\<close> its comment
  promises: all fast clocks are faster, up to \<open>+299\<close>, and none is close to the rate of the world.\<close>

theorem crazy_drift:
  "yields Crazy_InitClockDrift (\<lambda>d. sane_drift d \<and> d \<le> 299 \<and> (d \<le> -50 \<or> 75 \<le> d)) \<and>
   (\<exists>s s'. Crazy_InitClockDrift s = Inr (299, s'))"
proof
  show "yields Crazy_InitClockDrift (\<lambda>d. sane_drift d \<and> d \<le> 299 \<and> (d \<le> -50 \<or> 75 \<le> d))"
    by (rule yields_mono [OF yields_drift]) (auto simp: sane_drift_def)
  have "Crazy_InitClockDrift \<lparr>stream = \<lambda>n. if n = 0 then 0 else 99, rsteps = 0\<rparr> =
      Inr (299, \<lparr>stream = \<lambda>n. if n = 0 then 0 else 99, rsteps = 2\<rparr>)"
    by (simp add: Crazy_InitClockDrift_def rnd_bind_def rnd_return_def GlobalRandomNumber_def
        GlobalRandomNumber_bound_def RandomSource_Next_def)
  then show "\<exists>s s'. Crazy_InitClockDrift s = Inr (299, s')" by blast
qed

text \<open>The standard time model never aborts and never draws a zero delay: every packet is at least 5
  and less than 1000 jiffies on its way, disk operations and pauses of threads take at least 5.\<close>

theorem crazy_delays:
  "yields (Crazy_FlightTime is_data) (\<lambda>t. 5 \<le> t \<and> t < 1000) \<and>
   yields (Crazy_DiskWrite n) (\<lambda>t. 10 \<le> t \<and> t < 250) \<and>
   yields (Crazy_DiskRead n) (\<lambda>t. 10 \<le> t \<and> t < 50) \<and>
   yields Crazy_ThreadPause (\<lambda>t. 5 \<le> t \<and> t < 50) \<and>
   yields Crazy_TrueTimeUncertainty (\<lambda>t. 5 \<le> t \<and> t < 1000) \<and>
   yields Crazy_GlobalStartTime (\<lambda>t. 1 \<le> t \<and> t < 200)"
  unfolding Crazy_FlightTime_def Crazy_DiskWrite_def Crazy_DiskRead_def Crazy_ThreadPause_def
    Crazy_TrueTimeUncertainty_def Crazy_GlobalStartTime_def
  by (intro conjI yields_if yields_multiple yields_range_in yields_return) simp_all

end
