(* ===== verification/Network.thy ===== *)
theory Network
  imports Priority_Queue
begin

text \<open>
  \<open>network/{packet,frame,link,network}\<close>: the link layer. Every ordered pair of servers has a one-way
  link with a queue of frames in flight; for each frame the network queues an event at the time of its
  delivery. A step of the network takes the earliest event, skips it when the link is paused, and
  otherwise delivers the frame that is due. Pointers to servers and links are indices. The virtual
  time \<open>now\<close>, the flight time drawn from the time model and the digest function are arguments.
\<close>

section \<open>Packets, frames, links\<close>

type_synonym port = u16

datatype packet_type = Data | Reset | Ping

record packet =
  p_type :: packet_type
  source_port :: port
  dest_port :: port
  ts :: nat
  message :: string

record frame =
  source_host :: host_name
  dest_host :: host_name
  send_time :: time_point
  f_packet :: packet

record frame_event =
  fe_frame :: frame
  fe_time :: time_point

record link =
  l_start :: nat
  l_end :: nat
  frames :: "frame_event pqueue"
  paused :: bool
  opposite :: "nat option"

record link_event =
  le_time :: time_point
  le_link :: nat

record network =
  servers :: "host_name list"
  links :: "link list"
  events :: "link_event pqueue"
  frames_log :: "frame list"
  digest :: u64

definition FrameEvent_less :: "frame_event \<Rightarrow> frame_event \<Rightarrow> bool" where
  "FrameEvent_less this that \<longleftrightarrow> fe_time this < fe_time that"

definition LinkEvent_less :: "link_event \<Rightarrow> link_event \<Rightarrow> bool" where
  "LinkEvent_less this that \<longleftrightarrow> le_time this < le_time that"

definition Network_init :: network where
  "Network_init = \<lparr>servers = [], links = [], events = PQ_empty, frames_log = [], digest = 0\<rparr>"

definition Link_init :: "nat \<Rightarrow> nat \<Rightarrow> link" where
  "Link_init start end_server =
     \<lparr>l_start = start, l_end = end_server, frames = PQ_empty, paused = False, opposite = None\<rparr>"

definition SetOpposite :: "nat \<Rightarrow> link \<Rightarrow> link" where
  "SetOpposite o_link l = l\<lparr>opposite := Some o_link\<rparr>"

definition IsLoopBack :: "link \<Rightarrow> bool" where
  "IsLoopBack l \<longleftrightarrow> l_start l = l_end l"

definition HasFrames :: "link \<Rightarrow> bool" where
  "HasFrames l \<longleftrightarrow> \<not> PQ_IsEmpty (frames l)"

definition NextFrameTime :: "link \<Rightarrow> time_point option" where
  "NextFrameTime l = map_option fe_time (PQ_Smallest FrameEvent_less (frames l))"

definition ExtractNextFrame :: "link \<Rightarrow> (frame \<times> link) res" where
  "ExtractNextFrame l =
     verify (\<not> paused l) ''Link is paused''
       (case PQ_Extract FrameEvent_less (frames l) of
          None \<Rightarrow> Inl (Undefined ''top of an empty queue'')
        | Some (fe, q) \<Rightarrow> Inr (fe_frame fe, l\<lparr>frames := q\<rparr>))"

definition Link_Shutdown :: "link \<Rightarrow> link" where
  "Link_Shutdown l = l\<lparr>frames := PQ_Clear (frames l)\<rparr>"

definition Link_Pause :: "link \<Rightarrow> link res" where
  "Link_Pause l = verify (\<not> paused l) ''Link is already paused'' (Inr (l\<lparr>paused := True\<rparr>))"

section \<open>Building the network\<close>

definition Network_AddServer :: "host_name \<Rightarrow> network \<Rightarrow> network" where
  "Network_AddServer h net = net\<lparr>servers := servers net @ [h]\<rparr>"

definition GetLinkIndex :: "nat \<Rightarrow> nat \<Rightarrow> network \<Rightarrow> nat" where
  "GetLinkIndex i j net = i * length (servers net) + j"

fun server_index :: "host_name \<Rightarrow> host_name list \<Rightarrow> nat \<Rightarrow> nat res" where
  "server_index h [] i = Inl (Panic ''unreachable'')"
| "server_index h (s # ss) i = (if h = s then Inr i else server_index h ss (Suc i))"

definition ServerToIndex :: "host_name \<Rightarrow> network \<Rightarrow> nat res" where
  "ServerToIndex h net = server_index h (servers net) 0"

definition all_links :: "nat \<Rightarrow> link list" where
  "all_links n = concat (map (\<lambda>i. map (\<lambda>j. Link_init i j) [0..<n]) [0..<n])"

definition link_opposites :: "nat \<times> nat \<Rightarrow> network \<Rightarrow> network" where
  "link_opposites p net =
     (let ij = GetLinkIndex (fst p) (snd p) net; ji = GetLinkIndex (snd p) (fst p) net;
          ls = (links net)[ij := SetOpposite ji (links net ! ij)]
      in net\<lparr>links := ls[ji := SetOpposite ij (ls ! ji)]\<rparr>)"

definition BuildLinks :: "network \<Rightarrow> network" where
  "BuildLinks net =
     (let n = length (servers net); net = net\<lparr>links := links net @ all_links n\<rparr>
      in fold link_opposites (concat (map (\<lambda>i. map (\<lambda>j. (i, j)) [i..<n]) [0..<n])) net)"

definition Network_Start :: "network \<Rightarrow> network" where
  "Network_Start net = BuildLinks net"

definition GetLink :: "host_name \<Rightarrow> host_name \<Rightarrow> network \<Rightarrow> nat res" where
  "GetLink start end_host net =
     res_bind (ServerToIndex start net) (\<lambda>i. res_bind (ServerToIndex end_host net) (\<lambda>j.
       let k = GetLinkIndex i j net in
       if k < length (links net) then Inr k else Inl (Thrown ''std::out_of_range'')))"

section \<open>Sending, delivery\<close>

definition AddLinkEvent :: "nat \<Rightarrow> time_point \<Rightarrow> network \<Rightarrow> network" where
  "AddLinkEvent k t net = net\<lparr>events := PQ_Insert \<lparr>le_time = t, le_link = k\<rparr> (events net)\<rparr>"

definition LogFrame :: "frame \<Rightarrow> network \<Rightarrow> network" where
  "LogFrame f net = net\<lparr>frames_log := frames_log net @ [f]\<rparr>"

definition update_link :: "nat \<Rightarrow> link \<Rightarrow> network \<Rightarrow> network" where
  "update_link k l net = net\<lparr>links := (links net)[k := l]\<rparr>"

text \<open>\<open>Link::Add(Frame, TimePoint)\<close>.\<close>

definition Link_Add_frame :: "nat \<Rightarrow> frame \<Rightarrow> time_point \<Rightarrow> network \<Rightarrow> network" where
  "Link_Add_frame k f delivery_time net =
     (let l = links net ! k;
          net = update_link k (l\<lparr>frames := PQ_Insert \<lparr>fe_frame = f, fe_time = delivery_time\<rparr> (frames l)\<rparr>) net
      in LogFrame f (AddLinkEvent k delivery_time net))"

definition MakeFrame :: "nat \<Rightarrow> time_point \<Rightarrow> packet \<Rightarrow> network \<Rightarrow> frame" where
  "MakeFrame k now pkt net =
     \<lparr>source_host = servers net ! l_start (links net ! k), dest_host = servers net ! l_end (links net ! k),
      send_time = now, f_packet = pkt\<rparr>"

definition ChooseDeliveryTime :: "time_point \<Rightarrow> jiffies \<Rightarrow> time_point" where
  "ChooseDeliveryTime now flight_time = now + flight_time"

definition Link_Add :: "nat \<Rightarrow> time_point \<Rightarrow> jiffies \<Rightarrow> packet \<Rightarrow> network \<Rightarrow> network" where
  "Link_Add k now flight_time pkt net =
     Link_Add_frame k (MakeFrame k now pkt net) (ChooseDeliveryTime now flight_time) net"

definition Network_IsRunnable :: "network \<Rightarrow> bool" where
  "Network_IsRunnable net \<longleftrightarrow> \<not> PQ_IsEmpty (events net)"

definition Network_NextStepTime :: "network \<Rightarrow> time_point option" where
  "Network_NextStepTime net = map_option le_time (PQ_Smallest LinkEvent_less (events net))"

text \<open>A step delivers nothing, or a packet to the server at the end of a link, with the opposite link
  for replies. \<open>eat\<close> combines the digest with the hash of a number.\<close>

definition eat_packet :: "(u64 \<Rightarrow> nat \<Rightarrow> u64) \<Rightarrow> packet \<Rightarrow> u64 \<Rightarrow> u64" where
  "eat_packet eat pkt d =
     eat (eat (eat d (unat (source_port pkt))) (unat (dest_port pkt))) (length (message pkt))"

definition Network_Step ::
    "(u64 \<Rightarrow> nat \<Rightarrow> u64) \<Rightarrow> network \<Rightarrow> (network \<times> (frame \<times> nat \<times> nat option) option) res" where
  "Network_Step eat net =
     (case PQ_Extract LinkEvent_less (events net) of
        None \<Rightarrow> Inl (Undefined ''top of an empty queue'')
      | Some (event, q) \<Rightarrow>
          let net = net\<lparr>events := q\<rparr>; l = links net ! le_link event in
          if paused l then Inr (net, None)
          else verify (HasFrames l) ''Broken net''
            (verify (NextFrameTime l = Some (le_time event)) ''Broken net''
              (res_bind (ExtractNextFrame l) (\<lambda>(f, l).
                let net = update_link (le_link event) l net;
                    net = net\<lparr>digest := eat_packet eat (f_packet f) (digest net)\<rparr>
                in Inr (net, Some (f, l_end l, opposite l))))))"

definition Network_Shutdown :: "network \<Rightarrow> network" where
  "Network_Shutdown net =
     net\<lparr>events := PQ_Clear (events net), links := map Link_Shutdown (links net)\<rparr>"

section \<open>Faults\<close>

definition PauseLink :: "host_name \<Rightarrow> host_name \<Rightarrow> network \<Rightarrow> network res" where
  "PauseLink start end_host net =
     res_bind (GetLink start end_host net) (\<lambda>k.
       res_bind (Link_Pause (links net ! k)) (\<lambda>l. Inr (update_link k l net)))"

text \<open>The loop of \<open>Link::Resume\<close>: overdue frames are sent again, to arrive at \<open>now + 1\<close>. At the last
  representable time \<open>now + 1\<close> is 0 and the loop does not end (\<open>None\<close>). The frame the loop looks at with
  \<open>Smallest\<close> is the one it then extracts.\<close>

partial_function (option) resume_loop :: "nat \<Rightarrow> time_point \<Rightarrow> network \<Rightarrow> network option" where
  "resume_loop k now net =
     (case PQ_Extract FrameEvent_less (frames (links net ! k)) of
        None \<Rightarrow> Some net
      | Some (fe, q) \<Rightarrow>
          if fe_time fe < now
          then resume_loop k now
            (Link_Add_frame k (fe_frame fe) (now + 1)
              (update_link k ((links net ! k)\<lparr>frames := q\<rparr>) net))
          else Some net)"

definition Link_Resume :: "nat \<Rightarrow> time_point \<Rightarrow> network \<Rightarrow> network option" where
  "Link_Resume k now net =
     (if \<not> paused (links net ! k) then Some net
      else
        let net = update_link k ((links net ! k)\<lparr>paused := False\<rparr>) net in
        if HasFrames (links net ! k) then resume_loop k now net else Some net)"

definition ResumeLink ::
    "host_name \<Rightarrow> host_name \<Rightarrow> time_point \<Rightarrow> network \<Rightarrow> network option res" where
  "ResumeLink start end_host now net =
     res_bind (GetLink start end_host net) (\<lambda>k. Inr (Link_Resume k now net))"

definition IsSystem :: "nat \<Rightarrow> network \<Rightarrow> bool" where
  "IsSystem s net \<longleftrightarrow> (case servers net ! s of [] \<Rightarrow> False | c # cs \<Rightarrow> c = CHR ''S'')"

definition Cross :: "link \<Rightarrow> host_name set \<Rightarrow> network \<Rightarrow> bool" where
  "Cross l lhs net \<longleftrightarrow>
     (servers net ! l_start l \<in> lhs) \<noteq> (servers net ! l_end l \<in> lhs)"

definition splits :: "host_name set \<Rightarrow> network \<Rightarrow> link \<Rightarrow> bool" where
  "splits lhs net l \<longleftrightarrow>
     (if IsLoopBack l then False
      else if \<not> IsSystem (l_start l) net \<or> \<not> IsSystem (l_end l) net then False
      else Cross l lhs net)"

definition Network_Split :: "host_name set \<Rightarrow> network \<Rightarrow> network res" where
  "Network_Split lhs net =
     res_fold (\<lambda>k n.
       if splits lhs n (links n ! k)
       then res_bind (Link_Pause (links n ! k)) (\<lambda>l. Inr (update_link k l n))
       else Inr n) [0..<length (links net)] net"

fun resume_all :: "nat list \<Rightarrow> time_point \<Rightarrow> network \<Rightarrow> network option" where
  "resume_all [] now net = Some net"
| "resume_all (k # ks) now net =
     (case Link_Resume k now net of None \<Rightarrow> None | Some net' \<Rightarrow> resume_all ks now net')"

definition Network_Heal :: "time_point \<Rightarrow> network \<Rightarrow> network option" where
  "Network_Heal now net = resume_all [0..<length (links net)] now net"

definition FrameCount :: "network \<Rightarrow> nat" where
  "FrameCount net = length (frames_log net)"

definition GetFrame :: "nat \<Rightarrow> network \<Rightarrow> frame res" where
  "GetFrame i net = (if i < length (frames_log net) then Inr (frames_log net ! i)
     else Inl (Thrown ''std::out_of_range''))"

section \<open>Queues of frames and events\<close>

lemma less_by_key: "FrameEvent_less = by_key fe_time" "LinkEvent_less = by_key le_time"
  by (intro ext, simp add: FrameEvent_less_def LinkEvent_less_def by_key_def)+

lemma frame_pull:
  assumes "PQ_inv q" and "PQ_Extract FrameEvent_less q = Some (x, q')"
  shows "PQ_inv q'" and "mset (PQ_elems q) = add_mset x (mset (PQ_elems q'))"
    and "\<forall>y \<in> set (PQ_elems q'). fe_time x \<le> fe_time y"
    and "PQ_Smallest FrameEvent_less q = Some x"
  using assms PQ_inv_Extract [OF assms] unfolding less_by_key
  by (auto simp: pq.pull_mset pq.smallest_pull intro: pq.pull_le)

lemma event_pull:
  assumes "PQ_inv q" and "PQ_Extract LinkEvent_less q = Some (x, q')"
  shows "PQ_inv q'" and "mset (PQ_elems q) = add_mset x (mset (PQ_elems q'))"
    and "\<forall>y \<in> set (PQ_elems q'). le_time x \<le> le_time y"
    and "PQ_Smallest LinkEvent_less q = Some x"
  using assms PQ_inv_Extract [OF assms] unfolding less_by_key
  by (auto simp: pq.pull_mset pq.smallest_pull intro: pq.pull_le)

lemma frame_pull_None:
  "PQ_inv q \<Longrightarrow> PQ_Extract FrameEvent_less q = None \<longleftrightarrow> PQ_elems q = []"
  unfolding less_by_key by (rule pq.pull_None)

lemma event_pull_None:
  "PQ_inv q \<Longrightarrow> PQ_Extract LinkEvent_less q = None \<longleftrightarrow> PQ_elems q = []"
  unfolding less_by_key by (rule pq.pull_None)

text \<open>The times of the frames on a link, and of the events queued for it.\<close>

definition ft :: "network \<Rightarrow> nat \<Rightarrow> time_point multiset" where
  "ft net k = image_mset fe_time (mset (PQ_elems (frames (links net ! k))))"

definition et :: "network \<Rightarrow> nat \<Rightarrow> time_point multiset" where
  "et net k = image_mset le_time (filter_mset (\<lambda>e. le_link e = k) (mset (PQ_elems (events net))))"

section \<open>Invariant\<close>

text \<open>On a link that is not paused, frames and events match. A paused link loses events, those of the
  frames that were due while it was paused, so these frames are due by now.\<close>

definition link_ok :: "time_point \<Rightarrow> network \<Rightarrow> nat \<Rightarrow> bool" where
  "link_ok now net k \<longleftrightarrow> PQ_inv (frames (links net ! k)) \<and> et net k \<subseteq># ft net k \<and>
     (\<not> paused (links net ! k) \<longrightarrow> ft net k = et net k) \<and> (\<forall>t \<in># ft net k - et net k. t \<le> now)"

definition net_ok :: "time_point \<Rightarrow> network \<Rightarrow> bool" where
  "net_ok now net \<longleftrightarrow> PQ_inv (events net) \<and>
     (\<forall>e \<in> set (PQ_elems (events net)). le_link e < length (links net) \<and> now \<le> le_time e) \<and>
     (\<forall>k < length (links net). link_ok now net k)"

lemma net_okD:
  assumes "net_ok now net"
  shows "PQ_inv (events net)"
    "e \<in> set (PQ_elems (events net)) \<Longrightarrow> le_link e < length (links net)"
    "e \<in> set (PQ_elems (events net)) \<Longrightarrow> now \<le> le_time e"
    "k < length (links net) \<Longrightarrow> link_ok now net k"
  using assms by (auto simp: net_ok_def)

lemma et_ge: "net_ok now net \<Longrightarrow> t \<in># et net k \<Longrightarrow> now \<le> t"
  by (auto simp: et_def dest: net_okD)

lemma add_frame_simps [simp]:
  "servers (Link_Add_frame k f t net) = servers net"
  "length (links (Link_Add_frame k f t net)) = length (links net)"
  "k < length (links net) \<Longrightarrow> paused (links (Link_Add_frame k f t net) ! j) = paused (links net ! j)"
  by (simp_all add: Link_Add_frame_def Let_def LogFrame_def AddLinkEvent_def update_link_def
      nth_list_update)

lemma add_frame_events:
  "PQ_elems (events (Link_Add_frame k f t net)) = PQ_elems (events net) @ [\<lparr>le_time = t, le_link = k\<rparr>]"
  "PQ_inv (events net) \<Longrightarrow> PQ_inv (events (Link_Add_frame k f t net))"
  by (simp_all add: Link_Add_frame_def Let_def LogFrame_def AddLinkEvent_def update_link_def
      PQ_inv_Insert)

lemma add_frame_et: "et (Link_Add_frame k f t net) j = et net j + (if j = k then {#t#} else {#})"
  by (simp add: et_def add_frame_events)

lemma add_frame_ft:
  "k < length (links net) \<Longrightarrow> ft (Link_Add_frame k f t net) j = ft net j + (if j = k then {#t#} else {#})"
  by (simp add: ft_def Link_Add_frame_def Let_def LogFrame_def AddLinkEvent_def update_link_def
      nth_list_update)

lemma add_frame_inv:
  "k < length (links net) \<Longrightarrow> PQ_inv (frames (links net ! j)) \<Longrightarrow>
   PQ_inv (frames (links (Link_Add_frame k f t net) ! j))"
  by (simp add: Link_Add_frame_def Let_def LogFrame_def AddLinkEvent_def update_link_def
      nth_list_update PQ_inv_Insert)

lemma net_ok_send:
  assumes "net_ok now net" and k: "k < length (links net)" and "now \<le> t"
  shows "net_ok now (Link_Add_frame k f t net)"
  using assms unfolding net_ok_def link_ok_def
  by (auto simp: add_frame_events add_frame_et add_frame_ft [OF k] add_frame_inv [OF k] k)

section \<open>Steps\<close>

lemma net_ok_pulled:
  assumes ok: "net_ok now net" and ev: "PQ_Extract LinkEvent_less (events net) = Some (e, q)"
  shows "le_link e < length (links net)" and "now \<le> le_time e" and "PQ_inv q"
    and "et net j = et (net\<lparr>events := q\<rparr>) j + (if j = le_link e then {#le_time e#} else {#})"
    and "\<forall>x \<in> set (PQ_elems q). le_link x < length (links net) \<and> le_time e \<le> le_time x"
    and "j < length (links net) \<Longrightarrow> j \<noteq> le_link e \<Longrightarrow> link_ok (le_time e) (net\<lparr>events := q\<rparr>) j"
proof -
  note pull = event_pull [OF net_okD(1) [OF ok] ev]
  have e: "e \<in> set (PQ_elems (events net))"
    using pull(2) by (metis in_multiset_in_set union_single_eq_member)
  show "le_link e < length (links net)" and now: "now \<le> le_time e" using net_okD(2,3) [OF ok e] by auto
  show "PQ_inv q" by (rule pull(1))
  have sub: "set (PQ_elems q) \<subseteq> set (PQ_elems (events net))"
    using pull(2) by (metis set_mset_add_mset_insert set_mset_mset subset_insertI)
  show et: "et net j = et (net\<lparr>events := q\<rparr>) j + (if j = le_link e then {#le_time e#} else {#})" for j
    by (simp add: et_def pull(2))
  show "\<forall>x \<in> set (PQ_elems q). le_link x < length (links net) \<and> le_time e \<le> le_time x"
    using pull(3) sub net_okD(2) [OF ok] by auto
  show "link_ok (le_time e) (net\<lparr>events := q\<rparr>) j" if "j < length (links net)" "j \<noteq> le_link e"
    using net_okD(4) [OF ok that(1)] that(2) et [of j] now by (auto simp: link_ok_def ft_def)
qed

text \<open>An event of a link that is not paused is the event of its first frame.\<close>

lemma first_frame_due:
  assumes ok: "net_ok now net" and ev: "PQ_Extract LinkEvent_less (events net) = Some (e, q)"
    and run: "\<not> paused (links net ! le_link e)"
  obtains fe fq where "PQ_Extract FrameEvent_less (frames (links net ! le_link e)) = Some (fe, fq)"
    and "PQ_inv fq" and "HasFrames (links net ! le_link e)" and "NextFrameTime (links net ! le_link e) = Some (le_time e)"
    and "image_mset fe_time (mset (PQ_elems fq)) = et (net\<lparr>events := q\<rparr>) (le_link e)"
proof -
  let ?l = "links net ! le_link e" and ?k = "le_link e" and ?t = "le_time e" and ?net = "net\<lparr>events := q\<rparr>"
  note pulled = net_ok_pulled [OF ok ev]
  have lk: "link_ok now net ?k" by (rule net_okD(4) [OF ok pulled(1)])
  have ftk: "ft net ?k = add_mset ?t (et ?net ?k)" using lk run pulled(4) [of ?k] by (simp add: link_ok_def)
  have inv: "PQ_inv (frames ?l)" using lk by (simp add: link_ok_def)
  have some: "PQ_elems (frames ?l) \<noteq> []" using ftk by (auto simp: ft_def)
  then obtain fe fq where fe: "PQ_Extract FrameEvent_less (frames ?l) = Some (fe, fq)"
    using frame_pull_None [OF inv] by (cases "PQ_Extract FrameEvent_less (frames ?l)") auto
  note fpull = frame_pull [OF inv fe]
  have fts: "ft net ?k = add_mset (fe_time fe) (image_mset fe_time (mset (PQ_elems fq)))"
    by (simp add: ft_def fpull(2))
  have "?t \<in># ft net ?k" using ftk by simp
  then have "fe_time fe \<le> ?t" using fts fpull(3) by auto
  moreover have "fe_time fe \<in># add_mset ?t (et ?net ?k)" using fts ftk by simp
  then have "?t \<le> fe_time fe" using pulled(5) by (auto simp: et_def)
  ultimately have t: "fe_time fe = ?t" by simp
  show thesis
  proof (rule that [OF fe fpull(1)])
    show "HasFrames ?l" using some by (simp add: HasFrames_def PQ_IsEmpty_elems)
    show "NextFrameTime ?l = Some ?t" using t by (simp add: NextFrameTime_def fpull(4))
    show "image_mset fe_time (mset (PQ_elems fq)) = et ?net ?k" using fts ftk t by simp
  qed
qed

lemma net_ok_step_paused:
  assumes ok: "net_ok now net" and ev: "PQ_Extract LinkEvent_less (events net) = Some (e, q)"
    and paused: "paused (links net ! le_link e)"
  shows "Network_Step eat net = Inr (net\<lparr>events := q\<rparr>, None)" and "net_ok (le_time e) (net\<lparr>events := q\<rparr>)"
proof -
  let ?k = "le_link e" and ?t = "le_time e" and ?net = "net\<lparr>events := q\<rparr>"
  note pulled = net_ok_pulled [OF ok ev]
  have lk: "link_ok now net ?k" by (rule net_okD(4) [OF ok pulled(1)])
  have ft: "ft ?net ?k = ft net ?k" by (simp add: ft_def)
  have "ft net ?k - et ?net ?k = add_mset ?t (ft net ?k - et net ?k)"
    using lk pulled(4) [of ?k] by (simp add: link_ok_def mset_subset_eq_exists_conv) (auto simp: ac_simps)
  then have "link_ok ?t ?net ?k"
    using lk paused pulled(2) pulled(4) [of ?k]
    by (auto simp: link_ok_def ft dest!: mset_subset_eq_insertD intro: subset_mset.less_imp_le)
  then show "net_ok ?t ?net" using pulled(3,5,6) by (auto simp: net_ok_def)
  show "Network_Step eat net = Inr (?net, None)" using paused by (simp add: Network_Step_def ev Let_def)
qed

lemma net_ok_step_deliver:
  assumes ok: "net_ok now net" and ev: "PQ_Extract LinkEvent_less (events net) = Some (e, q)"
    and run: "\<not> paused (links net ! le_link e)"
  shows "\<exists>net' f. Network_Step eat net = Inr (net', Some f) \<and> net_ok (le_time e) net' \<and>
    length (links net') = length (links net)"
proof -
  let ?l = "links net ! le_link e" and ?k = "le_link e" and ?t = "le_time e" and ?net = "net\<lparr>events := q\<rparr>"
  note pulled = net_ok_pulled [OF ok ev]
  obtain fe fq where fe: "PQ_Extract FrameEvent_less (frames ?l) = Some (fe, fq)" "PQ_inv fq" "HasFrames ?l"
    "NextFrameTime ?l = Some ?t" "image_mset fe_time (mset (PQ_elems fq)) = et ?net ?k"
    by (rule first_frame_due [OF ok ev run])
  let ?n = "update_link ?k (?l\<lparr>frames := fq\<rparr>) ?net\<lparr>digest := eat_packet eat (f_packet (fe_frame fe)) (digest net)\<rparr>"
  have step: "Network_Step eat net = Inr (?n, Some (fe_frame fe, l_end ?l, opposite ?l))"
    using run fe by (simp add: Network_Step_def ev Let_def ExtractNextFrame_def update_link_def)
  have ftn: "ft ?n j = (if j = ?k then et ?net ?k else ft ?net j)" for j
    using fe(5) pulled(1) by (simp add: ft_def update_link_def nth_list_update)
  have etn: "et ?n j = et ?net j" for j by (simp add: et_def update_link_def)
  have ln: "links ?n ! j = (if j = ?k then ?l\<lparr>frames := fq\<rparr> else links ?net ! j)" for j
    using pulled(1) by (simp add: update_link_def nth_list_update)
  have "link_ok ?t ?n j" if "j < length (links net)" for j
    using run fe(2) pulled(6) [OF that] unfolding link_ok_def ftn etn ln by (cases "j = ?k") auto
  then have "net_ok ?t ?n" using pulled(3,5) by (auto simp: net_ok_def update_link_def)
  then show ?thesis using step by (auto simp: update_link_def)
qed

lemma net_ok_step:
  assumes ok: "net_ok now net" and ev: "PQ_Extract LinkEvent_less (events net) = Some (e, q)"
  shows "\<exists>net' r. Network_Step eat net = Inr (net', r) \<and> net_ok (le_time e) net' \<and>
    (r = None \<longleftrightarrow> paused (links net ! le_link e)) \<and> length (links net') = length (links net)"
proof (cases "paused (links net ! le_link e)")
  case True
  with net_ok_step_paused [OF ok ev True] show ?thesis by auto
next
  case False
  with net_ok_step_deliver [OF ok ev False] show ?thesis by fastforce
qed

section \<open>Pausing and resuming\<close>

lemma update_link_simps [simp]:
  "servers (update_link k l net) = servers net" "events (update_link k l net) = events net"
  "length (links (update_link k l net)) = length (links net)"
  "k < length (links net) \<Longrightarrow> links (update_link k l net) ! j = (if j = k then l else links net ! j)"
  by (simp_all add: update_link_def nth_list_update)

lemma update_link_et [simp]: "et (update_link k l net) j = et net j"
  by (simp add: et_def)

lemma update_link_ft:
  "k < length (links net) \<Longrightarrow>
   ft (update_link k l net) j = (if j = k then image_mset fe_time (mset (PQ_elems (frames l))) else ft net j)"
  by (simp add: ft_def)

lemma net_ok_pause:
  assumes "net_ok now net" and "k < length (links net)"
  shows "net_ok now (update_link k ((links net ! k)\<lparr>paused := True\<rparr>) net)"
  using assms by (auto simp: net_ok_def link_ok_def update_link_ft) (auto simp: ft_def)

lemma filter_mset_none: "filter_mset P A = {#} \<longleftrightarrow> (\<forall>x \<in># A. \<not> P x)"
  by auto

text \<open>What the loop of \<open>Resume\<close> does: the \<open>n\<close> overdue frames of link \<open>k\<close> move to \<open>now + 1\<close>, each with an
  event, and nothing else changes.\<close>

definition moved :: "nat \<Rightarrow> time_point \<Rightarrow> network \<Rightarrow> network \<Rightarrow> bool" where
  "moved k now net net' \<longleftrightarrow>
     (let n = size (filter_mset (\<lambda>t. t < now) (ft net k)) in
      PQ_inv (events net') \<and> PQ_inv (frames (links net' ! k)) \<and>
      servers net' = servers net \<and> length (links net') = length (links net) \<and>
      (\<forall>j. j \<noteq> k \<longrightarrow> links net' ! j = links net ! j \<and> et net' j = et net j) \<and>
      paused (links net' ! k) = paused (links net ! k) \<and>
      ft net' k = filter_mset (\<lambda>t. \<not> t < now) (ft net k) + replicate_mset n (now + 1) \<and>
      et net' k = et net k + replicate_mset n (now + 1) \<and>
      set (PQ_elems (events net')) \<subseteq> set (PQ_elems (events net)) \<union> {\<lparr>le_time = now + 1, le_link = k\<rparr>})"

lemma moved_done:
  assumes "PQ_inv (events net)" and "PQ_inv (frames (links net ! k))" and "\<forall>t \<in># ft net k. \<not> t < now"
  shows "moved k now net net"
proof -
  have "filter_mset (\<lambda>t. t < now) (ft net k) = {#}" using assms(3) by (simp add: filter_mset_none)
  moreover have "filter_mset (\<lambda>t. \<not> t < now) (ft net k) = ft net k"
    using assms(3) by (simp add: filter_mset_eq_conv)
  ultimately show ?thesis using assms by (auto simp: moved_def Let_def)
qed

text \<open>One overdue frame is sent again at \<open>now + 1\<close>.\<close>

lemma resume_one:
  assumes "now < now + 1" and "PQ_inv (events net)" and "PQ_inv (frames (links net ! k))" and k: "k < length (links net)"
    and fe: "PQ_Extract FrameEvent_less (frames (links net ! k)) = Some (fe, q)" and due: "fe_time fe < now"
  defines "n \<equiv> Link_Add_frame k (fe_frame fe) (now + 1) (update_link k ((links net ! k)\<lparr>frames := q\<rparr>) net)"
  shows "size (filter_mset (\<lambda>t. t < now) (ft net k)) = Suc (size (filter_mset (\<lambda>t. t < now) (ft n k)))"
    and "PQ_inv (events n)" and "PQ_inv (frames (links n ! k))" and "k < length (links n)"
    and "moved k now n net' \<Longrightarrow> moved k now net net'"
proof -
  note pull = frame_pull [OF assms(3) fe]
  have ftk: "ft net k = add_mset (fe_time fe) (image_mset fe_time (mset (PQ_elems q)))"
    by (simp add: ft_def pull(2))
  have late: "\<not> now + 1 < now" using assms(1) by (simp add: less_imp_le not_less)
  then have ftn: "ft n k = add_mset (now + 1) (image_mset fe_time (mset (PQ_elems q)))"
    using k by (simp add: n_def add_frame_ft update_link_ft)
  show "size (filter_mset (\<lambda>t. t < now) (ft net k)) = Suc (size (filter_mset (\<lambda>t. t < now) (ft n k)))"
    using due late by (simp add: ftk ftn)
  show "PQ_inv (events n)" "PQ_inv (frames (links n ! k))" "k < length (links n)"
    using assms(2) k pull(1) by (simp_all add: n_def add_frame_events add_frame_inv)
  have link_n: "links n ! j = links net ! j" if "j \<noteq> k" for j
    using that k by (simp add: n_def Link_Add_frame_def Let_def LogFrame_def AddLinkEvent_def
        update_link_def nth_list_update)
  show "moved k now net net'" if "moved k now n net'"
    using that due late k link_n by (auto simp: moved_def Let_def ftk ftn [unfolded n_def] n_def add_frame_et add_frame_events)
qed

lemma resume_loop_moves:
  assumes "now < now + 1"
  shows "PQ_inv (events net) \<Longrightarrow> PQ_inv (frames (links net ! k)) \<Longrightarrow> k < length (links net) \<Longrightarrow>
    \<exists>net'. resume_loop k now net = Some net' \<and> moved k now net net'"
proof (induction "size (filter_mset (\<lambda>t. t < now) (ft net k))" arbitrary: net rule: less_induct)
  case less
  let ?q = "frames (links net ! k)"
  show ?case
  proof (cases "PQ_Extract FrameEvent_less ?q")
    case None
    then have "ft net k = {#}" using frame_pull_None [OF less.prems(2)] by (simp add: ft_def)
    then show ?thesis using None moved_done [OF less.prems(1,2)] by (subst resume_loop.simps) simp
  next
    case (Some p)
    obtain fe q where fe: "PQ_Extract FrameEvent_less ?q = Some (fe, q)" using Some by (cases p) auto
    show ?thesis
    proof (cases "fe_time fe < now")
      case False
      note pull = frame_pull [OF less.prems(2) fe]
      have "\<forall>t \<in># ft net k. \<not> t < now" using False pull(3) by (auto simp: ft_def pull(2))
      then show ?thesis using False fe moved_done [OF less.prems(1,2)] by (subst resume_loop.simps) simp
    next
      case True
      note one = resume_one [OF assms less.prems fe True]
      obtain net' where "resume_loop k now (Link_Add_frame k (fe_frame fe) (now + 1)
          (update_link k ((links net ! k)\<lparr>frames := q\<rparr>) net)) = Some net'" "moved k now net net'"
        using less.hyps [OF _ one(2-4)] one(1) one(5) by auto
      then show ?thesis using True fe by (subst resume_loop.simps) simp
    qed
  qed
qed

text \<open>A resumption is calm when no frame whose event was lost is due at this very time.\<close>

definition calm :: "time_point \<Rightarrow> network \<Rightarrow> nat \<Rightarrow> bool" where
  "calm now net k \<longleftrightarrow> (\<forall>t \<in># ft net k - et net k. t \<noteq> now)"

lemma split_lost:
  fixes A B :: "'a::linorder multiset"
  assumes "A \<subseteq># B" and "\<forall>t \<in># A. now \<le> t" and "\<forall>t \<in># B - A. t < now"
  shows "filter_mset (\<lambda>t. \<not> t < now) B = A"
proof -
  obtain C where B: "B = A + C" using assms(1) by (auto simp: mset_subset_eq_exists_conv)
  then have "\<forall>t \<in># C. t < now" using assms(3) by simp
  then have "filter_mset (\<lambda>t. \<not> t < now) C = {#}" by (simp add: filter_mset_none)
  moreover have "filter_mset (\<lambda>t. \<not> t < now) A = A"
    using assms(2) by (auto simp: filter_mset_eq_conv dest: leD)
  ultimately show ?thesis by (simp add: B)
qed

lemma net_ok_resume:
  assumes ok: "net_ok now net" and k: "k < length (links net)" and calm: "calm now net k"
    and bound: "now < now + 1"
  shows "\<exists>net'. Link_Resume k now net = Some net' \<and> net_ok now net' \<and>
    length (links net') = length (links net) \<and> servers net' = servers net \<and>
    \<not> paused (links net' ! k) \<and>
    (\<forall>j. j \<noteq> k \<longrightarrow> links net' ! j = links net ! j \<and> et net' j = et net j)"
proof (cases "paused (links net ! k)")
  case False
  then show ?thesis using ok by (simp add: Link_Resume_def)
next
  case True
  let ?u = "update_link k ((links net ! k)\<lparr>paused := False\<rparr>) net"
  note lk = net_okD(4) [OF ok k, unfolded link_ok_def]
  have ftu: "ft ?u j = ft net j" for j using k by (simp add: update_link_ft) (simp add: ft_def)
  obtain n1 where n1: "resume_loop k now ?u = Some n1" "moved k now ?u n1"
    using resume_loop_moves [OF bound, of ?u k] net_okD(1) [OF ok] lk k by auto
  have "\<forall>t \<in># ft net k - et net k. t < now"
    using lk calm by (auto simp: calm_def less_le)
  then have flt: "filter_mset (\<lambda>t. \<not> t < now) (ft net k) = et net k"
    using lk et_ge [OF ok] by (intro split_lost) auto
  have "net_ok now n1"
    unfolding net_ok_def
  proof (intro conjI ballI allI impI)
    show "PQ_inv (events n1)" using n1(2) by (simp add: moved_def Let_def)
  next
    fix e assume "e \<in> set (PQ_elems (events n1))"
    then have "e \<in> set (PQ_elems (events net)) \<or> e = \<lparr>le_time = now + 1, le_link = k\<rparr>"
      using n1(2) by (auto simp: moved_def Let_def)
    then show "le_link e < length (links n1)" "now \<le> le_time e"
      using n1(2) net_okD(2,3) [OF ok, of e] k bound by (auto simp: moved_def Let_def)
  next
    fix j assume j: "j < length (links n1)"
    then have j': "j < length (links net)" using n1(2) by (simp add: moved_def Let_def)
    show "link_ok now n1 j"
    proof (cases "j = k")
      case True
      then show ?thesis using n1(2) k by (simp add: link_ok_def moved_def Let_def ftu flt)
    next
      case False
      then have "links n1 ! j = links net ! j" "et n1 j = et net j"
        using n1(2) k by (auto simp: moved_def Let_def)
      then show ?thesis using net_okD(4) [OF ok j'] by (simp add: link_ok_def ft_def)
    qed
  qed
  moreover have "Link_Resume k now net = Some (if HasFrames (links ?u ! k) then n1 else ?u)"
    using True n1(1) by (simp add: Link_Resume_def Let_def)
  moreover have "n1 = ?u" if "\<not> HasFrames (links ?u ! k)"
  proof -
    have "PQ_Extract FrameEvent_less (frames (links ?u ! k)) = None"
      using that k frame_pull_None lk by (simp add: HasFrames_def PQ_IsEmpty_elems)
    then show ?thesis using n1(1) by (subst (asm) resume_loop.simps) simp
  qed
  ultimately show ?thesis using n1(2) k by (auto simp: moved_def Let_def)
qed

lemma net_ok_later:
  assumes "net_ok now net" and "now \<le> t" and "\<forall>e \<in> set (PQ_elems (events net)). t \<le> le_time e"
  shows "net_ok t net"
proof -
  have "link_ok t net k" if "k < length (links net)" for k
    using net_okD(4) [OF assms(1) that] assms(2) by (auto simp: link_ok_def)
  then show ?thesis using net_okD(1,2) [OF assms(1)] assms(3) by (simp add: net_ok_def)
qed

section \<open>A run of the network\<close>

text \<open>What the rest of the simulation does to the network: packets are sent with some flight time, links
  are paused and resumed, the world runs other actors at a later time (as long as no event is due
  before it), and the world lets the network make a step, at the time of its next event.\<close>

datatype net_op =
    NSend nat jiffies packet
  | NPause nat
  | NResume nat
  | NTime time_point
  | NStep

fun net_step ::
    "(u64 \<Rightarrow> nat \<Rightarrow> u64) \<Rightarrow> net_op \<Rightarrow> time_point \<times> network \<Rightarrow> (time_point \<times> network) res option" where
  "net_step eat (NSend k d pkt) (now, net) = Some (Inr (now, Link_Add k now d pkt net))"
| "net_step eat (NPause k) (now, net) =
     Some (res_bind (Link_Pause (links net ! k)) (\<lambda>l. Inr (now, update_link k l net)))"
| "net_step eat (NResume k) (now, net) = map_option (\<lambda>net'. Inr (now, net')) (Link_Resume k now net)"
| "net_step eat (NTime t) (now, net) = Some (Inr (t, net))"
| "net_step eat NStep (now, net) =
     Some (case Network_NextStepTime net of
       None \<Rightarrow> Inl (Undefined ''top of an empty queue'')
     | Some t \<Rightarrow> res_bind (Network_Step eat net) (\<lambda>r. Inr (t, fst r)))"

text \<open>What the world guarantees about these operations (and the client, that a link is not paused
  twice): times fit, steps are made when there is one to make. \<open>calm\<close> is the only condition on the use
  of faults.\<close>

fun net_pre :: "net_op \<Rightarrow> time_point \<times> network \<Rightarrow> bool" where
  "net_pre (NSend k d pkt) (now, net) \<longleftrightarrow> k < length (links net) \<and> now \<le> now + d"
| "net_pre (NPause k) (now, net) \<longleftrightarrow> k < length (links net) \<and> \<not> paused (links net ! k)"
| "net_pre (NResume k) (now, net) \<longleftrightarrow> k < length (links net) \<and> now < now + 1 \<and> calm now net k"
| "net_pre (NTime t) (now, net) \<longleftrightarrow>
     now \<le> t \<and> (\<forall>e \<in> set (PQ_elems (events net)). t \<le> le_time e)"
| "net_pre NStep (now, net) \<longleftrightarrow> Network_IsRunnable net"

inductive net_reach :: "(u64 \<Rightarrow> nat \<Rightarrow> u64) \<Rightarrow> network \<Rightarrow> time_point \<times> network \<Rightarrow> bool"
  for eat net0 where
  reach_start: "net_reach eat net0 (now, Network_Start net0)"
| reach_step: "net_reach eat net0 s \<Longrightarrow> net_pre op s \<Longrightarrow> net_step eat op s = Some (Inr s') \<Longrightarrow>
     net_reach eat net0 s'"

inductive_cases net_reachE: "net_reach eat net0 s"

lemma link_opposites_simps:
  "servers (link_opposites p net) = servers net" "events (link_opposites p net) = events net"
  "length (links (link_opposites p net)) = length (links net)"
  by (simp_all add: link_opposites_def Let_def)

lemma set_opposite_keep:
  "k < length ls \<Longrightarrow> l_start (ls[i := SetOpposite n (ls ! i)] ! k) = l_start (ls ! k)"
  "k < length ls \<Longrightarrow> l_end (ls[i := SetOpposite n (ls ! i)] ! k) = l_end (ls ! k)"
  "k < length ls \<Longrightarrow> frames (ls[i := SetOpposite n (ls ! i)] ! k) = frames (ls ! k)"
  "k < length ls \<Longrightarrow> paused (ls[i := SetOpposite n (ls ! i)] ! k) = paused (ls ! k)"
  by (cases "i = k"; simp add: SetOpposite_def)+

lemma link_opposites_link:
  assumes "k < length (links net)"
  shows "l_start (links (link_opposites p net) ! k) = l_start (links net ! k)"
    "l_end (links (link_opposites p net) ! k) = l_end (links net ! k)"
    "frames (links (link_opposites p net) ! k) = frames (links net ! k)"
    "paused (links (link_opposites p net) ! k) = paused (links net ! k)"
  using assms by (simp_all add: link_opposites_def Let_def set_opposite_keep)

definition fresh_net :: "network \<Rightarrow> bool" where
  "fresh_net net \<longleftrightarrow> links net = [] \<and> PQ_elems (events net) = [] \<and> PQ_inv (events net)"

lemma fold_opposites:
  "servers (fold link_opposites ps net) = servers net \<and>
   events (fold link_opposites ps net) = events net \<and>
   length (links (fold link_opposites ps net)) = length (links net) \<and>
   (\<forall>k < length (links net).
      l_start (links (fold link_opposites ps net) ! k) = l_start (links net ! k) \<and>
      l_end (links (fold link_opposites ps net) ! k) = l_end (links net ! k) \<and>
      frames (links (fold link_opposites ps net) ! k) = frames (links net ! k) \<and>
      paused (links (fold link_opposites ps net) ! k) = paused (links net ! k))"
  by (induction ps arbitrary: net) (simp_all add: link_opposites_simps link_opposites_link)

lemma length_all_links: "length (all_links n) = n * n"
  by (simp add: all_links_def length_concat o_def sum_list_triv)

lemma nth_concat_rows:
  "i < m \<Longrightarrow> j < n \<Longrightarrow> concat (map (\<lambda>i. map (f i) [0..<n]) [0..<m]) ! (i * n + j) = f i j"
proof (induction m)
  case (Suc m)
  let ?rows = "concat (map (\<lambda>i. map (f i) [0..<n]) [0..<m])"
  have len: "length ?rows = m * n" by (simp add: length_concat o_def sum_list_triv)
  show ?case
  proof (cases "i < m")
    case True
    then have "i * n + j < m * n"
      using Suc.prems(2) mult_le_mono1 [of "Suc i" m n] by simp
    then show ?thesis using Suc True len by (simp add: nth_append)
  next
    case False
    then have "i = m" using Suc.prems(1) by simp
    then show ?thesis using Suc.prems(2) len by (simp add: nth_append)
  qed
qed simp

lemma nth_all_links: "i < n \<Longrightarrow> j < n \<Longrightarrow> all_links n ! (i * n + j) = Link_init i j"
  unfolding all_links_def by (rule nth_concat_rows)

lemma all_links_init: "l \<in> set (all_links n) \<Longrightarrow> \<exists>i j. l = Link_init i j"
  by (auto simp: all_links_def)

lemma net_ok_start:
  assumes "fresh_net net0"
  shows "net_ok now (Network_Start net0)"
proof -
  let ?n = "length (servers net0)"
  let ?base = "net0\<lparr>links := all_links ?n\<rparr>"
  obtain ps where eq: "Network_Start net0 = fold link_opposites ps ?base"
    using assms by (auto simp: Network_Start_def BuildLinks_def Let_def fresh_net_def)
  have "frames (links ?base ! k) = PQ_empty" if "k < length (links ?base)" for k
    using all_links_init [of "all_links ?n ! k" ?n] that by (auto simp: Link_init_def)
  then show ?thesis
    unfolding eq using assms fold_opposites [of ps ?base]
    by (auto simp: net_ok_def link_ok_def fresh_net_def ft_def et_def)
qed

lemma net_ok_net_step:
  assumes ok: "net_ok (fst s) (snd s)" and pre: "net_pre op s"
  shows "\<exists>s'. net_step eat op s = Some (Inr s') \<and> net_ok (fst s') (snd s')"
proof -
  obtain now net where s: "s = (now, net)" by (cases s)
  note ok' = ok [unfolded s fst_conv snd_conv] and pre' = pre [unfolded s]
  show ?thesis
  proof (cases op)
    case (NSend k d pkt)
    then show ?thesis
      using net_ok_send [OF ok'] pre' by (simp add: s Link_Add_def ChooseDeliveryTime_def)
  next
    case (NPause k)
    then show ?thesis using net_ok_pause [OF ok'] pre' by (simp add: s Link_Pause_def)
  next
    case (NResume k)
    then show ?thesis using net_ok_resume [OF ok', of k] pre' by (auto simp: s)
  next
    case (NTime t)
    then show ?thesis using net_ok_later [OF ok', of t] pre' by (simp add: s)
  next
    case NStep
    then have "PQ_elems (events net) \<noteq> []"
      using pre' by (simp add: Network_IsRunnable_def PQ_IsEmpty_elems)
    then obtain e q where ev: "PQ_Extract LinkEvent_less (events net) = Some (e, q)"
      using event_pull_None [OF net_okD(1) [OF ok']]
      by (cases "PQ_Extract LinkEvent_less (events net)") auto
    have "Network_NextStepTime net = Some (le_time e)"
      using event_pull(4) [OF net_okD(1) [OF ok'] ev] by (simp add: Network_NextStepTime_def)
    with net_ok_step [OF ok' ev, of eat] NStep show ?thesis by (auto simp: s)
  qed
qed

lemma net_reach_ok: "net_reach eat net0 s \<Longrightarrow> fresh_net net0 \<Longrightarrow> net_ok (fst s) (snd s)"
proof (induction rule: net_reach.induct)
  case (reach_step s op s')
  then show ?case using net_ok_net_step [of s op eat] by auto
qed (simp add: net_ok_start)

section \<open>Properties\<close>


definition two_hosts :: network where
  "two_hosts = Network_AddServer ''Server-2'' (Network_AddServer ''Server-1'' Network_init)"

definition hello :: packet where
  "hello = \<lparr>p_type = Data, source_port = 1, dest_port = 42, ts = 0, message = ''hello''\<rparr>"

lemma fresh_two_hosts: "fresh_net two_hosts"
  by (simp add: fresh_net_def two_hosts_def Network_AddServer_def Network_init_def)


fun net_run ::
    "(u64 \<Rightarrow> nat \<Rightarrow> u64) \<Rightarrow> net_op list \<Rightarrow> time_point \<times> network \<Rightarrow> (time_point \<times> network) res option" where
  "net_run eat [] s = Some (Inr s)"
| "net_run eat (op # ops) s =
     (case net_step eat op s of Some (Inr s') \<Rightarrow> net_run eat ops s' | r \<Rightarrow> r)"


text \<open>The opposite of the link \<open>i * n + j\<close> is \<open>j * n + i\<close>.\<close>

definition opp_index :: "nat \<Rightarrow> nat \<Rightarrow> nat" where
  "opp_index n k = (k mod n) * n + k div n"

lemma opp_index_pair: "j < n \<Longrightarrow> opp_index n (i * n + j) = j * n + i"
  by (simp add: opp_index_def)

lemma index_bound: "i < n \<Longrightarrow> j < n \<Longrightarrow> i * n + j < n * n" for i j n :: nat
  using mult_le_mono1 [of "Suc i" n n] by simp

lemma link_opposites_opposite:
  assumes "length (links net) = length (servers net) * length (servers net)"
    and "fst p < length (servers net)" and "snd p < length (servers net)" and "k < length (links net)"
  shows "opposite (links (link_opposites p net) ! k) =
    (if k = fst p * length (servers net) + snd p \<or> k = snd p * length (servers net) + fst p
     then Some (opp_index (length (servers net)) k) else opposite (links net ! k))"
  using assms index_bound [of "fst p" "length (servers net)" "snd p"]
    index_bound [of "snd p" "length (servers net)" "fst p"]
  by (auto simp: link_opposites_def Let_def GetLinkIndex_def SetOpposite_def nth_list_update opp_index_pair)

lemma fold_opposites_opposite:
  assumes "length (links net) = length (servers net) * length (servers net)"
    and "\<forall>p \<in> set ps. fst p < length (servers net) \<and> snd p < length (servers net)"
    and "k < length (links net)"
    and "\<exists>p \<in> set ps. k = fst p * length (servers net) + snd p \<or> k = snd p * length (servers net) + fst p"
  shows "opposite (links (fold link_opposites ps net) ! k) = Some (opp_index (length (servers net)) k)"
  using assms
proof (induction ps rule: rev_induct)
  case (snoc p ps)
  let ?net = "fold link_opposites ps net"
  have "opposite (links (link_opposites p ?net) ! k) =
      (if k = fst p * length (servers net) + snd p \<or> k = snd p * length (servers net) + fst p
       then Some (opp_index (length (servers net)) k) else opposite (links ?net ! k))"
    using link_opposites_opposite [of ?net p k] fold_opposites [of ps net] snoc.prems(1-3) by simp
  then show ?case using snoc by auto
qed simp

text \<open>After the start of a network of servers with distinct names, \<open>GetLink\<close> finds for every ordered
  pair of them a link that leads from the first to the second, and the opposite of this link is the
  link of the reversed pair; so a receiver always answers to the sender.\<close>

theorem network_links:
  assumes "links net = []" and "distinct (servers net)"
    and "i < length (servers net)" and "j < length (servers net)"
  defines "net' \<equiv> Network_Start net"
  shows "\<exists>k k'. GetLink (servers net ! i) (servers net ! j) net' = Inr k \<and>
    GetLink (servers net ! j) (servers net ! i) net' = Inr k' \<and>
    l_start (links net' ! k) = i \<and> l_end (links net' ! k) = j \<and>
    opposite (links net' ! k) = Some k' \<and> opposite (links net' ! k') = Some k"
proof -
  let ?n = "length (servers net)"
  let ?base = "net\<lparr>links := all_links ?n\<rparr>"
  let ?ps = "concat (map (\<lambda>i. map (\<lambda>j. (i, j)) [i..<?n]) [0..<?n])"
  have net': "net' = fold link_opposites ?ps ?base"
    by (simp add: net'_def Network_Start_def BuildLinks_def Let_def assms(1))
  have sizes: "servers net' = servers net" "length (links net') = ?n * ?n"
    using fold_opposites [of ?ps ?base] by (simp_all add: net' length_all_links)
  have "server_index (xs ! a) xs m = Inr (m + a)" if "distinct xs" "a < length xs" for xs :: "string list" and a m
    using that
  proof (induction xs arbitrary: a m)
    case (Cons x xs)
    then show ?case by (cases a) auto
  qed simp
  then have index: "ServerToIndex (servers net ! a) net' = Inr a" if "a < ?n" for a
    using assms(2) that sizes(1) by (simp add: ServerToIndex_def)
  have get: "GetLink (servers net ! a) (servers net ! b) net' = Inr (a * ?n + b)" if "a < ?n" "b < ?n" for a b
    using that index index_bound [OF that] sizes by (simp add: GetLink_def GetLinkIndex_def)
  have pairs: "\<forall>p \<in> set ?ps. fst p < ?n \<and> snd p < ?n" by auto
  have opp: "opposite (links net' ! (a * ?n + b)) = Some (b * ?n + a)" if "a < ?n" "b < ?n" for a b
  proof -
    have "\<exists>p \<in> set ?ps. a * ?n + b = fst p * ?n + snd p \<or> a * ?n + b = snd p * ?n + fst p"
    proof (cases "a \<le> b")
      case True
      then have "(a, b) \<in> set ?ps" using that by (auto intro!: bexI [of _ a])
      then show ?thesis by force
    next
      case False
      then have "(b, a) \<in> set ?ps" using that by (auto intro!: bexI [of _ b])
      then show ?thesis by force
    qed
    then have "opposite (links net' ! (a * ?n + b)) = Some (opp_index ?n (a * ?n + b))"
      using fold_opposites_opposite [of ?base ?ps "a * ?n + b"] pairs index_bound [OF that]
      by (simp add: net' length_all_links)
    then show ?thesis using that by (simp add: opp_index_pair)
  qed
  have "l_start (links net' ! (i * ?n + j)) = i" "l_end (links net' ! (i * ?n + j)) = j"
    using fold_opposites [of ?ps ?base] index_bound [OF assms(3,4)] nth_all_links [OF assms(3,4)]
    by (simp_all add: net' length_all_links Link_init_def)
  then show ?thesis using get [OF assms(3,4)] get [OF assms(4,3)] opp [OF assms(3,4)] opp [OF assms(4,3)]
    by blast
qed

theorem network_links_witness:
  "\<exists>k k'. GetLink ''Server-1'' ''Server-2'' (Network_Start two_hosts) = Inr k \<and>
     opposite (links (Network_Start two_hosts) ! k) = Some k' \<and>
     opposite (links (Network_Start two_hosts) ! k') = Some k"
  using network_links [of two_hosts 0 1]
  by (auto simp: two_hosts_def Network_AddServer_def Network_init_def)

section \<open>Partitions\<close>

lemma split_fold:
  fixes lhs :: "host_name set" and net :: network
  defines "f \<equiv> \<lambda>k n. if splits lhs n (links n ! k)
       then res_bind (Link_Pause (links n ! k)) (\<lambda>l. Inr (update_link k l n)) else Inr n"
  assumes "\<forall>k < length (links net). splits lhs net (links net ! k) \<longrightarrow> \<not> paused (links net ! k)"
    and "m \<le> length (links net)"
  shows "\<exists>net'. res_fold f [0..<m] net = Inr net' \<and> servers net' = servers net \<and>
    events net' = events net \<and> length (links net') = length (links net) \<and>
    (\<forall>k < length (links net). links net' ! k =
       (if k < m \<and> splits lhs net (links net ! k) then (links net ! k)\<lparr>paused := True\<rparr> else links net ! k))"
  using assms(3)
proof (induction m)
  case (Suc m)
  then obtain n where n: "res_fold f [0..<m] net = Inr n" "servers n = servers net"
      "events n = events net" "length (links n) = length (links net)"
      "\<forall>k < length (links net). links n ! k =
         (if k < m \<and> splits lhs net (links net ! k) then (links net ! k)\<lparr>paused := True\<rparr> else links net ! k)"
    by auto
  have m: "m < length (links net)" using Suc.prems by simp
  have same: "links n ! m = links net ! m" using n(5) m by simp
  have "splits lhs n (links n ! m) = splits lhs net (links net ! m)"
    using n(2) by (simp add: same splits_def Cross_def IsSystem_def)
  then show ?case
    using n m same assms(2)
    by (auto simp: res_fold_append f_def Link_Pause_def less_Suc_eq)
qed simp

lemma resume_all_ok:
  assumes "now < now + 1"
  shows "net_ok now net \<Longrightarrow> \<forall>k \<in> set ks. k < length (links net) \<and> calm now net k \<Longrightarrow> distinct ks \<Longrightarrow>
    \<exists>net'. resume_all ks now net = Some net' \<and> net_ok now net' \<and>
      length (links net') = length (links net) \<and> (\<forall>k \<in> set ks. \<not> paused (links net' ! k)) \<and>
      (\<forall>k. k \<notin> set ks \<longrightarrow> links net' ! k = links net ! k)"
proof (induction ks arbitrary: net)
  case (Cons k ks)
  obtain n where n: "Link_Resume k now net = Some n" "net_ok now n" "length (links n) = length (links net)"
      "\<not> paused (links n ! k)" "\<forall>j. j \<noteq> k \<longrightarrow> links n ! j = links net ! j \<and> et n j = et net j"
    using net_ok_resume [OF Cons.prems(1) _ _ assms, of k] Cons.prems(2) by auto
  have "calm now n j = calm now net j" if "j \<noteq> k" for j
    using n(5) that by (simp add: calm_def ft_def)
  then have "\<forall>j \<in> set ks. j < length (links n) \<and> calm now n j"
    using Cons.prems(2,3) n(3) by (metis distinct.simps(2) list.set_intros(2))
  from Cons.IH [OF n(2) this] Cons.prems(3) obtain n' where "resume_all ks now n = Some n'"
      "net_ok now n'" "length (links n') = length (links n)" "\<forall>k \<in> set ks. \<not> paused (links n' ! k)"
      "\<forall>k. k \<notin> set ks \<longrightarrow> links n' ! k = links n ! k" by auto
  with n Cons.prems(3) show ?case by auto
qed simp

text \<open>A partition pauses exactly the links between system servers (names starting with S) on different
  sides of it, in both directions, and no other; it touches no frame. Splitting again along a link
  that is already paused aborts the simulation, so partitions cannot overlap.\<close>

theorem split_exact:
  assumes "\<forall>k < length (links net). splits lhs net (links net ! k) \<longrightarrow> \<not> paused (links net ! k)"
  shows "\<exists>net'. Network_Split lhs net = Inr net' \<and> events net' = events net \<and>
    length (links net') = length (links net) \<and>
    (\<forall>k < length (links net). links net' ! k =
       (if splits lhs net (links net ! k) then (links net ! k)\<lparr>paused := True\<rparr> else links net ! k))"
  using split_fold [OF assms, of "length (links net)"] by (fastforce simp: Network_Split_def)

theorem split_exact_witness:
  "\<exists>net'. Network_Split {''Server-1''} (Network_Start two_hosts) = Inr net' \<and>
     events net' = events (Network_Start two_hosts)"
proof -
  have "\<not> paused (links (Network_Start two_hosts) ! k)" if "k < length (links (Network_Start two_hosts))" for k
    using fold_opposites that all_links_init [of "all_links 2 ! k" 2]
    by (fastforce simp: Network_Start_def BuildLinks_def Let_def two_hosts_def Network_AddServer_def
        Network_init_def Link_init_def link_opposites_simps link_opposites_link numeral_2_eq_2)
  then show ?thesis using split_exact [of "Network_Start two_hosts" "{''Server-1''}"] by auto
qed



end
