(* ===== verification/Faults.thy ===== *)
theory Faults
  imports Network
begin

text \<open>
  \<open>fault/net/{helpers,isolate,split,star}.cpp\<close>: the network faults an adversary injects, as sequences
  of \<open>PauseLink\<close> calls. \<open>node::rt::RandomNumber(lo, hi)\<close> is the parameter \<open>rn\<close> over a state \<open>'s\<close>; the
  laws say that its result lies between the two bounds, both included.
\<close>

section \<open>The code\<close>

type_synonym 's random_number = "nat \<Rightarrow> nat \<Rightarrow> 's \<Rightarrow> nat \<times> 's"

definition rn_ok :: "'s random_number \<Rightarrow> bool" where
  "rn_ok rn \<longleftrightarrow> (\<forall>lo hi s. lo \<le> hi \<longrightarrow> lo \<le> fst (rn lo hi s) \<and> fst (rn lo hi s) \<le> hi)"

fun shuffle_from :: "'s random_number \<Rightarrow> nat \<Rightarrow> nat \<Rightarrow> 'a list \<times> 's \<Rightarrow> 'a list \<times> 's" where
  "shuffle_from rn 0 i ps = ps"
| "shuffle_from rn (Suc n) i (pool, s) =
     (let (j, s) = rn i (length pool - 1) s in shuffle_from rn n (Suc i) (swap_at i j pool, s))"

definition Shuffle :: "'s random_number \<Rightarrow> 'a list \<Rightarrow> 's \<Rightarrow> 'a list \<times> 's" where
  "Shuffle rn pool s = shuffle_from rn (length pool - 1) 0 (pool, s)"

fun split_from ::
    "'s random_number \<Rightarrow> nat \<Rightarrow> nat \<Rightarrow> 'a list \<Rightarrow> 'a set \<Rightarrow> 's \<Rightarrow> ('a set \<times> 's) res" where
  "split_from rn 0 i pool lhs s = Inr (lhs, s)"
| "split_from rn (Suc n) i pool lhs s =
     (let (j, s) = rn i (length pool - 1) s in
      if i < length pool \<and> j < length pool
      then let pool = swap_at i j pool in split_from rn n (Suc i) pool (insert (pool ! i) lhs) s
      else Inl (Undefined ''vector index''))"

definition GenerateSplit :: "'s random_number \<Rightarrow> 'a list \<Rightarrow> nat \<Rightarrow> 's \<Rightarrow> ('a set \<times> 's) res" where
  "GenerateSplit rn pool lhs_size s = split_from rn lhs_size 0 pool {} s"

definition pause_pairs :: "(host_name \<times> host_name) list \<Rightarrow> network \<Rightarrow> network res" where
  "pause_pairs = res_fold (\<lambda>(a, b). PauseLink a b)"

definition split_pairs :: "host_name list \<Rightarrow> host_name set \<Rightarrow> (host_name \<times> host_name) list" where
  "split_pairs pool lhs =
     concat (map (\<lambda>a. map (\<lambda>b. (a, b)) (filter (\<lambda>b. (a \<in> lhs) \<noteq> (b \<in> lhs)) pool)) pool)"

definition RandomSplit ::
    "'s random_number \<Rightarrow> host_name list \<Rightarrow> nat \<Rightarrow> 's \<Rightarrow> network \<Rightarrow> (network \<times> 's) res" where
  "RandomSplit rn pool lhs_size s net =
     res_bind (GenerateSplit rn pool lhs_size s) (\<lambda>(lhs, s).
       res_bind (pause_pairs (split_pairs pool lhs) net) (\<lambda>net. Inr (net, s)))"

definition isolate_pairs :: "host_name list \<Rightarrow> host_name \<Rightarrow> (host_name \<times> host_name) list" where
  "isolate_pairs pool victim =
     concat (map (\<lambda>h. if h \<noteq> victim then [(h, victim), (victim, h)] else []) pool)"

definition Isolate :: "host_name list \<Rightarrow> host_name \<Rightarrow> network \<Rightarrow> network res" where
  "Isolate pool victim net = pause_pairs (isolate_pairs pool victim) net"

definition PauseIncomingLinks :: "host_name list \<Rightarrow> host_name \<Rightarrow> network \<Rightarrow> network res" where
  "PauseIncomingLinks pool victim net = pause_pairs (isolate_pairs pool victim) net"

definition star_pairs :: "host_name list \<Rightarrow> nat \<Rightarrow> (host_name \<times> host_name) list" where
  "star_pairs pool center =
     concat (map (\<lambda>i. map (\<lambda>j. (pool ! i, pool ! j))
       (filter (\<lambda>j. i \<noteq> center \<and> j \<noteq> center) [0..<length pool])) [0..<length pool])"

definition MakeStar :: "host_name list \<Rightarrow> nat \<Rightarrow> network \<Rightarrow> network res" where
  "MakeStar pool center net = pause_pairs (star_pairs pool center) net"

text \<open>\<open>node::rt::RandomNumber(n)\<close> is below \<open>n\<close>.\<close>

type_synonym 's random_below = "nat \<Rightarrow> 's \<Rightarrow> nat \<times> 's"

definition rb_ok :: "'s random_below \<Rightarrow> bool" where
  "rb_ok rb \<longleftrightarrow> (\<forall>n s. 0 < n \<longrightarrow> fst (rb n s) < n)"

definition MakeRandomStar :: "'s random_below \<Rightarrow> host_name list \<Rightarrow> 's \<Rightarrow> network \<Rightarrow> (network \<times> 's) res" where
  "MakeRandomStar rb pool s net =
     (let (center, s) = rb (length pool) s in res_bind (MakeStar pool center net) (\<lambda>net. Inr (net, s)))"

section \<open>Random choices\<close>

lemma shuffle_mset:
  assumes "rn_ok rn"
  shows "i + n < length pool \<or> n = 0 \<Longrightarrow> mset (fst (shuffle_from rn n i (pool, s))) = mset pool"
proof (induction n arbitrary: i pool s)
  case (Suc n)
  obtain j s' where j: "rn i (length pool - 1) s = (j, s')" by (cases "rn i (length pool - 1) s")
  have "i \<le> length pool - 1" using Suc.prems by auto
  then have "i \<le> j \<and> j \<le> length pool - 1" using assms j unfolding rn_ok_def by (metis fst_conv)
  then have "mset (swap_at i j pool) = mset pool" using Suc.prems by auto
  then show ?case using Suc.IH [of "Suc i" "swap_at i j pool" s'] Suc.prems by (simp add: j [simplified])
qed simp

lemma drop_swap_at:
  assumes "i \<le> j" and "j < length xs"
  shows "set (drop (Suc i) (swap_at i j xs)) \<subseteq> set (drop i xs)" and "swap_at i j xs ! i \<in> set (drop i xs)"
    and "distinct (swap_at i j xs) = distinct xs"
proof -
  have "mset (swap_at i j xs) = mset xs" using assms by simp
  then show "distinct (swap_at i j xs) = distinct xs" by (metis mset_eq_imp_distinct_iff)
  show "swap_at i j xs ! i \<in> set (drop i xs)"
    using assms nth_mem [of "j - i" "drop i xs"] by (auto simp: nth_swap_at)
  have *: "xs ! k \<in> set (drop i xs)" if "i \<le> k" "k < length xs" for k
    using that nth_mem [of "k - i" "drop i xs"] by simp
  show "set (drop (Suc i) (swap_at i j xs)) \<subseteq> set (drop i xs)"
  proof
    fix x assume "x \<in> set (drop (Suc i) (swap_at i j xs))"
    then obtain m where m: "m < length xs - Suc i" "x = swap_at i j xs ! (Suc i + m)"
      by (auto simp: in_set_conv_nth)
    then show "x \<in> set (drop i xs)" using assms * [of i] * [of "Suc i + m"] * [of j]
      by (auto simp: nth_swap_at split: if_splits)
  qed
qed

lemma split_from_correct:
  assumes "rn_ok rn"
  shows "i + n \<le> length pool \<Longrightarrow> distinct pool \<Longrightarrow> finite lhs \<Longrightarrow> lhs \<inter> set (drop i pool) = {} \<Longrightarrow>
    \<exists>lhs' s'. split_from rn n i pool lhs s = Inr (lhs', s') \<and> card lhs' = card lhs + n \<and>
      lhs \<subseteq> lhs' \<and> lhs' \<subseteq> lhs \<union> set pool"
proof (induction n arbitrary: i pool lhs s)
  case (Suc n)
  obtain j s' where j: "rn i (length pool - 1) s = (j, s')" by (cases "rn i (length pool - 1) s")
  have i: "i < length pool" using Suc.prems(1) by simp
  then have "i \<le> length pool - 1" by simp
  then have ij: "i \<le> j" "j < length pool"
    using assms j i unfolding rn_ok_def by (metis fst_conv, metis Suc_pred' fst_conv le_imp_less_Suc length_pos_if_in_set nth_mem)
  let ?p = "swap_at i j pool"
  note sw = drop_swap_at [OF ij]
  have notin: "?p ! i \<notin> lhs" using sw(2) Suc.prems(4) by blast
  have "?p ! i \<notin> set (drop (Suc i) ?p)"
    using Suc.prems(2) sw(3) i by (metis Cons_nth_drop_Suc distinct.simps(2) distinct_drop length_swap_at)
  then have "insert (?p ! i) lhs \<inter> set (drop (Suc i) ?p) = {}"
    using sw(1) Suc.prems(4) by blast
  then obtain lhs' s'' where "split_from rn n (Suc i) ?p (insert (?p ! i) lhs) s' = Inr (lhs', s'')"
      "card lhs' = card (insert (?p ! i) lhs) + n" "insert (?p ! i) lhs \<subseteq> lhs'"
      "lhs' \<subseteq> insert (?p ! i) lhs \<union> set ?p"
    using Suc.IH [of "Suc i" ?p "insert (?p ! i) lhs" s'] Suc.prems sw(3) by auto
  moreover have "?p ! i \<in> set pool" "set ?p = set pool" using i ij by (auto simp: nth_swap_at)
  ultimately show ?case
    using notin Suc.prems(3) i ij by (auto simp: j [simplified] Let_def)
qed simp

section \<open>Pausing links one by one\<close>

definition well_built :: "network \<Rightarrow> bool" where
  "well_built net \<longleftrightarrow> distinct (servers net) \<and> length (links net) = length (servers net) * length (servers net)"

definition link_paused :: "network \<Rightarrow> host_name \<Rightarrow> host_name \<Rightarrow> bool" where
  "link_paused net a b \<longleftrightarrow> (case GetLink a b net of Inl _ \<Rightarrow> False | Inr k \<Rightarrow> paused (links net ! k))"

lemma server_index_Inr:
  "server_index h ss m = Inr i \<Longrightarrow> m \<le> i \<and> i - m < length ss \<and> ss ! (i - m) = h"
proof (induction ss arbitrary: m)
  case (Cons s ss)
  then show ?case by (cases "h = s") (fastforce simp: nth_Cons' Suc_diff_Suc less_diff_conv2)+
qed simp

lemma server_index_total: "h \<in> set ss \<Longrightarrow> \<exists>i. server_index h ss m = Inr i"
  by (induction ss arbitrary: m) auto

lemma ServerToIndex_Inr:
  "ServerToIndex h net = Inr i \<Longrightarrow> i < length (servers net) \<and> servers net ! i = h"
  using server_index_Inr [of h "servers net" 0 i] by (simp add: ServerToIndex_def)

lemma GetLink_total:
  assumes "well_built net" and "a \<in> set (servers net)" and "b \<in> set (servers net)"
  obtains k where "GetLink a b net = Inr k" and "k < length (links net)"
proof -
  obtain i j where ij: "ServerToIndex a net = Inr i" "ServerToIndex b net = Inr j"
    using server_index_total assms(2,3) unfolding ServerToIndex_def by metis
  then have "i * length (servers net) + j < length (links net)"
    using ServerToIndex_Inr index_bound assms(1) by (simp add: well_built_def)
  then show ?thesis using that ij by (simp add: GetLink_def GetLinkIndex_def)
qed

lemma GetLink_inj:
  assumes "GetLink a b net = Inr k" and "GetLink c d net = Inr k"
  shows "a = c \<and> b = d"
proof -
  let ?n = "length (servers net)"
  obtain i j where ij: "ServerToIndex a net = Inr i" "ServerToIndex b net = Inr j" "k = i * ?n + j"
    using assms(1) by (auto simp: GetLink_def GetLinkIndex_def res_bind_Inr Let_def split: if_splits)
  obtain i' j' where ij': "ServerToIndex c net = Inr i'" "ServerToIndex d net = Inr j'" "k = i' * ?n + j'"
    using assms(2) by (auto simp: GetLink_def GetLinkIndex_def res_bind_Inr Let_def split: if_splits)
  have j: "j < ?n" "j' < ?n" using ServerToIndex_Inr ij(2) ij'(2) by auto
  then have "servers net \<noteq> []" by auto
  then have "k div ?n = i" "k mod ?n = j" using j by (simp_all add: ij(3))
  moreover have "k div ?n = i'" "k mod ?n = j'" using j \<open>servers net \<noteq> []\<close> by (simp_all add: ij'(3))
  ultimately show ?thesis using ServerToIndex_Inr ij ij' by metis
qed

lemma GetLink_cong:
  "servers net' = servers net \<Longrightarrow> length (links net') = length (links net) \<Longrightarrow>
   GetLink a b net' = GetLink a b net"
  by (simp add: GetLink_def GetLinkIndex_def ServerToIndex_def)

lemma pause_pairs_exact:
  "well_built net \<Longrightarrow> distinct ps \<Longrightarrow>
   (\<And>a b. (a, b) \<in> set ps \<Longrightarrow>
      a \<in> set (servers net) \<and> b \<in> set (servers net) \<and> \<not> link_paused net a b) \<Longrightarrow>
   \<exists>net'. pause_pairs ps net = Inr net' \<and> servers net' = servers net \<and>
     length (links net') = length (links net) \<and>
     (\<forall>a \<in> set (servers net). \<forall>b \<in> set (servers net).
        link_paused net' a b \<longleftrightarrow> link_paused net a b \<or> (a, b) \<in> set ps)"
proof (induction ps arbitrary: net)
  case Nil
  then show ?case by (simp add: pause_pairs_def)
next
  case (Cons p ps)
  obtain a b where p: "p = (a, b)" by (cases p)
  have ab: "a \<in> set (servers net)" "b \<in> set (servers net)" "\<not> link_paused net a b"
    using Cons.prems(3) [of a b] by (auto simp: p)
  obtain k where k: "GetLink a b net = Inr k" "k < length (links net)"
    using GetLink_total [OF Cons.prems(1) ab(1,2)] .
  let ?u = "update_link k ((links net ! k)\<lparr>paused := True\<rparr>) net"
  have pl: "PauseLink a b net = Inr ?u"
    using k ab(3) by (simp add: PauseLink_def link_paused_def Link_Pause_def)
  have get: "GetLink c d ?u = GetLink c d net" for c d by (rule GetLink_cong) simp_all
  have lp: "link_paused ?u c d \<longleftrightarrow> link_paused net c d \<or> (c, d) = (a, b)" for c d
    using GetLink_inj [OF _ k(1), of c d] k
    by (auto simp: link_paused_def get split: sum.split)
  have "well_built ?u" using Cons.prems(1) by (simp add: well_built_def)
  moreover have "c \<in> set (servers ?u) \<and> d \<in> set (servers ?u) \<and> \<not> link_paused ?u c d"
    if "(c, d) \<in> set ps" for c d
    using Cons.prems(2) Cons.prems(3) [of c d] lp that by (auto simp: p)
  ultimately obtain net' where net': "pause_pairs ps ?u = Inr net'" "servers net' = servers ?u"
      "length (links net') = length (links ?u)"
      "\<forall>c \<in> set (servers ?u). \<forall>d \<in> set (servers ?u).
         link_paused net' c d \<longleftrightarrow> link_paused ?u c d \<or> (c, d) \<in> set ps"
    using Cons.IH [of ?u] Cons.prems(2) by auto
  then have "pause_pairs (p # ps) net = Inr net'" using pl by (simp add: pause_pairs_def p)
  with net' lp show ?case by (auto simp: p)
qed

lemma distinct_pairs:
  "distinct xs \<Longrightarrow> (\<And>a. a \<in> set xs \<Longrightarrow> distinct (f a)) \<Longrightarrow>
   distinct (concat (map (\<lambda>a. map (\<lambda>b. (a, b)) (f a)) xs))"
  by (induction xs) (auto simp: distinct_map inj_on_def)

section \<open>Properties\<close>

text \<open>A random split puts exactly \<open>lhs_size\<close> hosts of the pool on one side, whatever numbers are drawn,
  and pauses exactly the links between the two sides, in both directions.\<close>

theorem random_split_exact:
  assumes "rn_ok rn" and "well_built net" and "distinct pool" and "set pool \<subseteq> set (servers net)"
    and "\<forall>a b. \<not> link_paused net a b" and "lhs_size \<le> length pool"
  shows "\<exists>lhs net' s'. RandomSplit rn pool lhs_size s net = Inr (net', s') \<and>
    card lhs = lhs_size \<and> lhs \<subseteq> set pool \<and>
    (\<forall>a \<in> set (servers net). \<forall>b \<in> set (servers net). link_paused net' a b \<longleftrightarrow>
       a \<in> set pool \<and> b \<in> set pool \<and> (a \<in> lhs) \<noteq> (b \<in> lhs))"
proof -
  obtain lhs s' where lhs: "GenerateSplit rn pool lhs_size s = Inr (lhs, s')" "card lhs = lhs_size"
      "lhs \<subseteq> set pool"
    using split_from_correct [OF assms(1), of 0 lhs_size pool "{}" s] assms(3,6)
    by (auto simp: GenerateSplit_def)
  have mem: "(a, b) \<in> set (split_pairs pool lhs) \<longleftrightarrow> a \<in> set pool \<and> b \<in> set pool \<and> (a \<in> lhs) \<noteq> (b \<in> lhs)"
    for a b by (auto simp: split_pairs_def)
  have "distinct (split_pairs pool lhs)"
    unfolding split_pairs_def by (rule distinct_pairs) (use assms(3) in auto)
  then obtain net' where "pause_pairs (split_pairs pool lhs) net = Inr net'"
      "\<forall>a \<in> set (servers net). \<forall>b \<in> set (servers net).
         link_paused net' a b \<longleftrightarrow> (a, b) \<in> set (split_pairs pool lhs)"
    using pause_pairs_exact [OF assms(2), of "split_pairs pool lhs"] assms(4,5)
    unfolding mem by blast
  with lhs mem show ?thesis by (auto simp: RandomSplit_def)
qed

lemma started_links:
  assumes "links net = []" and "distinct (servers net)"
  shows "well_built (Network_Start net)" and "servers (Network_Start net) = servers net"
    and "\<not> link_paused (Network_Start net) a b"
proof -
  let ?n = "length (servers net)"
  let ?base = "net\<lparr>links := all_links ?n\<rparr>"
  obtain ps where eq: "Network_Start net = fold link_opposites ps ?base"
    using assms(1) by (auto simp: Network_Start_def BuildLinks_def Let_def)
  show "well_built (Network_Start net)" "servers (Network_Start net) = servers net"
    using fold_opposites [of ps ?base] assms(2) by (simp_all add: eq well_built_def length_all_links)
  have "\<not> paused (links (Network_Start net) ! k)" if "k < length (links (Network_Start net))" for k
    using fold_opposites [of ps ?base] that all_links_init [of "all_links ?n ! k" ?n]
    by (auto simp: eq Link_init_def)
  then show "\<not> link_paused (Network_Start net) a b"
    by (auto simp: link_paused_def GetLink_def res_bind_def Let_def split: sum.split)
qed

definition three_hosts :: network where
  "three_hosts = Network_Start (fold Network_AddServer [''Server-1'', ''Server-2'', ''Server-3''] Network_init)"

lemma three_hosts:
  "well_built three_hosts" "servers three_hosts = [''Server-1'', ''Server-2'', ''Server-3'']"
  "\<not> link_paused three_hosts a b"
  unfolding three_hosts_def by (simp_all add: started_links Network_AddServer_def Network_init_def)

definition lowest :: "unit random_number" where
  "lowest lo hi s = (lo, s)"

theorem random_split_exact_witness:
  "\<exists>lhs net' s'. RandomSplit lowest [''Server-1'', ''Server-2'', ''Server-3''] 1 () three_hosts = Inr (net', s') \<and>
     card lhs = 1 \<and> lhs \<subseteq> {''Server-1'', ''Server-2'', ''Server-3''}"
  using random_split_exact [of lowest three_hosts "[''Server-1'', ''Server-2'', ''Server-3'']" 1 "()"]
  by (fastforce simp: three_hosts rn_ok_def lowest_def)

text \<open>\<open>MakeStar\<close> leaves only the links of the center open: it pauses the links between any two other
  hosts of the pool, and also the loopback link of each of them to itself, which \<open>Split\<close> spares.\<close>

theorem star_exact:
  assumes "well_built net" and "distinct pool" and "set pool \<subseteq> set (servers net)"
    and "\<forall>a b. \<not> link_paused net a b" and "center < length pool"
  shows "\<exists>net'. MakeStar pool center net = Inr net' \<and>
    (\<forall>a \<in> set (servers net). \<forall>b \<in> set (servers net). link_paused net' a b \<longleftrightarrow>
       a \<in> set pool \<and> b \<in> set pool \<and> a \<noteq> pool ! center \<and> b \<noteq> pool ! center)"
proof -
  let ?c = "pool ! center"
  let ?idx = "\<lambda>i. filter (\<lambda>j. i \<noteq> center \<and> j \<noteq> center) [0..<length pool]"
  have eq: "star_pairs pool center =
      map (\<lambda>p. (pool ! fst p, pool ! snd p)) (concat (map (\<lambda>i. map (\<lambda>j. (i, j)) (?idx i)) [0..<length pool]))"
    by (simp add: star_pairs_def map_concat o_def)
  have inj: "inj_on (\<lambda>p. (pool ! fst p, pool ! snd p)) ({0..<length pool} \<times> {0..<length pool})"
    using assms(2) by (auto simp: inj_on_def nth_eq_iff_index_eq)
  have dist: "distinct (star_pairs pool center)"
    unfolding eq distinct_map
    by (intro conjI distinct_pairs inj_on_subset [OF inj]) (simp_all, auto)
  have mem: "(a, b) \<in> set (star_pairs pool center) \<longleftrightarrow>
      a \<in> set pool \<and> b \<in> set pool \<and> a \<noteq> ?c \<and> b \<noteq> ?c" for a b
    using assms(2,5) by (auto simp: star_pairs_def in_set_conv_nth nth_eq_iff_index_eq)
  have "a \<in> set (servers net) \<and> b \<in> set (servers net) \<and> \<not> link_paused net a b"
    if "(a, b) \<in> set (star_pairs pool center)" for a b
    using that assms(3,4) unfolding mem by auto
  from pause_pairs_exact [OF assms(1) dist this] obtain net' where
    "pause_pairs (star_pairs pool center) net = Inr net'" "\<forall>a \<in> set (servers net). \<forall>b \<in> set (servers net).
       link_paused net' a b \<longleftrightarrow> link_paused net a b \<or> (a, b) \<in> set (star_pairs pool center)" by auto
  then show ?thesis using assms(4) by (simp add: MakeStar_def mem)
qed

lemma random_star_exact:
  assumes "rb_ok rb" and "well_built net" and "distinct pool" and "set pool \<subseteq> set (servers net)" and "pool \<noteq> []"
    and "\<forall>a b. \<not> link_paused net a b"
  obtains center net' s' where "center < length pool" and "MakeRandomStar rb pool s net = Inr (net', s')"
    and "\<And>a b. a \<in> set (servers net) \<Longrightarrow> b \<in> set (servers net) \<Longrightarrow> link_paused net' a b \<longleftrightarrow>
      a \<in> set pool \<and> b \<in> set pool \<and> a \<noteq> pool ! center \<and> b \<noteq> pool ! center"
proof -
  obtain center s' where c: "rb (length pool) s = (center, s')" by (cases "rb (length pool) s")
  have "fst (rb (length pool) s) < length pool" using assms(1,5) by (simp add: rb_ok_def)
  then have "center < length pool" by (simp add: c)
  moreover from star_exact [OF assms(2-4,6) this] obtain net' where "MakeStar pool center net = Inr net'"
    "\<forall>a \<in> set (servers net). \<forall>b \<in> set (servers net). link_paused net' a b \<longleftrightarrow>
       a \<in> set pool \<and> b \<in> set pool \<and> a \<noteq> pool ! center \<and> b \<noteq> pool ! center" by blast
  ultimately show ?thesis using that [of center net' s'] c by (simp add: MakeRandomStar_def)
qed

theorem star_exact_witness:
  "\<exists>net'. MakeStar [''Server-1'', ''Server-2'', ''Server-3''] 0 three_hosts = Inr net' \<and>
     link_paused net' ''Server-2'' ''Server-2'' \<and> \<not> link_paused net' ''Server-1'' ''Server-2''"
  using star_exact [of three_hosts "[''Server-1'', ''Server-2'', ''Server-3'']" 0]
  by (fastforce simp: three_hosts)

text \<open>\<open>Isolate\<close> pauses exactly the links between the victim and the other hosts of the pool.
  \<open>PauseIncomingLinks\<close>, against its name, does the same and pauses the outgoing links too.\<close>

theorem isolate_exact:
  assumes "well_built net" and "distinct pool" and "set pool \<subseteq> set (servers net)"
    and "victim \<in> set (servers net)" and "\<forall>a b. \<not> link_paused net a b"
  shows "\<exists>net'. Isolate pool victim net = Inr net' \<and> PauseIncomingLinks pool victim net = Inr net' \<and>
    (\<forall>a \<in> set (servers net). \<forall>b \<in> set (servers net). link_paused net' a b \<longleftrightarrow>
       a \<noteq> b \<and> (a = victim \<and> b \<in> set pool \<or> b = victim \<and> a \<in> set pool))"
proof -
  have mem: "(a, b) \<in> set (isolate_pairs pool victim) \<longleftrightarrow>
      a \<noteq> b \<and> (a = victim \<and> b \<in> set pool \<or> b = victim \<and> a \<in> set pool)" for a b
    by (auto simp: isolate_pairs_def split: if_splits)
  have "distinct (isolate_pairs ps victim)" if "distinct ps" for ps
    using that by (induction ps) (auto simp: isolate_pairs_def split: if_splits)
  note dist = this [OF assms(2)]
  have "a \<in> set (servers net) \<and> b \<in> set (servers net) \<and> \<not> link_paused net a b"
    if "(a, b) \<in> set (isolate_pairs pool victim)" for a b
    using that assms(3-5) unfolding mem by auto
  from pause_pairs_exact [OF assms(1) dist this] obtain net' where
    "pause_pairs (isolate_pairs pool victim) net = Inr net'" "\<forall>a \<in> set (servers net). \<forall>b \<in> set (servers net).
       link_paused net' a b \<longleftrightarrow> link_paused net a b \<or> (a, b) \<in> set (isolate_pairs pool victim)" by auto
  then show ?thesis using assms(5) by (simp add: Isolate_def PauseIncomingLinks_def mem)
qed

theorem isolate_exact_witness:
  "\<exists>net'. PauseIncomingLinks [''Server-1'', ''Server-2'', ''Server-3''] ''Server-1'' three_hosts = Inr net' \<and>
     link_paused net' ''Server-1'' ''Server-2'' \<and> link_paused net' ''Server-2'' ''Server-1''"
  using isolate_exact [of three_hosts "[''Server-1'', ''Server-2'', ''Server-3'']" "''Server-1''"]
  by (fastforce simp: three_hosts)

text \<open>\<open>Shuffle\<close> permutes the pool.\<close>

theorem shuffle_permutes:
  assumes "rn_ok rn"
  shows "mset (fst (Shuffle rn pool s)) = mset pool"
  using shuffle_mset [OF assms, of 0 "length pool - 1" pool s] by (cases pool) (simp_all add: Shuffle_def)

theorem shuffle_permutes_witness: "mset (fst (Shuffle lowest ''abc'' ())) = mset ''cab''"
  using shuffle_permutes [of lowest "''abc''" "()"] by (simp add: rn_ok_def lowest_def)

end
