(* ===== verification/Transport.thy ===== *)
theory Transport
  imports Network Scheduler Ordered_Map
begin

text \<open>
  \<open>network/{transport,socket}.{hpp,cpp}\<close> and \<open>server/runtime/{net_transport.hpp,transport.cpp}\<close>: the
  transport of a server, a map from its ports to endpoints. Each endpoint carries the number of the
  world step it was created in; packets carry the number of the endpoint they belong to, and older
  packets than the endpoint they reach are answered with a reset. A handler is an opaque \<open>'h\<close>; what
  the transport does to it is a task in the server's scheduler, which also holds the start of the main
  program and the tasks \<open>'u\<close> of the node (timers, fibers).
\<close>

section \<open>State\<close>

record 'h endpoint =
  e_handler :: 'h
  e_ts :: nat

record 'h transport =
  t_host :: host_name
  endpoints :: "(port, 'h endpoint) omap"
  next_port :: port

record client_socket =
  cs_link :: nat
  cs_self_port :: port
  cs_server_port :: port
  cs_ts :: nat

record server_socket =
  ss_port :: port

record reply_socket =
  rs_link :: nat
  rs_self_port :: port
  rs_peer_port :: port
  rs_ts :: nat

datatype ('h, 'u) process_task =
    HandleMessage 'h string reply_socket
  | HandleDisconnect 'h host_name
  | RunMain
  | RunTask 'u

definition Transport_init :: "host_name \<Rightarrow> 'h transport" where
  "Transport_init h = \<lparr>t_host = h, endpoints = [], next_port = 1\<rparr>"

section \<open>Endpoints\<close>

text \<open>The loop ends with the first port that is free; with all ports in use it does not end (\<open>None\<close>).
  The port wraps from 65535 to 0.\<close>

partial_function (option) FindFreePort :: "'h transport \<Rightarrow> (port \<times> 'h transport) option" where
  "FindFreePort t =
     (if om_find (endpoints t) (next_port t) = None
      then Some (next_port t, t\<lparr>next_port := next_port t + 1\<rparr>)
      else FindFreePort (t\<lparr>next_port := next_port t + 1\<rparr>))"

definition ping_packet :: "port \<Rightarrow> port \<Rightarrow> nat \<Rightarrow> packet" where
  "ping_packet self server stamp =
     \<lparr>p_type = Ping, source_port = self, dest_port = server, ts = stamp, message = ''<ping>''\<rparr>"

text \<open>\<open>ConnectTo\<close>: the link to the peer, the world step and whether there is an adversary are arguments;
  the result is the socket, the new state and the packet to add to the link, if any.\<close>

definition ConnectTo ::
    "nat \<Rightarrow> port \<Rightarrow> 'h \<Rightarrow> nat \<Rightarrow> bool \<Rightarrow> 'h transport \<Rightarrow>
     (client_socket \<times> packet option \<times> 'h transport) option" where
  "ConnectTo k server_port handler step adversary t =
     (case FindFreePort t of
        None \<Rightarrow> None
      | Some (p, t) \<Rightarrow>
          let t = t\<lparr>endpoints := om_emplace p \<lparr>e_handler = handler, e_ts = step\<rparr> (endpoints t)\<rparr>;
              out = (if adversary then Some (ping_packet p server_port step) else None);
              s = \<lparr>cs_link = k, cs_self_port = p, cs_server_port = server_port, cs_ts = step\<rparr>
          in Some (s, out, t))"

definition Serve :: "port \<Rightarrow> 'h \<Rightarrow> nat \<Rightarrow> 'h transport \<Rightarrow> (server_socket \<times> 'h transport) res" where
  "Serve p handler step t =
     verify (om_find (endpoints t) p = None) ''Port already in use''
       (Inr (\<lparr>ss_port = p\<rparr>,
             t\<lparr>endpoints := om_emplace p \<lparr>e_handler = handler, e_ts = step\<rparr> (endpoints t)\<rparr>))"

definition RemoveEndpoint :: "port \<Rightarrow> 'h transport \<Rightarrow> 'h transport" where
  "RemoveEndpoint p t = t\<lparr>endpoints := om_erase p (endpoints t)\<rparr>"

definition Transport_Reset :: "'h transport \<Rightarrow> 'h transport" where
  "Transport_Reset t = t\<lparr>endpoints := []\<rparr>"

section \<open>Sockets\<close>

text \<open>A closed client socket has no implementation object (\<open>None\<close>); using it is undefined.\<close>

definition ClientSocket_Send :: "string \<Rightarrow> client_socket option \<Rightarrow> (nat \<times> packet) res" where
  "ClientSocket_Send msg s =
     (case s of
        None \<Rightarrow> Inl (Undefined ''null impl_'')
      | Some s \<Rightarrow> Inr (cs_link s, \<lparr>p_type = Data, source_port = cs_self_port s,
          dest_port = cs_server_port s, ts = cs_ts s, message = msg\<rparr>))"

definition ClientSocket_IsValid :: "client_socket option \<Rightarrow> bool" where
  "ClientSocket_IsValid s \<longleftrightarrow> s \<noteq> None"

definition ClientSocket_Close ::
    "client_socket option \<Rightarrow> 'h transport \<Rightarrow> client_socket option \<times> 'h transport" where
  "ClientSocket_Close s t =
     (case s of None \<Rightarrow> (None, t) | Some s \<Rightarrow> (None, RemoveEndpoint (cs_self_port s) t))"

definition ServerSocket_Close ::
    "server_socket option \<Rightarrow> 'h transport \<Rightarrow> server_socket option \<times> 'h transport" where
  "ServerSocket_Close s t =
     (case s of None \<Rightarrow> (None, t) | Some s \<Rightarrow> (None, RemoveEndpoint (ss_port s) t))"

definition ReplySocket :: "packet \<Rightarrow> nat \<Rightarrow> reply_socket" where
  "ReplySocket incoming out = \<lparr>rs_link = out, rs_self_port = dest_port incoming,
     rs_peer_port = source_port incoming, rs_ts = ts incoming\<rparr>"

definition ReplySocket_Send :: "string \<Rightarrow> reply_socket \<Rightarrow> nat \<times> packet" where
  "ReplySocket_Send msg s = (rs_link s, \<lparr>p_type = Data, source_port = rs_self_port s,
     dest_port = rs_peer_port s, ts = rs_ts s, message = msg\<rparr>)"

section \<open>Incoming packets\<close>

definition Replier_Reply :: "packet \<Rightarrow> packet_type \<Rightarrow> string \<Rightarrow> packet" where
  "Replier_Reply pkt ty payload = \<lparr>p_type = ty, source_port = dest_port pkt,
     dest_port = source_port pkt, ts = ts pkt, message = payload\<rparr>"

definition Replier_Ping :: "packet \<Rightarrow> packet" where
  "Replier_Ping pkt = Replier_Reply pkt Ping ''<ping>''"

definition Replier_Reset :: "packet \<Rightarrow> packet" where
  "Replier_Reset pkt = Replier_Reply pkt Reset ''<reset>''"

text \<open>\<open>HandlePacket\<close> answers with a packet for the link \<open>out\<close>, or schedules a task at the current time.
  \<open>from\<close> is the host at the end of \<open>out\<close>.\<close>

definition HandlePacket ::
    "packet \<Rightarrow> nat \<Rightarrow> host_name \<Rightarrow> time_point \<Rightarrow> 'h transport \<Rightarrow> ('h, 'u) process_task scheduler \<Rightarrow>
     packet option \<times> ('h, 'u) process_task scheduler" where
  "HandlePacket pkt out from now t q =
     (case om_find (endpoints t) (dest_port pkt) of
        None \<Rightarrow> (if p_type pkt \<noteq> Reset then (Some (Replier_Reset pkt), q) else (None, q))
      | Some endpoint \<Rightarrow>
          if ts pkt < e_ts endpoint then (Some (Replier_Reset pkt), q)
          else (case p_type pkt of
              Ping \<Rightarrow> (Some (Replier_Ping pkt), q)
            | Reset \<Rightarrow> (None, Scheduler_ScheduleAsap now (HandleDisconnect (e_handler endpoint) from) q)
            | Data \<Rightarrow> (None, Scheduler_ScheduleAsap now
                (HandleMessage (e_handler endpoint) (message pkt) (ReplySocket pkt out)) q)))"

section \<open>Addresses of the node's transport\<close>

text \<open>\<open>std::atoi\<close>: white space, a sign, digits; a value outside of \<open>int\<close> is undefined.\<close>

definition atoi :: "string \<Rightarrow> int res" where
  "atoi s =
     (let s = dropWhile is_space s;
          neg = (s \<noteq> [] \<and> hd s = CHR ''-'');
          s = (if s \<noteq> [] \<and> (hd s = CHR ''-'' \<or> hd s = CHR ''+'') then tl s else s);
          n = int (digits_value (takeWhile is_digit s)); v = (if neg then - n else n)
      in if - (2 ^ 31) \<le> v \<and> v < 2 ^ 31 then Inr v else Inl (Undefined ''atoi''))"

definition ParsePort :: "string \<Rightarrow> port res" where
  "ParsePort s = res_bind (atoi s) (\<lambda>v. Inr (word_of_int v))"

text \<open>With no colon, \<open>pos\<close> is the largest \<open>size_t\<close>: the host is the whole address, and so is the text of
  the port, since \<open>pos + 1\<close> is 0.\<close>

definition ParseAddress :: "string \<Rightarrow> (host_name \<times> port) res" where
  "ParseAddress a =
     (let lhs = takeWhile (\<lambda>c. c \<noteq> CHR '':'') a;
          rhs = (if CHR '':'' \<in> set a then tl (dropWhile (\<lambda>c. c \<noteq> CHR '':'') a) else a)
      in res_bind (ParsePort rhs) (\<lambda>p. Inr (lhs, p)))"

text \<open>\<open>NetTransportSocket\<close>: a disconnect closes the socket before it tells the handler (\<open>None\<close> when the
  handler object is gone).\<close>

definition NetTransportSocket_HandleDisconnect ::
    "host_name \<Rightarrow> bool \<Rightarrow> client_socket option \<Rightarrow> 'h transport \<Rightarrow>
     client_socket option \<times> 'h transport \<times> host_name option" where
  "NetTransportSocket_HandleDisconnect peer handler_alive s t =
     (let (s, t) = ClientSocket_Close s t in (s, t, if handler_alive then Some peer else None))"

definition NetTransportSocket_HandleMessage :: "string \<Rightarrow> bool \<Rightarrow> string option" where
  "NetTransportSocket_HandleMessage msg handler_alive = (if handler_alive then Some msg else None)"

definition NetTransportServer_HandleMessage ::
    "string \<Rightarrow> reply_socket \<Rightarrow> bool \<Rightarrow> (string \<times> reply_socket) option" where
  "NetTransportServer_HandleMessage msg back handler_alive =
     (if handler_alive then Some (msg, back) else None)"

section \<open>Free ports\<close>

lemma FindFreePort_finds:
  "om_find (endpoints t) (next_port t + of_nat d) = None \<Longrightarrow>
   \<exists>p. FindFreePort t = Some (p, t\<lparr>next_port := p + 1\<rparr>) \<and> om_find (endpoints t) p = None"
proof (induction d arbitrary: t)
  case 0
  then show ?case by (subst FindFreePort.simps) simp
next
  case (Suc d)
  show ?case
  proof (cases "om_find (endpoints t) (next_port t) = None")
    case True
    then show ?thesis by (subst FindFreePort.simps) simp
  next
    case False
    let ?t = "t\<lparr>next_port := next_port t + 1\<rparr>"
    have "om_find (endpoints ?t) (next_port ?t + of_nat d) = None" using Suc.prems by (simp add: add.assoc)
    from Suc.IH [OF this] False show ?thesis by (subst FindFreePort.simps) simp
  qed
qed

lemma FindFreePort_stuck:
  assumes "\<forall>p. om_find (endpoints t) p \<noteq> None"
  shows "FindFreePort t = None"
proof -
  have "\<exists>p. om_find (endpoints t) p = None" if "FindFreePort t = Some r" for r
  proof (rule FindFreePort.raw_induct [OF _ that])
    fix ffp and x :: "'a transport" and y
    assume IH: "\<And>t y. ffp t = Some y \<Longrightarrow> \<exists>p. om_find (endpoints t) p = None"
      and y: "(if om_find (endpoints x) (next_port x) = None
          then Some (next_port x, x\<lparr>next_port := next_port x + 1\<rparr>)
          else ffp (x\<lparr>next_port := next_port x + 1\<rparr>)) = Some y"
    show "\<exists>p. om_find (endpoints x) p = None"
      using y IH [of "x\<lparr>next_port := next_port x + 1\<rparr>" y] by (auto split: if_splits)
  qed
  then have "FindFreePort t \<noteq> None \<Longrightarrow> \<exists>p. om_find (endpoints t) p = None" by blast
  with assms show ?thesis by blast
qed

lemma ConnectTo_Some:
  assumes "ConnectTo k server_port handler step adversary t = Some (s, out, t')"
  shows "om_find (endpoints t) (cs_self_port s) = None"
    "endpoints t' = om_emplace (cs_self_port s) \<lparr>e_handler = handler, e_ts = step\<rparr> (endpoints t)"
    "cs_link s = k" "cs_server_port s = server_port" "cs_ts s = step"
proof -
  obtain p t1 where f: "FindFreePort t = Some (p, t1)"
    using assms by (auto simp: ConnectTo_def split: option.splits)
  have "\<exists>q. om_find (endpoints t) q = None" using f FindFreePort_stuck [of t] by (metis option.distinct(1))
  then obtain q where q: "om_find (endpoints t) q = None" ..
  have "om_find (endpoints t) (next_port t + of_nat (unat (q - next_port t))) = None" using q by simp
  from FindFreePort_finds [OF this] f have "om_find (endpoints t) p = None" "t1 = t\<lparr>next_port := p + 1\<rparr>"
    by auto
  then show "om_find (endpoints t) (cs_self_port s) = None"
    "endpoints t' = om_emplace (cs_self_port s) \<lparr>e_handler = handler, e_ts = step\<rparr> (endpoints t)"
    "cs_link s = k" "cs_server_port s = server_port" "cs_ts s = step"
    using assms f by (auto simp: ConnectTo_def Let_def)
qed

lemma atoi_show_nat:
  assumes "n < 2 ^ 31" shows "atoi (show_nat n) = Inr (int n)"
proof -
  have "hd (show_nat n) \<noteq> CHR ''-''" "hd (show_nat n) \<noteq> CHR ''+''" by (rule show_nat_head [of n]; simp)+
  then show ?thesis using assms by (simp add: atoi_def Let_def)
qed

section \<open>Properties\<close>

text \<open>Looking for a free port ends exactly when there is one, and then returns a port without an
  endpoint; when all 65536 ports of a server are in use, \<open>ConnectTo\<close> never returns.\<close>

theorem FindFreePort_total:
  "(FindFreePort t = None \<longleftrightarrow> (\<forall>p. om_find (endpoints t) p \<noteq> None)) \<and>
   (\<forall>p t'. FindFreePort t = Some (p, t') \<longrightarrow> om_find (endpoints t) p = None \<and> endpoints t' = endpoints t)"
proof -
  have found: "\<exists>p. FindFreePort t = Some (p, t\<lparr>next_port := p + 1\<rparr>) \<and> om_find (endpoints t) p = None"
    if "om_find (endpoints t) q = None" for q
    using FindFreePort_finds [of t "unat (q - next_port t)"] that by simp
  show ?thesis
  proof (cases "\<exists>q. om_find (endpoints t) q = None")
    case True
    then obtain p where "FindFreePort t = Some (p, t\<lparr>next_port := p + 1\<rparr>)" "om_find (endpoints t) p = None"
      using found by blast
    then show ?thesis by auto
  next
    case False
    then show ?thesis using FindFreePort_stuck [of t] by auto
  qed
qed

theorem FindFreePort_total_witness:
  "FindFreePort (Transport_init ''Server-1'' :: nat transport) \<noteq> None"
  using FindFreePort_total [of "Transport_init ''Server-1'' :: nat transport"]
  by (simp add: Transport_init_def)

text \<open>C17. Request and reply. A message sent through a fresh client socket to a server that serves the port
  since no later step reaches the handler of the server exactly once, at the current time, with a reply
  socket through which an answer reaches the handler of the client in the same way.\<close>

theorem request_reply:
  assumes "om_ok (endpoints c)" and "ConnectTo k port handler step adv c = Some (s, out, c')"
    and "om_find (endpoints srv) port = Some ep" and "e_ts ep \<le> step"
  shows "\<exists>req reply_sock ans. ClientSocket_Send msg (Some s) = Inr (k, req) \<and>
    HandlePacket req k_back client now srv q =
      (None, Scheduler_ScheduleAsap now (HandleMessage (e_handler ep) msg reply_sock) q) \<and>
    ReplySocket_Send answer reply_sock = (k_back, ans) \<and>
    HandlePacket ans k' peer now' c' q' =
      (None, Scheduler_ScheduleAsap now' (HandleMessage handler answer (ReplySocket ans k')) q')"
proof -
  let ?req = "\<lparr>p_type = Data, source_port = cs_self_port s, dest_port = port, ts = step, message = msg\<rparr>"
  let ?reply = "ReplySocket ?req k_back"
  note s = ConnectTo_Some [OF assms(2)]
  have "HandlePacket ?req k_back client now srv q =
      (None, Scheduler_ScheduleAsap now (HandleMessage (e_handler ep) msg ?reply) q)"
    using assms(3,4) by (simp add: HandlePacket_def)
  moreover have "HandlePacket (snd (ReplySocket_Send answer ?reply)) k' peer now' c' q' =
      (None, Scheduler_ScheduleAsap now'
        (HandleMessage handler answer (ReplySocket (snd (ReplySocket_Send answer ?reply)) k')) q')"
    using s(1,2) assms(1)
    by (simp add: HandlePacket_def ReplySocket_Send_def ReplySocket_def om_find_emplace domIff)
  moreover have "ClientSocket_Send msg (Some s) = Inr (k, ?req)"
    using s(3-5) by (simp add: ClientSocket_Send_def)
  moreover have "fst (ReplySocket_Send answer ?reply) = k_back"
    by (simp add: ReplySocket_Send_def ReplySocket_def)
  ultimately show ?thesis by (metis prod.collapse)
qed

definition demo_server :: "nat transport" where
  "demo_server = (Transport_init ''Server-1'')\<lparr>endpoints := [(42, \<lparr>e_handler = 7, e_ts = 3\<rparr>)]\<rparr>"

lemma demo_connect:
  "ConnectTo 1 42 (9 :: nat) 5 False (Transport_init ''Client-1'') =
     Some (\<lparr>cs_link = 1, cs_self_port = 1, cs_server_port = 42, cs_ts = 5\<rparr>, None,
       \<lparr>t_host = ''Client-1'', endpoints = [(1, \<lparr>e_handler = 9, e_ts = 5\<rparr>)], next_port = 2\<rparr>)"
  by (simp add: ConnectTo_def Transport_init_def FindFreePort.simps om_emplace_def)

theorem request_reply_witness:
  "\<exists>req back. ClientSocket_Send ''hi''
       (Some \<lparr>cs_link = 1, cs_self_port = 1, cs_server_port = 42, cs_ts = 5\<rparr>) = Inr (1, req) \<and>
     HandlePacket req 2 ''Client-1'' 10 demo_server PQ_empty =
       (None, Scheduler_ScheduleAsap 10 (HandleMessage 7 ''hi'' back) PQ_empty)"
  using request_reply [where srv = demo_server and ep = "\<lparr>e_handler = 7, e_ts = 3\<rparr>" and msg = "''hi''"
      and k_back = 2 and client = "''Client-1''" and now = 10 and q = PQ_empty and answer = "''ok''"
      and k' = 1 and peer = "''Server-1''" and now' = 11 and q' = PQ_empty, OF _ demo_connect]
  by (auto simp: demo_server_def Transport_init_def)

text \<open>C18. A restarted server does not talk to old connections. When the server serves its port again in a
  later step than the one the client connected in, a message of the client reaches no handler; the
  server answers with a reset, and this reset makes the transport of the client schedule exactly the
  disconnect of the client's handler.\<close>

theorem restart_disconnects:
  assumes "om_ok (endpoints c)" and "ConnectTo k port handler step adv c = Some (s, out, c')"
    and "Serve port new_handler later (Transport_Reset srv) = Inr (sock, srv')" and "step < later"
  shows "\<exists>req rst. ClientSocket_Send msg (Some s) = Inr (k, req) \<and>
    HandlePacket req k_back client now srv' q = (Some rst, q) \<and>
    HandlePacket rst k' peer now' c' q' =
      (None, Scheduler_ScheduleAsap now' (HandleDisconnect handler peer) q')"
proof -
  have "endpoints srv' = [(port, \<lparr>e_handler = new_handler, e_ts = later\<rparr>)]"
    using assms(3) by (auto simp: Serve_def Transport_Reset_def om_emplace_def)
  then show ?thesis
    using ConnectTo_Some [OF assms(2)] assms(1,4)
    by (simp add: ClientSocket_Send_def HandlePacket_def Replier_Reset_def Replier_Reply_def
        om_find_emplace domIff)
qed

theorem restart_disconnects_witness:
  "\<exists>req rst. ClientSocket_Send ''hi''
       (Some \<lparr>cs_link = 1, cs_self_port = 1, cs_server_port = 42, cs_ts = 5\<rparr>) = Inr (1, req) \<and>
     HandlePacket req 2 ''Client-1'' 10 (demo_server\<lparr>endpoints := [(42, \<lparr>e_handler = 8, e_ts = 6\<rparr>)]\<rparr>) PQ_empty =
       (Some rst, PQ_empty)"
  using restart_disconnects [where new_handler = 8 and later = 6 and srv = demo_server
      and sock = "\<lparr>ss_port = 42\<rparr>" and srv' = "demo_server\<lparr>endpoints := [(42, \<lparr>e_handler = 8, e_ts = 6\<rparr>)]\<rparr>"
      and msg = "''hi''" and k_back = 2 and client = "''Client-1''" and now = 10 and q = PQ_empty
      and k' = 1 and peer = "''Server-1''" and now' = 11 and q' = PQ_empty, OF _ demo_connect]
  by (auto simp: demo_server_def Transport_init_def Serve_def Transport_Reset_def om_emplace_def)

text \<open>Resets are answered with resets when they are outdated too: if the endpoints at both ends of a
  packet are newer than the packet, the two transports answer each other's resets for ever.\<close>

theorem reset_storm:
  assumes "om_find (endpoints a) (source_port pkt) = Some ea" and "ts pkt < e_ts ea"
    and "om_find (endpoints b) (dest_port pkt) = Some eb" and "ts pkt < e_ts eb"
  shows "\<exists>r1 r2. HandlePacket pkt k1 ha now1 b qb = (Some r1, qb) \<and> p_type r1 = Reset \<and>
    HandlePacket r1 k2 hb now2 a qa = (Some r2, qa) \<and> p_type r2 = Reset \<and>
    source_port r2 = source_port pkt \<and> dest_port r2 = dest_port pkt \<and> ts r2 = ts pkt"
  using assms by (simp add: HandlePacket_def Replier_Reset_def Replier_Reply_def)

theorem reset_storm_witness:
  "\<exists>r1. HandlePacket \<lparr>p_type = Data, source_port = 42, dest_port = 42, ts = 1, message = []\<rparr> 0 ''b'' 5
       demo_server PQ_empty = (Some r1, PQ_empty) \<and> p_type r1 = Reset"
  using reset_storm [of demo_server "\<lparr>p_type = Data, source_port = 42, dest_port = 42, ts = 1, message = []\<rparr>"
      "\<lparr>e_handler = 7, e_ts = 3\<rparr>" demo_server "\<lparr>e_handler = 7, e_ts = 3\<rparr>" 0 "''b''" 5 PQ_empty]
  by (fastforce simp: demo_server_def)

text \<open>\<open>ParseAddress\<close> reads back what the stream operator of addresses prints, for every port and every
  host without a colon. An address without a port is accepted too, with whatever number the whole text
  starts with, 0 for a host name.\<close>

theorem ParseAddress_roundtrip:
  assumes "CHR '':'' \<notin> set host"
  shows "ParseAddress (host @ '':'' @ show_nat (unat (p :: port))) = Inr (host, p) \<and>
    ParseAddress ''Server-1'' = Inr (''Server-1'', 0)"
proof -
  have "unat p < 2 ^ 16" using unsigned_less [of p] by simp
  then have "ParsePort (show_nat (unat p)) = Inr p"
    by (simp add: ParsePort_def atoi_show_nat word_of_int_uint flip: uint_nat)
  moreover have "takeWhile (\<lambda>c. c \<noteq> CHR '':'') (host @ CHR '':'' # x) = host"
      "dropWhile (\<lambda>c. c \<noteq> CHR '':'') (host @ CHR '':'' # x) = CHR '':'' # x" for x
    using assms by (auto simp: takeWhile_append dropWhile_append)
  moreover have "ParseAddress ''Server-1'' = Inr (''Server-1'', 0)"
    by (simp add: ParseAddress_def ParsePort_def atoi_def is_space_def is_digit_def digits_value_def)
  ultimately show ?thesis by (simp add: ParseAddress_def Let_def)
qed

theorem ParseAddress_roundtrip_witness:
  "ParseAddress (''Server-1'' @ '':'' @ show_nat (unat (42 :: port))) = Inr (''Server-1'', 42)"
  using ParseAddress_roundtrip [of "''Server-1''" 42] by simp

end
