(* ===== verification/Allocator.thy ===== *)
theory Allocator
  imports Prelude
begin

text \<open>
  \<open>memory/{allocator,heap}.{hpp,cpp}\<close>: the heap of a server, a bump allocator over an arena with lists
  of freed blocks for ten size classes. Addresses are \<open>nat\<close>. The 16 bytes of a block header are
  typed, \<open>hdr a\<close> is the header at address \<open>a\<close>; all other bytes are \<open>mem\<close>. The bit tricks of the
  \<open>wheels\<close> library are a parameter, and so is the page allocator.
\<close>

section \<open>State\<close>

type_synonym addr = nat

record bithacks =
  RoundUpToNextPowerOfTwo :: "nat \<Rightarrow> nat"
  IsPowerOfTwo :: "nat \<Rightarrow> bool"

record block_header =
  h_size :: u32
  h_canary :: u32
  h_next :: "addr option"

record allocator =
  arena_start :: addr
  arena_end :: addr
  block_lists :: "addr option list"
  bump :: addr
  zfilled :: addr
  mem :: "addr \<Rightarrow> 8 word"
  hdr :: "addr \<rightharpoonup> block_header"

definition kMaxClassIndex :: nat where "kMaxClassIndex = 10"
definition kLargeAllocClass :: nat where "kLargeAllocClass = 0"
definition kRequiredAlignment :: nat where "kRequiredAlignment = 16"
definition kZFillBlockSize :: nat where "kZFillBlockSize = 4096"
definition kCanary :: u32 where "kCanary = 23911147"
definition header_size :: nat where "header_size = 16"

section \<open>Size classes\<close>

definition AllocToPowerOf2 :: "bithacks \<Rightarrow> nat \<Rightarrow> nat" where
  "AllocToPowerOf2 bh bytes =
     (let pow2 = RoundUpToNextPowerOfTwo bh bytes in if pow2 \<ge> 16 then pow2 else 16)"

definition GetAllocClass :: "bithacks \<Rightarrow> nat \<Rightarrow> nat res" where
  "GetAllocClass bh b =
     verify (IsPowerOfTwo bh b) ''Memory allocator internal error: GetAllocClass expected ^2''
       (Inr (if b = 16 then 1 else if b = 32 then 2 else if b = 64 then 3 else if b = 128 then 4
         else if b = 256 then 5 else if b = 512 then 6 else if b = 1024 then 7 else if b = 2048 then 8
         else if b = 4096 then 9 else if b = 8192 then 10 else kLargeAllocClass))"

section \<open>Lists of freed blocks\<close>

definition get_header :: "addr \<Rightarrow> allocator \<Rightarrow> block_header res" where
  "get_header a m = (case hdr m a of None \<Rightarrow> Inl (Undefined ''no block header'') | Some h \<Rightarrow> Inr h)"

definition BlockList_Push :: "addr \<Rightarrow> nat \<Rightarrow> allocator \<Rightarrow> allocator res" where
  "BlockList_Push block i m =
     res_bind (get_header block m) (\<lambda>h. Inr
       (m\<lparr>hdr := (hdr m)(block \<mapsto> h\<lparr>h_next := block_lists m ! i\<rparr>),
          block_lists := (block_lists m)[i := Some block]\<rparr>))"

definition BlockList_TryPop :: "nat \<Rightarrow> allocator \<Rightarrow> (addr option \<times> allocator) res" where
  "BlockList_TryPop i m =
     (case block_lists m ! i of
        None \<Rightarrow> Inr (None, m)
      | Some block \<Rightarrow> res_bind (get_header block m) (\<lambda>h.
          Inr (Some block, m\<lparr>block_lists := (block_lists m)[i := h_next h]\<rparr>)))"

definition BlockCache_TryAcquire :: "nat \<Rightarrow> allocator \<Rightarrow> (addr option \<times> allocator) res" where
  "BlockCache_TryAcquire i m =
     verify (i \<le> kMaxClassIndex) ''Memory allocator internal error'' (BlockList_TryPop i m)"

definition BlockCache_Release :: "bithacks \<Rightarrow> addr \<Rightarrow> allocator \<Rightarrow> allocator res" where
  "BlockCache_Release bh block m =
     res_bind (get_header block m) (\<lambda>h.
     res_bind (GetAllocClass bh (unat (h_size h))) (\<lambda>i.
     verify (i \<le> kMaxClassIndex) ''Memory allocator internal error'' (BlockList_Push block i m)))"

definition BlockCache_HardReset :: "allocator \<Rightarrow> allocator" where
  "BlockCache_HardReset m = m\<lparr>block_lists := replicate (kMaxClassIndex + 1) None\<rparr>"

section \<open>The allocator\<close>

text \<open>\<open>std::memset\<close>: it also destroys the headers that lie in its range.\<close>

definition memset_zero :: "addr \<Rightarrow> nat \<Rightarrow> allocator \<Rightarrow> allocator" where
  "memset_zero a n m = m\<lparr>mem := (\<lambda>x. if a \<le> x \<and> x < a + n then 0 else mem m x),
     hdr := (\<lambda>x. if a < x + header_size \<and> x < a + n then None else hdr m x)\<rparr>"

definition MemoryAllocator_Reset :: "allocator \<Rightarrow> allocator" where
  "MemoryAllocator_Reset m =
     BlockCache_HardReset (m\<lparr>bump := arena_start m, zfilled := arena_start m\<rparr>)"

text \<open>The constructor, on an arena with arbitrary contents.\<close>

definition MemoryAllocator :: "addr \<times> addr \<Rightarrow> (addr \<Rightarrow> 8 word) \<Rightarrow> (addr \<rightharpoonup> block_header) \<Rightarrow> allocator res"
  where
  "MemoryAllocator arena bytes headers =
     verify ((snd arena - fst arena) mod kZFillBlockSize = 0) ''Choose another kZFillBlockSize''
       (Inr (MemoryAllocator_Reset \<lparr>arena_start = fst arena, arena_end = snd arena,
          block_lists = replicate (kMaxClassIndex + 1) None, bump = fst arena, zfilled = fst arena,
          mem = bytes, hdr = headers\<rparr>))"

definition IsAllocationTooLarge :: "nat \<Rightarrow> bool" where
  "IsAllocationTooLarge bytes \<longleftrightarrow> bytes > 2 ^ 32 - 1"

function ZeroFillTo :: "addr \<Rightarrow> allocator \<Rightarrow> allocator" where
  "ZeroFillTo pos m =
     (if pos \<ge> zfilled m
      then ZeroFillTo pos ((memset_zero (zfilled m) kZFillBlockSize m)\<lparr>zfilled := zfilled m + kZFillBlockSize\<rparr>)
      else m)"
  by auto
termination
  by (relation "measure (\<lambda>(pos, m). pos + 1 - zfilled m)") (auto simp: kZFillBlockSize_def)

declare ZeroFillTo.simps [simp del]

definition Overflow :: "nat \<Rightarrow> allocator \<Rightarrow> bool" where
  "Overflow bytes m \<longleftrightarrow> bump m + header_size + bytes \<ge> arena_end m"

definition WriteBlockHeader :: "addr \<Rightarrow> nat \<Rightarrow> allocator \<Rightarrow> addr \<times> allocator" where
  "WriteBlockHeader a sz m =
     (a + header_size, m\<lparr>hdr := (hdr m)(a \<mapsto> \<lparr>h_size = of_nat sz, h_canary = kCanary,
        h_next = (case hdr m a of None \<Rightarrow> None | Some h \<Rightarrow> h_next h)\<rparr>)\<rparr>)"

definition AllocateNewBlock :: "nat \<Rightarrow> allocator \<Rightarrow> (addr \<times> allocator) res" where
  "AllocateNewBlock bytes m =
     verify (bump m mod kRequiredAlignment = 0)
       ''Memory allocator internal error: bump-pointer is not aligned''
     (verify (\<not> Overflow bytes m) ''arena overflow''
       (let m = ZeroFillTo (bump m + header_size + bytes) m;
            (user_addr, m) = WriteBlockHeader (bump m) bytes m
        in Inr (user_addr, m\<lparr>bump := user_addr + bytes\<rparr>)))"

definition GetSpan :: "addr \<Rightarrow> block_header \<Rightarrow> addr \<times> nat" where
  "GetSpan block h = (block + header_size, unat (h_size h))"

definition DoAllocate :: "bithacks \<Rightarrow> nat \<Rightarrow> allocator \<Rightarrow> (addr \<times> allocator) res" where
  "DoAllocate bh bytes m =
     (let bytes_pow2 = AllocToPowerOf2 bh bytes in
      res_bind (GetAllocClass bh bytes_pow2) (\<lambda>alloc_class.
        if alloc_class = kLargeAllocClass then AllocateNewBlock bytes_pow2 m
        else res_bind (BlockCache_TryAcquire alloc_class m) (\<lambda>(block, m).
          case block of
            Some block \<Rightarrow> res_bind (get_header block m) (\<lambda>h.
              let (data, size) = GetSpan block h in Inr (data, memset_zero data size m))
          | None \<Rightarrow> AllocateNewBlock bytes_pow2 m)))"

definition Allocate :: "bithacks \<Rightarrow> nat \<Rightarrow> allocator \<Rightarrow> (addr \<times> allocator) res" where
  "Allocate bh bytes m =
     (if IsAllocationTooLarge bytes then Inl (Panic ''Allocation is too large'')
      else res_bind (DoAllocate bh bytes m) (\<lambda>(user_addr, m).
        verify (user_addr mod kRequiredAlignment = 0)
          ''Memory allocator internal error: allocated block is not aligned'' (Inr (user_addr, m))))"

definition LocateBlockHeader :: "addr \<Rightarrow> addr" where
  "LocateBlockHeader user_addr = user_addr - header_size"

definition FromHere :: "addr \<Rightarrow> allocator \<Rightarrow> bool" where
  "FromHere a m \<longleftrightarrow> arena_start m \<le> a \<and> a < arena_end m"

definition Free :: "bithacks \<Rightarrow> addr \<Rightarrow> allocator \<Rightarrow> allocator res" where
  "Free bh a m =
     verify (a \<noteq> 0) ''Suspicious delete nullptr''
     (verify (FromHere a m) ''Do not mess with heaps''
       (let header = LocateBlockHeader a in
        res_bind (get_header header m) (\<lambda>h.
        verify (h_canary h = kCanary) ''Memory allocator is broken''
          (res_bind (GetAllocClass bh (unat (h_size h))) (\<lambda>alloc_class.
            if alloc_class \<noteq> kLargeAllocClass then BlockCache_Release bh header m else Inr m)))))"

definition BytesAllocated :: "allocator \<Rightarrow> nat" where
  "BytesAllocated m = bump m - arena_start m"

section \<open>Pool of heaps\<close>

record 'm heaps_allocator =
  heap_size_pages :: nat
  heap_pool :: "'m list"

definition HeapsAllocator :: "'m heaps_allocator" where
  "HeapsAllocator = \<lparr>heap_size_pages = 64 * 1024, heap_pool = []\<rparr>"

definition Heaps_Allocate :: "(nat \<Rightarrow> 'm) \<Rightarrow> 'm heaps_allocator \<Rightarrow> 'm \<times> 'm heaps_allocator" where
  "Heaps_Allocate AllocatePages h =
     (if heap_pool h \<noteq> [] then (last (heap_pool h), h\<lparr>heap_pool := butlast (heap_pool h)\<rparr>)
      else (AllocatePages (heap_size_pages h), h))"

definition Heaps_Release :: "'m \<Rightarrow> 'm heaps_allocator \<Rightarrow> 'm heaps_allocator" where
  "Heaps_Release heap h = h\<lparr>heap_pool := heap_pool h @ [heap]\<rparr>"

definition SetHeapSize :: "nat \<Rightarrow> 'm heaps_allocator \<Rightarrow> 'm heaps_allocator" where
  "SetHeapSize bytes h = h\<lparr>heap_size_pages := bytes div 4096 + 1\<rparr>"

section \<open>The arena\<close>

text \<open>What the code relies on: \<open>RoundUpToNextPowerOfTwo\<close> gives the least power of two that is not
  smaller (for 0, at most 1), and pages start at addresses divisible by 16.\<close>

definition bithacks_ok :: "bithacks \<Rightarrow> bool" where
  "bithacks_ok bh \<longleftrightarrow> (\<forall>n. IsPowerOfTwo bh n \<longleftrightarrow> (\<exists>k. n = 2 ^ k)) \<and> RoundUpToNextPowerOfTwo bh 0 \<le> 1 \<and>
     (\<forall>n. 0 < n \<longrightarrow> n \<le> RoundUpToNextPowerOfTwo bh n \<and> (\<exists>k. RoundUpToNextPowerOfTwo bh n = 2 ^ k) \<and>
       (\<forall>k. n \<le> 2 ^ k \<longrightarrow> RoundUpToNextPowerOfTwo bh n \<le> 2 ^ k))"

definition arena_ok :: "addr \<Rightarrow> addr \<Rightarrow> bool" where
  "arena_ok a b \<longleftrightarrow> 16 \<le> a \<and> a mod 16 = 0 \<and> a \<le> b \<and> (b - a) mod 4096 = 0 \<and> b - a \<le> 2 ^ 32"

definition alloc_class :: "nat \<Rightarrow> nat" where
  "alloc_class b = (if b = 16 then 1 else if b = 32 then 2 else if b = 64 then 3 else if b = 128 then 4
     else if b = 256 then 5 else if b = 512 then 6 else if b = 1024 then 7 else if b = 2048 then 8
     else if b = 4096 then 9 else if b = 8192 then 10 else 0)"

lemma GetAllocClass_eq: "GetAllocClass bh b =
    verify (IsPowerOfTwo bh b) ''Memory allocator internal error: GetAllocClass expected ^2'' (Inr (alloc_class b))"
  by (simp add: GetAllocClass_def alloc_class_def kLargeAllocClass_def)

lemma alloc_class_le: "alloc_class b \<le> 10"
  by (simp add: alloc_class_def)

lemma alloc_class_small: "alloc_class b \<noteq> 0 \<Longrightarrow> b \<le> 8192"
  by (auto simp: alloc_class_def split: if_splits)

lemma AllocToPowerOf2_ok:
  assumes "bithacks_ok bh" and "n < 2 ^ 32"
  shows "n \<le> AllocToPowerOf2 bh n" "\<exists>k \<ge> 4. AllocToPowerOf2 bh n = 2 ^ k" "AllocToPowerOf2 bh n \<le> 2 ^ 32"
    "AllocToPowerOf2 bh n mod 16 = 0"
proof -
  let ?r = "RoundUpToNextPowerOfTwo bh n"
  have r: "n \<le> AllocToPowerOf2 bh n \<and> (\<exists>k \<ge> 4. AllocToPowerOf2 bh n = 2 ^ k) \<and> AllocToPowerOf2 bh n \<le> 2 ^ 32"
  proof (cases "16 \<le> ?r")
    case True
    then have "0 < n" using assms(1) by (cases n) (auto simp: bithacks_ok_def)
    then have n: "n \<le> ?r" "\<exists>k. ?r = 2 ^ k" "n \<le> 2 ^ 32 \<longrightarrow> ?r \<le> 2 ^ 32"
      using assms(1) unfolding bithacks_ok_def by blast+
    then obtain k where k: "?r = 2 ^ k" by auto
    have "(2 :: nat) ^ 4 \<le> 2 ^ k" using True k by simp
    then have "4 \<le> k" by (simp only: power_increasing_iff [of "2 :: nat"])
    with n k assms(2) True show ?thesis by (auto simp: AllocToPowerOf2_def)
  next
    case False
    have "n \<le> ?r" if "0 < n" using assms(1) that unfolding bithacks_ok_def by blast
    then have "n \<le> 16" using False by (cases "0 < n") auto
    then show ?thesis using False by (auto simp: AllocToPowerOf2_def intro: exI [of _ 4])
  qed
  then show "n \<le> AllocToPowerOf2 bh n" "\<exists>k \<ge> 4. AllocToPowerOf2 bh n = 2 ^ k" "AllocToPowerOf2 bh n \<le> 2 ^ 32"
    by blast+
  then obtain k where "AllocToPowerOf2 bh n = 2 ^ k" "4 \<le> k" by auto
  have "(2 :: nat) ^ 4 dvd 2 ^ k" using \<open>4 \<le> k\<close> by (rule le_imp_power_dvd)
  then show "AllocToPowerOf2 bh n mod 16 = 0" using \<open>AllocToPowerOf2 bh n = 2 ^ k\<close> by (simp add: dvd_eq_mod_eq_0)
qed

text \<open>The pages that are filled with zeroes.\<close>

lemma ZeroFillTo_ok:
  assumes "zfilled m \<le> arena_end m" and "(arena_end m - zfilled m) mod 4096 = 0" and "pos < arena_end m"
  shows "\<exists>z. ZeroFillTo pos m = m\<lparr>mem := (\<lambda>x. if zfilled m \<le> x \<and> x < z then 0 else mem m x),
      hdr := (\<lambda>x. if zfilled m < x + 16 \<and> x < z \<and> zfilled m < z then None else hdr m x), zfilled := z\<rparr> \<and>
    zfilled m \<le> z \<and> pos < z \<and> z \<le> arena_end m \<and> (arena_end m - z) mod 4096 = 0"
  using assms
proof (induction pos m rule: ZeroFillTo.induct)
  case (1 pos m)
  show ?case
  proof (cases "zfilled m \<le> pos")
    case False
    have "(\<lambda>x. if zfilled m \<le> x \<and> x < zfilled m then 0 else mem m x) = mem m" by (rule ext) auto
    with False show ?thesis using 1 by (intro exI [of _ "zfilled m"]) (simp add: ZeroFillTo.simps)
  next
    case True
    let ?m = "(memset_zero (zfilled m) kZFillBlockSize m)\<lparr>zfilled := zfilled m + kZFillBlockSize\<rparr>"
    obtain q where q: "arena_end m - zfilled m = 4096 * q" using 1(3) by (auto simp: mod_eq_0_iff_dvd)
    then have "q \<noteq> 0" using 1(4) True by (cases "q = 0") auto
    then obtain q' where q': "q = Suc q'" by (cases q) auto
    then have le: "zfilled m + 4096 \<le> arena_end m" using q by simp
    have "arena_end m - (zfilled m + 4096) = 4096 * q'" using q q' by simp
    then have "(arena_end m - (zfilled m + 4096)) mod 4096 = 0" by simp
    with 1(1) [OF True] le 1(4) have "\<exists>z. ZeroFillTo pos ?m =
        ?m\<lparr>mem := (\<lambda>x. if zfilled ?m \<le> x \<and> x < z then 0 else mem ?m x),
          hdr := (\<lambda>x. if zfilled ?m < x + 16 \<and> x < z \<and> zfilled ?m < z then None else hdr ?m x), zfilled := z\<rparr> \<and>
        zfilled ?m \<le> z \<and> pos < z \<and> z \<le> arena_end ?m \<and> (arena_end ?m - z) mod 4096 = 0"
      by (simp add: memset_zero_def kZFillBlockSize_def)
    then obtain z where z: "ZeroFillTo pos ?m =
        ?m\<lparr>mem := (\<lambda>x. if zfilled ?m \<le> x \<and> x < z then 0 else mem ?m x),
          hdr := (\<lambda>x. if zfilled ?m < x + 16 \<and> x < z \<and> zfilled ?m < z then None else hdr ?m x), zfilled := z\<rparr>"
        "zfilled ?m \<le> z" "pos < z" "z \<le> arena_end m" "(arena_end m - z) mod 4096 = 0"
      by (elim exE conjE) (rule that, simp_all add: memset_zero_def)
    let ?mem = "\<lambda>x. if zfilled m \<le> x \<and> x < z then 0 else mem m x"
    let ?hdr = "\<lambda>x. if zfilled m < x + 16 \<and> x < z \<and> zfilled m < z then None else hdr m x"
    have zf: "zfilled ?m = zfilled m + 4096" by (simp add: kZFillBlockSize_def)
    have "(\<lambda>x. if zfilled ?m \<le> x \<and> x < z then 0 else mem ?m x) = ?mem"
      using z(2) by (intro ext) (auto simp: memset_zero_def kZFillBlockSize_def)
    moreover have "(\<lambda>x. if zfilled ?m < x + 16 \<and> x < z \<and> zfilled ?m < z then None else hdr ?m x) = ?hdr"
      using z(2) by (intro ext) (auto simp: memset_zero_def kZFillBlockSize_def header_size_def)
    moreover have "ZeroFillTo pos m = ZeroFillTo pos ?m" using True by (subst ZeroFillTo.simps) simp
    ultimately have "ZeroFillTo pos m = ?m\<lparr>mem := ?mem, hdr := ?hdr, zfilled := z\<rparr>" using z(1) by simp
    then have "ZeroFillTo pos m = m\<lparr>mem := ?mem, hdr := ?hdr, zfilled := z\<rparr>" by (simp add: memset_zero_def)
    moreover have "zfilled m \<le> z" using z(2) zf by simp
    ultimately show ?thesis using z(3-5) by (intro exI [of _ z] conjI)
  qed
qed

section \<open>The invariant of the heap\<close>

definition bsize :: "allocator \<Rightarrow> addr \<Rightarrow> nat" where
  "bsize m a = unat (h_size (the (hdr m a)))"

definition blocks :: "allocator \<Rightarrow> addr set" where
  "blocks m = {a. arena_start m \<le> a \<and> a < bump m \<and> hdr m a \<noteq> None}"

fun chain :: "(addr \<rightharpoonup> block_header) \<Rightarrow> addr option \<Rightarrow> addr list \<Rightarrow> bool" where
  "chain h p [] \<longleftrightarrow> p = None"
| "chain h p (x # xs) \<longleftrightarrow> p = Some x \<and> (\<exists>b. h x = Some b \<and> chain h (h_next b) xs)"

definition block_ok :: "allocator \<Rightarrow> addr \<Rightarrow> bool" where
  "block_ok m a \<longleftrightarrow> a mod 16 = 0 \<and> h_canary (the (hdr m a)) = kCanary \<and> (\<exists>k \<ge> 4. bsize m a = 2 ^ k) \<and>
     a + 16 + bsize m a \<le> bump m"

definition space_ok :: "allocator \<Rightarrow> bool" where
  "space_ok m \<longleftrightarrow> arena_ok (arena_start m) (arena_end m) \<and> arena_start m \<le> bump m \<and> bump m \<le> zfilled m \<and>
     zfilled m \<le> arena_end m \<and> (arena_end m - zfilled m) mod 4096 = 0 \<and> bump m mod 16 = 0 \<and>
     (\<forall>x. bump m \<le> x \<and> x < zfilled m \<longrightarrow> mem m x = 0 \<and> hdr m x = None)"

definition blocks_ok :: "allocator \<Rightarrow> bool" where
  "blocks_ok m \<longleftrightarrow> (\<forall>a \<in> blocks m. block_ok m a) \<and>
     (\<forall>a \<in> blocks m. \<forall>b \<in> blocks m. a < b \<longrightarrow> a + 16 + bsize m a \<le> b)"

definition cache_ok :: "allocator \<Rightarrow> (nat \<Rightarrow> addr list) \<Rightarrow> bool" where
  "cache_ok m F \<longleftrightarrow> length (block_lists m) = 11 \<and>
     (\<forall>i \<le> 10. chain (hdr m) (block_lists m ! i) (F i) \<and> distinct (F i) \<and>
       (\<forall>a \<in> set (F i). a \<in> blocks m \<and> alloc_class (bsize m a) = i))"

definition live_ok :: "allocator \<Rightarrow> (nat \<Rightarrow> addr list) \<Rightarrow> (addr \<times> nat) list \<Rightarrow> bool" where
  "live_ok m F l \<longleftrightarrow> distinct (map fst l) \<and>
     (\<forall>(a, n) \<in> set l. 16 \<le> a \<and> a - 16 \<in> blocks m \<and> n \<le> bsize m (a - 16) \<and> (\<forall>i \<le> 10. a - 16 \<notin> set (F i)))"

lemma chain_cong: "(\<And>a. a \<in> set xs \<Longrightarrow> h a = h' a) \<Longrightarrow> chain h p xs = chain h' p xs"
  by (induction xs arbitrary: p) auto

text \<open>What a new block of \<open>b\<close> bytes at the bump pointer changes: the region above the old pointer gets one header and is
  zero, everything below it stays.\<close>

definition grown :: "nat \<Rightarrow> allocator \<Rightarrow> allocator \<Rightarrow> bool" where
  "grown b m m' \<longleftrightarrow> arena_start m' = arena_start m \<and> arena_end m' = arena_end m \<and> block_lists m' = block_lists m \<and>
     bump m' = bump m + 16 + b \<and> bump m' \<le> zfilled m' \<and> zfilled m' \<le> arena_end m \<and>
     (arena_end m - zfilled m') mod 4096 = 0 \<and>
     (\<exists>h. hdr m' (bump m) = Some h \<and> h_canary h = kCanary \<and> unat (h_size h) = b) \<and>
     (\<forall>a. a + 16 \<le> bump m \<longrightarrow> hdr m' a = hdr m a) \<and> (\<forall>a < bump m. hdr m' a \<noteq> None \<longrightarrow> hdr m a \<noteq> None) \<and>
     (\<forall>x. bump m < x \<and> x < zfilled m' \<longrightarrow> hdr m' x = None \<and> mem m' x = 0) \<and> (\<forall>x < bump m. mem m' x = mem m x)"

lemma AllocateNewBlock_grown:
  assumes m: "space_ok m" and fits: "\<not> Overflow b m"
  shows "\<exists>m'. AllocateNewBlock b m = Inr (bump m + 16, m') \<and> grown b m m'"
proof -
  have fits': "bump m + 16 + b < arena_end m" using fits by (simp add: Overflow_def header_size_def)
  have "zfilled m \<le> arena_end m" "(arena_end m - zfilled m) mod 4096 = 0" using m by (auto simp: space_ok_def)
  from ZeroFillTo_ok [OF this fits'] obtain z where
    z: "ZeroFillTo (bump m + 16 + b) m = m\<lparr>mem := (\<lambda>x. if zfilled m \<le> x \<and> x < z then 0 else mem m x),
      hdr := (\<lambda>x. if zfilled m < x + 16 \<and> x < z \<and> zfilled m < z then None else hdr m x), zfilled := z\<rparr>"
    and zb: "zfilled m \<le> z" "bump m + 16 + b < z" "z \<le> arena_end m" "(arena_end m - z) mod 4096 = 0"
    by (elim exE conjE) (rule that)
  define m' where "m' = (snd (WriteBlockHeader (bump m) b (ZeroFillTo (bump m + 16 + b) m)))\<lparr>bump := bump m + 16 + b\<rparr>"
  have run: "AllocateNewBlock b m = Inr (bump m + 16, m')"
    using fits m by (simp add: AllocateNewBlock_def space_ok_def kRequiredAlignment_def Let_def
        WriteBlockHeader_def header_size_def m'_def z)
  have "b < 2 ^ 32" using fits' m by (auto simp: space_ok_def arena_ok_def)
  then have "grown b m m'"
    using m zb unfolding grown_def space_ok_def
    by (auto simp: m'_def WriteBlockHeader_def z unsigned_of_nat take_bit_nat_eq_self)
  with run show ?thesis by blast
qed

lemma block_below:
  assumes "blocks_ok m" and "a \<in> blocks m"
  shows "a + 16 + bsize m a \<le> bump m" and "a + 32 \<le> bump m"
proof -
  have ok: "block_ok m a" using assms by (simp add: blocks_ok_def)
  then obtain j where j: "4 \<le> j" "bsize m a = 2 ^ j" by (auto simp: block_ok_def)
  have "(2 :: nat) ^ 4 \<le> 2 ^ j" using j(1) by (rule power_increasing) simp
  with ok j show "a + 16 + bsize m a \<le> bump m" "a + 32 \<le> bump m" by (auto simp: block_ok_def)
qed

lemma grown_blocks:
  assumes m: "space_ok m" "blocks_ok m" and g: "grown b m m'"
  shows "a \<in> blocks m \<Longrightarrow> hdr m' a = hdr m a" and "a \<in> blocks m \<Longrightarrow> bsize m' a = bsize m a"
    and "bsize m' (bump m) = b" and "bump m \<notin> blocks m" and "blocks m' = insert (bump m) (blocks m)"
proof -
  show old: "hdr m' a = hdr m a" if "a \<in> blocks m" for a
    using g block_below(2) [OF m(2) that] by (simp add: grown_def)
  then show "bsize m' a = bsize m a" if "a \<in> blocks m" using that by (simp add: bsize_def)
  show "bsize m' (bump m) = b" using g by (auto simp: grown_def bsize_def)
  show "bump m \<notin> blocks m" by (simp add: blocks_def)
  have "a \<in> insert (bump m) (blocks m)" if "a \<in> blocks m'" for a
  proof -
    have h: "arena_start m \<le> a" "a < bump m'" "hdr m' a \<noteq> None" using that g by (auto simp: blocks_def grown_def)
    moreover have "a < zfilled m'" using h(2) g by (simp add: grown_def)
    then have "a \<le> bump m" using h(3) g by (cases "bump m < a") (auto simp: grown_def)
    moreover have "hdr m a \<noteq> None" if "a < bump m" using that h(3) g by (simp add: grown_def)
    ultimately show ?thesis by (auto simp: blocks_def)
  qed
  moreover have "bump m \<in> blocks m'" using m(1) g by (auto simp: blocks_def grown_def space_ok_def)
  moreover have "a \<in> blocks m'" if "a \<in> blocks m" for a
    using that old [OF that] g by (auto simp: blocks_def grown_def)
  ultimately show "blocks m' = insert (bump m) (blocks m)" by blast
qed

lemma grown_ok:
  assumes m: "space_ok m" "blocks_ok m" and b: "4 \<le> k" "b = 2 ^ k" "b mod 16 = 0" and g: "grown b m m'"
  shows "space_ok m'" and "blocks_ok m'"
proof -
  note bl = grown_blocks [OF m g]
  show "space_ok m'" using m(1) b(3) g unfolding space_ok_def by (auto simp: grown_def mod_add_eq)
  have "block_ok m' a" if "a \<in> blocks m'" for a
  proof (cases "a = bump m")
    case True
    then show ?thesis using bl(3) b g m(1) by (auto simp: block_ok_def grown_def space_ok_def)
  next
    case False
    then have a: "a \<in> blocks m" using that bl(5) by simp
    then have "block_ok m a" using m(2) by (simp add: blocks_ok_def)
    with bl(1,2) [OF a] g show ?thesis by (auto simp: block_ok_def grown_def)
  qed
  moreover have "a + 16 + bsize m' a \<le> c" if ac: "a \<in> blocks m'" "c \<in> blocks m'" "a < c" for a c
  proof -
    have a: "a \<in> blocks m" using ac bl(5) block_below(1) [OF m(2)] by force
    show ?thesis using ac a bl(5) m(2) block_below(1) [OF m(2) a] bl(2) [OF a] by (auto simp: blocks_ok_def)
  qed
  ultimately show "blocks_ok m'" by (simp add: blocks_ok_def)
qed

lemma grown_cache:
  assumes m: "space_ok m" "blocks_ok m" "cache_ok m F" and g: "grown b m m'"
  shows "cache_ok m' F"
proof -
  note bl = grown_blocks [OF m(1,2) g]
  have lists: "block_lists m' = block_lists m" using g by (simp add: grown_def)
  have "chain (hdr m') p (F i) = chain (hdr m) p (F i)" if "i \<le> 10" for i p
    by (rule chain_cong, rule bl(1)) (use m(3) that in \<open>auto simp: cache_ok_def\<close>)
  then show ?thesis using m(3) bl(2) unfolding cache_ok_def lists by (simp add: bl(5))
qed

lemma AllocateNewBlock_ok:
  assumes m: "space_ok m" "blocks_ok m" "cache_ok m F" and b: "4 \<le> k" "b = 2 ^ k" "b mod 16 = 0"
  shows "AllocateNewBlock b m = Inl (Panic ''arena overflow'') \<or>
    (\<exists>m'. AllocateNewBlock b m = Inr (bump m + 16, m') \<and> space_ok m' \<and> blocks_ok m' \<and> cache_ok m' F \<and>
      blocks m' = insert (bump m) (blocks m) \<and> bump m \<notin> blocks m \<and> (\<forall>a \<in> blocks m. hdr m' a = hdr m a) \<and>
      bsize m' (bump m) = b \<and> (\<forall>x < bump m. mem m' x = mem m x) \<and>
      (\<forall>x. bump m + 16 \<le> x \<and> x < bump m + 16 + b \<longrightarrow> mem m' x = 0))"
proof (cases "Overflow b m")
  case True
  then show ?thesis using m(1) by (simp add: AllocateNewBlock_def space_ok_def kRequiredAlignment_def)
next
  case False
  from AllocateNewBlock_grown [OF m(1) this] obtain m' where
    run: "AllocateNewBlock b m = Inr (bump m + 16, m')" and g: "grown b m m'" by blast
  have "\<forall>x < bump m. mem m' x = mem m x" "\<forall>x. bump m + 16 \<le> x \<and> x < bump m + 16 + b \<longrightarrow> mem m' x = 0"
    using g by (auto simp: grown_def)
  with run grown_blocks [OF m(1,2) g] grown_ok [OF m(1,2) b g] grown_cache [OF m g] show ?thesis by blast
qed

definition heap_ok :: "allocator \<Rightarrow> (nat \<Rightarrow> addr list) \<Rightarrow> bool" where
  "heap_ok m F \<longleftrightarrow> space_ok m \<and> blocks_ok m \<and> cache_ok m F"

definition fresh_block :: "allocator \<Rightarrow> (nat \<Rightarrow> addr list) \<Rightarrow> allocator \<Rightarrow> (nat \<Rightarrow> addr list) \<Rightarrow> nat \<Rightarrow> addr \<Rightarrow> bool"
  where
  "fresh_block m F m' F' n c \<longleftrightarrow> heap_ok m' F' \<and> c \<in> blocks m' \<and> n \<le> bsize m' c \<and> (\<forall>i \<le> 10. c \<notin> set (F' i)) \<and>
     (c \<in> blocks m \<longrightarrow> (\<exists>i \<le> 10. c \<in> set (F i))) \<and> (\<forall>i \<le> 10. set (F' i) \<subseteq> set (F i)) \<and>
     blocks m \<subseteq> blocks m' \<and> (\<forall>b \<in> blocks m. hdr m' b = hdr m b) \<and>
     (\<forall>x. c + 16 \<le> x \<and> x < c + 16 + n \<longrightarrow> mem m' x = 0) \<and>
     (\<forall>b \<in> blocks m. b \<noteq> c \<longrightarrow> (\<forall>x. b + 16 \<le> x \<and> x < b + 16 + bsize m b \<longrightarrow> mem m' x = mem m x))"

lemma new_block_fresh:
  assumes ok: "heap_ok m F" and b: "4 \<le> k" "b = 2 ^ k" "b mod 16 = 0" "n \<le> b"
  shows "AllocateNewBlock b m = Inl (Panic ''arena overflow'') \<or>
    (\<exists>m'. AllocateNewBlock b m = Inr (bump m + 16, m') \<and> fresh_block m F m' F n (bump m))"
proof -
  have m: "space_ok m" "blocks_ok m" "cache_ok m F" using ok by (auto simp: heap_ok_def)
  show ?thesis
  proof (cases "AllocateNewBlock b m = Inl (Panic ''arena overflow'')")
    case False
    with AllocateNewBlock_ok [OF m b(1-3)] obtain m' where
      m': "AllocateNewBlock b m = Inr (bump m + 16, m')" "space_ok m'" "blocks_ok m'" "cache_ok m' F"
        "blocks m' = insert (bump m) (blocks m)" "bump m \<notin> blocks m" "\<forall>a \<in> blocks m. hdr m' a = hdr m a"
        "bsize m' (bump m) = b" "\<forall>x < bump m. mem m' x = mem m x"
        "\<forall>x. bump m + 16 \<le> x \<and> x < bump m + 16 + b \<longrightarrow> mem m' x = 0" by auto
    have "bump m \<notin> set (F i)" if "i \<le> 10" for i using m(3) m'(6) that by (auto simp: cache_ok_def)
    moreover have "x < bump m" if "c \<in> blocks m" "x < c + 16 + bsize m c" for x c
      using that m(2) by (force simp: blocks_ok_def block_ok_def)
    ultimately have "fresh_block m F m' F n (bump m)"
      using m'(2-) b(4) unfolding fresh_block_def heap_ok_def by auto
    with m'(1) show ?thesis by blast
  qed simp
qed

lemma pop_fresh:
  assumes ok: "heap_ok m F" and i: "i \<le> 10" and c: "block_lists m ! i = Some c"
  shows "\<exists>h m'. BlockCache_TryAcquire i m = Inr (Some c, m') \<and> get_header c m' = Inr h \<and>
    alloc_class (unat (h_size h)) = i \<and> (n \<le> unat (h_size h) \<longrightarrow>
      fresh_block m F (memset_zero (c + 16) (unat (h_size h)) m') (F(i := tl (F i))) n c) \<and> c mod 16 = 0"
proof -
  have m: "space_ok m" "blocks_ok m" "cache_ok m F" using ok by (auto simp: heap_ok_def)
  have Fi: "chain (hdr m) (Some c) (F i)" "distinct (F i)" "\<forall>a \<in> set (F i). a \<in> blocks m \<and> alloc_class (bsize m a) = i"
    using m(3) i c unfolding cache_ok_def by metis+
  then obtain cs h where h: "F i = c # cs" "hdr m c = Some h" "chain (hdr m) (h_next h) cs"
    by (cases "F i") auto
  have cb: "c \<in> blocks m" "alloc_class (bsize m c) = i" using Fi h by auto
  have size: "bsize m c = unat (h_size h)" using h by (simp add: bsize_def)
  define m' where "m' = m\<lparr>block_lists := (block_lists m)[i := h_next h]\<rparr>"
  let ?m = "memset_zero (c + 16) (bsize m c) m'"
  have other: "c + 16 + bsize m c \<le> a \<or> a + 16 + bsize m a \<le> c" if "a \<in> blocks m" "a \<noteq> c" for a
    using m(2) that cb(1) unfolding blocks_ok_def by (metis linorder_neqE_nat)
  have cend: "c + 16 + bsize m c \<le> bump m" "c mod 16 = 0" using m(2) cb(1) by (auto simp: blocks_ok_def block_ok_def)
  have hdr: "hdr ?m a = hdr m a" if "a \<in> blocks m" for a
    using other [OF that] by (cases "a = c") (auto simp: memset_zero_def m'_def header_size_def)
  have bounds: "arena_start ?m = arena_start m" "bump ?m = bump m" by (simp_all add: memset_zero_def m'_def)
  have bl: "blocks ?m = blocks m"
  proof (rule set_eqI)
    fix a
    have "hdr ?m a \<noteq> None \<Longrightarrow> hdr m a \<noteq> None" by (simp add: memset_zero_def m'_def split: if_splits)
    then show "a \<in> blocks ?m \<longleftrightarrow> a \<in> blocks m" using hdr [of a] unfolding blocks_def bounds by auto
  qed
  have bs: "bsize ?m a = bsize m a" if "a \<in> blocks m" for a using hdr [OF that] by (simp add: bsize_def)
  have bump: "bump ?m = bump m" by (simp add: memset_zero_def m'_def)
  have "space_ok ?m" using m(1) cend by (auto simp: space_ok_def memset_zero_def m'_def)
  moreover have "blocks_ok ?m" using m(2) bl bs hdr bump by (auto simp: blocks_ok_def block_ok_def)
  moreover have "cache_ok ?m (F(i := tl (F i)))"
  proof -
    have "chain (hdr ?m) p (F j) = chain (hdr m) p (F j)" if "j \<le> 10" for j p
      by (rule chain_cong, rule hdr) (use m(3) that in \<open>auto simp: cache_ok_def\<close>)
    moreover have "chain (hdr ?m) p cs = chain (hdr m) p cs" for p
      by (rule chain_cong, rule hdr) (use Fi h in auto)
    moreover have "block_lists ?m ! j = (if j = i then h_next h else block_lists m ! j)" if "j \<le> 10" for j
      using m(3) that i by (simp add: memset_zero_def m'_def cache_ok_def)
    moreover have "length (block_lists ?m) = 11" using m(3) by (simp add: memset_zero_def m'_def cache_ok_def)
    ultimately show ?thesis
      using m(3) Fi h bl bs unfolding cache_ok_def by auto
  qed
  moreover have "c \<notin> set (F j)" if "j \<le> 10" "j \<noteq> i" for j
    using m(3) that cb(2) by (auto simp: cache_ok_def)
  moreover have "mem ?m x = mem m x" if "a \<in> blocks m" "a \<noteq> c" "a + 16 \<le> x" "x < a + 16 + bsize m a" for a x
    using other [OF that(1,2)] that(3,4) by (auto simp: memset_zero_def m'_def)
  ultimately have "fresh_block m F ?m (F(i := tl (F i))) n c" if "n \<le> bsize m c"
    unfolding fresh_block_def heap_ok_def using that bl bs cb(1) hdr h(1) Fi(2) i
    by (auto simp: memset_zero_def)
  then show ?thesis
    using i c h(2) cb(2) cend(2) size
    by (simp add: BlockCache_TryAcquire_def BlockList_TryPop_def get_header_def kMaxClassIndex_def m'_def)
qed

lemma Allocate_ok:
  assumes bh: "bithacks_ok bh" and ok: "heap_ok m F" and n: "n < 2 ^ 32"
  shows "Allocate bh n m = Inl (Panic ''arena overflow'') \<or>
    (\<exists>c m' F'. Allocate bh n m = Inr (c + 16, m') \<and> c mod 16 = 0 \<and> fresh_block m F m' F' n c)"
proof -
  let ?b = "AllocToPowerOf2 bh n"
  note b = AllocToPowerOf2_ok [OF bh n]
  obtain k where k: "4 \<le> k" "?b = 2 ^ k" using b(2) by auto
  have "IsPowerOfTwo bh ?b" using bh k(2) by (auto simp: bithacks_ok_def)
  then have cls: "GetAllocClass bh ?b = Inr (alloc_class ?b)" by (simp add: GetAllocClass_eq)
  have bump: "bump m mod 16 = 0" using ok by (simp add: heap_ok_def space_ok_def)
  have large: "\<not> IsAllocationTooLarge n" using n by (simp add: IsAllocationTooLarge_def)
  have new: ?thesis if "DoAllocate bh n m = AllocateNewBlock ?b m"
    using new_block_fresh [OF ok k b(4) b(1)] bump large that
    by (auto simp: Allocate_def kRequiredAlignment_def mod_add_eq)
  show ?thesis
  proof (cases "alloc_class ?b = 0")
    case True
    then show ?thesis using cls by (intro new) (simp add: DoAllocate_def kLargeAllocClass_def Let_def)
  next
    case False
    show ?thesis
    proof (cases "block_lists m ! alloc_class ?b")
      case None
      then show ?thesis using cls False alloc_class_le [of ?b]
        by (intro new) (simp add: DoAllocate_def kLargeAllocClass_def Let_def BlockCache_TryAcquire_def
            BlockList_TryPop_def kMaxClassIndex_def)
    next
      case (Some c)
      from pop_fresh [OF ok alloc_class_le Some, of n] obtain h m' where
        h: "BlockCache_TryAcquire (alloc_class ?b) m = Inr (Some c, m')" "get_header c m' = Inr h"
          "alloc_class (unat (h_size h)) = alloc_class ?b" "c mod 16 = 0" and
        f: "n \<le> unat (h_size h) \<Longrightarrow> fresh_block m F (memset_zero (c + 16) (unat (h_size h)) m')
          (F(alloc_class ?b := tl (F (alloc_class ?b)))) n c" by auto
      have "unat (h_size h) = ?b" using h(3) False by (auto simp: alloc_class_def split: if_splits)
      then show ?thesis using h f cls False b(1) large
        by (auto simp: Allocate_def DoAllocate_def kLargeAllocClass_def Let_def GetSpan_def header_size_def
            kRequiredAlignment_def mod_add_eq)
    qed
  qed
qed

lemma block_end:
  assumes "heap_ok m F" and "c \<in> blocks m"
  shows "c + 16 + bsize m c \<le> arena_end m" "0 < bsize m c" "arena_start m \<le> c" "16 \<le> c"
    "c + 16 + bsize m c \<le> zfilled m" "c mod 16 = 0"
proof -
  have ok: "block_ok m c" using assms by (simp add: heap_ok_def blocks_ok_def)
  then obtain k where "bsize m c = 2 ^ k" by (auto simp: block_ok_def)
  then show "0 < bsize m c" by simp
  show "c + 16 + bsize m c \<le> arena_end m" "arena_start m \<le> c" "16 \<le> c" "c + 16 + bsize m c \<le> zfilled m" "c mod 16 = 0"
    using ok assms by (auto simp: heap_ok_def space_ok_def block_ok_def arena_ok_def blocks_def)
qed

text \<open>A live block is pushed onto the list of its class.\<close>

lemma release_ok:
  fixes m F c h
  defines "i \<equiv> alloc_class (bsize m c)"
  defines "m' \<equiv> m\<lparr>hdr := (hdr m)(c \<mapsto> h\<lparr>h_next := block_lists m ! i\<rparr>), block_lists := (block_lists m)[i := Some c]\<rparr>"
  assumes ok: "heap_ok m F" and c: "c \<in> blocks m" "\<forall>j \<le> 10. c \<notin> set (F j)" and h: "hdr m c = Some h"
  shows "heap_ok m' (F(i := c # F i))" and "blocks m' = blocks m" and "bsize m' a = bsize m a"
proof -
  have m: "space_ok m" "blocks_ok m" "cache_ok m F" using ok by (auto simp: heap_ok_def)
  have i: "i \<le> 10" unfolding i_def by (rule alloc_class_le)
  show bl: "blocks m' = blocks m" using c(1) by (auto simp: blocks_def m'_def)
  show bs: "bsize m' a = bsize m a" for a using h by (simp add: bsize_def m'_def)
  have "space_ok m'" using m(1) c(1) by (auto simp: space_ok_def blocks_def m'_def)
  moreover have "blocks_ok m'" using m(2) bl bs h by (auto simp: blocks_ok_def block_ok_def m'_def)
  moreover have "cache_ok m' (F(i := c # F i))" unfolding cache_ok_def
  proof (intro conjI allI impI ballI)
    have same: "chain (hdr m') p (F j) = chain (hdr m) p (F j)" if "j \<le> 10" for j p
      by (rule chain_cong) (use c(2) that in \<open>auto simp: m'_def\<close>)
    have len: "length (block_lists m) = 11" using m(3) by (simp add: cache_ok_def)
    have Fj: "chain (hdr m) (block_lists m ! j) (F j)" "distinct (F j)"
      "\<forall>a \<in> set (F j). a \<in> blocks m \<and> alloc_class (bsize m a) = j" if "j \<le> 10" for j
      using m(3) that by (auto simp: cache_ok_def)
    show "length (block_lists m') = 11" using len by (simp add: m'_def)
    fix j :: nat assume j: "j \<le> 10"
    have "chain (hdr m') (Some c) (c # F i)" using Fj(1) [OF i] same [OF i] by (simp add: m'_def)
    then show "chain (hdr m') (block_lists m' ! j) ((F(i := c # F i)) j)"
      using Fj(1) [OF j] same [OF j] j len i by (auto simp: m'_def)
    show "distinct ((F(i := c # F i)) j)" using Fj(2) [OF j] c(2) j by auto
    fix a assume "a \<in> set ((F(i := c # F i)) j)"
    then show "a \<in> blocks m'" "alloc_class (bsize m' a) = j"
      using Fj(3) [OF j] c(1) unfolding bl bs by (auto simp: i_def split: if_splits)
  qed
  ultimately show "heap_ok m' (F(i := c # F i))" by (simp add: heap_ok_def)
qed

lemma Free_ok:
  assumes bh: "bithacks_ok bh" and ok: "heap_ok m F" and c: "c \<in> blocks m" "\<forall>i \<le> 10. c \<notin> set (F i)"
  shows "\<exists>m' F'. Free bh (c + 16) m = Inr m' \<and> heap_ok m' F' \<and> blocks m' = blocks m \<and> mem m' = mem m \<and>
    (\<forall>a. bsize m' a = bsize m a) \<and> (\<forall>i \<le> 10. set (F' i) \<subseteq> insert c (set (F i)))"
proof -
  note bnd = block_end [OF ok c(1)]
  obtain h where h: "hdr m c = Some h" using c(1) by (auto simp: blocks_def)
  have blk: "block_ok m c" using ok c(1) by (simp add: heap_ok_def blocks_ok_def)
  have hs: "bsize m c = unat (h_size h)" using h by (simp add: bsize_def)
  have "IsPowerOfTwo bh (unat (h_size h))" using blk bh hs by (auto simp: block_ok_def bithacks_ok_def)
  then have cls: "GetAllocClass bh (unat (h_size h)) = Inr (alloc_class (bsize m c))"
    using hs by (simp add: GetAllocClass_eq)
  let ?i = "alloc_class (bsize m c)"
  let ?m = "m\<lparr>hdr := (hdr m)(c \<mapsto> h\<lparr>h_next := block_lists m ! ?i\<rparr>), block_lists := (block_lists m)[?i := Some c]\<rparr>"
  have run: "Free bh (c + 16) m = (if ?i \<noteq> 0 then Inr ?m else Inr m)"
    using bnd blk h cls alloc_class_le [of "bsize m c"]
    by (simp add: Free_def FromHere_def LocateBlockHeader_def header_size_def get_header_def block_ok_def
        kLargeAllocClass_def BlockCache_Release_def BlockList_Push_def kMaxClassIndex_def Let_def)
  show ?thesis
  proof (cases "?i = 0")
    case True
    then show ?thesis using run ok by (intro exI [of _ m] exI [of _ F]) auto
  next
    case False
    with run release_ok [OF ok c h] show ?thesis
      by (intro exI [of _ ?m] exI [of _ "F(?i := c # F ?i)"]) auto
  qed
qed

section \<open>Clients of the heap\<close>

text \<open>A client that frees and writes only blocks it holds (the \<open>i\<close>-th of them); for it, the heap is a
  list of arrays that are independent of each other and start with zeroes.\<close>

datatype heap_op =
    New nat
  | Delete nat
  | Store nat nat "8 word"

type_synonym heap_state = "allocator \<times> (addr \<times> nat) list"

fun heap_step :: "bithacks \<Rightarrow> heap_op \<Rightarrow> heap_state \<Rightarrow> (addr list \<times> heap_state) res" where
  "heap_step bh (New n) (m, l) = res_bind (Allocate bh n m) (\<lambda>(a, m). Inr ([a], m, (a, n) # l))"
| "heap_step bh (Delete i) (m, l) =
     (if i < length l
      then res_bind (Free bh (fst (l ! i)) m) (\<lambda>m. Inr ([], m, take i l @ drop (Suc i) l))
      else Inr ([], m, l))"
| "heap_step bh (Store i x v) (m, l) =
     (if i < length l \<and> x < snd (l ! i) then Inr ([], m\<lparr>mem := (mem m)(fst (l ! i) + x := v)\<rparr>, l)
      else Inr ([], m, l))"

fun heap_run :: "bithacks \<Rightarrow> heap_op list \<Rightarrow> heap_state \<Rightarrow> addr list \<times> heap_state res" where
  "heap_run bh [] s = ([], Inr s)"
| "heap_run bh (op # ops) s =
     (case heap_step bh op s of
        Inl e \<Rightarrow> ([], Inl e)
      | Inr (as, s) \<Rightarrow> (as @ fst (heap_run bh ops s), snd (heap_run bh ops s)))"

fun array_step :: "heap_op \<Rightarrow> 8 word list list \<Rightarrow> 8 word list list" where
  "array_step (New n) xs = replicate n 0 # xs"
| "array_step (Delete i) xs = take i xs @ drop (Suc i) xs"
| "array_step (Store i x v) xs = xs[i := (xs ! i)[x := v]]"

definition arrays :: "heap_state \<Rightarrow> 8 word list list" where
  "arrays s = map (\<lambda>(a, n). map (\<lambda>i. mem (fst s) (a + i)) [0..<n]) (snd s)"

definition heap_inv :: "heap_state \<Rightarrow> bool" where
  "heap_inv s \<longleftrightarrow> (\<exists>F. heap_ok (fst s) F \<and> live_ok (fst s) F (snd s))"

lemma live_separate:
  assumes "heap_ok m F" "live_ok m F l" "(a, n) \<in> set l" "(b, k) \<in> set l" "a \<noteq> b" "i < n" "j < k"
  shows "a + i \<noteq> b + j"
proof -
  have ab: "16 \<le> a" "a - 16 \<in> blocks m" "n \<le> bsize m (a - 16)" "16 \<le> b" "b - 16 \<in> blocks m" "k \<le> bsize m (b - 16)"
    using assms(2-4) by (auto simp: live_ok_def)
  have "blocks_ok m" using assms(1) by (simp add: heap_ok_def)
  then have "a - 16 < b - 16 \<longrightarrow> a - 16 + 16 + bsize m (a - 16) \<le> b - 16"
    "b - 16 < a - 16 \<longrightarrow> b - 16 + 16 + bsize m (b - 16) \<le> a - 16"
    using ab unfolding blocks_ok_def by blast+
  with ab assms(5-7) show ?thesis by linarith
qed

text \<open>A fresh block is a new array of zeroes beside the old ones.\<close>

lemma fresh_live:
  assumes live: "live_ok m F l" and fresh: "fresh_block m F m' F' n c"
  shows "live_ok m' F' ((c + 16, n) # l)" and "arrays (m', (c + 16, n) # l) = replicate n 0 # arrays (m, l)"
proof -
  note f = fresh [unfolded fresh_block_def]
  have old: "16 \<le> b" "b - 16 \<in> blocks m" "k \<le> bsize m (b - 16)" "\<forall>i \<le> 10. b - 16 \<notin> set (F i)" "b - 16 \<noteq> c"
    if "(b, k) \<in> set l" for b k
    using that live f by (auto simp: live_ok_def)
  have bs: "bsize m' b = bsize m b" if "b \<in> blocks m" for b using f that by (simp add: bsize_def)
  have sub: "blocks m \<subseteq> blocks m'" using f by simp
  have cached: "b \<notin> set (F' i)" if "i \<le> 10" "b \<notin> set (F i)" for b i
  proof -
    have "set (F' i) \<subseteq> set (F i)" using f that(1) by simp
    with that(2) show ?thesis by auto
  qed
  have "16 \<le> b \<and> b - 16 \<in> blocks m' \<and> k \<le> bsize m' (b - 16) \<and> (\<forall>i \<le> 10. b - 16 \<notin> set (F' i))"
    if "(b, k) \<in> set l" for b k
    using old [OF that] bs [OF old(2) [OF that]] sub cached by auto
  moreover have "c + 16 \<notin> fst ` set l" using old(5) by force
  moreover have "c \<in> blocks m'" "n \<le> bsize m' c" "\<forall>i \<le> 10. c \<notin> set (F' i)" using f by simp_all
  ultimately show "live_ok m' F' ((c + 16, n) # l)" using live unfolding live_ok_def by auto
  have "map (\<lambda>i. mem m' (b + i)) [0..<k] = map (\<lambda>i. mem m (b + i)) [0..<k]" if "(b, k) \<in> set l" for b k
  proof (rule map_cong [OF refl])
    fix i assume "i \<in> set [0..<k]"
    moreover have "\<forall>x. b - 16 + 16 \<le> x \<and> x < b - 16 + 16 + bsize m (b - 16) \<longrightarrow> mem m' x = mem m x"
      using f old(2,5) [OF that] by blast
    ultimately show "mem m' (b + i) = mem m (b + i)" using old(1,3) [OF that] by auto
  qed
  moreover have "map (\<lambda>i. mem m' (c + 16 + i)) [0..<n] = replicate n 0"
    using f by (intro nth_equalityI) auto
  ultimately show "arrays (m', (c + 16, n) # l) = replicate n 0 # arrays (m, l)" by (auto simp: arrays_def)
qed

lemma heap_step_New:
  assumes bh: "bithacks_ok bh" and inv: "heap_inv (m, l)"
  shows "case heap_step bh (New n) (m, l) of
      Inl e \<Rightarrow> e \<in> {Panic ''Allocation is too large'', Panic ''arena overflow''}
    | Inr (_, s) \<Rightarrow> heap_inv s \<and> arrays s = replicate n 0 # arrays (m, l)"
proof -
  from inv obtain F where F: "heap_ok m F" "live_ok m F l" by (auto simp: heap_inv_def)
  show ?thesis
  proof (cases "IsAllocationTooLarge n")
    case True
    then show ?thesis by (simp add: Allocate_def)
  next
    case False
    then have "n < 2 ^ 32" by (simp add: IsAllocationTooLarge_def)
    from Allocate_ok [OF bh F(1) this] consider "Allocate bh n m = Inl (Panic ''arena overflow'')"
      | c m' F' where "Allocate bh n m = Inr (c + 16, m')" "fresh_block m F m' F' n c" by auto
    then show ?thesis
    proof cases
      case 2
      have "heap_ok m' F'" using 2(2) by (simp add: fresh_block_def)
      with fresh_live [OF F(2) 2(2)] 2(1) show ?thesis by (auto simp: heap_inv_def)
    qed simp
  qed
qed

lemma live_nth:
  assumes "live_ok m F l" "i < length l"
  shows "fst (l ! i) - 16 \<in> blocks m" "fst (l ! i) - 16 + 16 = fst (l ! i)" "\<forall>j \<le> 10. fst (l ! i) - 16 \<notin> set (F j)"
proof -
  obtain a n where an: "l ! i = (a, n)" by (cases "l ! i")
  then have "(a, n) \<in> set l" using assms(2) by (metis nth_mem)
  then show "fst (l ! i) - 16 \<in> blocks m" "fst (l ! i) - 16 + 16 = fst (l ! i)" "\<forall>j \<le> 10. fst (l ! i) - 16 \<notin> set (F j)"
    using assms(1) an by (auto simp: live_ok_def)
qed

lemma heap_step_Delete:
  assumes bh: "bithacks_ok bh" and inv: "heap_inv (m, l)" and i: "i < length l"
  shows "\<exists>m'. heap_step bh (Delete i) (m, l) = Inr ([], m', take i l @ drop (Suc i) l) \<and>
    heap_inv (m', take i l @ drop (Suc i) l) \<and> mem m' = mem m"
proof -
  from inv obtain F where F: "heap_ok m F" "live_ok m F l" by (auto simp: heap_inv_def)
  note c = live_nth [OF F(2) i]
  from Free_ok [OF bh F(1) c(1,3)] obtain m' F' where
    m': "Free bh (fst (l ! i)) m = Inr m'" "heap_ok m' F'" "blocks m' = blocks m" "mem m' = mem m"
      "\<forall>a. bsize m' a = bsize m a" "\<forall>j \<le> 10. set (F' j) \<subseteq> insert (fst (l ! i) - 16) (set (F j))"
    unfolding c(2) by auto
  let ?l = "take i l @ drop (Suc i) l"
  have "map fst l = map fst (take i l) @ fst (l ! i) # map fst (drop (Suc i) l)"
    by (metis i id_take_nth_drop list.simps(9) map_append)
  then have d: "distinct (map fst ?l)" "fst (l ! i) \<notin> set (map fst ?l)"
    using F(2) by (auto simp: live_ok_def distinct_map)
  have "live_ok m' F' ?l"
  proof -
    have "16 \<le> a \<and> a - 16 \<in> blocks m' \<and> n \<le> bsize m' (a - 16) \<and> (\<forall>j \<le> 10. a - 16 \<notin> set (F' j))"
      if "(a, n) \<in> set ?l" for a n
    proof -
      have "(a, n) \<in> set l" using that by (auto dest: in_set_takeD in_set_dropD)
      then have a: "16 \<le> a" "a - 16 \<in> blocks m" "n \<le> bsize m (a - 16)" "\<forall>j \<le> 10. a - 16 \<notin> set (F j)"
        using F(2) by (auto simp: live_ok_def)
      have "a \<in> set (map fst ?l)" using that by force
      then have "a \<noteq> fst (l ! i)" using d(2) by auto
      then have "a - 16 \<noteq> fst (l ! i) - 16" using a(1) c(2) by linarith
      moreover have "a - 16 \<notin> set (F' j)" if "j \<le> 10" for j
      proof -
        have "set (F' j) \<subseteq> insert (fst (l ! i) - 16) (set (F j))" using m'(6) that by simp
        with a(4) that \<open>a - 16 \<noteq> fst (l ! i) - 16\<close> show ?thesis by auto
      qed
      ultimately show ?thesis using a m'(3,5) by simp
    qed
    then show ?thesis using d(1) unfolding live_ok_def by auto
  qed
  with m' i show ?thesis by (auto simp: heap_inv_def)
qed

lemma heap_step_Store:
  assumes inv: "heap_inv (m, l)" and i: "i < length l" "x < snd (l ! i)"
  shows "heap_inv (m\<lparr>mem := (mem m)(fst (l ! i) + x := v)\<rparr>, l)"
    "arrays (m\<lparr>mem := (mem m)(fst (l ! i) + x := v)\<rparr>, l) = (arrays (m, l))[i := (arrays (m, l) ! i)[x := v]]"
proof -
  let ?m = "m\<lparr>mem := (mem m)(fst (l ! i) + x := v)\<rparr>"
  from inv obtain F where F: "heap_ok m F" "live_ok m F l" by (auto simp: heap_inv_def)
  obtain a n where an: "l ! i = (a, n)" by (cases "l ! i")
  then have mem_l: "(a, n) \<in> set l" using i(1) by (metis nth_mem)
  then have "16 \<le> a" "a - 16 \<in> blocks m" "n \<le> bsize m (a - 16)" using F(2) by (auto simp: live_ok_def)
  moreover have "blocks_ok m" using F(1) by (simp add: heap_ok_def)
  ultimately have "a + n \<le> bump m" unfolding blocks_ok_def block_ok_def by force
  have same: "blocks ?m = blocks m" "bsize ?m = bsize m" by (simp_all add: blocks_def bsize_def fun_eq_iff)
  have "space_ok ?m" using F(1) \<open>a + n \<le> bump m\<close> an i(2) by (auto simp: heap_ok_def space_ok_def)
  moreover have "blocks_ok ?m" using \<open>blocks_ok m\<close> by (simp add: blocks_ok_def same block_ok_def)
  moreover have "cache_ok ?m F" using F(1) by (simp add: heap_ok_def cache_ok_def same)
  moreover have "live_ok ?m F l" using F(2) by (simp add: live_ok_def same)
  ultimately show "heap_inv (?m, l)" by (auto simp: heap_inv_def heap_ok_def)
  have other: "map (\<lambda>k. mem ?m (b + k)) [0..<j] = map (\<lambda>k. mem m (b + k)) [0..<j]"
    if "(b, j) \<in> set l" "b \<noteq> a" for b j
    using live_separate [OF F that(1) mem_l that(2)] i(2) an by auto
  show "arrays (?m, l) = (arrays (m, l))[i := (arrays (m, l) ! i)[x := v]]"
  proof (rule nth_equalityI)
    show "length (arrays (?m, l)) = length ((arrays (m, l))[i := (arrays (m, l) ! i)[x := v]])"
      by (simp add: arrays_def)
    fix j assume "j < length (arrays (?m, l))"
    then have j: "j < length l" by (simp add: arrays_def)
    obtain b k where bk: "l ! j = (b, k)" by (cases "l ! j")
    show "arrays (?m, l) ! j = (arrays (m, l))[i := (arrays (m, l) ! i)[x := v]] ! j"
    proof (cases "j = i")
      case True
      have "map (\<lambda>k. mem ?m (a + k)) [0..<n] = (map (\<lambda>k. mem m (a + k)) [0..<n])[x := v]"
        using i(2) an by (intro nth_equalityI) (auto simp: nth_list_update)
      then show ?thesis using True i an by (simp add: arrays_def)
    next
      case False
      have "distinct (map fst l)" using F(2) by (simp add: live_ok_def)
      then have "map fst l ! j \<noteq> map fst l ! i"
        using False i(1) j by (metis length_map nth_eq_iff_index_eq)
      then have "b \<noteq> a" using j i(1) an bk by simp
      moreover have "(b, k) \<in> set l" using bk j by (metis nth_mem)
      ultimately show ?thesis using other [of b k] False i j bk by (simp add: arrays_def)
    qed
  qed
qed

lemma heap_step_ok:
  assumes "bithacks_ok bh" and "heap_inv s"
  shows "case heap_step bh op s of
      Inl e \<Rightarrow> e \<in> {Panic ''Allocation is too large'', Panic ''arena overflow''}
    | Inr (_, t) \<Rightarrow> heap_inv t \<and> arrays t = array_step op (arrays s)"
proof -
  obtain m l where s: "s = (m, l)" by (cases s)
  show ?thesis
  proof (cases op)
    case (New n)
    then show ?thesis using heap_step_New [OF assms(1), of m l n] assms(2) s
      by (auto split: sum.splits prod.splits)
  next
    case (Delete i)
    show ?thesis
    proof (cases "i < length l")
      case True
      from heap_step_Delete [OF assms(1) assms(2) [unfolded s] True] show ?thesis
        using Delete s by (auto simp: arrays_def take_map drop_map)
    next
      case False
      then show ?thesis using Delete s assms(2) by (simp add: arrays_def)
    qed
  next
    case (Store i x v)
    show ?thesis
    proof (cases "i < length l \<and> x < snd (l ! i)")
      case True
      then show ?thesis using heap_step_Store [OF assms(2) [unfolded s], of i x v] Store s by simp
    next
      case False
      have "(arrays (m, l))[i := (arrays (m, l) ! i)[x := v]] = arrays (m, l)"
      proof (cases "i < length l")
        case True
        with False have "length (arrays (m, l) ! i) \<le> x" by (auto simp: arrays_def split: prod.splits)
        then show ?thesis by (simp add: list_update_beyond)
      qed (simp add: arrays_def list_update_beyond)
      then show ?thesis using False Store s assms(2) by auto
    qed
  qed
qed

lemma heap_run_ok:
  assumes "bithacks_ok bh" and "heap_inv s"
  shows "case snd (heap_run bh ops s) of
      Inl e \<Rightarrow> e \<in> {Panic ''Allocation is too large'', Panic ''arena overflow''}
    | Inr t \<Rightarrow> heap_inv t \<and> arrays t = fold array_step ops (arrays s)"
  using assms(2)
proof (induction ops arbitrary: s)
  case Nil
  then show ?case by simp
next
  case (Cons op ops)
  show ?case
  proof (cases "heap_step bh op s")
    case (Inl e)
    then show ?thesis using heap_step_ok [OF assms(1) Cons.prems, of op] by simp
  next
    case (Inr r)
    obtain as t where r: "r = (as, t)" by (cases r)
    have "heap_inv t" "arrays t = array_step op (arrays s)"
      using heap_step_ok [OF assms(1) Cons.prems, of op] Inr r by auto
    with Cons.IH [of t] Inr r show ?thesis by (auto split: sum.splits)
  qed
qed

lemma Reset_inv:
  assumes "arena_ok (arena_start m) (arena_end m)"
  shows "heap_inv (MemoryAllocator_Reset m, [])"
proof -
  have "heap_ok (MemoryAllocator_Reset m) (\<lambda>_. [])"
    using assms
    by (auto simp: heap_ok_def space_ok_def blocks_ok_def cache_ok_def blocks_def arena_ok_def
        MemoryAllocator_Reset_def BlockCache_HardReset_def kMaxClassIndex_def nth_Cons split: nat.splits)
  then show ?thesis by (auto simp: heap_inv_def live_ok_def)
qed

lemma MemoryAllocator_eq:
  assumes "arena_ok a b"
  shows "\<exists>m. MemoryAllocator (a, b) bytes headers = Inr m \<and> arena_start m = a \<and> arena_end m = b \<and>
    m = MemoryAllocator_Reset m"
  using assms by (auto simp: MemoryAllocator_def arena_ok_def kZFillBlockSize_def MemoryAllocator_Reset_def
      BlockCache_HardReset_def)

section \<open>A reset heap\<close>

text \<open>Two heaps that agree up to the bytes already in use.\<close>

definition same_heap :: "allocator \<Rightarrow> allocator \<Rightarrow> bool" where
  "same_heap m k \<longleftrightarrow> arena_start m = arena_start k \<and> arena_end m = arena_end k \<and>
     block_lists m = block_lists k \<and> bump m = bump k \<and> zfilled m = zfilled k \<and>
     (\<forall>x. arena_start m \<le> x \<and> x < zfilled m \<longrightarrow> mem m x = mem k x \<and> hdr m x = hdr k x)"

lemma ZeroFillTo_same:
  assumes "same_heap m k"
  shows "same_heap (ZeroFillTo pos m) (ZeroFillTo pos k) \<and> pos < zfilled (ZeroFillTo pos m) \<and>
    arena_start (ZeroFillTo pos m) = arena_start m \<and> bump (ZeroFillTo pos m) = bump m"
  using assms
proof (induction pos m arbitrary: k rule: ZeroFillTo.induct)
  case (1 pos m)
  have zf: "zfilled k = zfilled m" using 1(2) by (simp add: same_heap_def)
  show ?case
  proof (cases "zfilled m \<le> pos")
    case False
    then show ?thesis using 1(2) zf by (simp add: ZeroFillTo.simps [of pos m] ZeroFillTo.simps [of pos k])
  next
    case True
    let ?f = "\<lambda>m. (memset_zero (zfilled m) kZFillBlockSize m)\<lparr>zfilled := zfilled m + kZFillBlockSize\<rparr>"
    have "same_heap (?f m) (?f k)"
      using 1(2) by (auto simp: same_heap_def memset_zero_def header_size_def kZFillBlockSize_def)
    with 1(1) [OF True] True zf show ?thesis
      by (simp add: ZeroFillTo.simps [of pos m] ZeroFillTo.simps [of pos k] memset_zero_def)
  qed
qed

definition same_result :: "(addr \<times> allocator) res \<Rightarrow> (addr \<times> allocator) res \<Rightarrow> bool" where
  "same_result r s \<longleftrightarrow> (case (r, s) of
     (Inl e, Inl f) \<Rightarrow> e = f
   | (Inr (a, m), Inr (b, k)) \<Rightarrow> a = b \<and> same_heap m k
   | _ \<Rightarrow> False)"

lemma AllocateNewBlock_same:
  assumes "same_heap m k" and "arena_start m \<le> bump m"
  shows "same_result (AllocateNewBlock b m) (AllocateNewBlock b k)"
proof (cases "bump m mod kRequiredAlignment = 0 \<and> \<not> Overflow b m")
  case False
  then show ?thesis using assms
    by (auto simp: AllocateNewBlock_def same_heap_def Overflow_def same_result_def verify_def)
next
  case True
  let ?p = "bump m + header_size + b"
  have k: "bump k = bump m" "Overflow b k = Overflow b m" using assms(1) by (simp_all add: same_heap_def Overflow_def)
  have z: "same_heap (ZeroFillTo ?p m) (ZeroFillTo ?p k)" "?p < zfilled (ZeroFillTo ?p m)"
    "arena_start (ZeroFillTo ?p m) = arena_start m" "bump (ZeroFillTo ?p m) = bump m"
    using ZeroFillTo_same [OF assms(1), of ?p] by auto
  have "hdr (ZeroFillTo ?p m) (bump m) = hdr (ZeroFillTo ?p k) (bump m)"
    using z assms(2) by (simp add: same_heap_def)
  then show ?thesis using True k z
    by (auto simp: AllocateNewBlock_def same_result_def WriteBlockHeader_def Let_def same_heap_def)
qed

lemma Allocate_same:
  assumes same: "same_heap m k" and inv: "heap_inv (m, l)"
  shows "same_result (Allocate bh n m) (Allocate bh n k)"
proof -
  from inv obtain F where F: "heap_ok m F" by (auto simp: heap_inv_def)
  then have start: "arena_start m \<le> bump m" by (simp add: heap_ok_def space_ok_def)
  have hdrs: "hdr k c = hdr m c" if "c \<in> blocks m" for c
    using that same F by (auto simp: same_heap_def blocks_def heap_ok_def space_ok_def)
  have lists: "block_lists k = block_lists m" using same by (simp add: same_heap_def)
  have pop: "same_result (res_bind (BlockCache_TryAcquire i m) (\<lambda>(block, m).
          case block of
            Some block \<Rightarrow> res_bind (get_header block m) (\<lambda>h.
              let (data, size) = GetSpan block h in Inr (data, memset_zero data size m))
          | None \<Rightarrow> AllocateNewBlock b m))
      (res_bind (BlockCache_TryAcquire i k) (\<lambda>(block, m).
          case block of
            Some block \<Rightarrow> res_bind (get_header block m) (\<lambda>h.
              let (data, size) = GetSpan block h in Inr (data, memset_zero data size m))
          | None \<Rightarrow> AllocateNewBlock b m))" if "i \<le> 10" for i b
  proof (cases "block_lists m ! i")
    case None
    then show ?thesis using lists AllocateNewBlock_same [OF same start] that
      by (simp add: BlockCache_TryAcquire_def BlockList_TryPop_def kMaxClassIndex_def)
  next
    case (Some c)
    have "chain (hdr m) (Some c) (F i)" "\<forall>a \<in> set (F i). a \<in> blocks m"
      using F that Some unfolding heap_ok_def cache_ok_def by metis+
    then have c: "c \<in> blocks m" by (cases "F i") auto
    then obtain h where h: "hdr m c = Some h" "hdr k c = Some h" using hdrs by (auto simp: blocks_def)
    then show ?thesis using Some lists that same
      by (auto simp: BlockCache_TryAcquire_def BlockList_TryPop_def kMaxClassIndex_def get_header_def
          GetSpan_def same_result_def same_heap_def memset_zero_def)
  qed
  have "same_result (DoAllocate bh n m) (DoAllocate bh n k)"
  proof (cases "IsPowerOfTwo bh (AllocToPowerOf2 bh n)")
    case False
    then show ?thesis by (simp add: DoAllocate_def GetAllocClass_eq same_result_def)
  next
    case True
    then show ?thesis
      using AllocateNewBlock_same [OF same start] pop [OF alloc_class_le]
      by (simp add: DoAllocate_def GetAllocClass_eq Let_def [of "AllocToPowerOf2 bh n"])
  qed
  then show ?thesis
    by (auto simp: Allocate_def same_result_def verify_def res_bind_def split: sum.splits)
qed

lemma Free_same:
  assumes same: "same_heap m k" and inv: "heap_inv (m, l)" and i: "i < length l"
  shows "case (Free bh (fst (l ! i)) m, Free bh (fst (l ! i)) k) of
     (Inl e, Inl f) \<Rightarrow> e = f | (Inr m', Inr k') \<Rightarrow> same_heap m' k' | _ \<Rightarrow> False"
proof -
  from inv obtain F where F: "heap_ok m F" "live_ok m F l" by (auto simp: heap_inv_def)
  define c where "c = fst (l ! i) - 16"
  have c: "c \<in> blocks m" "fst (l ! i) = c + 16" using live_nth [OF F(2) i] by (auto simp: c_def)
  obtain h where h: "hdr m c = Some h" using c by (auto simp: blocks_def)
  moreover have "hdr k c = hdr m c"
    using same c(1) F(1) by (auto simp: same_heap_def blocks_def heap_ok_def space_ok_def)
  ultimately show ?thesis unfolding c(2)
    using same
    by (auto simp: Free_def FromHere_def LocateBlockHeader_def header_size_def get_header_def verify_def
        GetAllocClass_eq BlockCache_Release_def BlockList_Push_def same_heap_def Let_def)
qed

lemma heap_step_same:
  assumes "same_heap m k" and "heap_inv (m, l)"
  shows "case (heap_step bh op (m, l), heap_step bh op (k, l)) of
     (Inl e, Inl f) \<Rightarrow> e = f
   | (Inr (as, m', l'), Inr (bs, k', l'')) \<Rightarrow> as = bs \<and> l' = l'' \<and> same_heap m' k'
   | _ \<Rightarrow> False"
proof (cases op)
  case (New n)
  then show ?thesis using Allocate_same [OF assms, of bh n]
    by (cases "Allocate bh n m"; cases "Allocate bh n k") (auto simp: same_result_def)
next
  case (Delete i)
  then show ?thesis using Free_same [OF assms, of i bh] assms(1)
    by (auto split: sum.splits)
next
  case (Store i x v)
  then show ?thesis using assms(1) by (auto simp: same_heap_def)
qed

lemma heap_run_same:
  assumes "bithacks_ok bh" and "same_heap m k" and "heap_inv (m, l)"
  shows "fst (heap_run bh ops (m, l)) = fst (heap_run bh ops (k, l)) \<and>
    (case (snd (heap_run bh ops (m, l)), snd (heap_run bh ops (k, l))) of
       (Inl e, Inl f) \<Rightarrow> e = f | (Inr s, Inr t) \<Rightarrow> snd s = snd t \<and> same_heap (fst s) (fst t) | _ \<Rightarrow> False)"
  using assms(2,3)
proof (induction ops arbitrary: m k l)
  case Nil
  then show ?case by simp
next
  case (Cons op ops)
  note st = heap_step_same [OF Cons.prems, of bh op]
  show ?case
  proof (cases "heap_step bh op (m, l)")
    case (Inl e)
    then have "heap_step bh op (k, l) = Inl e" using st by (cases "heap_step bh op (k, l)") auto
    then show ?thesis using Inl by simp
  next
    case (Inr r)
    obtain as m' l' where r: "r = (as, m', l')" by (cases r)
    have "\<exists>k'. heap_step bh op (k, l) = Inr (as, k', l') \<and> same_heap m' k'"
      using st Inr r by (auto split: sum.splits)
    then obtain k' where k': "heap_step bh op (k, l) = Inr (as, k', l')" "same_heap m' k'" by blast
    have "heap_inv (m', l')" using heap_step_ok [OF assms(1) Cons.prems(2), of op] Inr r by simp
    from Cons.IH [OF k'(2) this] show ?thesis using Inr r k'(1) by simp
  qed
qed

section \<open>Properties\<close>

text \<open>C1. The heap refines a list of independent arrays. Whatever a client allocates, frees and writes in
  the blocks it holds, its blocks have at any time the contents that separate arrays, filled with zeroes
  when they are allocated, would have: no block overlaps another or a block header, and reused memory is
  cleared. A run ends early only when a request is larger than \<open>uint32_t\<close> or the arena is full; freeing
  never fails. The arena has at most \<open>2^32\<close> bytes.\<close>

theorem heap_refines_arrays:
  assumes "bithacks_ok bh" and "arena_ok a b" and "MemoryAllocator (a, b) bytes headers = Inr m"
  shows "case snd (heap_run bh ops (m, [])) of
      Inl e \<Rightarrow> e \<in> {Panic ''Allocation is too large'', Panic ''arena overflow''}
    | Inr s \<Rightarrow> arrays s = fold array_step ops []"
proof -
  from MemoryAllocator_eq [OF assms(2), of bytes headers] assms(3)
  have m: "arena_start m = a" "arena_end m = b" "m = MemoryAllocator_Reset m" by auto
  have "heap_inv (m, [])" using Reset_inv [of m] assms(2) m by simp
  from heap_run_ok [OF assms(1) this, of ops] show ?thesis by (auto simp: arrays_def split: sum.splits)
qed

fun round_up :: "nat \<Rightarrow> nat" where
  "round_up n = (if n \<le> 1 then n else 2 * round_up ((n + 1) div 2))"

declare round_up.simps [simp del]

definition std_bithacks :: bithacks where
  "std_bithacks = \<lparr>RoundUpToNextPowerOfTwo = round_up, IsPowerOfTwo = (\<lambda>n. 0 < n \<and> round_up n = n)\<rparr>"

lemma round_up_ok: "0 < n \<Longrightarrow> n \<le> round_up n \<and> (\<exists>k. round_up n = 2 ^ k) \<and> (\<forall>k. n \<le> 2 ^ k \<longrightarrow> round_up n \<le> 2 ^ k)"
proof (induction n rule: round_up.induct)
  case (1 n)
  show ?case
  proof (cases "n \<le> 1")
    case True
    with 1(2) have "n = 1" by simp
    then show ?thesis by (auto simp: round_up.simps intro: exI [of _ 0])
  next
    case False
    let ?h = "(n + 1) div 2"
    have r: "round_up n = 2 * round_up ?h" using False by (subst round_up.simps) simp
    from 1(1) [OF False] False obtain k where
      h: "?h \<le> round_up ?h" "round_up ?h = 2 ^ k" "\<forall>k. ?h \<le> 2 ^ k \<longrightarrow> round_up ?h \<le> 2 ^ k" by auto
    have "round_up n \<le> 2 ^ j" if "n \<le> 2 ^ j" for j
    proof (cases j)
      case 0
      with that False show ?thesis by simp
    next
      case (Suc i)
      then have "?h \<le> 2 ^ i" using that by simp
      with h(3) have "round_up ?h \<le> 2 ^ i" by blast
      then show ?thesis using r Suc by simp
    qed
    moreover have "n \<le> round_up n" using h(1) r by linarith
    moreover have "round_up n = 2 ^ Suc k" using h(2) r by simp
    ultimately show ?thesis by blast
  qed
qed

lemma std_bithacks_ok: "bithacks_ok std_bithacks"
proof -
  have "(0 < n \<and> round_up n = n) \<longleftrightarrow> (\<exists>k. n = 2 ^ k)" for n
  proof
    assume "0 < n \<and> round_up n = n"
    then show "\<exists>k. n = 2 ^ k" using round_up_ok [of n] by metis
  next
    assume "\<exists>k. n = 2 ^ k"
    then obtain k where k: "n = 2 ^ k" by blast
    then have "0 < n" by simp
    with k show "0 < n \<and> round_up n = n" using round_up_ok [of n] by (metis le_antisym order_refl)
  qed
  moreover have "round_up 0 \<le> 1" by (simp add: round_up.simps)
  ultimately show ?thesis using round_up_ok by (simp add: bithacks_ok_def std_bithacks_def)
qed

definition small_arena :: allocator where
  "small_arena = MemoryAllocator_Reset \<lparr>arena_start = 4096, arena_end = 12288, block_lists = replicate 11 None,
     bump = 4096, zfilled = 4096, mem = (\<lambda>_. 255), hdr = (\<lambda>_. None)\<rparr>"

lemma small_arena: "MemoryAllocator (4096, 12288) (\<lambda>_. 255) (\<lambda>_. None) = Inr small_arena" "arena_ok 4096 12288"
  by (simp_all add: MemoryAllocator_def kZFillBlockSize_def small_arena_def kMaxClassIndex_def arena_ok_def)

theorem heap_refines_arrays_witness:
  "case snd (heap_run std_bithacks [New 2, Store 0 1 7, New 3, Delete 1, New 2] (small_arena, [])) of
      Inl e \<Rightarrow> e \<in> {Panic ''Allocation is too large'', Panic ''arena overflow''}
    | Inr s \<Rightarrow> arrays s = [[0, 0], [0, 0, 0]]"
proof -
  have "fold array_step [New 2, Store 0 1 7, New 3, Delete 1, New 2] [] = [[0, 0], [0, 0, 0]]"
    by (simp add: numeral_eq_Suc)
  then show ?thesis
    using heap_refines_arrays [OF std_bithacks_ok small_arena(2,1), of "[New 2, Store 0 1 7, New 3, Delete 1, New 2]"]
    by metis
qed

lemma ZeroFillTo_arena: "arena_start (ZeroFillTo pos m) = arena_start m \<and> arena_end (ZeroFillTo pos m) = arena_end m"
proof (induction pos m rule: ZeroFillTo.induct)
  case (1 pos m)
  then show ?case by (subst (1 2) ZeroFillTo.simps) (simp add: memset_zero_def)
qed

lemma Allocate_arena:
  assumes "Allocate bh n m = Inr (c, m')"
  shows "arena_start m' = arena_start m \<and> arena_end m' = arena_end m"
proof -
  have new: "arena_start k' = arena_start k \<and> arena_end k' = arena_end k"
    if "AllocateNewBlock b k = Inr (c, k')" for b k c k'
    using that ZeroFillTo_arena [of "bump k + header_size + b" k]
    by (auto simp: AllocateNewBlock_def verify_def WriteBlockHeader_def Let_def split: if_splits)
  have "DoAllocate bh n m = Inr (c, m')"
    using assms by (auto simp: Allocate_def res_bind_Inr verify_def split: if_splits)
  then obtain i where i: "(if i = kLargeAllocClass then AllocateNewBlock (AllocToPowerOf2 bh n) m
      else res_bind (BlockCache_TryAcquire i m) (\<lambda>(block, m).
          case block of
            Some block \<Rightarrow> res_bind (get_header block m) (\<lambda>h.
              let (data, size) = GetSpan block h in Inr (data, memset_zero data size m))
          | None \<Rightarrow> AllocateNewBlock (AllocToPowerOf2 bh n) m)) = Inr (c, m')"
    by (auto simp: DoAllocate_def Let_def [of "AllocToPowerOf2 bh n"] res_bind_Inr)
  show ?thesis
  proof (cases "i = kLargeAllocClass")
    case True
    then show ?thesis using i new by simp
  next
    case False
    then obtain bo k where k: "BlockCache_TryAcquire i m = Inr (bo, k)" and r: "(case bo of
            Some block \<Rightarrow> res_bind (get_header block k) (\<lambda>h.
              let (data, size) = GetSpan block h in Inr (data, memset_zero data size k))
          | None \<Rightarrow> AllocateNewBlock (AllocToPowerOf2 bh n) k) = Inr (c, m')"
      using i by (auto simp: res_bind_Inr)
    have "arena_start k = arena_start m \<and> arena_end k = arena_end m"
      using k by (auto simp: BlockCache_TryAcquire_def BlockList_TryPop_def verify_def res_bind_Inr
          split: option.splits if_splits)
    moreover have "arena_start m' = arena_start k \<and> arena_end m' = arena_end k"
      using r new [of _ k c m'] by (auto simp: res_bind_Inr GetSpan_def memset_zero_def split: option.splits)
    ultimately show ?thesis by simp
  qed
qed

lemma Free_arena: "Free bh c m = Inr m' \<Longrightarrow> arena_start m' = arena_start m \<and> arena_end m' = arena_end m"
  by (auto simp: Free_def verify_def res_bind_Inr Let_def BlockCache_Release_def BlockList_Push_def split: if_splits)

lemma heap_run_arena:
  "snd (heap_run bh ops s) = Inr t \<Longrightarrow> arena_start (fst t) = arena_start (fst s) \<and> arena_end (fst t) = arena_end (fst s)"
proof (induction ops arbitrary: s)
  case Nil
  then show ?case by simp
next
  case (Cons op ops)
  obtain as u where u: "heap_step bh op s = Inr (as, u)" "snd (heap_run bh ops u) = Inr t"
    using Cons.prems by (auto split: sum.splits)
  obtain m l where s: "s = (m, l)" by (cases s)
  have "arena_start (fst u) = arena_start m \<and> arena_end (fst u) = arena_end m"
    using u(1) unfolding s
    by (cases op) (auto simp: res_bind_Inr dest: Allocate_arena Free_arena split: if_splits)
  then show ?case using Cons.IH [OF u(2)] s by simp
qed

text \<open>C22. A reset heap has no memory of the past, which makes a restarted server run the same way as one
  that never ran: after any history and a reset, a client gets the same addresses and the same errors,
  and holds the same blocks, as on a new heap over the same arena, with whatever the arena contains.\<close>

theorem heap_reset_deterministic:
  assumes "bithacks_ok bh" and "arena_ok a b" and "MemoryAllocator (a, b) bytes headers = Inr m"
    and "snd (heap_run bh history (m, [])) = Inr (used, l)"
    and "MemoryAllocator (a, b) bytes' headers' = Inr fresh"
  shows "fst (heap_run bh ops (MemoryAllocator_Reset used, [])) = fst (heap_run bh ops (fresh, [])) \<and>
    map_sum id snd (snd (heap_run bh ops (MemoryAllocator_Reset used, []))) =
      map_sum id snd (snd (heap_run bh ops (fresh, [])))"
proof -
  have start: "arena_start m = a" "arena_end m = b" "arena_start fresh = a" "arena_end fresh = b"
      "fresh = MemoryAllocator_Reset fresh"
    using MemoryAllocator_eq [OF assms(2), of bytes headers] MemoryAllocator_eq [OF assms(2), of bytes' headers']
      assms(3,5) by auto
  then have used: "arena_start used = a" "arena_end used = b" using heap_run_arena [OF assms(4)] by auto
  have "same_heap (MemoryAllocator_Reset used) (MemoryAllocator_Reset fresh)"
    using start(1-4) used by (auto simp: same_heap_def MemoryAllocator_Reset_def BlockCache_HardReset_def)
  moreover have "heap_inv (MemoryAllocator_Reset used, [])" using Reset_inv [of used] assms(2) used by simp
  ultimately show ?thesis
    using heap_run_same [OF assms(1), of "MemoryAllocator_Reset used" "MemoryAllocator_Reset fresh" "[]" ops]
      start(5)
    by (auto split: sum.splits)
qed

lemma small_arena_used: "\<exists>used l. snd (heap_run std_bithacks [New 9, New 40, Delete 0] (small_arena, [])) = Inr (used, l)"
  by (simp add: Allocate_def IsAllocationTooLarge_def DoAllocate_def AllocToPowerOf2_def std_bithacks_def
      round_up.simps GetAllocClass_def kLargeAllocClass_def BlockCache_TryAcquire_def kMaxClassIndex_def
      BlockList_TryPop_def small_arena_def MemoryAllocator_Reset_def BlockCache_HardReset_def AllocateNewBlock_def
      kRequiredAlignment_def Overflow_def header_size_def ZeroFillTo.simps kZFillBlockSize_def memset_zero_def
      WriteBlockHeader_def Free_def FromHere_def LocateBlockHeader_def get_header_def BlockCache_Release_def
      BlockList_Push_def)

theorem heap_reset_deterministic_witness:
  "\<exists>used l. snd (heap_run std_bithacks [New 9, New 40, Delete 0] (small_arena, [])) = Inr (used, l) \<and>
     fst (heap_run std_bithacks [New 9, New 40] (MemoryAllocator_Reset used, [])) =
     fst (heap_run std_bithacks [New 9, New 40] (small_arena, []))"
  using heap_reset_deterministic [OF std_bithacks_ok small_arena(2,1) _ small_arena(1)] small_arena_used by blast

end
