(* ===== verification/Server.thy ===== *)
theory Server
  imports File_System Allocator Clocks Randomness Transport
begin

text \<open>
  \<open>server/server.{hpp,cpp}\<close>, \<open>server/stdout.hpp\<close>, \<open>config/server.hpp\<close>, \<open>process/memory.hpp\<close>: a simulated
  machine, with its clocks, disk, heap, transport and run queue, and the life cycle of its process. The
  operations that start the process draw random numbers, they are computations in \<open>rnd\<close>. The objects
  that the runtime allocates in the heap at the start of a process, and what a task does when it runs,
  are code of the node and not part of this theory.
\<close>

section \<open>State\<close>

datatype server_state = Initial | Running | Paused | Crashed

record server_config =
  c_id :: nat
  c_hostname :: host_name
  c_pool :: string

record ('h, 'u) server =
  s_state :: server_state
  s_time_model :: "server_time_model option"
  s_config :: server_config
  s_wall :: wall_clock
  s_mono :: monotonic_clock
  s_scheduler :: "('h, 'u) process_task scheduler"
  s_fs :: file_system
  s_heap :: allocator
  s_transport :: "'h transport"
  s_stdout :: "string list"
  s_runtime :: bool

definition Server :: "server_config \<Rightarrow> allocator \<Rightarrow> ('h, 'u) server" where
  "Server config heap = \<lparr>s_state = Initial, s_time_model = None, s_config = config, s_wall = 0,
     s_mono = MonotonicClock, s_scheduler = Scheduler_init, s_fs = FS_init, s_heap = heap,
     s_transport = Transport_init (c_hostname config), s_stdout = [], s_runtime = False\<rparr>"

section \<open>Operations\<close>

definition Server_HandlePacket ::
    "packet \<Rightarrow> nat \<Rightarrow> host_name \<Rightarrow> time_point \<Rightarrow> ('h, 'u) server \<Rightarrow> packet option \<times> ('h, 'u) server" where
  "Server_HandlePacket pkt out from now s =
     (let (reply, q) = HandlePacket pkt out from now (s_transport s) (s_scheduler s)
      in (reply, s\<lparr>s_scheduler := q\<rparr>))"

definition IsAlive :: "('h, 'u) server \<Rightarrow> bool" where
  "IsAlive s \<longleftrightarrow> s_state s = Running \<or> s_state s = Paused"

definition Server_Crash :: "('h, 'u) server \<Rightarrow> ('h, 'u) server res" where
  "Server_Crash s =
     verify (s_state s \<noteq> Crashed) ''Server already crashed''
       (let s = s\<lparr>s_transport := Transport_Reset (s_transport s)\<rparr>;
            s = s\<lparr>s_fs := FS_Reset (s_fs s)\<rparr>;
            s = s\<lparr>s_scheduler := Scheduler_Reset (s_scheduler s)\<rparr>;
            s = s\<lparr>s_heap := MemoryAllocator_Reset (s_heap s)\<rparr>;
            s = s\<lparr>s_runtime := False\<rparr>
        in Inr (s\<lparr>s_state := Crashed\<rparr>))"

definition StartProcess :: "time_point \<Rightarrow> ('h, 'u) server \<Rightarrow> ('h, 'u) server" where
  "StartProcess now s = s\<lparr>s_runtime := True, s_scheduler := Scheduler_Schedule now RunMain (s_scheduler s)\<rparr>"

definition GetTimeModel :: "('h, 'u) server \<Rightarrow> server_time_model rnd" where
  "GetTimeModel s = (case s_time_model s of
     None \<Rightarrow> rnd_fail (Undefined ''null time model'') | Some tm \<Rightarrow> rnd_return tm)"

definition Server_Launch :: "time_point \<Rightarrow> ('h, 'u) server \<Rightarrow> ('h, 'u) server rnd" where
  "Server_Launch now s =
     (if s_state s = Initial \<or> s_state s = Crashed then
        rnd_bind (GetTimeModel s) (\<lambda>tm. rnd_bind (m_ResetMonotonicClock tm) (\<lambda>r.
          let s = s\<lparr>s_mono := MonotonicClock_Reset r now (s_mono s)\<rparr>;
              s = StartProcess now s
          in rnd_return (s\<lparr>s_state := Running\<rparr>)))
      else rnd_fail (Panic ''Invalid state''))"

definition Server_FastReboot :: "time_point \<Rightarrow> ('h, 'u) server \<Rightarrow> ('h, 'u) server rnd" where
  "Server_FastReboot now s =
     (if \<not> IsAlive s then rnd_return s
      else case Server_Crash s of Inl e \<Rightarrow> rnd_fail e | Inr s \<Rightarrow> Server_Launch now s)"

definition Server_Pause :: "('h, 'u) server \<Rightarrow> ('h, 'u) server" where
  "Server_Pause s =
     (if \<not> IsAlive s then s else if s_state s = Paused then s else s\<lparr>s_state := Paused\<rparr>)"

definition Server_Resume :: "time_point \<Rightarrow> ('h, 'u) server \<Rightarrow> ('h, 'u) server" where
  "Server_Resume now s =
     (if s_state s \<noteq> Paused then s
      else s\<lparr>s_scheduler := Scheduler_Resume now (s_scheduler s), s_state := Running\<rparr>)"

definition AdjustWallClock :: "('h, 'u) server \<Rightarrow> ('h, 'u) server rnd" where
  "AdjustWallClock s =
     rnd_bind (GetTimeModel s) (\<lambda>tm. rnd_bind (m_InitWallClockOffset tm) (\<lambda>offset.
       rnd_return (s\<lparr>s_wall := WallClock_AdjustOffset offset (s_wall s)\<rparr>)))"

definition CorruptFile :: "path \<Rightarrow> ('h, 'u) server \<Rightarrow> ('h, 'u) server" where
  "CorruptFile file_path s = s\<lparr>s_fs := FS_Corrupt file_path (s_fs s)\<rparr>"

definition Server_Start :: "server_time_model \<Rightarrow> time_point \<Rightarrow> ('h, 'u) server \<Rightarrow> ('h, 'u) server rnd" where
  "Server_Start tm now s =
     (let s = s\<lparr>s_time_model := Some tm\<rparr> in
      rnd_bind (m_InitWallClockOffset tm) (\<lambda>offset.
      let s = s\<lparr>s_wall := WallClock_Init offset (s_wall s)\<rparr> in
      rnd_bind (m_InitClockDrift tm) (\<lambda>d. rnd_bind (m_ResetMonotonicClock tm) (\<lambda>r.
        Server_Launch now (s\<lparr>s_mono := MonotonicClock_Init d r now (s_mono s)\<rparr>)))))"

definition Server_IsRunnable :: "('h, 'u) server \<Rightarrow> bool" where
  "Server_IsRunnable s \<longleftrightarrow> (if s_state s \<noteq> Running then False else \<not> Scheduler_IsEmpty (s_scheduler s))"

definition Server_NextStepTime :: "('h, 'u) server \<Rightarrow> time_point option" where
  "Server_NextStepTime s = Scheduler_NextTaskTime (s_scheduler s)"

text \<open>\<open>Step\<close> takes the next task; the caller runs it.\<close>

definition Server_Step :: "('h, 'u) server \<Rightarrow> (('h, 'u) process_task \<times> ('h, 'u) server) res" where
  "Server_Step s =
     (case Scheduler_TakeNext (s_scheduler s) of
        None \<Rightarrow> Inl (Undefined ''top of an empty queue'')
      | Some (t, q) \<Rightarrow> Inr (t, s\<lparr>s_scheduler := q\<rparr>))"

definition Server_Shutdown :: "('h, 'u) server \<Rightarrow> ('h, 'u) server res" where
  "Server_Shutdown s = (if s_state s \<noteq> Crashed then Server_Crash s else Inr s)"

text \<open>The destructor.\<close>

definition Server_destroy :: "('h, 'u) server \<Rightarrow> unit res" where
  "Server_destroy s = verify (s_state s = Crashed) ''Invalid state'' (Inr ())"

definition Server_ComputeDigest ::
    "(nat \<Rightarrow> nat) \<Rightarrow> (nat \<Rightarrow> string \<Rightarrow> nat) \<Rightarrow> (string \<Rightarrow> nat) \<Rightarrow> (nat \<Rightarrow> nat \<Rightarrow> nat) \<Rightarrow> ('h, 'u) server \<Rightarrow> nat" where
  "Server_ComputeDigest hash_nat hash_range hash_path combine s =
     (if s_state s = Crashed then 0
      else let d = combine 0 (hash_nat (BytesAllocated (s_heap s)))
           in combine d (FS_ComputeDigest hash_range hash_path combine (s_fs s)))"

definition PrintLine :: "string \<Rightarrow> ('h, 'u) server \<Rightarrow> ('h, 'u) server" where
  "PrintLine line s = s\<lparr>s_stdout := s_stdout s @ [line]\<rparr>"

definition GetStdout :: "('h, 'u) server \<Rightarrow> string list" where
  "GetStdout s = s_stdout s"

lemmas server_defs = Server_Crash_def StartProcess_def GetTimeModel_def Server_Launch_def
  Server_FastReboot_def Server_Pause_def Server_Resume_def IsAlive_def Server_Start_def
  Server_Shutdown_def rnd_bind_def rnd_return_def rnd_fail_def

section \<open>Life cycle\<close>

datatype life_op = LCrash | LLaunch | LFastReboot | LPause | LResume | LShutdown

fun life_step :: "time_point \<Rightarrow> life_op \<Rightarrow> ('h, 'u) server \<Rightarrow> ('h, 'u) server rnd" where
  "life_step now LCrash s = (\<lambda>r. map_sum id (\<lambda>s. (s, r)) (Server_Crash s))"
| "life_step now LLaunch s = Server_Launch now s"
| "life_step now LFastReboot s = Server_FastReboot now s"
| "life_step now LPause s = rnd_return (Server_Pause s)"
| "life_step now LResume s = rnd_return (Server_Resume now s)"
| "life_step now LShutdown s = (\<lambda>r. map_sum id (\<lambda>s. (s, r)) (Server_Shutdown s))"

text \<open>The automaton of the four states; \<open>None\<close> is an abort.\<close>

fun automaton :: "life_op \<Rightarrow> server_state \<Rightarrow> server_state option" where
  "automaton LCrash st = (if st = Crashed then None else Some Crashed)"
| "automaton LLaunch st = (if st \<in> {Initial, Crashed} then Some Running else None)"
| "automaton LFastReboot st = Some (if st \<in> {Running, Paused} then Running else st)"
| "automaton LPause st = Some (if st = Running then Paused else st)"
| "automaton LResume st = Some (if st = Paused then Running else st)"
| "automaton LShutdown st = Some Crashed"

definition clock_model_ok :: "server_time_model \<Rightarrow> bool" where
  "clock_model_ok tm \<longleftrightarrow> yields (m_ResetMonotonicClock tm) (\<lambda>_. True)"

text \<open>What a process owns: it is empty in a server that is not alive.\<close>

definition process_clean :: "('h, 'u) server \<Rightarrow> bool" where
  "process_clean s \<longleftrightarrow> endpoints (s_transport s) = [] \<and> opened_files (s_fs s) = [] \<and>
     PQ_elems (s_scheduler s) = [] \<and> BytesAllocated (s_heap s) = 0 \<and> \<not> s_runtime s"

definition life_inv :: "('h, 'u) server \<Rightarrow> bool" where
  "life_inv s \<longleftrightarrow> PQ_inv (s_scheduler s) \<and> (s_runtime s \<longleftrightarrow> IsAlive s) \<and> (\<not> IsAlive s \<longrightarrow> process_clean s)"

lemma Server_Crash_ok:
  assumes "s_state s \<noteq> Crashed" and "PQ_inv (s_scheduler s)"
  shows "\<exists>s'. Server_Crash s = Inr s' \<and> s_state s' = Crashed \<and> process_clean s' \<and> PQ_inv (s_scheduler s') \<and>
    content (s_fs s') = content (s_fs s) \<and> s_config s' = s_config s \<and> s_stdout s' = s_stdout s \<and>
    s_wall s' = s_wall s \<and> s_mono s' = s_mono s \<and> s_time_model s' = s_time_model s"
  using assms
  by (simp add: Server_Crash_def process_clean_def Transport_Reset_def FS_Reset_def Scheduler_Reset_def
      BytesAllocated_def MemoryAllocator_Reset_def BlockCache_HardReset_def content_def PQ_inv_Clear)

lemma Server_Launch_ok:
  assumes "s_state s \<in> {Initial, Crashed}" and "s_time_model s = Some tm" "clock_model_ok tm"
    and "PQ_inv (s_scheduler s)"
  shows "\<exists>v s' r'. Server_Launch now s r = Inr (s', r') \<and>
    s' = s\<lparr>s_mono := (s_mono s)\<lparr>init := v, last_reset := now\<rparr>, s_runtime := True,
      s_scheduler := Scheduler_Schedule now RunMain (s_scheduler s), s_state := Running\<rparr>"
proof -
  obtain v r' where "m_ResetMonotonicClock tm r = Inr (v, r')"
    using assms(3) unfolding clock_model_ok_def yields_def by blast
  then show ?thesis using assms(1,2)
    by (auto simp: Server_Launch_def rnd_bind_def GetTimeModel_def rnd_return_def StartProcess_def
        MonotonicClock_Reset_def Let_def)
qed

lemma Schedule_elems [simp]:
  "PQ_elems (Scheduler_Schedule at t q) = PQ_elems q @ [\<lparr>at_time = at, task = t\<rparr>]"
  by (simp add: Scheduler_Schedule_def ScheduleImpl_def)

section \<open>Properties\<close>

lemma life_crash:
  assumes "life_inv s" and "s_time_model s = Some tm" and "s_state s \<noteq> Crashed"
  obtains s' where "Server_Crash s = Inr s'" and "s_state s' = Crashed" and "life_inv s'"
    and "content (s_fs s') = content (s_fs s)" and "s_stdout s' = s_stdout s" and "s_wall s' = s_wall s"
    and "s_time_model s' = Some tm"
proof -
  have "PQ_inv (s_scheduler s)" using assms(1) by (auto simp: life_inv_def)
  from Server_Crash_ok [OF assms(3) this] show thesis
    using assms(2) by (auto simp: life_inv_def process_clean_def IsAlive_def intro: that)
qed

lemma life_launch:
  assumes "life_inv s" and "s_time_model s = Some tm" and "s_state s \<in> {Initial, Crashed}" and "clock_model_ok tm"
  obtains s' r' where "Server_Launch now s r = Inr (s', r')" and "s_state s' = Running" and "life_inv s'"
    and "content (s_fs s') = content (s_fs s)" and "s_stdout s' = s_stdout s" and "s_wall s' = s_wall s"
  using Server_Launch_ok [OF assms(3,2,4), of now r] assms(1)
  by (auto simp: life_inv_def IsAlive_def inv_rules intro: that)

text \<open>C19. Life cycle. Every operation of the fault injection and of the world on a server follows an
  automaton with four states. Exactly two things abort: launching a server that is alive and crashing one
  that has crashed; a reboot, a pause or a resumption in a state where it makes no sense does nothing.
  A server that is not alive owns no endpoint, no descriptor, no task and no memory, and no operation
  changes its files, its output or its wall clock.\<close>

theorem server_life_cycle:
  assumes "life_inv s" and "s_time_model s = Some tm" and "clock_model_ok tm"
  shows "case automaton op (s_state s) of
      None \<Rightarrow> \<exists>msg. life_step now op s r = Inl (Panic msg)
    | Some st \<Rightarrow> \<exists>s' r'. life_step now op s r = Inr (s', r') \<and> s_state s' = st \<and> life_inv s' \<and>
        content (s_fs s') = content (s_fs s) \<and> s_stdout s' = s_stdout s \<and> s_wall s' = s_wall s"
proof (cases op)
  case LCrash
  then show ?thesis
    by (cases "s_state s = Crashed") (simp add: Server_Crash_def, auto intro: life_crash [OF assms(1,2)])
next
  case LLaunch
  show ?thesis
  proof (cases "s_state s \<in> {Initial, Crashed}")
    case True
    show ?thesis by (rule life_launch [OF assms(1,2) True assms(3), of now r]) (use LLaunch True in auto)
  qed (use LLaunch in \<open>auto simp: Server_Launch_def rnd_fail_def\<close>)
next
  case LFastReboot
  show ?thesis
  proof (cases "IsAlive s")
    case True
    then have up: "s_state s \<noteq> Crashed" by (auto simp: IsAlive_def)
    obtain s' where s': "Server_Crash s = Inr s'" "s_state s' = Crashed" "life_inv s'"
      "content (s_fs s') = content (s_fs s)" "s_stdout s' = s_stdout s" "s_wall s' = s_wall s"
      "s_time_model s' = Some tm" by (rule life_crash [OF assms(1,2) up])
    obtain s'' r' where "Server_Launch now s' r = Inr (s'', r')" "s_state s'' = Running" "life_inv s''"
      "content (s_fs s'') = content (s_fs s')" "s_stdout s'' = s_stdout s'" "s_wall s'' = s_wall s'"
      by (rule life_launch [OF s'(3,7) _ assms(3)]) (use s'(2) in auto)
    with s' True LFastReboot show ?thesis by (auto simp: Server_FastReboot_def IsAlive_def)
  next
    case False
    then show ?thesis using LFastReboot assms(1)
      by (auto simp: Server_FastReboot_def IsAlive_def rnd_return_def)
  qed
next
  case LPause
  then show ?thesis using assms(1)
    by (auto simp: Server_Pause_def IsAlive_def rnd_return_def life_inv_def)
next
  case LResume
  then show ?thesis using assms(1)
    by (auto simp: Server_Resume_def IsAlive_def rnd_return_def life_inv_def inv_rules)
next
  case LShutdown
  then show ?thesis using assms(1)
    by (cases "s_state s = Crashed") (simp add: Server_Shutdown_def, auto simp: Server_Shutdown_def intro: life_crash [OF assms(1,2)])
qed

definition demo_machine :: "(nat, nat) server" where
  "demo_machine = (Server \<lparr>c_id = 1, c_hostname = ''Server-1'', c_pool = ''nodes''\<rparr> small_arena)
     \<lparr>s_time_model := Some AdversaryTimeModel\<rparr>"

lemma demo_machine_ok: "life_inv demo_machine" "s_time_model demo_machine = Some AdversaryTimeModel"
  "clock_model_ok AdversaryTimeModel"
  by (auto simp: life_inv_def process_clean_def demo_machine_def Server_def Scheduler_init_def Transport_init_def
      FS_init_def BytesAllocated_def small_arena_def MemoryAllocator_Reset_def BlockCache_HardReset_def IsAlive_def
      clock_model_ok_def AdversaryTimeModel_def yields_def rnd_return_def)

theorem server_life_cycle_witness:
  "\<exists>s' r'. life_step 5 LLaunch demo_machine (RandomSource (\<lambda>seed n. 0) 7) = Inr (s', r') \<and> s_state s' = Running"
  using server_life_cycle [OF demo_machine_ok, of 5 LLaunch "RandomSource (\<lambda>seed n. 0) 7"]
  by (auto simp: demo_machine_def Server_def)

lemma FastReboot_ok:
  assumes "IsAlive s" and "s_time_model s = Some tm" and "clock_model_ok tm" and "PQ_inv (s_scheduler s)"
  shows "\<exists>s' r'. Server_FastReboot now s r = Inr (s', r') \<and> s_state s' = Running \<and>
    content (s_fs s') = content (s_fs s) \<and> opened_files (s_fs s') = [] \<and> endpoints (s_transport s') = [] \<and>
    BytesAllocated (s_heap s') = 0 \<and> PQ_elems (s_scheduler s') = [\<lparr>at_time = now, task = RunMain\<rparr>] \<and>
    drift (s_mono s') = drift (s_mono s) \<and> last_reset (s_mono s') = now \<and> s_wall s' = s_wall s \<and>
    s_stdout s' = s_stdout s \<and> s_config s' = s_config s"
proof -
  have "s_state s \<noteq> Crashed" using assms(1) by (auto simp: IsAlive_def)
  from Server_Crash_ok [OF this assms(4)] obtain u where u: "Server_Crash s = Inr u" "s_state u = Crashed"
      "process_clean u" "PQ_inv (s_scheduler u)" "content (s_fs u) = content (s_fs s)" "s_config u = s_config s"
      "s_stdout u = s_stdout s" "s_wall u = s_wall s" "s_mono u = s_mono s" "s_time_model u = Some tm"
    using assms(2) by auto
  then have "\<exists>v s' r'. Server_Launch now u r = Inr (s', r') \<and>
    s' = u\<lparr>s_mono := (s_mono u)\<lparr>init := v, last_reset := now\<rparr>, s_runtime := True,
      s_scheduler := Scheduler_Schedule now RunMain (s_scheduler u), s_state := Running\<rparr>"
    using Server_Launch_ok assms(3) by blast
  then show ?thesis using u assms(1)
    by (auto simp: Server_FastReboot_def process_clean_def)
qed

text \<open>A reboot keeps the disk and loses everything else. After a fast reboot of a server that is alive,
  paused or not, the files, the drift, the wall clock and the output are the same; no endpoint, descriptor
  or byte of the heap is left, and the only task is the main program, at the current time.\<close>

theorem server_reboot:
  assumes "IsAlive s" and "s_time_model s = Some tm" and "clock_model_ok tm" and "PQ_inv (s_scheduler s)"
  shows "\<exists>s' r'. Server_FastReboot now s r = Inr (s', r') \<and> s_state s' = Running \<and>
    content (s_fs s') = content (s_fs s) \<and> opened_files (s_fs s') = [] \<and> endpoints (s_transport s') = [] \<and>
    BytesAllocated (s_heap s') = 0 \<and> PQ_elems (s_scheduler s') = [\<lparr>at_time = now, task = RunMain\<rparr>] \<and>
    drift (s_mono s') = drift (s_mono s) \<and> last_reset (s_mono s') = now \<and> s_wall s' = s_wall s \<and>
    s_stdout s' = s_stdout s \<and> s_config s' = s_config s"
  by (rule FastReboot_ok [OF assms])

theorem server_reboot_witness:
  "\<exists>s' r'. Server_FastReboot 9 (demo_machine\<lparr>s_state := Paused\<rparr>) (RandomSource (\<lambda>seed n. 0) 7) = Inr (s', r') \<and>
     s_state s' = Running \<and> PQ_elems (s_scheduler s') = [\<lparr>at_time = 9, task = RunMain\<rparr>]"
  using server_reboot [of "demo_machine\<lparr>s_state := Paused\<rparr>" AdversaryTimeModel 9 "RandomSource (\<lambda>seed n. 0) 7"]
    demo_machine_ok
  by (auto simp: IsAlive_def life_inv_def)

end
