(* ===== verification/World.thy ===== *)
theory World
  imports Server Recorder
begin

text \<open>
  \<open>world/{world,actor_ctx}.{hpp,cpp}\<close>, \<open>world/global/{access.cpp,vars.hpp}\<close>, \<open>guids/generator.cpp\<close> and
  \<open>helpers/untyped_dict.hpp\<close>: the event loop. Servers are numbered in the order they are added, which is
  also their order in the network. What a task of a node does when it runs is a parameter, a list of
  calls into the simulation (\<open>syscall\<close>) that may depend on the whole state of the world.
\<close>

section \<open>State\<close>

datatype actor = ServerActor nat | NetworkActor

record time_model =
  tm_GlobalStartTime :: "time_point rnd"
  tm_MakeServerModel :: "host_name \<Rightarrow> server_time_model"
  tm_EstimateRtt :: jiffies
  tm_FlightTime :: "host_name \<Rightarrow> host_name \<Rightarrow> packet \<Rightarrow> jiffies rnd"
  tm_BackoffParams :: "nat \<times> nat \<times> nat"

definition CrazyTimeModel :: time_model where
  "CrazyTimeModel = \<lparr>tm_GlobalStartTime = Crazy_GlobalStartTime, tm_MakeServerModel = (\<lambda>_. CrazyServerTimeModel),
     tm_EstimateRtt = Crazy_EstimateRtt, tm_FlightTime = (\<lambda>_ _ pkt. Crazy_FlightTime (p_type pkt = Data)),
     tm_BackoffParams = Crazy_BackoffParams\<rparr>"

datatype any = AnyInt int | AnyString string | AnyBool bool | AnySize u64

type_synonym untyped_dict = "(string, any) omap"

definition Dict_Set :: "string \<Rightarrow> any \<Rightarrow> untyped_dict \<Rightarrow> untyped_dict" where
  "Dict_Set k v d = om_assign k v d"

definition Dict_Has :: "string \<Rightarrow> untyped_dict \<Rightarrow> bool" where
  "Dict_Has k d \<longleftrightarrow> om_find d k \<noteq> None"

text \<open>A missing entry is the empty \<open>std::any\<close>, here \<open>None\<close>.\<close>

definition Dict_Get :: "string \<Rightarrow> untyped_dict \<Rightarrow> any option" where
  "Dict_Get k d = (if Dict_Has k d then om_find d k else None)"

record ('h, 'u) world =
  w_seed :: u64
  w_now :: time_point
  w_random :: random_source
  w_guids :: u64
  w_time_model :: time_model
  w_pools :: "(string, nat list) omap"
  w_clients :: "nat list"
  w_adversaries :: "nat list"
  w_servers :: "('h, 'u) server list"
  w_net :: network
  w_actors :: "actor list"
  w_active :: "actor option"
  w_step :: nat
  w_start_time :: time_point
  w_digest :: u64
  w_history :: recorder
  w_globals :: untyped_dict

definition World :: "(u64 \<Rightarrow> nat \<Rightarrow> u32) \<Rightarrow> u64 \<Rightarrow> ('h, 'u) world" where
  "World mt19937 seed = \<lparr>w_seed = seed, w_now = 0, w_random = RandomSource mt19937 seed, w_guids = 0,
     w_time_model = CrazyTimeModel, w_pools = [], w_clients = [], w_adversaries = [], w_servers = [],
     w_net = Network_init, w_actors = [], w_active = None, w_step = 0, w_start_time = 0, w_digest = 0,
     w_history = HistoryRecorder, w_globals = []\<rparr>"

section \<open>Building the cluster\<close>

definition MakeServerName :: "string \<Rightarrow> nat \<Rightarrow> host_name" where
  "MakeServerName name_template index = name_template @ ''-'' @ show_nat index"

definition AddActor :: "actor \<Rightarrow> ('h, 'u) world \<Rightarrow> ('h, 'u) world" where
  "AddActor a w = w\<lparr>w_actors := w_actors w @ [a]\<rparr>"

text \<open>\<open>ids\<close> is the generator of server ids, \<open>heap\<close> the new allocator of the server.\<close>

definition AddServerImpl ::
    "(nat \<Rightarrow> nat) \<Rightarrow> allocator \<Rightarrow> nat list \<Rightarrow> string \<Rightarrow> host_name \<Rightarrow> ('h, 'u) world \<Rightarrow> nat list \<times> ('h, 'u) world" where
  "AddServerImpl ids heap pool pool_name hostname w =
     (let k = length (w_servers w);
          s = Server \<lparr>c_id = ids k, c_hostname = hostname, c_pool = pool_name\<rparr> heap;
          w = w\<lparr>w_servers := w_servers w @ [s]\<rparr>;
          w = w\<lparr>w_net := Network_AddServer hostname (w_net w)\<rparr>
      in (pool @ [k], AddActor (ServerActor k) w))"

definition AddToPool ::
    "(nat \<Rightarrow> nat) \<Rightarrow> allocator \<Rightarrow> nat list \<Rightarrow> string \<Rightarrow> string \<Rightarrow> ('h, 'u) world \<Rightarrow> nat list \<times> ('h, 'u) world" where
  "AddToPool ids heap pool pool_name host_name_template w =
     AddServerImpl ids heap pool pool_name (MakeServerName host_name_template (length pool + 1)) w"

text \<open>\<open>pools_[name]\<close>.\<close>

definition pool_of :: "string \<Rightarrow> ('h, 'u) world \<Rightarrow> nat list" where
  "pool_of name w = (case om_find (w_pools w) name of None \<Rightarrow> [] | Some p \<Rightarrow> p)"

definition AddServer :: "(nat \<Rightarrow> nat) \<Rightarrow> allocator \<Rightarrow> host_name \<Rightarrow> ('h, 'u) world \<Rightarrow> ('h, 'u) world" where
  "AddServer ids heap hostname w =
     (let (pool, w) = AddServerImpl ids heap (pool_of ''snowflakes'' w) ''snowflakes'' hostname w
      in w\<lparr>w_pools := om_assign ''snowflakes'' pool (w_pools w)\<rparr>)"

fun add_many ::
    "nat \<Rightarrow> (nat \<Rightarrow> nat) \<Rightarrow> allocator \<Rightarrow> string \<Rightarrow> string \<Rightarrow> nat list \<times> ('h, 'u) world \<Rightarrow> nat list \<times> ('h, 'u) world" where
  "add_many 0 ids heap pool_name name_template pw = pw"
| "add_many (Suc n) ids heap pool_name name_template pw =
     add_many n ids heap pool_name name_template (AddToPool ids heap (fst pw) pool_name name_template (snd pw))"

definition AddPool ::
    "(nat \<Rightarrow> nat) \<Rightarrow> allocator \<Rightarrow> string \<Rightarrow> nat \<Rightarrow> string \<Rightarrow> ('h, 'u) world \<Rightarrow> ('h, 'u) world" where
  "AddPool ids heap pool_name sz name_template w =
     (let (pool, w) = add_many sz ids heap pool_name name_template (pool_of pool_name w, w)
      in w\<lparr>w_pools := om_assign pool_name pool (w_pools w)\<rparr>)"

definition AddClient :: "(nat \<Rightarrow> nat) \<Rightarrow> allocator \<Rightarrow> ('h, 'u) world \<Rightarrow> ('h, 'u) world" where
  "AddClient ids heap w =
     (let (pool, w) = AddToPool ids heap (w_clients w) ''clients'' ''Client'' w in w\<lparr>w_clients := pool\<rparr>)"

definition AddAdversary :: "(nat \<Rightarrow> nat) \<Rightarrow> allocator \<Rightarrow> ('h, 'u) world \<Rightarrow> ('h, 'u) world" where
  "AddAdversary ids heap w =
     (let (pool, w) = AddToPool ids heap (w_adversaries w) ''adversaries'' ''Adversary'' w
      in w\<lparr>w_adversaries := pool\<rparr>)"

definition HasAdversary :: "('h, 'u) world \<Rightarrow> bool" where
  "HasAdversary w \<longleftrightarrow> w_adversaries w \<noteq> []"

definition SetTimeModel :: "time_model \<Rightarrow> ('h, 'u) world \<Rightarrow> ('h, 'u) world" where
  "SetTimeModel tm w = w\<lparr>w_time_model := tm\<rparr>"

definition MakeServerTimeModel :: "host_name \<Rightarrow> ('h, 'u) world \<Rightarrow> server_time_model" where
  "MakeServerTimeModel hostname w =
     (if prefix ''Adversary'' hostname then AdversaryTimeModel
      else tm_MakeServerModel (w_time_model w) hostname)"

section \<open>Queries\<close>

definition HostName :: "nat \<Rightarrow> ('h, 'u) world \<Rightarrow> host_name" where
  "HostName i w = c_hostname (s_config (w_servers w ! i))"

definition GetPool :: "string \<Rightarrow> ('h, 'u) world \<Rightarrow> host_name list" where
  "GetPool name w =
     (case om_find (w_pools w) name of None \<Rightarrow> [] | Some pool \<Rightarrow> map (\<lambda>i. HostName i w) pool)"

definition pool_members :: "('h, 'u) world \<Rightarrow> nat list" where
  "pool_members w = concat (map snd (w_pools w))"

definition FindServer :: "host_name \<Rightarrow> ('h, 'u) world \<Rightarrow> nat option" where
  "FindServer hostname w = find (\<lambda>i. HostName i w = hostname) (pool_members w)"

definition GetServer :: "host_name \<Rightarrow> ('h, 'u) world \<Rightarrow> nat res" where
  "GetServer hostname w = (case FindServer hostname w of
     None \<Rightarrow> Inl (Undefined ''null server'') | Some i \<Rightarrow> Inr i)"

definition World_GetStdout :: "host_name \<Rightarrow> ('h, 'u) world \<Rightarrow> string list res" where
  "World_GetStdout hostname w = res_bind (GetServer hostname w) (\<lambda>i. Inr (GetStdout (w_servers w ! i)))"

definition ClusterSize :: "('h, 'u) world \<Rightarrow> nat" where
  "ClusterSize w = sum_list (map (\<lambda>p. length (snd p)) (w_pools w))"

definition TimeElapsed :: "('h, 'u) world \<Rightarrow> jiffies" where
  "TimeElapsed w = w_now w - w_start_time w"

definition GenerateNext :: "u64 \<Rightarrow> string \<times> u64" where
  "GenerateNext next_value =
     (let v = next_value + 1
      in (''guid-'' @ [''YXZ'' ! (unat v mod 3)] @ ''-'' @ show_nat (unat v), v))"

definition GenerateGuid :: "('h, 'u) world \<Rightarrow> string \<times> ('h, 'u) world" where
  "GenerateGuid w = (let (guid, v) = GenerateNext (w_guids w) in (guid, w\<lparr>w_guids := v\<rparr>))"

definition World_SetGlobal :: "string \<Rightarrow> any \<Rightarrow> ('h, 'u) world \<Rightarrow> ('h, 'u) world" where
  "World_SetGlobal name v w = w\<lparr>w_globals := Dict_Set name v (w_globals w)\<rparr>"

definition World_GetGlobal :: "string \<Rightarrow> ('h, 'u) world \<Rightarrow> any option" where
  "World_GetGlobal name w = Dict_Get name (w_globals w)"

definition SetConfigGlobals :: "('h, 'u) world \<Rightarrow> ('h, 'u) world" where
  "SetConfigGlobals w = World_SetGlobal ''config.net.rtt'' (AnyInt (sint (tm_EstimateRtt (w_time_model w)))) w"

section \<open>Running operations of a server\<close>

definition draw :: "'a rnd \<Rightarrow> ('h, 'u) world \<Rightarrow> ('a \<times> ('h, 'u) world) res" where
  "draw m w = res_bind (m (w_random w)) (\<lambda>(x, r). Inr (x, w\<lparr>w_random := r\<rparr>))"

definition set_server :: "nat \<Rightarrow> ('h, 'u) server \<Rightarrow> ('h, 'u) world \<Rightarrow> ('h, 'u) world" where
  "set_server i s w = w\<lparr>w_servers := (w_servers w)[i := s]\<rparr>"

definition on_server ::
    "nat \<Rightarrow> (('h, 'u) server \<Rightarrow> ('h, 'u) server rnd) \<Rightarrow> ('h, 'u) world \<Rightarrow> ('h, 'u) world res" where
  "on_server i f w =
     (if i < length (w_servers w)
      then res_bind (draw (f (w_servers w ! i)) w) (\<lambda>(s, w). Inr (set_server i s w))
      else Inl (Undefined ''null server''))"

text \<open>\<open>active_.Scope(actor)\<close>: the guard restores the actor that was active before.\<close>

definition scoped ::
    "actor \<Rightarrow> (('h, 'u) world \<Rightarrow> ('h, 'u) world res) \<Rightarrow> ('h, 'u) world \<Rightarrow> ('h, 'u) world res" where
  "scoped a f w =
     (let parent = w_active w
      in res_bind (f (w\<lparr>w_active := Some a\<rparr>)) (\<lambda>w. Inr (w\<lparr>w_active := parent\<rparr>)))"

definition ThisActor :: "('h, 'u) world \<Rightarrow> actor option" where
  "ThisActor w = w_active w"

definition AmIActor :: "('h, 'u) world \<Rightarrow> bool" where
  "AmIActor w \<longleftrightarrow> w_active w \<noteq> None"

definition ThisServer :: "('h, 'u) world \<Rightarrow> nat res" where
  "ThisServer w = (case w_active w of
     Some (ServerActor i) \<Rightarrow> Inr i | _ \<Rightarrow> Inl (Panic ''Current actor is not a server''))"

section \<open>Calls of a running task\<close>

datatype ('h, 'u) syscall =
    SysTimer jiffies 'u
  | SysSubmit 'u
  | SysConnect host_name port 'h
  | SysServe port 'h
  | SysClose port
  | SysSend nat packet
  | SysDisk file_system
  | SysHeap allocator
  | SysPrint string
  | SysGuid
  | SysRandom
  | SysSetGlobal string any
  | SysRecord rec_event
  | SysServer life_op nat
  | SysAdjustWallClock nat
  | SysPauseLink host_name host_name
  | SysResumeLink host_name host_name
  | SysSplit "host_name set"
  | SysHeal

text \<open>\<open>Link::Add\<close>: the time model chooses the time of the flight.\<close>

definition World_send :: "nat \<Rightarrow> packet \<Rightarrow> ('h, 'u) world \<Rightarrow> ('h, 'u) world res" where
  "World_send k pkt w =
     (if k < length (links (w_net w))
      then let l = links (w_net w) ! k in
        res_bind (draw (tm_FlightTime (w_time_model w) (HostName (l_start l) w) (HostName (l_end l) w) pkt) w)
          (\<lambda>(d, w). Inr (w\<lparr>w_net := Link_Add k (w_now w) d pkt (w_net w)\<rparr>))
      else Inl (Undefined ''null link''))"

definition on_net :: "(network \<Rightarrow> network res) \<Rightarrow> ('h, 'u) world \<Rightarrow> ('h, 'u) world res" where
  "on_net f w = res_bind (f (w_net w)) (\<lambda>net. Inr (w\<lparr>w_net := net\<rparr>))"

text \<open>The loops of \<open>Resume\<close> and \<open>Heal\<close> end unless the time is the last one (\<open>None\<close>).\<close>

definition loop_ends :: "network option \<Rightarrow> network res" where
  "loop_ends r = (case r of None \<Rightarrow> Inl (Undefined ''endless loop'') | Some net \<Rightarrow> Inr net)"

fun World_syscall :: "nat \<Rightarrow> ('h, 'u) syscall \<Rightarrow> ('h, 'u) world \<Rightarrow> ('h, 'u) world res" where
  "World_syscall i (SysTimer d t) w = on_server i (\<lambda>s r. res_bind
     (AfterJiffies (s_mono s) (w_now w) d (RunTask t) (s_scheduler s)) (\<lambda>q. Inr (s\<lparr>s_scheduler := q\<rparr>, r))) w"
| "World_syscall i (SysSubmit t) w = on_server i (\<lambda>s. rnd_return
     (s\<lparr>s_scheduler := ThreadPool_Submit (w_now w) (RunTask t) (s_scheduler s)\<rparr>)) w"
| "World_syscall i (SysConnect host p h) w =
     res_bind (GetLink (HostName i w) host (w_net w)) (\<lambda>k.
       (case ConnectTo k p h (w_step w) (HasAdversary w) (s_transport (w_servers w ! i)) of
          None \<Rightarrow> Inl (Undefined ''endless loop'')
        | Some (sock, out, t) \<Rightarrow>
            let w = set_server i ((w_servers w ! i)\<lparr>s_transport := t\<rparr>) w
            in case out of None \<Rightarrow> Inr w | Some pkt \<Rightarrow> World_send k pkt w))"
| "World_syscall i (SysServe p h) w = on_server i (\<lambda>s r. res_bind (Serve p h (w_step w) (s_transport s))
     (\<lambda>(sock, t). Inr (s\<lparr>s_transport := t\<rparr>, r))) w"
| "World_syscall i (SysClose p) w = on_server i (\<lambda>s. rnd_return
     (s\<lparr>s_transport := RemoveEndpoint p (s_transport s)\<rparr>)) w"
| "World_syscall i (SysSend k pkt) w = World_send k pkt w"
| "World_syscall i (SysDisk fs) w = on_server i (\<lambda>s. rnd_return (s\<lparr>s_fs := fs\<rparr>)) w"
| "World_syscall i (SysHeap m) w = on_server i (\<lambda>s. rnd_return (s\<lparr>s_heap := m\<rparr>)) w"
| "World_syscall i (SysPrint line) w = on_server i (\<lambda>s. rnd_return (PrintLine line s)) w"
| "World_syscall i SysGuid w = Inr (snd (GenerateGuid w))"
| "World_syscall i SysRandom w = res_bind (draw GlobalRandomNumber w) (\<lambda>(n, w). Inr w)"
| "World_syscall i (SysSetGlobal name v) w = Inr (World_SetGlobal name v w)"
| "World_syscall i (SysRecord ev) w =
     res_bind (recorder_step (w_now w, ev) (w_history w)) (\<lambda>h. Inr (w\<lparr>w_history := h\<rparr>))"
| "World_syscall i (SysServer op j) w = scoped (ServerActor j) (on_server j (life_step (w_now w) op)) w"
| "World_syscall i (SysAdjustWallClock j) w = scoped (ServerActor j) (on_server j AdjustWallClock) w"
| "World_syscall i (SysPauseLink a b) w = on_net (PauseLink a b) w"
| "World_syscall i (SysResumeLink a b) w =
     on_net (\<lambda>net. res_bind (ResumeLink a b (w_now w) net) loop_ends) w"
| "World_syscall i (SysSplit lhs) w = on_net (Network_Split lhs) w"
| "World_syscall i SysHeal w = on_net (\<lambda>net. loop_ends (Network_Heal (w_now w) net)) w"

type_synonym ('h, 'u) program = "nat \<Rightarrow> ('h, 'u) process_task \<Rightarrow> ('h, 'u) world \<Rightarrow> ('h, 'u) syscall list"

section \<open>The event loop\<close>

definition actor_IsRunnable :: "('h, 'u) world \<Rightarrow> actor \<Rightarrow> bool" where
  "actor_IsRunnable w a = (case a of
     ServerActor i \<Rightarrow> Server_IsRunnable (w_servers w ! i) | NetworkActor \<Rightarrow> Network_IsRunnable (w_net w))"

definition actor_NextStepTime :: "('h, 'u) world \<Rightarrow> actor \<Rightarrow> time_point option" where
  "actor_NextStepTime w a = (case a of
     ServerActor i \<Rightarrow> Server_NextStepTime (w_servers w ! i) | NetworkActor \<Rightarrow> Network_NextStepTime (w_net w))"

record next_step =
  ns_actor :: actor
  ns_index :: nat
  ns_time :: time_point

fun find_next_step :: "('h, 'u) world \<Rightarrow> nat \<Rightarrow> actor list \<Rightarrow> next_step option \<Rightarrow> next_step option" where
  "find_next_step w i [] best = best"
| "find_next_step w i (a # as) best =
     find_next_step w (Suc i) as
       (if actor_IsRunnable w a then
          (case actor_NextStepTime w a of
             None \<Rightarrow> best
           | Some t \<Rightarrow> (case best of
               None \<Rightarrow> Some \<lparr>ns_actor = a, ns_index = i, ns_time = t\<rparr>
             | Some b \<Rightarrow> if t < ns_time b then Some \<lparr>ns_actor = a, ns_index = i, ns_time = t\<rparr> else best))
        else best)"

definition FindNextStep :: "('h, 'u) world \<Rightarrow> next_step option" where
  "FindNextStep w = (if w_actors w = [] then None else find_next_step w 0 (w_actors w) None)"

text \<open>The heap under a task whose server has crashed is gone; what the task does from there is undefined.\<close>

definition run_syscall :: "nat \<Rightarrow> ('h, 'u) syscall \<Rightarrow> ('h, 'u) world \<Rightarrow> ('h, 'u) world res" where
  "run_syscall i op w =
     (if i < length (w_servers w) \<and> IsAlive (w_servers w ! i) then World_syscall i op w
      else Inl (Undefined ''task of a crashed process''))"

definition server_step :: "('h, 'u) program \<Rightarrow> nat \<Rightarrow> ('h, 'u) world \<Rightarrow> ('h, 'u) world res" where
  "server_step prog i w =
     (if i < length (w_servers w)
      then res_bind (Server_Step (w_servers w ! i)) (\<lambda>(t, s).
        let w = set_server i s w in res_fold (run_syscall i) (prog i t w) w)
      else Inl (Undefined ''null server''))"

text \<open>A step of the network delivers a frame to the server at the end of its link; what the transport
  answers goes to the opposite link.\<close>

definition network_step :: "(u64 \<Rightarrow> nat \<Rightarrow> u64) \<Rightarrow> ('h, 'u) world \<Rightarrow> ('h, 'u) world res" where
  "network_step eat w =
     res_bind (Network_Step eat (w_net w)) (\<lambda>(net, delivered).
       let w = w\<lparr>w_net := net\<rparr> in
       case delivered of
         Some (f, receiver, Some out) \<Rightarrow>
           scoped (ServerActor receiver) (\<lambda>w.
             if receiver < length (w_servers w) then
               let from = HostName (l_end (links (w_net w) ! out)) w;
                   (reply, s) = Server_HandlePacket (f_packet f) out from (w_now w) (w_servers w ! receiver);
                   w = set_server receiver s w
               in case reply of None \<Rightarrow> Inr w | Some pkt \<Rightarrow> World_send out pkt w
             else Inl (Undefined ''null server'')) w
       | Some (f, receiver, None) \<Rightarrow> Inl (Undefined ''null link'')
       | None \<Rightarrow> Inr w)"

definition actor_step ::
    "(u64 \<Rightarrow> nat \<Rightarrow> u64) \<Rightarrow> ('h, 'u) program \<Rightarrow> actor \<Rightarrow> ('h, 'u) world \<Rightarrow> ('h, 'u) world res" where
  "actor_step eat prog a w =
     (case a of ServerActor i \<Rightarrow> server_step prog i w | NetworkActor \<Rightarrow> network_step eat w)"

definition World_Step ::
    "(u64 \<Rightarrow> nat \<Rightarrow> u64) \<Rightarrow> ('h, 'u) program \<Rightarrow> ('h, 'u) world \<Rightarrow> (bool \<times> ('h, 'u) world) res" where
  "World_Step eat prog w =
     (case FindNextStep w of
        None \<Rightarrow> Inr (False, w)
      | Some next_step \<Rightarrow>
          let w = w\<lparr>w_step := Suc (w_step w)\<rparr>;
              w = w\<lparr>w_digest := eat (eat (w_digest w) (unat (ns_time next_step))) (ns_index next_step)\<rparr>
          in res_bind (FastForwardTo (ns_time next_step) (w_now w)) (\<lambda>now.
             res_bind (scoped (ns_actor next_step) (actor_step eat prog (ns_actor next_step)) (w\<lparr>w_now := now\<rparr>))
               (\<lambda>w. Inr (True, w))))"

fun make_steps ::
    "(u64 \<Rightarrow> nat \<Rightarrow> u64) \<Rightarrow> ('h, 'u) program \<Rightarrow> nat \<Rightarrow> nat \<Rightarrow> ('h, 'u) world \<Rightarrow> (nat \<times> ('h, 'u) world) res" where
  "make_steps eat prog 0 steps_made w = Inr (steps_made, w)"
| "make_steps eat prog (Suc n) steps_made w =
     res_bind (World_Step eat prog w) (\<lambda>(b, w).
       if \<not> b then Inr (steps_made, w) else make_steps eat prog n (steps_made + 1) w)"

definition MakeSteps ::
    "(u64 \<Rightarrow> nat \<Rightarrow> u64) \<Rightarrow> ('h, 'u) program \<Rightarrow> nat \<Rightarrow> ('h, 'u) world \<Rightarrow> (nat \<times> ('h, 'u) world) res" where
  "MakeSteps eat prog steps w = make_steps eat prog steps 0 w"

text \<open>\<open>RunFor\<close> runs for ever when the time does not reach the budget: \<open>None\<close>.\<close>

partial_function (option) RunFor ::
    "(u64 \<Rightarrow> nat \<Rightarrow> u64) \<Rightarrow> ('h, 'u) program \<Rightarrow> jiffies \<Rightarrow> ('h, 'u) world \<Rightarrow> ('h, 'u) world res option" where
  "RunFor eat prog budget w =
     (if TimeElapsed w < budget
      then (case World_Step eat prog w of
          Inl e \<Rightarrow> Some (Inl e)
        | Inr (b, w') \<Rightarrow> if \<not> b then Some (Inr w') else RunFor eat prog budget w')
      else Some (Inr w))"

definition RestartServer :: "host_name \<Rightarrow> ('h, 'u) world \<Rightarrow> ('h, 'u) world res" where
  "RestartServer hostname w =
     res_bind (GetServer hostname w) (\<lambda>i. scoped (ServerActor i) (on_server i (Server_FastReboot (w_now w))) w)"

section \<open>Start and stop\<close>

definition SetStartTime :: "('h, 'u) world \<Rightarrow> ('h, 'u) world res" where
  "SetStartTime w =
     res_bind (draw (tm_GlobalStartTime (w_time_model w)) w) (\<lambda>(t, w).
       res_bind (FastForwardTo t (w_now w)) (\<lambda>now. Inr (w\<lparr>w_now := now\<rparr>)))"

definition start_server :: "nat \<Rightarrow> ('h, 'u) world \<Rightarrow> ('h, 'u) world res" where
  "start_server i w =
     scoped (ServerActor i) (on_server i (Server_Start (MakeServerTimeModel (HostName i w) w) (w_now w))) w"

definition World_Start :: "('h, 'u) world \<Rightarrow> ('h, 'u) world res" where
  "World_Start w =
     res_bind (SetStartTime w) (\<lambda>w.
       let w = w\<lparr>w_start_time := w_now w\<rparr>;
           w = AddActor NetworkActor w;
           w = w\<lparr>w_net := Network_Start (w_net w)\<rparr>;
           w = SetConfigGlobals w
       in res_fold start_server (pool_members w @ w_clients w @ w_adversaries w) w)"

text \<open>Shutting down a server and running its destructor.\<close>

definition stop_server :: "nat \<Rightarrow> ('h, 'u) world \<Rightarrow> ('h, 'u) world res" where
  "stop_server i w =
     res_bind (scoped (ServerActor i) (on_server i (life_step (w_now w) LShutdown)) w) (\<lambda>w.
       res_bind (Server_destroy (w_servers w ! i)) (\<lambda>_. Inr w))"

definition World_Stop ::
    "(u64 \<Rightarrow> u64 \<Rightarrow> u64) \<Rightarrow> (('h, 'u) server \<Rightarrow> u64) \<Rightarrow> ('h, 'u) world \<Rightarrow> (u64 \<times> ('h, 'u) world) res" where
  "World_Stop combine server_digest w =
     res_bind (res_fold (stop_server) (w_adversaries w) w) (\<lambda>w.
       let w = w\<lparr>w_adversaries := []\<rparr>;
           w = w\<lparr>w_digest := combine (w_digest w) (digest (w_net w))\<rparr>;
           w = w\<lparr>w_net := Network_Shutdown (w_net w)\<rparr>
       in res_bind (res_fold (\<lambda>i w.
            stop_server i (w\<lparr>w_digest := combine (w_digest w) (server_digest (w_servers w ! i))\<rparr>))
            (pool_members w) w) (\<lambda>w.
       let w = w\<lparr>w_pools := []\<rparr> in
       res_bind (res_fold (stop_server) (w_clients w) w) (\<lambda>w.
       let w = w\<lparr>w_clients := [], w_actors := []\<rparr>;
           w = w\<lparr>w_history := Recorder_Finalize (w_history w)\<rparr>
       in Inr (w_digest w, w))))"

definition World_History :: "('h, 'u) world \<Rightarrow> history" where
  "World_History w = GetHistory (w_history w)"

section \<open>Time does not go back\<close>

text \<open>No task of a running server and no frame in flight is overdue; a server that is not alive has no
  tasks and no endpoints; every server has its time model.\<close>

definition srv_timely :: "time_point \<Rightarrow> ('h, 'u) server \<Rightarrow> bool" where
  "srv_timely now s \<longleftrightarrow> PQ_inv (s_scheduler s) \<and>
     (s_state s = Running \<longrightarrow> (\<forall>t \<in> set (PQ_elems (s_scheduler s)). now \<le> at_time t)) \<and>
     (\<not> IsAlive s \<longrightarrow> PQ_elems (s_scheduler s) = [] \<and> endpoints (s_transport s) = []) \<and>
     s_time_model s \<noteq> None \<and> pred_option clock_model_ok (s_time_model s)"

definition net_timely :: "time_point \<Rightarrow> network \<Rightarrow> bool" where
  "net_timely now n \<longleftrightarrow> PQ_inv (events n) \<and> (\<forall>e \<in> set (PQ_elems (events n)). now \<le> le_time e)"

definition timely :: "('h, 'u) world \<Rightarrow> bool" where
  "timely w \<longleftrightarrow> (\<forall>s \<in> set (w_servers w). srv_timely (w_now w) s) \<and> net_timely (w_now w) (w_net w)"

text \<open>Bounds under which \<open>uint64_t\<close> times do not wrap: flights take at most \<open>D\<close>, timers are set to at
  most \<open>D / 100\<close> user jiffies (the slowest clock stretches them by 100).\<close>

definition flights_within :: "nat \<Rightarrow> time_model \<Rightarrow> bool" where
  "flights_within D tm \<longleftrightarrow> (\<forall>a b pkt. yields (tm_FlightTime tm a b pkt) (\<lambda>d. unat d \<le> D))"

definition timers_within :: "nat \<Rightarrow> ('h, 'u) program \<Rightarrow> bool" where
  "timers_within D prog \<longleftrightarrow> (\<forall>i t w d x. SysTimer d x \<in> set (prog i t w) \<longrightarrow> 100 * unat d \<le> D)"

definition room :: "nat \<Rightarrow> time_point \<Rightarrow> bool" where
  "room D now \<longleftrightarrow> 1 \<le> D \<and> unat now + D < 2 ^ 64"

lemma room_le: "room D now \<Longrightarrow> unat d \<le> D \<Longrightarrow> now \<le> now + d"
  by (simp add: room_def word_le_nat_alt unat_word_ariths)

lemma resumed_le: "s \<in> set (resumed now xs) \<Longrightarrow> now \<le> at_time s"
  by (auto simp: resumed_def)

lemma life_step_timely:
  assumes "srv_timely now s" and "life_step now op s r = Inr (s', r')"
  shows "srv_timely now s'"
proof -
  have inv: "PQ_inv (s_scheduler s)" using assms(1) by (simp add: srv_timely_def)
  have tm: "s_time_model s \<noteq> None" "pred_option clock_model_ok (s_time_model s)"
    using assms(1) by (simp_all add: srv_timely_def)
  have crash: "srv_timely now u" if "Server_Crash s = Inr u" for u
    using that inv tm Server_Crash_ok [of s] unfolding Server_Crash_def verify_def
    by (auto simp: srv_timely_def IsAlive_def Transport_Reset_def Scheduler_Reset_def PQ_inv_Clear split: if_splits)
  have launch: "srv_timely now v" if "srv_timely now u" "Server_Launch now u r = Inr (v, r')"
    for u v :: "('a, 'b) server"
    using that by (auto simp: Server_Launch_def rnd_bind_def rnd_return_def rnd_fail_def res_bind_Inr Let_def
        StartProcess_def srv_timely_def IsAlive_def inv_rules split: if_splits)
  show ?thesis
  proof (cases op)
    case LCrash
    then show ?thesis using assms(2) crash by (cases "Server_Crash s") auto
  next
    case LLaunch
    then show ?thesis using assms launch by simp
  next
    case LFastReboot
    then show ?thesis using assms launch crash
      by (cases "Server_Crash s") (auto simp: Server_FastReboot_def rnd_return_def rnd_fail_def split: if_splits)
  next
    case LPause
    then show ?thesis using assms
      by (auto simp: Server_Pause_def rnd_return_def srv_timely_def IsAlive_def split: if_splits)
  next
    case LResume
    then show ?thesis using assms
      by (auto simp: Server_Resume_def rnd_return_def srv_timely_def IsAlive_def Resume_correct resumed_le
          split: if_splits)
  next
    case LShutdown
    then show ?thesis using assms crash
      by (cases "Server_Crash s") (auto simp: Server_Shutdown_def split: if_splits)
  qed
qed

lemma Link_Add_timely:
  "net_timely now n \<Longrightarrow> now \<le> t \<Longrightarrow> net_timely now (Link_Add_frame k f t n)"
  by (auto simp: net_timely_def Link_Add_frame_def Let_def LogFrame_def AddLinkEvent_def update_link_def inv_rules)

lemma update_link_timely [simp]: "net_timely now (update_link k l n) = net_timely now n"
  by (simp add: net_timely_def update_link_def)

lemma resume_loop_timely:
  assumes "resume_loop k now n = Some n'" and "now \<le> now + 1" and "net_timely now n"
  shows "net_timely now n'"
proof -
  have "now \<le> now + 1 \<longrightarrow> net_timely now n \<longrightarrow> net_timely now n'"
  proof (rule resume_loop.raw_induct [where P = "\<lambda>k at n y. at \<le> at + 1 \<longrightarrow> net_timely at n \<longrightarrow> net_timely at y", OF _ assms(1)])
    fix rl :: "nat \<Rightarrow> time_point \<Rightarrow> network \<Rightarrow> network option" and k :: nat and at n y
    assume IH: "\<And>k' at' n' y'. rl k' at' n' = Some y' \<Longrightarrow>
        at' \<le> at' + 1 \<longrightarrow> net_timely at' n' \<longrightarrow> net_timely at' y'"
      and y: "(case PQ_Extract FrameEvent_less (frames (links n ! k)) of None \<Rightarrow> Some n
        | Some (fe, q) \<Rightarrow> if fe_time fe < at then rl k at (Link_Add_frame k (fe_frame fe) (at + 1)
            (update_link k ((links n ! k)\<lparr>frames := q\<rparr>) n)) else Some n) = Some y"
    show "at \<le> at + 1 \<longrightarrow> net_timely at n \<longrightarrow> net_timely at y"
      using y by (auto simp: Link_Add_timely dest!: IH split: option.splits if_splits)
  qed
  then show ?thesis using assms(2,3) by simp
qed

lemma Link_Resume_timely:
  "Link_Resume k now n = Some n' \<Longrightarrow> now \<le> now + 1 \<Longrightarrow> net_timely now n \<Longrightarrow> net_timely now n'"
  by (auto simp: Link_Resume_def Let_def dest: resume_loop_timely split: if_splits)

lemma resume_all_timely:
  "resume_all ks now n = Some n' \<Longrightarrow> now \<le> now + 1 \<Longrightarrow> net_timely now n \<Longrightarrow> net_timely now n'"
  by (induction ks arbitrary: n) (auto dest: Link_Resume_timely split: option.splits)

lemma PauseLink_timely: "PauseLink a b n = Inr n' \<Longrightarrow> net_timely now n \<Longrightarrow> net_timely now n'"
  by (auto simp: PauseLink_def res_bind_Inr)

lemma Network_Split_timely:
  assumes "Network_Split lhs n = Inr n'" and "net_timely now n"
  shows "net_timely now n'"
  using assms unfolding Network_Split_def
  by (elim res_fold_inv) (auto simp: res_bind_Inr split: if_splits)

lemma AfterJiffies_timely:
  assumes "AfterJiffies c now d t q = Inr q'" and "100 * unat d \<le> D" and "room D now"
    and "PQ_inv q"
  shows "PQ_inv q' \<and> (\<exists>at. now \<le> at \<and> PQ_elems q' = PQ_elems q @ [\<lparr>at_time = at, task = t\<rparr>])"
proof -
  obtain v where v: "Drift_SleepOrTimeout (drift c) d = Inr v" and q': "q' = Scheduler_Schedule (now + v) t q"
    using assms(1) by (auto simp: AfterJiffies_def AfterRealTime_def ToRealTimeDelay_def
        MonotonicClock_SleepOrTimeout_def res_bind_Inr)
  have "unat v \<le> D"
  proof (cases "d = 0")
    case True
    then show ?thesis using v by (simp add: Drift_SleepOrTimeout_def)
  next
    case False
    then have v': "v = max ((d * 100) div rate (drift c)) 1"
      using v by (simp add: Drift_SleepOrTimeout_def split: if_splits)
    have "unat ((d * 100) div rate (drift c)) \<le> unat (d * 100)" by (simp add: unat_div div_le_dividend)
    also have "\<dots> \<le> unat d * 100" by (simp add: unat_word_ariths)
    finally have "unat ((d * 100) div rate (drift c)) \<le> D" using assms(2) by simp
    moreover have "1 \<le> D" using assms(3) by (simp add: room_def)
    ultimately show ?thesis unfolding v' max_def by simp
  qed
  from room_le [OF assms(3) this] show ?thesis using assms(4) q' by (auto simp: inv_rules)
qed

text \<open>Operations that keep the world timely, its time, its time model and its actors.\<close>

definition keeps :: "('h, 'u) world \<Rightarrow> ('h, 'u) world \<Rightarrow> bool" where
  "keeps w w' \<longleftrightarrow> (timely w \<longrightarrow> timely w') \<and> w_now w' = w_now w \<and> w_time_model w' = w_time_model w \<and>
     w_actors w' = w_actors w \<and> length (w_servers w') = length (w_servers w) \<and> w_pools w' = w_pools w \<and>
     w_clients w' = w_clients w \<and> w_adversaries w' = w_adversaries w \<and> w_start_time w' = w_start_time w"

lemma keeps_refl [simp]: "keeps w w"
  by (simp add: keeps_def)

lemma keeps_trans: "keeps u v \<Longrightarrow> keeps v w \<Longrightarrow> keeps u w"
  by (simp add: keeps_def)

lemma set_server_keeps:
  "(srv_timely (w_now w) (w_servers w ! i) \<Longrightarrow> srv_timely (w_now w) s) \<Longrightarrow> i < length (w_servers w) \<Longrightarrow>
   keeps w (set_server i s w)"
  using set_update_subset_insert [of "w_servers w" i s]
  by (auto simp: keeps_def set_server_def timely_def)

lemma on_server_keeps:
  assumes "on_server i f w = Inr w'"
    and "\<And>s r s' r'. srv_timely (w_now w) s \<Longrightarrow> f s r = Inr (s', r') \<Longrightarrow> srv_timely (w_now w) s'"
  shows "keeps w w'"
proof -
  have i: "i < length (w_servers w)" using assms(1) by (simp add: on_server_def split: if_splits)
  then obtain s r where f: "f (w_servers w ! i) (w_random w) = Inr (s, r)" "w' = set_server i s (w\<lparr>w_random := r\<rparr>)"
    using assms(1) by (auto simp: on_server_def draw_def res_bind_Inr)
  have "keeps w (set_server i s w)" using assms(2) f(1) i by (intro set_server_keeps)
  then show ?thesis using f(2) by (simp add: keeps_def set_server_def timely_def)
qed

lemma on_server_pure_keeps:
  assumes "on_server i (\<lambda>s. rnd_return (g s)) w = Inr w'"
    and "\<And>s. srv_timely (w_now w) s \<Longrightarrow> srv_timely (w_now w) (g s)"
  shows "keeps w w'"
  by (rule on_server_keeps [OF assms(1)]) (use assms(2) in \<open>auto simp: rnd_return_def\<close>)

lemma scoped_keeps:
  assumes "scoped a f w = Inr w'"
    and "\<And>w'. f (w\<lparr>w_active := Some a\<rparr>) = Inr w' \<Longrightarrow> keeps (w\<lparr>w_active := Some a\<rparr>) w'"
  shows "keeps w w'"
proof -
  obtain v where v: "f (w\<lparr>w_active := Some a\<rparr>) = Inr v" "w' = v\<lparr>w_active := w_active w\<rparr>"
    using assms(1) by (auto simp: scoped_def Let_def res_bind_Inr)
  from assms(2) [OF v(1)] v(2) show ?thesis by (auto simp: keeps_def timely_def)
qed

lemma on_net_keeps:
  assumes "on_net f w = Inr w'" and "\<And>n n'. f n = Inr n' \<Longrightarrow> net_timely (w_now w) n \<Longrightarrow> net_timely (w_now w) n'"
  shows "keeps w w'"
  using assms by (auto simp: on_net_def res_bind_Inr keeps_def timely_def)

lemma World_send_keeps:
  assumes "World_send k pkt w = Inr w'" and "flights_within D (w_time_model w)" and "room D (w_now w)"
  shows "keeps w w'"
proof -
  have k: "k < length (links (w_net w))" using assms(1) by (simp add: World_send_def split: if_splits)
  let ?l = "links (w_net w) ! k"
  let ?f = "tm_FlightTime (w_time_model w) (HostName (l_start ?l) w) (HostName (l_end ?l) w) pkt"
  obtain d r where d: "?f (w_random w) = Inr (d, r)"
    "w' = (w\<lparr>w_random := r\<rparr>)\<lparr>w_net := Link_Add k (w_now w) d pkt (w_net w)\<rparr>"
    using assms(1) k by (auto simp: World_send_def draw_def res_bind_Inr Let_def)
  have "yields ?f (\<lambda>d. unat d \<le> D)" using assms(2) by (simp add: flights_within_def)
  then obtain x r' where "?f (w_random w) = Inr (x, r')" "unat x \<le> D" unfolding yields_def by blast
  with d(1) have "unat d \<le> D" by simp
  from room_le [OF assms(3) this] show ?thesis
    using d(2) by (auto simp: keeps_def timely_def Link_Add_def ChooseDeliveryTime_def Link_Add_timely)
qed

lemma SysConnect_cases:
  assumes "World_syscall i (SysConnect host p h) w = Inr w'"
  obtains k sock out t where
    "ConnectTo k p h (w_step w) (HasAdversary w) (s_transport (w_servers w ! i)) = Some (sock, out, t)"
    "(case out of None \<Rightarrow> Inr (set_server i ((w_servers w ! i)\<lparr>s_transport := t\<rparr>) w)
      | Some pkt \<Rightarrow> World_send k pkt (set_server i ((w_servers w ! i)\<lparr>s_transport := t\<rparr>) w)) = Inr w'"
proof -
  obtain k where k: "(case ConnectTo k p h (w_step w) (HasAdversary w) (s_transport (w_servers w ! i)) of
        None \<Rightarrow> Inl (Undefined ''endless loop'')
      | Some (sock, out, t) \<Rightarrow>
          let w = set_server i ((w_servers w ! i)\<lparr>s_transport := t\<rparr>) w
          in case out of None \<Rightarrow> Inr w | Some pkt \<Rightarrow> World_send k pkt w) = Inr w'"
    using assms by (auto simp: res_bind_Inr)
  then obtain r where r: "ConnectTo k p h (w_step w) (HasAdversary w) (s_transport (w_servers w ! i)) = Some r"
    by (cases "ConnectTo k p h (w_step w) (HasAdversary w) (s_transport (w_servers w ! i))") auto
  obtain sock out t where "r = (sock, out, t)" by (cases r)
  with k r that show thesis by (auto simp: Let_def)
qed

lemma SysTimer_keeps:
  assumes "World_syscall i (SysTimer d x) w = Inr w'" and "i < length (w_servers w)" and "IsAlive (w_servers w ! i)"
    and D: "flights_within D (w_time_model w)" "room D (w_now w)"
    and dD: "100 * unat d \<le> D"
  shows "keeps w w'"
proof -
  obtain s r where f: "AfterJiffies (s_mono (w_servers w ! i)) (w_now w) d (RunTask x) (s_scheduler (w_servers w ! i)) = Inr s"
    "w' = set_server i ((w_servers w ! i)\<lparr>s_scheduler := s\<rparr>) w"
    using assms(1,2) by (auto simp: on_server_def draw_def res_bind_Inr)
  have "srv_timely (w_now w) ((w_servers w ! i)\<lparr>s_scheduler := s\<rparr>)" if "srv_timely (w_now w) (w_servers w ! i)"
    using AfterJiffies_timely [OF f(1) dD D(2)] that assms(3) by (auto simp: srv_timely_def IsAlive_def)
  then show ?thesis unfolding f(2) using assms(2) by (intro set_server_keeps)
qed

lemma SysSubmit_keeps:
  assumes "World_syscall i (SysSubmit x) w = Inr w'" and "i < length (w_servers w)" and "IsAlive (w_servers w ! i)"
  shows "keeps w w'"
proof -
  let ?s = "(w_servers w ! i)\<lparr>s_scheduler := ThreadPool_Submit (w_now w) (RunTask x) (s_scheduler (w_servers w ! i))\<rparr>"
  have "w' = set_server i ?s w"
    using assms(1,2) by (auto simp: on_server_def draw_def rnd_return_def res_bind_Inr)
  moreover have "srv_timely (w_now w) ?s" if "srv_timely (w_now w) (w_servers w ! i)"
    using that assms(3) by (auto simp: srv_timely_def IsAlive_def ThreadPool_Submit_def inv_rules)
  ultimately show ?thesis using assms(2) by (simp add: set_server_keeps)
qed

lemma SysConnect_keeps:
  assumes "World_syscall i (SysConnect host p h) w = Inr w'" and "i < length (w_servers w)" and "IsAlive (w_servers w ! i)"
    and D: "flights_within D (w_time_model w)" "room D (w_now w)"
  shows "keeps w w'"
proof -
  obtain k sock out t where c: "ConnectTo k p h (w_step w) (HasAdversary w) (s_transport (w_servers w ! i)) = Some (sock, out, t)"
      "(case out of None \<Rightarrow> Inr (set_server i ((w_servers w ! i)\<lparr>s_transport := t\<rparr>) w)
        | Some pkt \<Rightarrow> World_send k pkt (set_server i ((w_servers w ! i)\<lparr>s_transport := t\<rparr>) w)) = Inr w'"
    using SysConnect_cases [OF assms(1)] .
  let ?w = "set_server i ((w_servers w ! i)\<lparr>s_transport := t\<rparr>) w"
  have k: "keeps w ?w"
    using assms(2,3) by (intro set_server_keeps) (auto simp: srv_timely_def IsAlive_def)
  show ?thesis
  proof (cases out)
    case None
    then show ?thesis using c(2) k by simp
  next
    case (Some pkt)
    then have "World_send k pkt ?w = Inr w'" using c(2) by simp
    from World_send_keeps [OF this, of D] D have "keeps ?w w'" by (simp add: set_server_def)
    with k show ?thesis by (rule keeps_trans)
  qed
qed

lemma SysResumeLink_keeps:
  assumes "World_syscall i (SysResumeLink a b) w = Inr w'" and D: "room D (w_now w)"
  shows "keeps w w'"
proof -
  have "w_now w \<le> w_now w + 1" using room_le [OF D, of 1] D by (simp add: room_def)
  then have step: "net_timely (w_now w) n'" if "res_bind (ResumeLink a b (w_now w) n) loop_ends = Inr n'"
    "net_timely (w_now w) n" for n n'
    using that by (auto simp: ResumeLink_def res_bind_Inr loop_ends_def dest: Link_Resume_timely split: option.splits)
  have "on_net (\<lambda>n. res_bind (ResumeLink a b (w_now w) n) loop_ends) w = Inr w'" using assms(1) by simp
  then show ?thesis by (rule on_net_keeps) (rule step)
qed

lemma SysHeal_keeps:
  assumes "World_syscall i SysHeal w = Inr w'" and D: "room D (w_now w)"
  shows "keeps w w'"
proof -
  have "w_now w \<le> w_now w + 1" using room_le [OF D, of 1] D by (simp add: room_def)
  then have step: "net_timely (w_now w) n'" if "loop_ends (Network_Heal (w_now w) n) = Inr n'"
    "net_timely (w_now w) n" for n n'
    using that by (auto simp: Network_Heal_def loop_ends_def dest: resume_all_timely split: option.splits)
  have "on_net (\<lambda>n. loop_ends (Network_Heal (w_now w) n)) w = Inr w'" using assms(1) by simp
  then show ?thesis by (rule on_net_keeps) (rule step)
qed

lemma World_syscall_keeps:
  assumes "World_syscall i op w = Inr w'" and "i < length (w_servers w)" and "IsAlive (w_servers w ! i)"
    and D: "flights_within D (w_time_model w)" "room D (w_now w)"
    and "\<And>d x. op = SysTimer d x \<Longrightarrow> 100 * unat d \<le> D"
  shows "keeps w w'"
proof (cases op)
  case (SysTimer d x)
  show ?thesis by (rule SysTimer_keeps [OF assms(1) [unfolded SysTimer] assms(2-5) assms(6) [OF SysTimer]])
next
  case (SysSubmit x)
  show ?thesis by (rule SysSubmit_keeps [OF assms(1) [unfolded SysSubmit] assms(2-3)])
next
  case (SysConnect host p h)
  show ?thesis by (rule SysConnect_keeps [OF assms(1) [unfolded SysConnect] assms(2-5)])
next
  case (SysServe p h)
  obtain sock t where f: "Serve p h (w_step w) (s_transport (w_servers w ! i)) = Inr (sock, t)"
    "w' = set_server i ((w_servers w ! i)\<lparr>s_transport := t\<rparr>) w"
    using assms(1,2) SysServe by (auto simp: on_server_def draw_def res_bind_Inr)
  show ?thesis unfolding f(2)
    using assms(2,3) by (intro set_server_keeps) (auto simp: srv_timely_def IsAlive_def)
next
  case (SysSend k pkt)
  then show ?thesis using assms(1) D by (simp add: World_send_keeps)
next
  case (SysServer op' j)
  then have "scoped (ServerActor j) (on_server j (life_step (w_now w) op')) w = Inr w'" using assms(1) by simp
  then show ?thesis by (rule scoped_keeps) (erule on_server_keeps, simp add: life_step_timely)
next
  case (SysAdjustWallClock j)
  have adj: "srv_timely now s'" if "srv_timely now s" "AdjustWallClock s r = Inr (s', r')"
    for now and s s' :: "('a, 'b) server" and r r'
    using that by (auto simp: AdjustWallClock_def rnd_bind_def rnd_return_def res_bind_Inr srv_timely_def IsAlive_def)
  have "scoped (ServerActor j) (on_server j AdjustWallClock) w = Inr w'" using assms(1) SysAdjustWallClock by simp
  then show ?thesis by (rule scoped_keeps) (erule on_server_keeps, erule (1) adj)
next
  case (SysResumeLink a b)
  show ?thesis by (rule SysResumeLink_keeps [OF assms(1) [unfolded SysResumeLink] assms(5)])
next
  case SysHeal
  show ?thesis by (rule SysHeal_keeps [OF assms(1) [unfolded SysHeal] assms(5)])
next
  case (SysClose p)
  then have "on_server i (\<lambda>s. rnd_return (s\<lparr>s_transport := RemoveEndpoint p (s_transport s)\<rparr>)) w = Inr w'"
    using assms(1) by simp
  then show ?thesis
    by (rule on_server_pure_keeps) (auto simp: srv_timely_def IsAlive_def RemoveEndpoint_def om_erase_def)
next
  case (SysDisk fs)
  then have "on_server i (\<lambda>s. rnd_return (s\<lparr>s_fs := fs\<rparr>)) w = Inr w'" using assms(1) by simp
  then show ?thesis by (rule on_server_pure_keeps) (simp add: srv_timely_def IsAlive_def)
next
  case (SysHeap m)
  then have "on_server i (\<lambda>s. rnd_return (s\<lparr>s_heap := m\<rparr>)) w = Inr w'" using assms(1) by simp
  then show ?thesis by (rule on_server_pure_keeps) (simp add: srv_timely_def IsAlive_def)
next
  case (SysPrint line)
  then have "on_server i (\<lambda>s. rnd_return (PrintLine line s)) w = Inr w'" using assms(1) by simp
  then show ?thesis by (rule on_server_pure_keeps) (simp add: srv_timely_def IsAlive_def PrintLine_def)
next
  case (SysPauseLink a b)
  then have "on_net (PauseLink a b) w = Inr w'" using assms(1) by simp
  then show ?thesis by (rule on_net_keeps) (rule PauseLink_timely)
next
  case (SysSplit lhs)
  then have "on_net (Network_Split lhs) w = Inr w'" using assms(1) by simp
  then show ?thesis by (rule on_net_keeps) (rule Network_Split_timely)
qed (use assms(1) in \<open>auto simp: GenerateGuid_def World_SetGlobal_def draw_def res_bind_Inr keeps_def timely_def
  Let_def split: prod.splits\<close>)

text \<open>The step of an actor.\<close>

lemma run_syscalls_keeps:
  assumes "res_fold (run_syscall i) ops w = Inr w'" and "flights_within D (w_time_model w)" and "room D (w_now w)"
    and "\<And>d x. SysTimer d x \<in> set ops \<Longrightarrow> 100 * unat d \<le> D"
  shows "keeps w w'"
  using assms(1) keeps_refl [of w]
proof (rule res_fold_inv)
  fix op u v assume op: "op \<in> set ops" and u: "keeps w u" and v: "run_syscall i op u = Inr v"
  have "World_syscall i op u = Inr v" "i < length (w_servers u)" "IsAlive (w_servers u ! i)"
    using v by (auto simp: run_syscall_def split: if_splits)
  moreover have "flights_within D (w_time_model u)" "room D (w_now u)" using u assms(2,3) by (simp_all add: keeps_def)
  ultimately have "keeps u v" using assms(4) op by (intro World_syscall_keeps) auto
  with u show "keeps w v" by (rule keeps_trans)
qed

section \<open>The choice of the next actor\<close>

definition due :: "('h, 'u) world \<Rightarrow> actor \<Rightarrow> time_point option" where
  "due w a = (if actor_IsRunnable w a then actor_NextStepTime w a else None)"

lemma find_next_step_Cons:
  "find_next_step w i (a # as) best = find_next_step w (Suc i) as
     (case due w a of None \<Rightarrow> best
      | Some t \<Rightarrow> (case best of
          None \<Rightarrow> Some \<lparr>ns_actor = a, ns_index = i, ns_time = t\<rparr>
        | Some b \<Rightarrow> if t < ns_time b then Some \<lparr>ns_actor = a, ns_index = i, ns_time = t\<rparr> else best))"
  by (simp add: due_def)

declare find_next_step.simps(2) [simp del]

text \<open>\<open>s\<close> is the first entry of the least time among the actors \<open>as\<close>, numbered from \<open>i\<close>.\<close>

definition first_due :: "('h, 'u) world \<Rightarrow> nat \<Rightarrow> actor list \<Rightarrow> next_step \<Rightarrow> bool" where
  "first_due w i as s \<longleftrightarrow> (\<exists>j < length as. ns_index s = i + j \<and> ns_actor s = as ! j \<and>
     due w (as ! j) = Some (ns_time s) \<and> (\<forall>k < j. \<forall>t. due w (as ! k) = Some t \<longrightarrow> ns_time s < t)) \<and>
     (\<forall>k < length as. \<forall>t. due w (as ! k) = Some t \<longrightarrow> ns_time s \<le> t)"

lemma first_due_shift:
  assumes "first_due w (Suc i) as s" and "\<forall>t. due w a = Some t \<longrightarrow> ns_time s < t"
  shows "first_due w i (a # as) s"
proof -
  obtain j where j: "j < length as" "ns_index s = Suc i + j" "ns_actor s = as ! j"
    "due w (as ! j) = Some (ns_time s)" "\<forall>k < j. \<forall>t. due w (as ! k) = Some t \<longrightarrow> ns_time s < t"
    and le: "\<forall>k < length as. \<forall>t. due w (as ! k) = Some t \<longrightarrow> ns_time s \<le> t"
    using assms(1) by (auto simp: first_due_def)
  have "\<forall>k < Suc j. \<forall>t. due w ((a # as) ! k) = Some t \<longrightarrow> ns_time s < t"
    using j(5) assms(2) by (auto simp: nth_Cons split: nat.splits)
  moreover have "\<forall>k < length (a # as). \<forall>t. due w ((a # as) ! k) = Some t \<longrightarrow> ns_time s \<le> t"
    using le assms(2) by (fastforce simp: nth_Cons split: nat.splits)
  ultimately show ?thesis unfolding first_due_def using j(1-4) by (intro conjI exI [of _ "Suc j"]) auto
qed

lemma first_due_here:
  assumes "due w a = Some t" and "\<forall>k < length as. \<forall>u. due w (as ! k) = Some u \<longrightarrow> t \<le> u"
  shows "first_due w i (a # as) \<lparr>ns_actor = a, ns_index = i, ns_time = t\<rparr>"
proof -
  have "\<forall>k < length (a # as). \<forall>u. due w ((a # as) ! k) = Some u \<longrightarrow> t \<le> u"
    using assms by (auto simp: nth_Cons split: nat.splits)
  then show ?thesis unfolding first_due_def using assms(1) by (intro conjI exI [of _ 0]) auto
qed

text \<open>The loop selects from the steps that are due, the way the queues select their least element.\<close>

fun due_steps :: "('h, 'u) world \<Rightarrow> nat \<Rightarrow> actor list \<Rightarrow> next_step list" where
  "due_steps w i [] = []"
| "due_steps w i (a # as) = (case due w a of
     None \<Rightarrow> due_steps w (Suc i) as
   | Some t \<Rightarrow> \<lparr>ns_actor = a, ns_index = i, ns_time = t\<rparr> # due_steps w (Suc i) as)"

lemma due_steps_Nil: "due_steps w i as = [] \<longleftrightarrow> (\<forall>a \<in> set as. due w a = None)"
  by (induction as arbitrary: i) (auto split: option.splits)

lemma find_next_step_picks:
  "find_next_step w i as best = map_option fst (pick_least ns_time ((case best of None \<Rightarrow> [] | Some b \<Rightarrow> [b]) @ due_steps w i as))"
proof (induction as arbitrary: i best)
  case Nil
  then show ?case by (cases best) simp_all
next
  case (Cons a as)
  then show ?case unfolding find_next_step_Cons
    by (auto simp: pick_least_pair split: option.split simp del: pick_least.simps(2))
qed

lemma picked_first_due: "pick_least ns_time (due_steps w i as) = Some (s, r) \<Longrightarrow> first_due w i as s"
proof (induction as arbitrary: i s r)
  case (Cons a as)
  show ?case
  proof (cases "due w a")
    case None
    then show ?thesis using Cons by (auto intro: first_due_shift)
  next
    case (Some t)
    let ?x = "\<lparr>ns_actor = a, ns_index = i, ns_time = t\<rparr>"
    show ?thesis
    proof (cases "pick_least ns_time (due_steps w (Suc i) as)")
      case None
      then have "\<forall>a \<in> set as. due w a = None" by (simp add: due_steps_Nil)
      then show ?thesis using Cons.prems Some None by (auto intro!: first_due_here)
    next
      case m: (Some p)
      obtain m' r' where p: "p = (m', r')" by (cases p)
      have fd: "first_due w (Suc i) as m'" using Cons.IH m p by blast
      then have "\<forall>k < length as. \<forall>u. due w (as ! k) = Some u \<longrightarrow> ns_time m' \<le> u" by (simp add: first_due_def)
      moreover have "s = (if ns_time m' < t then m' else ?x)"
        using Cons.prems Some m p by (auto split: if_splits)
      ultimately show ?thesis using Some fd
        by (cases "ns_time m' < t") (auto intro: first_due_shift intro!: first_due_here dest: order_trans)
    qed
  qed
qed simp

lemma FindNextStep_spec:
  "(FindNextStep w = None \<longleftrightarrow> (\<forall>a \<in> set (w_actors w). due w a = None)) \<and>
   (\<forall>s. FindNextStep w = Some s \<longrightarrow> first_due w 0 (w_actors w) s)"
proof -
  have "pick_least ns_time (due_steps w 0 (w_actors w)) = None \<longleftrightarrow> (\<forall>a \<in> set (w_actors w). due w a = None)"
    by (simp add: due_steps_Nil)
  then show ?thesis by (auto simp: FindNextStep_def find_next_step_picks dest: picked_first_due)
qed

end
