(* ===== verification/Event_Loop.thy ===== *)
theory Event_Loop
  imports World
begin

text \<open>
  Properties of the event loop of \<open>World.thy\<close>: the choice of the next actor, the monotonicity of time for
  every program of the nodes, the stepping functions, stopping, and the names of the servers.
\<close>

section \<open>Taking a step\<close>

definition actors_ok :: "('h, 'u) world \<Rightarrow> bool" where
  "actors_ok w \<longleftrightarrow> set (w_actors w) = insert NetworkActor (ServerActor ` {..<length (w_servers w)})"

lemma NextTaskTime_in:
  assumes "PQ_inv q" and "Scheduler_NextTaskTime q = Some t"
  shows "\<exists>s \<in> set (PQ_elems q). at_time s = t"
  using assms sched_rules(3) [OF assms(1)] pick_least_in [of at_time "PQ_elems q"]
  by (auto simp: Scheduler_NextTaskTime_def)

lemma Network_NextStepTime_pick:
  "PQ_inv (events n) \<Longrightarrow> Network_NextStepTime n = map_option (\<lambda>p. le_time (fst p)) (pick_least le_time (PQ_elems (events n)))"
  by (simp add: Network_NextStepTime_def less_by_key pq.smallest_pick option.map_comp o_def)

lemma due_after_now:
  assumes "timely w" and "actors_ok w" and "a \<in> set (w_actors w)" and "due w a = Some t"
  shows "w_now w \<le> t"
proof (cases a)
  case (ServerActor i)
  then have i: "i < length (w_servers w)" using assms(2,3) by (auto simp: actors_ok_def)
  let ?s = "w_servers w ! i"
  have s: "srv_timely (w_now w) ?s" using assms(1) i by (simp add: timely_def)
  have "s_state ?s = Running" "Scheduler_NextTaskTime (s_scheduler ?s) = Some t"
    using assms(4) ServerActor by (auto simp: due_def actor_IsRunnable_def actor_NextStepTime_def
        Server_IsRunnable_def Server_NextStepTime_def split: if_splits)
  with s NextTaskTime_in [of "s_scheduler ?s" t] show ?thesis by (auto simp: srv_timely_def)
next
  case NetworkActor
  have n: "net_timely (w_now w) (w_net w)" using assms(1) by (simp add: timely_def)
  have "Network_NextStepTime (w_net w) = Some t"
    using assms(4) NetworkActor by (auto simp: due_def actor_NextStepTime_def split: if_splits)
  then obtain p where "pick_least le_time (PQ_elems (events (w_net w))) = Some p" "t = le_time (fst p)"
    using n Network_NextStepTime_pick [of "w_net w"]
    by (cases "pick_least le_time (PQ_elems (events (w_net w)))") (auto simp: net_timely_def)
  then show ?thesis using n pick_least_in [of le_time "PQ_elems (events (w_net w))" "fst p" "snd p"]
    by (auto simp: net_timely_def)
qed

lemma first_due_props:
  assumes "first_due w 0 as s"
  shows "ns_actor s \<in> set as" "due w (ns_actor s) = Some (ns_time s)"
    "\<And>a t. a \<in> set as \<Longrightarrow> due w a = Some t \<Longrightarrow> ns_time s \<le> t"
proof -
  obtain j where j: "j < length as" "ns_actor s = as ! j" "due w (as ! j) = Some (ns_time s)"
    using assms by (auto simp: first_due_def)
  then show "ns_actor s \<in> set as" "due w (ns_actor s) = Some (ns_time s)" by auto
  fix a t assume "a \<in> set as" "due w a = Some t"
  then obtain k where "k < length as" "due w (as ! k) = Some t" by (metis in_set_conv_nth)
  then show "ns_time s \<le> t" using assms by (auto simp: first_due_def)
qed

lemma advance_timely:
  assumes "timely w" and "actors_ok w" and "FindNextStep w = Some s"
  shows "w_now w \<le> ns_time s"
    "(\<forall>u \<in> set (w_servers w). srv_timely (ns_time s) u) \<and> net_timely (ns_time s) (w_net w)"
proof -
  have fd: "first_due w 0 (w_actors w) s" using FindNextStep_spec [of w] assms(3) by simp
  note fd = first_due_props [OF fd]
  show "w_now w \<le> ns_time s" by (rule due_after_now [OF assms(1,2) fd(1,2)])
  have "srv_timely (ns_time s) (w_servers w ! i)" if i: "i < length (w_servers w)" for i
  proof -
    let ?s = "w_servers w ! i"
    have ok: "srv_timely (w_now w) ?s" using assms(1) i by (simp add: timely_def)
    have "ns_time s \<le> at_time x" if x: "x \<in> set (PQ_elems (s_scheduler ?s))" "s_state ?s = Running" for x
    proof -
      have inv: "PQ_inv (s_scheduler ?s)" using ok by (simp add: srv_timely_def)
      have ne: "\<not> Scheduler_IsEmpty (s_scheduler ?s)"
        using x(1) by (auto simp: Scheduler_IsEmpty_def PQ_IsEmpty_elems)
      then obtain t where t: "Scheduler_NextTaskTime (s_scheduler ?s) = Some t"
        using NextTaskTime_None [OF inv] by (cases "Scheduler_NextTaskTime (s_scheduler ?s)") auto
      have "due w (ServerActor i) = Some t"
        using t ne x(2) by (simp add: due_def actor_IsRunnable_def actor_NextStepTime_def Server_IsRunnable_def
            Server_NextStepTime_def)
      moreover have "ServerActor i \<in> set (w_actors w)" using assms(2) i by (simp add: actors_ok_def)
      ultimately have "ns_time s \<le> t" using fd(3) by blast
      then show ?thesis using NextTaskTime_le [OF inv t x(1)] by simp
    qed
    with ok show ?thesis by (auto simp: srv_timely_def)
  qed
  then have srv: "\<forall>u \<in> set (w_servers w). srv_timely (ns_time s) u" by (metis in_set_conv_nth)
  have n: "PQ_inv (events (w_net w))" using assms(1) by (simp add: timely_def net_timely_def)
  have "ns_time s \<le> le_time e" if e: "e \<in> set (PQ_elems (events (w_net w)))" for e
  proof -
    have run: "Network_IsRunnable (w_net w)" using e by (auto simp: Network_IsRunnable_def PQ_IsEmpty_elems)
    obtain p where p: "pick_least le_time (PQ_elems (events (w_net w))) = Some p"
      using e by (cases "pick_least le_time (PQ_elems (events (w_net w)))") (auto simp: pick_least_None)
    then have "due w NetworkActor = Some (le_time (fst p))"
      using run Network_NextStepTime_pick [OF n] by (simp add: due_def actor_IsRunnable_def actor_NextStepTime_def)
    moreover have "NetworkActor \<in> set (w_actors w)" using assms(2) by (simp add: actors_ok_def)
    ultimately have "ns_time s \<le> le_time (fst p)" using fd(3) by blast
    moreover have "le_time (fst p) \<le> le_time e"
      using pick_least_le [of le_time "PQ_elems (events (w_net w))" "fst p" "snd p" e] p e by simp
    ultimately show ?thesis by simp
  qed
  with n srv show "(\<forall>u \<in> set (w_servers w). srv_timely (ns_time s) u) \<and> net_timely (ns_time s) (w_net w)"
    by (simp add: net_timely_def)
qed

lemma Network_Step_timely:
  assumes "Network_Step eat n = Inr (n', r)" and "net_timely now n"
  shows "net_timely now n'"
proof -
  obtain e q where q: "PQ_Extract LinkEvent_less (events n) = Some (e, q)"
    using assms(1) by (cases "PQ_Extract LinkEvent_less (events n)") (auto simp: Network_Step_def)
  have inv: "PQ_inv (events n)" using assms(2) by (simp add: net_timely_def)
  note pull = event_pull [OF inv q]
  have "set (PQ_elems q) \<subseteq> set (PQ_elems (events n))"
    using arg_cong [OF pull(2), of set_mset] by auto
  moreover have "events n' = q"
    using assms(1) q by (auto simp: Network_Step_def Let_def verify_def res_bind_Inr update_link_def split: if_splits)
  ultimately show ?thesis using pull(1) assms(2) by (auto simp: net_timely_def)
qed

lemma HandlePacket_timely:
  assumes "srv_timely now s"
  shows "srv_timely now (snd (Server_HandlePacket pkt out from now s))"
proof (cases "IsAlive s")
  case True
  then show ?thesis using assms
    by (auto simp: Server_HandlePacket_def HandlePacket_def srv_timely_def IsAlive_def inv_rules
        Scheduler_ScheduleAsap_def ScheduleImpl_def Let_def split: option.splits packet_type.splits)
next
  case False
  then have "endpoints (s_transport s) = []" using assms by (simp add: srv_timely_def)
  then have "snd (Server_HandlePacket pkt out from now s) = s"
    by (simp add: Server_HandlePacket_def HandlePacket_def)
  then show ?thesis using assms by simp
qed

text \<open>What the network does for the receiver of a frame.\<close>

lemma deliver_keeps:
  fixes u :: "('h, 'u) world"
  assumes step: "(if receiver < length (w_servers u) then
      let from = HostName (l_end (links (w_net u) ! out)) u;
          (reply, s) = Server_HandlePacket (f_packet f) out from (w_now u) (w_servers u ! receiver);
          u = set_server receiver s u
      in case reply of None \<Rightarrow> Inr u | Some pkt \<Rightarrow> World_send out pkt u
    else Inl (Undefined ''null server'')) = Inr v"
    and D: "flights_within D (w_time_model u)" "room D (w_now u)"
  shows "keeps u v"
proof -
  obtain reply s where hp: "Server_HandlePacket (f_packet f) out (HostName (l_end (links (w_net u) ! out)) u) (w_now u)
      (w_servers u ! receiver) = (reply, s)"
    by (cases "Server_HandlePacket (f_packet f) out (HostName (l_end (links (w_net u) ! out)) u) (w_now u)
      (w_servers u ! receiver)")
  have len: "receiver < length (w_servers u)"
    and v: "(case reply of None \<Rightarrow> Inr (set_server receiver s u)
      | Some pkt \<Rightarrow> World_send out pkt (set_server receiver s u)) = Inr v"
    using step hp by (auto simp: Let_def split: if_splits)
  have s: "keeps u (set_server receiver s u)"
    using len HandlePacket_timely [of "w_now u" "w_servers u ! receiver" "f_packet f" out
      "HostName (l_end (links (w_net u) ! out)) u"] hp by (intro set_server_keeps) simp_all
  show ?thesis
  proof (cases reply)
    case None
    then show ?thesis using s v by simp
  next
    case (Some pkt)
    then have "World_send out pkt (set_server receiver s u) = Inr v" using v by simp
    from World_send_keeps [OF this, of D] D s show ?thesis
      by (auto simp: set_server_def intro: keeps_trans)
  qed
qed

lemma network_step_keeps:
  assumes "network_step eat w = Inr w'" and D: "flights_within D (w_time_model w)" "room D (w_now w)"
  shows "keeps w w'"
proof -
  obtain n r where n: "Network_Step eat (w_net w) = Inr (n, r)" using assms(1)
    by (auto simp: network_step_def res_bind_Inr)
  let ?w = "w\<lparr>w_net := n\<rparr>"
  have k: "keeps w ?w" using Network_Step_timely [OF n] by (auto simp: keeps_def timely_def)
  show ?thesis
  proof (cases r)
    case None
    then show ?thesis using assms(1) n k by (simp add: network_step_def)
  next
    case (Some d)
    obtain f receiver oo where d: "d = (f, receiver, oo)" by (cases d)
    obtain out where oo: "oo = Some out"
      using assms(1) n Some d by (cases oo) (auto simp: network_step_def)
    let ?deliver = "\<lambda>w. if receiver < length (w_servers w) then
               let from = HostName (l_end (links (w_net w) ! out)) w;
                   (reply, s) = Server_HandlePacket (f_packet f) out from (w_now w) (w_servers w ! receiver);
                   w = set_server receiver s w
               in case reply of None \<Rightarrow> Inr w | Some pkt \<Rightarrow> World_send out pkt w
             else Inl (Undefined ''null server'')"
    have sc: "scoped (ServerActor receiver) ?deliver ?w = Inr w'"
      using assms(1) n Some d oo by (simp add: network_step_def)
    have "keeps ?w w'" by (rule scoped_keeps [OF sc]) (erule deliver_keeps, use D in simp_all)
    with k show ?thesis by (rule keeps_trans)
  qed
qed

lemma server_step_keeps:
  assumes "server_step prog i w = Inr w'" and D: "flights_within D (w_time_model w)" "room D (w_now w)"
    and "timers_within D prog"
  shows "keeps w w'"
proof -
  have i: "i < length (w_servers w)" using assms(1) by (simp add: server_step_def split: if_splits)
  let ?s = "w_servers w ! i"
  obtain t q where q: "Scheduler_TakeNext (s_scheduler ?s) = Some (t, q)"
    using assms(1) i by (cases "Scheduler_TakeNext (s_scheduler ?s)") (auto simp: server_step_def Server_Step_def)
  let ?w = "set_server i (?s\<lparr>s_scheduler := q\<rparr>) w"
  have fold: "res_fold (run_syscall i) (prog i t ?w) ?w = Inr w'"
    using assms(1) i q by (simp add: server_step_def Server_Step_def Let_def)
  have "srv_timely (w_now w) (?s\<lparr>s_scheduler := q\<rparr>)" if ok: "srv_timely (w_now w) ?s"
  proof -
    have inv: "PQ_inv (s_scheduler ?s)" using ok by (simp add: srv_timely_def)
    obtain x where x: "PQ_Extract ScheduledTask_less (s_scheduler ?s) = Some (x, q)"
      using q by (auto simp: Scheduler_TakeNext_def)
    have "set (PQ_elems q) \<subseteq> set (PQ_elems (s_scheduler ?s))"
      using arg_cong [OF pick_least_mset [OF sched_rules(1) [OF inv x]], of set_mset] by auto
    then show ?thesis using ok PQ_inv_TakeNext [OF inv q] by (auto simp: srv_timely_def IsAlive_def)
  qed
  then have k: "keeps w ?w" using i by (intro set_server_keeps)
  have "100 * unat d \<le> D" if "SysTimer d x \<in> set (prog i t ?w)" for d x
    using assms(4) that unfolding timers_within_def by blast
  then have "keeps ?w w'"
    by (intro run_syscalls_keeps [OF fold, of D]) (use D in \<open>auto simp: set_server_def\<close>)
  with k show ?thesis by (rule keeps_trans)
qed

text \<open>No operation inside a step touches the time or the step number of the world, and what it records
  in the history happens at the current time.\<close>

definition since :: "('h, 'u) world \<Rightarrow> ('h, 'u) world \<Rightarrow> bool" where
  "since w w' \<longleftrightarrow> w_now w' = w_now w \<and> w_step w' = w_step w \<and>
     (\<exists>evs. recorder_run (map (Pair (w_now w)) evs) (w_history w) = Inr (w_history w'))"

lemma sinceI:
  "w_now w' = w_now w \<Longrightarrow> w_step w' = w_step w \<Longrightarrow> w_history w' = w_history w \<Longrightarrow> since w w'"
  unfolding since_def by (auto simp: recorder_run_def intro: exI [of _ "[]"])

lemma since_refl [simp]: "since w w"
  by (simp add: sinceI)

lemma since_trans [trans]:
  assumes "since u v" and "since v w"
  shows "since u w"
proof -
  obtain es fs where "recorder_run (map (Pair (w_now u)) es) (w_history u) = Inr (w_history v)"
    "recorder_run (map (Pair (w_now u)) fs) (w_history v) = Inr (w_history w)"
    using assms by (auto simp: since_def)
  then have "recorder_run (map (Pair (w_now u)) (es @ fs)) (w_history u) = Inr (w_history w)"
    by (simp add: recorder_run_def res_fold_append)
  then show ?thesis using assms unfolding since_def by metis
qed

lemma on_server_since: "on_server i f w = Inr w' \<Longrightarrow> since w w'"
  by (auto simp: on_server_def draw_def res_bind_Inr set_server_def intro!: sinceI split: if_splits)

lemma on_net_since: "on_net f w = Inr w' \<Longrightarrow> since w w'"
  by (auto simp: on_net_def res_bind_Inr intro!: sinceI)

lemma World_send_since: "World_send k pkt w = Inr w' \<Longrightarrow> since w w'"
  by (auto simp: World_send_def draw_def res_bind_Inr Let_def intro!: sinceI split: if_splits)

lemma set_server_since: "since (set_server i s w) w' \<Longrightarrow> since w w'"
  by (simp add: since_def set_server_def)

lemma scoped_since:
  assumes "scoped a f w = Inr w'" and "\<And>v v'. f v = Inr v' \<Longrightarrow> since v v'"
  shows "since w w'"
proof -
  obtain v where v: "f (w\<lparr>w_active := Some a\<rparr>) = Inr v" "w' = v\<lparr>w_active := w_active w\<rparr>"
    using assms(1) by (auto simp: scoped_def Let_def res_bind_Inr)
  from assms(2) [OF v(1)] v(2) show ?thesis by (simp add: since_def)
qed

lemma World_syscall_since: "World_syscall i op w = Inr w' \<Longrightarrow> since w w'"
proof (cases op)
  case (SysConnect host p h)
  assume "World_syscall i op w = Inr w'"
  then have "World_syscall i (SysConnect host p h) w = Inr w'" using SysConnect by simp
  then show ?thesis
    by (rule SysConnect_cases) (auto intro: set_server_since set_server_since [OF since_refl] dest!: World_send_since split: option.splits)
next
  case (SysServer op' j)
  assume "World_syscall i op w = Inr w'"
  then show ?thesis using SysServer by (auto elim!: scoped_since intro: on_server_since)
next
  case (SysAdjustWallClock j)
  assume "World_syscall i op w = Inr w'"
  then show ?thesis using SysAdjustWallClock by (auto elim!: scoped_since intro: on_server_since)
next
  case (SysRecord ev)
  assume "World_syscall i op w = Inr w'"
  then have "recorder_run (map (Pair (w_now w)) [ev]) (w_history w) = Inr (w_history w')"
    "w_now w' = w_now w" "w_step w' = w_step w"
    using SysRecord by (auto simp: res_bind_Inr recorder_run_def)
  then show ?thesis unfolding since_def by blast
qed (auto simp: GenerateGuid_def World_SetGlobal_def draw_def res_bind_Inr Let_def split: prod.splits
  intro: sinceI dest!: on_server_since on_net_since World_send_since)

lemma run_syscalls_since:
  assumes "res_fold (run_syscall i) ops w = Inr w'"
  shows "since w w'"
  using assms since_refl [of w]
  by (rule res_fold_inv) (auto simp: run_syscall_def dest: World_syscall_since intro: since_trans split: if_splits)

lemma actor_step_since:
  assumes "actor_step eat prog a w = Inr w'"
  shows "since w w'"
proof (cases a)
  case (ServerActor i)
  then show ?thesis using assms
    by (auto simp: actor_step_def server_step_def res_bind_Inr Let_def
        intro: set_server_since dest!: run_syscalls_since split: if_splits)
next
  case NetworkActor
  then have n: "network_step eat w = Inr w'" using assms by (simp add: actor_step_def)
  then obtain net r where r: "Network_Step eat (w_net w) = Inr (net, r)"
    by (auto simp: network_step_def res_bind_Inr)
  have step: "since v v'" if "(if receiver < length (w_servers v) then
       (case Server_HandlePacket pkt out host now (w_servers v ! receiver) of (reply, s) \<Rightarrow>
         (case reply of None \<Rightarrow> Inr (set_server receiver s v) | Some pkt \<Rightarrow> World_send out pkt (set_server receiver s v)))
     else Inl e) = Inr v'" for v v' :: "('a, 'b) world" and receiver out pkt host now e
    using that by (auto split: if_splits prod.splits option.splits intro: set_server_since set_server_since [OF since_refl] dest!: World_send_since)
  have "since (w\<lparr>w_net := net\<rparr>) w'"
  proof (cases r)
    case None
    then show ?thesis using n r by (simp add: network_step_def)
  next
    case (Some d)
    obtain f receiver oo where d: "d = (f, receiver, oo)" by (cases d)
    obtain out where oo: "oo = Some out"
      using n r Some d by (cases oo) (auto simp: network_step_def)
    have "scoped (ServerActor receiver) (\<lambda>w. if receiver < length (w_servers w) then
         let from = HostName (l_end (links (w_net w) ! out)) w;
             (reply, s) = Server_HandlePacket (f_packet f) out from (w_now w) (w_servers w ! receiver);
             w = set_server receiver s w
         in case reply of None \<Rightarrow> Inr w | Some pkt \<Rightarrow> World_send out pkt w
       else Inl (Undefined ''null server'')) (w\<lparr>w_net := net\<rparr>) = Inr w'"
      using n r Some d oo by (simp add: network_step_def)
    then show ?thesis by (rule scoped_since) (simp only: Let_def, erule step)
  qed
  then show ?thesis by (simp add: since_def)
qed

text \<open>What a run does not change.\<close>

definition same_cluster :: "('h, 'u) world \<Rightarrow> ('h, 'u) world \<Rightarrow> bool" where
  "same_cluster w w' \<longleftrightarrow> w_time_model w' = w_time_model w \<and> w_actors w' = w_actors w \<and>
     length (w_servers w') = length (w_servers w) \<and> w_pools w' = w_pools w \<and> w_clients w' = w_clients w \<and>
     w_adversaries w' = w_adversaries w \<and> w_start_time w' = w_start_time w"

lemma same_cluster_refl [simp]: "same_cluster w w"
  by (simp add: same_cluster_def)

lemma same_cluster_trans: "same_cluster u v \<Longrightarrow> same_cluster v w \<Longrightarrow> same_cluster u w"
  by (simp add: same_cluster_def)

lemma World_Step_timely:
  assumes "World_Step eat prog w = Inr (b, w')" and "timely w" "actors_ok w" and "timers_within D prog"
    and "flights_within D (w_time_model w)" "room D (w_now w')"
  shows "w_now w \<le> w_now w' \<and> timely w' \<and> actors_ok w' \<and> same_cluster w w'"
proof (cases "FindNextStep w")
  case None
  then show ?thesis using assms by (simp add: World_Step_def)
next
  case (Some s)
  note adv = advance_timely [OF assms(2,3) Some]
  let ?u = "w\<lparr>w_step := Suc (w_step w), w_digest := eat (eat (w_digest w) (unat (ns_time s))) (ns_index s),
    w_now := ns_time s\<rparr>"
  have sc: "scoped (ns_actor s) (actor_step eat prog (ns_actor s)) ?u = Inr w'"
    using assms(1) Some adv(1) by (auto simp: World_Step_def Let_def FastForwardTo_def res_bind_Inr)
  have now: "w_now w' = ns_time s" using scoped_since [OF sc actor_step_since] by (simp add: since_def)
  have u: "timely ?u" "actors_ok ?u" using adv(2) assms(3) by (simp_all add: timely_def actors_ok_def)
  have "keeps ?u w'"
  proof (rule scoped_keeps [OF sc])
    fix v assume v: "actor_step eat prog (ns_actor s) (?u\<lparr>w_active := Some (ns_actor s)\<rparr>) = Inr v"
    have D: "flights_within D (w_time_model (?u\<lparr>w_active := Some (ns_actor s)\<rparr>))"
      "room D (w_now (?u\<lparr>w_active := Some (ns_actor s)\<rparr>))" using assms(5,6) now by simp_all
    show "keeps (?u\<lparr>w_active := Some (ns_actor s)\<rparr>) v"
    proof (cases "ns_actor s")
      case (ServerActor i)
      with v have "server_step prog i (?u\<lparr>w_active := Some (ns_actor s)\<rparr>) = Inr v" by (simp add: actor_step_def)
      then show ?thesis by (rule server_step_keeps) (use D assms(4) in auto)
    next
      case NetworkActor
      with v have "network_step eat (?u\<lparr>w_active := Some (ns_actor s)\<rparr>) = Inr v" by (simp add: actor_step_def)
      then show ?thesis by (rule network_step_keeps) (use D in auto)
    qed
  qed
  with u adv(1) now show ?thesis by (simp add: keeps_def actors_ok_def same_cluster_def)
qed

section \<open>Building and starting a world\<close>

inductive built :: "('h, 'u) world \<Rightarrow> bool" where
  built_world: "built (World mt19937 seed)"
| built_server: "built w \<Longrightarrow> built (AddServer ids heap host w)"
| built_pool: "built w \<Longrightarrow> built (AddPool ids heap name sz template w)"
| built_client: "built w \<Longrightarrow> built (AddClient ids heap w)"
| built_adversary: "built w \<Longrightarrow> built (AddAdversary ids heap w)"
| built_time_model: "built w \<Longrightarrow> built (SetTimeModel tm w)"
| built_global: "built w \<Longrightarrow> built (World_SetGlobal name v w)"

definition idle :: "('h, 'u) server \<Rightarrow> bool" where
  "idle s \<longleftrightarrow> s_state s = Initial \<and> PQ_inv (s_scheduler s) \<and> PQ_elems (s_scheduler s) = [] \<and>
     endpoints (s_transport s) = []"

definition members :: "('h, 'u) world \<Rightarrow> nat list" where
  "members w = pool_members w @ w_clients w @ w_adversaries w"

definition fresh_world :: "('h, 'u) world \<Rightarrow> bool" where
  "fresh_world w \<longleftrightarrow> (\<forall>s \<in> set (w_servers w). idle s) \<and> fresh_net (w_net w) \<and>
     w_actors w = map ServerActor [0..<length (w_servers w)] \<and> w_now w = 0 \<and>
     om_ok (w_pools w) \<and> mset (members w) = mset [0..<length (w_servers w)]"

lemma AddServerImpl_facts:
  assumes "AddServerImpl ids heap pool pool_name host w = (pool', w')"
  shows "pool' = pool @ [length (w_servers w)]"
    "w_servers w' = w_servers w @ [Server \<lparr>c_id = ids (length (w_servers w)), c_hostname = host, c_pool = pool_name\<rparr> heap]"
    "w_net w' = Network_AddServer host (w_net w)" "w_actors w' = w_actors w @ [ServerActor (length (w_servers w))]"
    "w_pools w' = w_pools w" "w_clients w' = w_clients w" "w_adversaries w' = w_adversaries w" "w_now w' = w_now w"
  using assms by (auto simp: AddServerImpl_def Let_def AddActor_def)

lemma idle_Server: "idle (Server config heap)"
  by (simp add: idle_def Server_def Scheduler_init_def Transport_init_def)

text \<open>The part of \<open>fresh_world\<close> that adding a server keeps while its pool is being built.\<close>

definition growing :: "('h, 'u) world \<Rightarrow> bool" where
  "growing w \<longleftrightarrow> (\<forall>s \<in> set (w_servers w). idle s) \<and> fresh_net (w_net w) \<and>
     w_actors w = map ServerActor [0..<length (w_servers w)] \<and> w_now w = 0 \<and> om_ok (w_pools w)"

lemma AddServerImpl_growing:
  assumes "AddServerImpl ids heap pool pool_name host w = (pool', w')" and "growing w"
  shows "growing w'"
  using AddServerImpl_facts [OF assms(1)] assms(2)
  by (auto simp: growing_def idle_Server fresh_net_def Network_AddServer_def)

lemma pool_assign_members:
  "om_ok m \<Longrightarrow> mset (concat (map snd (om_assign k (v :: nat list) m))) +
     mset (case om_find m k of None \<Rightarrow> [] | Some p \<Rightarrow> p) = mset (concat (map snd m)) + mset v"
proof (induction m)
  case Nil
  then show ?case by simp
next
  case (Cons e m)
  have ok: "om_ok m" using Cons.prems by (simp add: om_ok_def)
  have none: "om_find m k = None" if "k \<le> fst e"
    using Cons.prems that by (induction m) (auto simp: om_ok_def)
  have sum: "A + p = B + v \<Longrightarrow> x + A + p = x + B + v" for A B x v p :: "nat multiset" by (simp add: add.assoc)
  show ?case
  proof (cases "fst e < k")
    case True
    then have "fst e \<noteq> k" by simp
    then show ?thesis using True sum [OF Cons.IH [OF ok], of "mset (snd e)"] by (simp add: ac_simps)
  next
    case False
    then show ?thesis using none by (auto simp: ac_simps)
  qed
qed

lemma add_many_facts:
  assumes "add_many n ids heap pool_name template (pool, w) = (pool', w')" and "growing w"
  shows "growing w' \<and> pool' = pool @ [length (w_servers w)..<length (w_servers w) + n] \<and>
    length (w_servers w') = length (w_servers w) + n \<and> w_pools w' = w_pools w \<and>
    w_clients w' = w_clients w \<and> w_adversaries w' = w_adversaries w \<and>
    (\<forall>i < length (w_servers w). w_servers w' ! i = w_servers w ! i) \<and>
    (\<forall>i < n. HostName (length (w_servers w) + i) w' = MakeServerName template (length pool + i + 1))"
  using assms
proof (induction n arbitrary: pool w)
  case 0
  then show ?case by simp
next
  case (Suc n)
  obtain p1 w1 where one: "AddToPool ids heap pool pool_name template w = (p1, w1)"
    by (cases "AddToPool ids heap pool pool_name template w")
  then have rest: "add_many n ids heap pool_name template (p1, w1) = (pool', w')" using Suc.prems(1) by simp
  have im: "AddServerImpl ids heap pool pool_name (MakeServerName template (length pool + 1)) w = (p1, w1)"
    using one by (simp add: AddToPool_def)
  note f = AddServerImpl_facts [OF im]
  note IH = Suc.IH [OF rest AddServerImpl_growing [OF im Suc.prems(2)]]
  let ?k = "length (w_servers w)"
  have len: "length (w_servers w1) = Suc ?k" "length p1 = Suc (length pool)" using f by auto
  have "[?k..<?k + Suc n] = ?k # [Suc ?k..<Suc ?k + n]" by (simp add: upt_rec [of ?k])
  moreover have "HostName (?k + i) w' = MakeServerName template (length pool + i + 1)" if i: "i < Suc n" for i
  proof (cases i)
    case 0
    have "w_servers w' ! ?k = w_servers w1 ! ?k" using IH len by simp
    then show ?thesis using 0 f(2) by (simp add: HostName_def Server_def)
  next
    case (Suc j)
    then show ?thesis using IH i len by auto
  qed
  moreover have "w_servers w' ! i = w_servers w ! i" if i: "i < ?k" for i
  proof -
    have "w_servers w' ! i = w_servers w1 ! i" using IH i len by simp
    then show ?thesis using f(2) i by (simp add: nth_append)
  qed
  ultimately show ?case using IH f len by simp
qed

lemma AddPool_fresh:
  assumes fresh: "fresh_world w"
  shows "fresh_world (AddPool ids heap name sz template w)"
proof -
  obtain p w1 where im: "add_many sz ids heap name template (pool_of name w, w) = (p, w1)"
    by (cases "add_many sz ids heap name template (pool_of name w, w)")
  have g: "growing w" using fresh by (simp add: fresh_world_def growing_def)
  note f = add_many_facts [OF im g]
  have ok: "om_ok (w_pools w)" using g by (simp add: growing_def)
  have p: "p = pool_of name w @ [length (w_servers w)..<length (w_servers w) + sz]"
    and w1: "growing w1" "length (w_servers w1) = length (w_servers w) + sz" "w_pools w1 = w_pools w"
      "w_clients w1 = w_clients w" "w_adversaries w1 = w_adversaries w"
    using f by auto
  let ?w = "w1\<lparr>w_pools := om_assign name p (w_pools w)\<rparr>" and ?n = "length (w_servers w)"
  have "mset (concat (map snd (om_assign name p (w_pools w)))) = mset (pool_members w) + mset [?n..<?n + sz]"
    using pool_assign_members [OF ok, of name p] p by (simp add: pool_of_def pool_members_def)
  then have "mset (members ?w) = mset (members w) + mset [?n..<?n + sz]"
    using w1(4,5) by (simp add: members_def pool_members_def)
  also have "mset (members w) = mset [0..<?n]" using fresh by (simp add: fresh_world_def)
  also have "mset [0..<?n] + mset [?n..<?n + sz] = mset [0..<?n + sz]"
    using arg_cong [OF upt_add_eq_append [of 0 ?n sz], of mset] by simp
  finally have m: "mset (members ?w) = mset [0..<length (w_servers ?w)]" using w1(2) by simp
  have "AddPool ids heap name sz template w = ?w" using im w1(3) by (simp add: AddPool_def)
  moreover have "growing ?w" using w1(1) om_ok_assign [OF ok] by (simp add: growing_def)
  ultimately show ?thesis using m by (simp add: fresh_world_def growing_def)
qed

lemma built_fresh: "built w \<Longrightarrow> fresh_world w"
proof (induction rule: built.induct)
  case (built_world mt19937 seed)
  show ?case by (simp add: fresh_world_def World_def fresh_net_def Network_init_def om_ok_def members_def pool_members_def)
next
  case (built_server w ids heap host)
  obtain p w1 where im: "AddServerImpl ids heap (pool_of ''snowflakes'' w) ''snowflakes'' host w = (p, w1)"
    by (cases "AddServerImpl ids heap (pool_of ''snowflakes'' w) ''snowflakes'' host w")
  have g: "growing w" using built_server.IH by (simp add: fresh_world_def growing_def)
  note f = AddServerImpl_facts [OF im] and g1 = AddServerImpl_growing [OF im g]
  have ok: "om_ok (w_pools w)" using g by (simp add: growing_def)
  have "mset (concat (map snd (om_assign ''snowflakes'' p (w_pools w)))) = mset (pool_members w) + {#length (w_servers w)#}"
    using pool_assign_members [OF ok, of "''snowflakes''" p] f(1) by (simp add: pool_of_def pool_members_def)
  then show ?case using built_server.IH g1 f im om_ok_assign [OF ok]
    by (auto simp: fresh_world_def growing_def AddServer_def members_def pool_members_def)
next
  case (built_pool w ids heap name sz template)
  show ?case by (rule AddPool_fresh [OF built_pool.IH])
next
  case (built_client w ids heap)
  obtain p w1 where im: "AddServerImpl ids heap (w_clients w) ''clients'' (MakeServerName ''Client'' (length (w_clients w) + 1)) w = (p, w1)"
    by (cases "AddServerImpl ids heap (w_clients w) ''clients'' (MakeServerName ''Client'' (length (w_clients w) + 1)) w")
  have g: "growing w" using built_client.IH by (simp add: fresh_world_def growing_def)
  have "AddClient ids heap w = w1\<lparr>w_clients := p\<rparr>" using im by (simp add: AddClient_def AddToPool_def)
  then show ?case using built_client.IH AddServerImpl_facts [OF im] AddServerImpl_growing [OF im g]
    by (simp add: fresh_world_def growing_def members_def pool_members_def)
next
  case (built_adversary w ids heap)
  obtain p w1 where im: "AddServerImpl ids heap (w_adversaries w) ''adversaries'' (MakeServerName ''Adversary'' (length (w_adversaries w) + 1)) w = (p, w1)"
    by (cases "AddServerImpl ids heap (w_adversaries w) ''adversaries'' (MakeServerName ''Adversary'' (length (w_adversaries w) + 1)) w")
  have g: "growing w" using built_adversary.IH by (simp add: fresh_world_def growing_def)
  have "AddAdversary ids heap w = w1\<lparr>w_adversaries := p\<rparr>" using im by (simp add: AddAdversary_def AddToPool_def)
  then show ?case using built_adversary.IH AddServerImpl_facts [OF im] AddServerImpl_growing [OF im g]
    by (simp add: fresh_world_def growing_def members_def pool_members_def)
next
  case (built_time_model w tm)
  then show ?case by (simp add: fresh_world_def SetTimeModel_def members_def pool_members_def)
next
  case (built_global w name v)
  then show ?case by (simp add: fresh_world_def World_SetGlobal_def members_def pool_members_def)
qed

end
