(* ===== verification/Simulation.thy ===== *)
theory Simulation
  imports Event_Loop
begin

text \<open>
  Runs of whole simulations: starting a world that was built, stepping it, restarting servers and stopping
  it (\<open>world/world.cpp\<close>), with the properties that hold for every program of the nodes.
\<close>

section \<open>Starting a world\<close>

definition server_model_ok :: "server_time_model \<Rightarrow> bool" where
  "server_model_ok tm \<longleftrightarrow> yields (m_InitWallClockOffset tm) (\<lambda>_. True) \<and>
     yields (m_InitClockDrift tm) (\<lambda>_. True) \<and> clock_model_ok tm"

definition time_model_ok :: "nat \<Rightarrow> time_model \<Rightarrow> bool" where
  "time_model_ok D tm \<longleftrightarrow> yields (tm_GlobalStartTime tm) (\<lambda>_. True) \<and> flights_within D tm \<and>
     (\<forall>host. server_model_ok (tm_MakeServerModel tm host))"

lemma AdversaryTimeModel_ok: "server_model_ok AdversaryTimeModel"
  by (simp add: server_model_ok_def clock_model_ok_def AdversaryTimeModel_def yields_return)

lemma CrazyTimeModel_ok: "time_model_ok 1000 CrazyTimeModel"
proof -
  have "yields (Crazy_FlightTime b) (\<lambda>d. 5 \<le> d \<and> d < 1000)" for b
    unfolding Crazy_FlightTime_def
    by (intro yields_if yields_multiple yields_range_in yields_return) simp_all
  then have "yields (Crazy_FlightTime b) (\<lambda>d. unat d \<le> 1000)" for b
    by (rule yields_mono) (simp add: word_less_nat_alt)
  moreover have "yields Crazy_GlobalStartTime (\<lambda>_. True)"
    unfolding Crazy_GlobalStartTime_def by (rule yields_mono [where P = "\<lambda>t. 1 \<le> t \<and> t < 200"]) (intro yields_range_in, simp_all)
  moreover have "yields Crazy_InitClockDrift (\<lambda>_. True)"
    by (rule yields_mono [OF yields_drift]) simp
  ultimately show ?thesis
    by (auto simp: time_model_ok_def CrazyTimeModel_def flights_within_def server_model_ok_def clock_model_ok_def
        CrazyServerTimeModel_def Crazy_ResetMonotonicClock_def Crazy_InitWallClockOffset_def
        intro!: yields_mono [OF yields_range_in] yields_mono [OF yields_bound])
qed

text \<open>What \<open>Start\<close> makes of a server.\<close>

definition launched :: "time_point \<Rightarrow> ('h, 'u) server \<Rightarrow> ('h, 'u) server \<Rightarrow> bool" where
  "launched now s s' \<longleftrightarrow> s_state s' = Running \<and> PQ_inv (s_scheduler s') \<and>
     PQ_elems (s_scheduler s') = [\<lparr>at_time = now, task = RunMain\<rparr>] \<and> endpoints (s_transport s') = [] \<and>
     s_config s' = s_config s \<and> s_fs s' = s_fs s \<and> s_stdout s' = s_stdout s \<and> pred_option clock_model_ok (s_time_model s') \<and>
     s_time_model s' \<noteq> None"

lemma Server_Start_ok:
  assumes "idle s" and "server_model_ok tm"
  shows "\<exists>s' r'. Server_Start tm now s r = Inr (s', r') \<and> launched now s s'"
proof -
  obtain v0 r1 where 1: "m_InitWallClockOffset tm r = Inr (v0, r1)"
    using assms(2) unfolding server_model_ok_def yields_def by blast
  obtain d r2 where 2: "m_InitClockDrift tm r1 = Inr (d, r2)"
    using assms(2) unfolding server_model_ok_def yields_def by blast
  obtain v r3 where 3: "m_ResetMonotonicClock tm r2 = Inr (v, r3)"
    using assms(2) unfolding server_model_ok_def clock_model_ok_def yields_def by blast
  let ?s = "s\<lparr>s_time_model := Some tm, s_wall := WallClock_Init v0 (s_wall s),
    s_mono := MonotonicClock_Init d v now (s_mono s)\<rparr>"
  have "\<exists>v s' r'. Server_Launch now ?s r3 = Inr (s', r') \<and>
    s' = ?s\<lparr>s_mono := (s_mono ?s)\<lparr>init := v, last_reset := now\<rparr>, s_runtime := True,
      s_scheduler := Scheduler_Schedule now RunMain (s_scheduler ?s), s_state := Running\<rparr>"
    using assms by (intro Server_Launch_ok [where tm = tm]) (simp_all add: idle_def server_model_ok_def)
  then obtain s' r' where "Server_Launch now ?s r3 = Inr (s', r')" "launched now s s'"
    using assms by (auto simp: launched_def idle_def inv_rules server_model_ok_def)
  then show ?thesis using 1 2 3 by (auto simp: Server_Start_def rnd_bind_def Let_def)
qed

lemma start_servers:
  assumes "distinct ks" and "\<forall>k \<in> set ks. k < length (w_servers w) \<and> idle (w_servers w ! k)"
    and "time_model_ok D (w_time_model w)"
  shows "\<exists>ss r. res_fold start_server ks w = Inr (w\<lparr>w_servers := ss, w_random := r\<rparr>) \<and>
    length ss = length (w_servers w) \<and>
    (\<forall>k < length ss. if k \<in> set ks then launched (w_now w) (w_servers w ! k) (ss ! k) else ss ! k = w_servers w ! k)"
  using assms
proof (induction ks arbitrary: w)
  case Nil
  have "w = w\<lparr>w_servers := w_servers w, w_random := w_random w\<rparr>" by simp
  then show ?case by (intro exI [of _ "w_servers w"] exI [of _ "w_random w"]) simp
next
  case (Cons k ks)
  let ?tm = "MakeServerTimeModel (HostName k w) w"
  have tm: "server_model_ok ?tm"
    using Cons.prems(3) AdversaryTimeModel_ok by (simp add: MakeServerTimeModel_def time_model_ok_def)
  obtain s r where s: "Server_Start ?tm (w_now w) (w_servers w ! k) (w_random w) = Inr (s, r)"
      "launched (w_now w) (w_servers w ! k) s"
    using Server_Start_ok [OF _ tm] Cons.prems(2) by (metis list.set_intros(1))
  let ?w = "w\<lparr>w_servers := (w_servers w)[k := s], w_random := r\<rparr>"
  have step: "start_server k w = Inr ?w"
    using s(1) Cons.prems(2)
    by (simp add: start_server_def scoped_def on_server_def draw_def set_server_def HostName_def MakeServerTimeModel_def)
  have "\<exists>ss r. res_fold start_server ks ?w = Inr (?w\<lparr>w_servers := ss, w_random := r\<rparr>) \<and>
    length ss = length (w_servers ?w) \<and>
    (\<forall>j < length ss. if j \<in> set ks then launched (w_now ?w) (w_servers ?w ! j) (ss ! j) else ss ! j = w_servers ?w ! j)"
    using Cons.prems by (intro Cons.IH) (auto simp: nth_list_update)
  then obtain ss r' where f0: "res_fold start_server ks ?w = Inr (?w\<lparr>w_servers := ss, w_random := r'\<rparr>)"
    "length ss = length (w_servers ?w)"
    "\<forall>j < length ss. if j \<in> set ks then launched (w_now ?w) (w_servers ?w ! j) (ss ! j) else ss ! j = w_servers ?w ! j"
    by (elim exE conjE) (rule that)
  then have f: "res_fold start_server ks ?w = Inr (w\<lparr>w_servers := ss, w_random := r'\<rparr>)"
    "length ss = length (w_servers w)"
    "\<forall>j < length ss. if j \<in> set ks then launched (w_now w) ((w_servers w)[k := s] ! j) (ss ! j)
       else ss ! j = (w_servers w)[k := s] ! j" by (simp_all cong: if_cong)
  have "\<forall>j < length ss. if j \<in> set (k # ks) then launched (w_now w) (w_servers w ! j) (ss ! j) else ss ! j = w_servers w ! j"
  proof (intro allI impI)
    fix j assume j: "j < length ss"
    show "if j \<in> set (k # ks) then launched (w_now w) (w_servers w ! j) (ss ! j) else ss ! j = w_servers w ! j"
      using f(3) [rule_format, OF j] j f(2) s(2) Cons.prems(1) by (cases "j = k") (auto split: if_splits)
  qed
  then show ?case using step f(1,2) by (intro exI [of _ ss] exI [of _ r']) simp
qed

lemma yields_simple: "yields m P \<Longrightarrow> \<exists>x r'. m r = Inr (x, r') \<and> P x"
  by (auto simp: yields_def)

lemma fresh_members:
  assumes "fresh_world w"
  shows "set (members w) = {..<length (w_servers w)}" "distinct (members w)"
proof -
  have ms: "mset (members w) = mset [0..<length (w_servers w)]" using assms by (simp add: fresh_world_def)
  show "set (members w) = {..<length (w_servers w)}"
    using arg_cong [OF ms, of set_mset] by (auto simp: lessThan_atLeast0)
  show "distinct (members w)" by (rule mset_eq_imp_distinct_iff [THEN iffD2, OF ms]) simp
qed

lemma World_Start_ok:
  assumes "built w" and "time_model_ok D (w_time_model w)"
  shows "\<exists>w'. World_Start w = Inr w' \<and> length (w_servers w') = length (w_servers w) \<and>
    (\<forall>k < length (w_servers w). launched (w_now w') (w_servers w ! k) (w_servers w' ! k)) \<and>
    w_actors w' = map ServerActor [0..<length (w_servers w)] @ [NetworkActor] \<and>
    w_net w' = Network_Start (w_net w) \<and> w_start_time w' = w_now w' \<and> w_time_model w' = w_time_model w \<and>
    w_pools w' = w_pools w \<and> w_clients w' = w_clients w \<and> w_adversaries w' = w_adversaries w \<and>
    w_history w' = w_history w \<and> w_globals w' = w_globals (SetConfigGlobals w)"
proof -
  have fresh: "fresh_world w" by (rule built_fresh [OF assms(1)])
  obtain t r where t: "tm_GlobalStartTime (w_time_model w) (w_random w) = Inr (t, r)"
    using assms(2) yields_simple unfolding time_model_ok_def by blast
  let ?w = "SetConfigGlobals ((AddActor NetworkActor (w\<lparr>w_random := r, w_now := t, w_start_time := t\<rparr>))
    \<lparr>w_net := Network_Start (w_net w)\<rparr>)"
  note dist = fresh_members(2) [OF fresh] and set = fresh_members(1) [OF fresh]
  have same: "w_servers ?w = w_servers w" "w_time_model ?w = w_time_model w" "w_now ?w = t"
    by (simp_all add: SetConfigGlobals_def World_SetGlobal_def AddActor_def)
  have "\<exists>ss r. res_fold start_server (members w) ?w = Inr (?w\<lparr>w_servers := ss, w_random := r\<rparr>) \<and>
    length ss = length (w_servers ?w) \<and>
    (\<forall>k < length ss. if k \<in> set (members w) then launched (w_now ?w) (w_servers ?w ! k) (ss ! k)
       else ss ! k = w_servers ?w ! k)"
    using fresh assms(2) set dist by (intro start_servers [where D = D]) (auto simp: fresh_world_def same)
  then obtain ss r' where f: "res_fold start_server (members w) ?w = Inr (?w\<lparr>w_servers := ss, w_random := r'\<rparr>)"
    "length ss = length (w_servers w)"
    "\<forall>k < length ss. if k \<in> set (members w) then launched t (w_servers w ! k) (ss ! k) else ss ! k = w_servers w ! k"
    unfolding same by (elim exE conjE) (rule that)
  have "World_Start w = res_fold start_server (members w) ?w"
    using t fresh by (simp add: World_Start_def SetStartTime_def draw_def FastForwardTo_def fresh_world_def Let_def
        members_def SetConfigGlobals_def World_SetGlobal_def AddActor_def pool_members_def)
  then show ?thesis using f set fresh
    by (auto simp: SetConfigGlobals_def World_SetGlobal_def AddActor_def fresh_world_def)
qed

text \<open>C20. Start of the simulation. A world that was built by adding servers, pools, clients and adversaries
  starts without aborting, whatever numbers are drawn: every server runs, with its main program as the only
  task, at the start time; the actors are the servers in the order they were added and then the network.\<close>

theorem world_starts:
  assumes "built w" and "time_model_ok D (w_time_model w)"
  shows "\<exists>w'. World_Start w = Inr w' \<and> TimeElapsed w' = 0 \<and>
    w_actors w' = map ServerActor [0..<length (w_servers w)] @ [NetworkActor] \<and>
    map (\<lambda>s. (s_config s, s_state s, PQ_elems (s_scheduler s))) (w_servers w') =
      map (\<lambda>s. (s_config s, Running, [\<lparr>at_time = w_now w', task = RunMain\<rparr>])) (w_servers w)"
  using World_Start_ok [OF assms]
  by (auto simp: TimeElapsed_def launched_def intro!: nth_equalityI)

section \<open>Running\<close>

inductive simulated :: "nat \<Rightarrow> (u64 \<Rightarrow> nat \<Rightarrow> u64) \<Rightarrow> ('h, 'u) program \<Rightarrow> ('h, 'u) world \<Rightarrow> bool"
  for D eat prog where
  sim_start: "built w \<Longrightarrow> time_model_ok D (w_time_model w) \<Longrightarrow> World_Start w = Inr w' \<Longrightarrow> simulated D eat prog w'"
| sim_step: "simulated D eat prog w \<Longrightarrow> World_Step eat prog w = Inr (b, w') \<Longrightarrow> simulated D eat prog w'"
| sim_restart: "simulated D eat prog w \<Longrightarrow> RestartServer host w = Inr w' \<Longrightarrow> simulated D eat prog w'"

lemma World_Step_since:
  assumes "World_Step eat prog w = Inr (b, w')"
  shows "w_now w \<le> w_now w'" "w_step w' = w_step w + of_bool b"
    "\<exists>evs. recorder_run (map (Pair (w_now w')) evs) (w_history w) = Inr (w_history w')"
    "b \<longleftrightarrow> FindNextStep w \<noteq> None" "\<not> b \<Longrightarrow> w' = w"
proof -
  have "w_now w \<le> w_now w' \<and> w_step w' = w_step w + of_bool b \<and>
    (\<exists>evs. recorder_run (map (Pair (w_now w')) evs) (w_history w) = Inr (w_history w')) \<and>
    (b \<longleftrightarrow> FindNextStep w \<noteq> None) \<and> (\<not> b \<longrightarrow> w' = w)"
  proof (cases "FindNextStep w")
    case None
    then have "b = False" "w' = w" using assms by (simp_all add: World_Step_def)
    moreover have "recorder_run (map (Pair (w_now w)) []) (w_history w) = Inr (w_history w)"
      by (simp add: recorder_run_def)
    ultimately show ?thesis using None by (auto intro: exI [of _ "[]"])
  next
    case (Some s)
    let ?u = "w\<lparr>w_step := Suc (w_step w), w_digest := eat (eat (w_digest w) (unat (ns_time s))) (ns_index s),
      w_now := ns_time s\<rparr>"
    have le: "w_now w \<le> ns_time s" and b: "b" and
      sc: "scoped (ns_actor s) (actor_step eat prog (ns_actor s)) ?u = Inr w'"
      using assms Some by (auto simp: World_Step_def Let_def FastForwardTo_def verify_def res_bind_Inr split: if_splits)
    have "since ?u w'" using sc by (rule scoped_since) (rule actor_step_since)
    then show ?thesis using le b Some by (auto simp: since_def)
  qed
  then show "w_now w \<le> w_now w'" "w_step w' = w_step w + of_bool b"
    "\<exists>evs. recorder_run (map (Pair (w_now w')) evs) (w_history w) = Inr (w_history w')"
    "b \<longleftrightarrow> FindNextStep w \<noteq> None" "\<not> b \<Longrightarrow> w' = w" by blast+
qed

lemma RestartServer_keeps:
  assumes "RestartServer host w = Inr w'"
  shows "keeps w w'" "since w w'"
proof -
  obtain i where sc: "scoped (ServerActor i) (on_server i (Server_FastReboot (w_now w))) w = Inr w'"
    using assms by (auto simp: RestartServer_def res_bind_Inr)
  show "keeps w w'" using sc
    by (rule scoped_keeps) (erule on_server_keeps, use life_step_timely [of _ _ LFastReboot] in simp)
  show "since w w'" using sc by (rule scoped_since) (rule on_server_since)
qed

lemma Network_Start_events:
  assumes "fresh_net net"
  shows "events (Network_Start net) = events net"
proof -
  obtain ps where "Network_Start net = fold link_opposites ps (net\<lparr>links := all_links (length (servers net))\<rparr>)"
    using assms by (auto simp: Network_Start_def BuildLinks_def Let_def fresh_net_def)
  then show ?thesis using fold_opposites by simp
qed

lemma Network_Start_idle: "fresh_net net \<Longrightarrow> PQ_IsEmpty (events (Network_Start net))"
  using Network_Start_events [of net] by (simp add: fresh_net_def PQ_IsEmpty_elems)

lemma Network_Start_timely: "fresh_net net \<Longrightarrow> net_timely now (Network_Start net)"
  using Network_Start_events [of net] by (simp add: net_timely_def fresh_net_def)

lemma built_history: "built w \<Longrightarrow> w_history w = HistoryRecorder"
proof (induction rule: built.induct)
  case (built_pool w ids heap name sz template)
  have "w_history (snd (add_many sz ids heap name template pw)) = w_history (snd pw)" for pw :: "nat list \<times> ('a, 'b) world"
    by (induction sz arbitrary: pw) (simp_all add: AddToPool_def AddServerImpl_def Let_def AddActor_def)
  then show ?case using built_pool by (simp add: AddPool_def split: prod.splits) (metis snd_conv)
qed (simp_all add: World_def AddServer_def AddClient_def AddAdversary_def AddToPool_def AddServerImpl_def Let_def
  AddActor_def SetTimeModel_def World_SetGlobal_def)

text \<open>The invariant of a simulation.\<close>

definition sim_inv :: "nat \<Rightarrow> ('h, 'u) world \<Rightarrow> bool" where
  "sim_inv D w \<longleftrightarrow> timely w \<and> actors_ok w \<and> time_model_ok D (w_time_model w) \<and> w_start_time w \<le> w_now w \<and>
     set (members w) = {..<length (w_servers w)} \<and> distinct (members w)"

lemma sim_inv_same:
  "sim_inv D w \<Longrightarrow> same_cluster w w' \<Longrightarrow> timely w' \<Longrightarrow> actors_ok w' \<Longrightarrow> w_now w \<le> w_now w' \<Longrightarrow> sim_inv D w'"
  using order_trans [of "w_start_time w" "w_now w" "w_now w'"]
  by (simp add: sim_inv_def same_cluster_def members_def pool_members_def)

lemma room_mono: "room D t \<Longrightarrow> s \<le> t \<Longrightarrow> room D s"
  by (simp add: room_def word_le_nat_alt)

lemma sim_inv_simulated:
  assumes "simulated D eat prog w" and "timers_within D prog" and "room D (w_now w)"
  shows "sim_inv D w"
  using assms(1,3)
proof (induction rule: simulated.induct)
  case (sim_start w w')
  note fresh = built_fresh [OF sim_start.hyps(1)]
  have ok: "length (w_servers w') = length (w_servers w) \<and>
    (\<forall>k < length (w_servers w). launched (w_now w') (w_servers w ! k) (w_servers w' ! k)) \<and>
    w_actors w' = map ServerActor [0..<length (w_servers w)] @ [NetworkActor] \<and>
    w_net w' = Network_Start (w_net w) \<and> w_start_time w' = w_now w' \<and> w_time_model w' = w_time_model w \<and>
    w_pools w' = w_pools w \<and> w_clients w' = w_clients w \<and> w_adversaries w' = w_adversaries w"
    using World_Start_ok [OF sim_start.hyps(1,2)] sim_start.hyps(3) by auto
  note d = fresh_members(2) [OF fresh] and st = fresh_members(1) [OF fresh]
  have "srv_timely (w_now w') s" if "s \<in> set (w_servers w')" for s
    using that ok by (auto simp: in_set_conv_nth srv_timely_def launched_def IsAlive_def)
  then have "timely w'" using ok fresh Network_Start_timely by (auto simp: timely_def fresh_world_def)
  moreover have "actors_ok w'" using ok by (auto simp: actors_ok_def)
  ultimately show ?case using ok sim_start.hyps(2) d st by (simp add: sim_inv_def members_def pool_members_def)
next
  case (sim_step w b w')
  note le = World_Step_since(1) [OF sim_step.hyps(2)]
  have inv: "sim_inv D w" by (rule sim_step.IH) (rule room_mono [OF sim_step.prems le])
  have "w_now w \<le> w_now w' \<and> timely w' \<and> actors_ok w' \<and> same_cluster w w'"
    by (rule World_Step_timely [OF sim_step.hyps(2)])
      (use inv assms(2) sim_step.prems in \<open>simp_all add: sim_inv_def time_model_ok_def\<close>)
  then show ?case using sim_inv_same [OF inv] by blast
next
  case (sim_restart w host w')
  note k = RestartServer_keeps(1) [OF sim_restart.hyps(2)]
  then have "sim_inv D w" using sim_restart.IH sim_restart.prems by (simp add: keeps_def)
  then show ?case using k
    by (auto simp: sim_inv_def keeps_def actors_ok_def members_def pool_members_def)
qed

lemma sim_history:
  assumes "simulated D eat prog w"
  shows "\<exists>es. recorder_run es HistoryRecorder = Inr (w_history w) \<and> sorted (map fst es) \<and>
    (\<forall>t \<in> set (map fst es). t \<le> w_now w)"
  using assms
proof (induction rule: simulated.induct)
  case (sim_start w w')
  then have "w_history w' = HistoryRecorder" using World_Start_ok [of w D] built_history [of w] by auto
  then show ?case by (intro exI [of _ "[]"]) (simp add: recorder_run_def)
next
  case (sim_step w b w')
  obtain es where es: "recorder_run es HistoryRecorder = Inr (w_history w)" "sorted (map fst es)"
    "\<forall>t \<in> set (map fst es). t \<le> w_now w" using sim_step.IH by blast
  note step = World_Step_since [OF sim_step.hyps(2)]
  obtain evs where evs: "recorder_run (map (Pair (w_now w')) evs) (w_history w) = Inr (w_history w')"
    using step(3) by blast
  have "\<forall>t \<in> set (map fst es). t \<le> w_now w'" using es(3) step(1) by (meson order_trans)
  then have "sorted (map fst (es @ map (Pair (w_now w')) evs))"
    using es(2) by (auto simp: sorted_append o_def map_replicate_const)
  moreover have "recorder_run (es @ map (Pair (w_now w')) evs) HistoryRecorder = Inr (w_history w')"
    using es(1) evs by (simp add: recorder_run_def res_fold_append)
  ultimately show ?case using \<open>\<forall>t \<in> set (map fst es). t \<le> w_now w'\<close>
    by (intro exI [of _ "es @ map (Pair (w_now w')) evs"]) (auto simp: o_def)
next
  case (sim_restart w host w')
  obtain es where es: "recorder_run es HistoryRecorder = Inr (w_history w)" "sorted (map fst es)"
    "\<forall>t \<in> set (map fst es). t \<le> w_now w" using sim_restart.IH by blast
  have "w_history w' = w_history w"
    using sim_restart.hyps(2) by (auto simp: RestartServer_def scoped_def on_server_def draw_def set_server_def
        res_bind_Inr Let_def split: if_splits)
  moreover have "w_now w' = w_now w" using RestartServer_keeps(1) [OF sim_restart.hyps(2)] by (simp add: keeps_def)
  ultimately show ?case using es by auto
qed

section \<open>Stopping\<close>

lemma stop_servers:
  assumes "distinct ks" and "\<forall>k \<in> set ks. k < length (w_servers w)"
    and "\<forall>s \<in> set (w_servers w). PQ_inv (s_scheduler s)"
  shows "\<exists>ss d. res_fold (\<lambda>i w. stop_server i (w\<lparr>w_digest := g i w\<rparr>)) ks w = Inr (w\<lparr>w_servers := ss, w_digest := d\<rparr>) \<and>
    length ss = length (w_servers w) \<and> (\<forall>s \<in> set ss. PQ_inv (s_scheduler s)) \<and>
    map (\<lambda>s. content (s_fs s)) ss = map (\<lambda>s. content (s_fs s)) (w_servers w) \<and>
    (\<forall>k < length ss. if k \<in> set ks then s_state (ss ! k) = Crashed else ss ! k = w_servers w ! k)"
  using assms
proof (induction ks arbitrary: w)
  case Nil
  have "w = w\<lparr>w_servers := w_servers w, w_digest := w_digest w\<rparr>" by simp
  then show ?case using Nil by (intro exI [of _ "w_servers w"] exI [of _ "w_digest w"]) simp
next
  case (Cons k ks)
  let ?s = "w_servers w ! k" and ?d = "g k w"
  have k: "k < length (w_servers w)" "PQ_inv (s_scheduler ?s)" using Cons.prems by auto
  obtain s where s: "Server_Shutdown ?s = Inr s" "s_state s = Crashed" "PQ_inv (s_scheduler s)"
    "content (s_fs s) = content (s_fs ?s)"
    using Server_Crash_ok [OF _ k(2)] k(2) by (cases "s_state ?s = Crashed") (auto simp: Server_Shutdown_def)
  let ?w = "w\<lparr>w_servers := (w_servers w)[k := s], w_digest := ?d\<rparr>"
  have step: "stop_server k (w\<lparr>w_digest := ?d\<rparr>) = Inr ?w"
    using k s by (simp add: stop_server_def scoped_def on_server_def draw_def set_server_def Server_destroy_def)
  have "\<exists>ss d. res_fold (\<lambda>i w. stop_server i (w\<lparr>w_digest := g i w\<rparr>)) ks ?w = Inr (?w\<lparr>w_servers := ss, w_digest := d\<rparr>) \<and>
    length ss = length (w_servers ?w) \<and> (\<forall>s \<in> set ss. PQ_inv (s_scheduler s)) \<and>
    map (\<lambda>s. content (s_fs s)) ss = map (\<lambda>s. content (s_fs s)) (w_servers ?w) \<and>
    (\<forall>k < length ss. if k \<in> set ks then s_state (ss ! k) = Crashed else ss ! k = w_servers ?w ! k)"
    using Cons.prems s(3) set_update_subset_insert [of "w_servers w" k s] by (intro Cons.IH) auto
  then obtain ss d where f0: "res_fold (\<lambda>i w. stop_server i (w\<lparr>w_digest := g i w\<rparr>)) ks ?w = Inr (?w\<lparr>w_servers := ss, w_digest := d\<rparr>)"
    "length ss = length (w_servers ?w)" "\<forall>s \<in> set ss. PQ_inv (s_scheduler s)"
    "map (\<lambda>s. content (s_fs s)) ss = map (\<lambda>s. content (s_fs s)) (w_servers ?w)"
    "\<forall>k < length ss. if k \<in> set ks then s_state (ss ! k) = Crashed else ss ! k = w_servers ?w ! k"
    by (elim exE conjE) (rule that)
  have "(map (\<lambda>s. content (s_fs s)) (w_servers w))[k := content (s_fs s)] = map (\<lambda>s. content (s_fs s)) (w_servers w)"
    using k(1) s(4) by (simp add: list_update_same_conv)
  then have c: "map (\<lambda>s. content (s_fs s)) ss = map (\<lambda>s. content (s_fs s)) (w_servers w)"
    using f0(4) by (simp add: map_update)
  have "\<forall>j < length ss. if j \<in> set (k # ks) then s_state (ss ! j) = Crashed else ss ! j = w_servers w ! j"
  proof (intro allI impI)
    fix j assume j: "j < length ss"
    show "if j \<in> set (k # ks) then s_state (ss ! j) = Crashed else ss ! j = w_servers w ! j"
      using f0(5) [rule_format, OF j] j f0(2) s(2) Cons.prems(1) by (cases "j = k") (auto split: if_splits)
  qed
  then show ?case using step f0(1-3) c by (intro exI [of _ ss] exI [of _ d]) simp
qed

lemma stop_serversE:
  assumes "distinct ks" and "\<forall>k \<in> set ks. k < length (w_servers w)"
    and "\<forall>s \<in> set (w_servers w). PQ_inv (s_scheduler s)"
  obtains ss d where "res_fold (\<lambda>i w. stop_server i (w\<lparr>w_digest := g i w\<rparr>)) ks w = Inr (w\<lparr>w_servers := ss, w_digest := d\<rparr>)"
    "length ss = length (w_servers w)" "\<forall>s \<in> set ss. PQ_inv (s_scheduler s)"
    "map (\<lambda>s. content (s_fs s)) ss = map (\<lambda>s. content (s_fs s)) (w_servers w)"
    "\<forall>k < length ss. if k \<in> set ks then s_state (ss ! k) = Crashed else ss ! k = w_servers w ! k"
  using stop_servers [OF assms, of g] by (elim exE conjE) (rule that)

lemma stop_servers_plainE:
  assumes "distinct ks" and "\<forall>k \<in> set ks. k < length (w_servers w)"
    and "\<forall>s \<in> set (w_servers w). PQ_inv (s_scheduler s)"
  obtains ss d where "res_fold stop_server ks w = Inr (w\<lparr>w_servers := ss, w_digest := d\<rparr>)"
    "length ss = length (w_servers w)" "\<forall>s \<in> set ss. PQ_inv (s_scheduler s)"
    "map (\<lambda>s. content (s_fs s)) ss = map (\<lambda>s. content (s_fs s)) (w_servers w)"
    "\<forall>k < length ss. if k \<in> set ks then s_state (ss ! k) = Crashed else ss ! k = w_servers w ! k"
proof -
  have eq: "(\<lambda>i w. stop_server i (w\<lparr>w_digest := w_digest w\<rparr>)) = (stop_server :: nat \<Rightarrow> ('a, 'b) world \<Rightarrow> ('a, 'b) world res)"
    by (intro ext) simp
  show thesis by (rule stop_serversE [OF assms, where g = "\<lambda>i w. w_digest w", unfolded eq]) (rule that)
qed

lemma sum_to_nat: "room D t \<Longrightarrow> s \<le> t \<Longrightarrow> unat (t - s) = unat t - unat s"
  by (simp add: unat_sub)

section \<open>Properties of a run\<close>

text \<open>The next actor. \<open>FindNextStep\<close> finds nothing exactly when no actor is due, the deadlock of the
  simulation, and otherwise an actor that is due at the least time of all and, among those, comes first in
  the order of the actors: servers in the order they were added, then the network.\<close>

theorem next_step_is_first:
  "case FindNextStep w of
     None \<Rightarrow> \<exists>n. map (due w) (w_actors w) = replicate n None
   | Some s \<Rightarrow> first_due w 0 (w_actors w) s"
proof (cases "FindNextStep w")
  case None
  then have "\<forall>a \<in> set (w_actors w). due w a = None" using FindNextStep_spec [of w] by simp
  then have "map (due w) (w_actors w) = replicate (length (w_actors w)) None" by (simp add: map_replicate_const cong: map_cong)
  then show ?thesis using None by auto
next
  case (Some s)
  then show ?thesis using FindNextStep_spec [of w] by simp
qed

text \<open>C2. Virtual time. In every state of a simulation, whatever the programs of the nodes do and whatever is
  drawn, no actor is due in the past: \<open>FastForwardTo\<close> never aborts, and the time elapsed since the start is
  the difference of the two times. The programs set timers of at most \<open>D / 100\<close> jiffies, packets fly at
  most \<open>D\<close>, and the 64-bit clock has \<open>D\<close> jiffies left.\<close>

theorem time_never_runs_back:
  assumes "simulated D eat prog w" and "timers_within D prog" and "room D (w_now w)"
  shows "(case FindNextStep w of None \<Rightarrow> True
     | Some s \<Rightarrow> w_now w \<le> ns_time s \<and> FastForwardTo (ns_time s) (w_now w) = Inr (ns_time s)) \<and>
    unat (TimeElapsed w) = unat (w_now w) - unat (w_start_time w)"
proof -
  have inv: "sim_inv D w" by (rule sim_inv_simulated [OF assms])
  then have "unat (TimeElapsed w) = unat (w_now w) - unat (w_start_time w)"
    by (simp add: TimeElapsed_def sim_inv_def unat_sub)
  then show ?thesis using inv advance_timely [of w]
    by (auto simp: sim_inv_def FastForwardTo_def split: option.splits)
qed

text \<open>C3. Histories of simulations. Whatever the programs of the nodes record, in every state of a simulation
  the calls of the recorded history end no earlier than they start, so the real-time order the checker
  uses is an order on them.\<close>

theorem simulated_history_proper:
  assumes "simulated D eat prog w"
  shows "\<forall>c \<in> set (World_History (w\<lparr>w_history := Recorder_Finalize (w_history w)\<rparr>)). proper_call c"
  using sim_history [OF assms] recorder_run_proper by (auto simp: World_History_def)

lemma World_Stop_ok:
  assumes "simulated D eat prog w" and "timers_within D prog" and "room D (w_now w)"
  shows "\<exists>d w'. World_Stop comb server_digest w = Inr (d, w') \<and>
    map s_state (w_servers w') = map (\<lambda>_. Crashed) (w_servers w) \<and>
    map (\<lambda>s. content (s_fs s)) (w_servers w') = map (\<lambda>s. content (s_fs s)) (w_servers w) \<and>
    World_History w' = GetHistory (Recorder_Finalize (w_history w)) \<and>
    World_Step eat prog w' = Inr (False, w') \<and>
    w_now w' = w_now w \<and> w_start_time w' = w_start_time w \<and> w_step w' = w_step w"
proof -
  have inv: "sim_inv D w" by (rule sim_inv_simulated [OF assms])
  let ?c = "\<lambda>ss. map (\<lambda>s. content (s_fs s)) ss"
  have pq: "\<forall>s \<in> set (w_servers w). PQ_inv (s_scheduler s)" using inv by (auto simp: sim_inv_def timely_def srv_timely_def)
  have dist: "distinct (w_adversaries w)" "distinct (pool_members w)" "distinct (w_clients w)"
    and mem: "set (pool_members w) \<union> set (w_clients w) \<union> set (w_adversaries w) = {..<length (w_servers w)}"
    using inv by (auto simp: sim_inv_def members_def)
  then have all: "\<forall>k \<in> set (w_adversaries w). k < length (w_servers w)" "\<forall>k \<in> set (pool_members w). k < length (w_servers w)"
    "\<forall>k \<in> set (w_clients w). k < length (w_servers w)" by auto
  obtain s1 d1 where 1: "res_fold stop_server (w_adversaries w) w = Inr (w\<lparr>w_servers := s1, w_digest := d1\<rparr>)"
    "length s1 = length (w_servers w)" "\<forall>s \<in> set s1. PQ_inv (s_scheduler s)" "?c s1 = ?c (w_servers w)"
    "\<forall>k < length s1. if k \<in> set (w_adversaries w) then s_state (s1 ! k) = Crashed else s1 ! k = w_servers w ! k"
    by (rule stop_servers_plainE [OF dist(1) all(1) pq])
  let ?w1 = "w\<lparr>w_servers := s1, w_adversaries := [], w_digest := comb d1 (digest (w_net w)), w_net := Network_Shutdown (w_net w)\<rparr>"
  obtain s2 d2 where 2: "res_fold (\<lambda>i w. stop_server i (w\<lparr>w_digest := comb (w_digest w) (server_digest (w_servers w ! i))\<rparr>))
      (pool_members w) ?w1 = Inr (?w1\<lparr>w_servers := s2, w_digest := d2\<rparr>)"
    "length s2 = length (w_servers ?w1)" "\<forall>s \<in> set s2. PQ_inv (s_scheduler s)" "?c s2 = ?c (w_servers ?w1)"
    "\<forall>k < length s2. if k \<in> set (pool_members w) then s_state (s2 ! k) = Crashed else s2 ! k = w_servers ?w1 ! k"
    by (rule stop_serversE [OF dist(2), where w = ?w1]) (use all(2) 1(2,3) in simp_all)
  let ?w2 = "?w1\<lparr>w_servers := s2, w_digest := d2, w_pools := []\<rparr>"
  obtain s3 d3 where 3: "res_fold stop_server (w_clients w) ?w2 = Inr (?w2\<lparr>w_servers := s3, w_digest := d3\<rparr>)"
    "length s3 = length (w_servers ?w2)" "\<forall>s \<in> set s3. PQ_inv (s_scheduler s)" "?c s3 = ?c (w_servers ?w2)"
    "\<forall>k < length s3. if k \<in> set (w_clients w) then s_state (s3 ! k) = Crashed else s3 ! k = w_servers ?w2 ! k"
    by (rule stop_servers_plainE [OF dist(3), where w = ?w2]) (use all(3) 1(2) 2(2,3) in simp_all)
  let ?w3 = "?w2\<lparr>w_servers := s3, w_digest := d3, w_clients := [], w_actors := [],
    w_history := Recorder_Finalize (w_history w)\<rparr>"
  have "World_Stop comb server_digest w = Inr (d3, ?w3)"
    using 1(1) 2(1) 3(1) by (simp add: World_Stop_def Let_def pool_members_def)
  moreover have "s_state (s3 ! k) = Crashed" if k: "k < length (w_servers w)" for k
  proof -
    have "k \<in> set (pool_members w) \<union> set (w_clients w) \<union> set (w_adversaries w)" using mem k by simp
    then show ?thesis
      using 1(2) 2(2) 3(2) k 1(5) [rule_format, of k] 2(5) [rule_format, of k] 3(5) [rule_format, of k]
      by (simp split: if_splits)
  qed
  then have "map s_state s3 = map (\<lambda>_. Crashed) (w_servers w)" using 1(2) 2(2) 3(2) by (intro nth_equalityI) simp_all
  moreover have "?c s3 = ?c (w_servers w)" using 1(4) 2(4) 3(4) by simp
  moreover have "World_Step eat prog ?w3 = Inr (False, ?w3)" by (simp add: World_Step_def FindNextStep_def)
  ultimately show ?thesis by (intro exI [of _ d3] exI [of _ ?w3]) (simp add: World_History_def)
qed

text \<open>C21. Stopping a simulation never aborts, in whatever states its servers are; every server ends crashed,
  no disk loses a byte, the history is finalized, and no further step is made.\<close>

theorem world_stops:
  assumes "simulated D eat prog w" and "timers_within D prog" and "room D (w_now w)"
  shows "\<exists>d w'. World_Stop comb server_digest w = Inr (d, w') \<and>
    map s_state (w_servers w') = map (\<lambda>_. Crashed) (w_servers w) \<and>
    map (\<lambda>s. content (s_fs s)) (w_servers w') = map (\<lambda>s. content (s_fs s)) (w_servers w) \<and>
    World_History w' = GetHistory (Recorder_Finalize (w_history w)) \<and>
    World_Step eat prog w' = Inr (False, w')"
  using World_Stop_ok [OF assms] by blast

end
