(* ===== verification/Stepping.thy ===== *)
theory Stepping
  imports Simulation
begin

text \<open>
  The drivers of a simulation (\<open>World::MakeSteps\<close>, \<open>World::RunFor\<close>, \<open>World::RestartServer\<close>), the names of
  the servers (\<open>AddPool\<close>, \<open>GetPool\<close>, \<open>FindServer\<close>) and the generator of guids, and a small concrete world.
\<close>

section \<open>Counting steps\<close>

lemma make_steps_shift: "make_steps eat prog n k w = map_sum id (map_prod ((+) k) id) (MakeSteps eat prog n w)"
proof -
  have "make_steps eat prog n (k + j) w = map_sum id (map_prod ((+) k) id) (make_steps eat prog n j w)" for j
  proof (induction n arbitrary: j w)
    case 0
    then show ?case by simp
  next
    case (Suc n)
    show ?case
    proof (cases "World_Step eat prog w")
      case (Inr bw)
      obtain b v where "bw = (b, v)" by (cases bw)
      then show ?thesis using Inr Suc.IH [of "Suc j" v] by simp
    qed simp
  qed
  from this [of 0] show ?thesis by (simp add: MakeSteps_def)
qed

lemma MakeSteps_0 [simp]: "MakeSteps eat prog 0 w = Inr (0, w)"
  by (simp add: MakeSteps_def)

lemma MakeSteps_Suc:
  "MakeSteps eat prog (Suc n) w = res_bind (World_Step eat prog w) (\<lambda>(b, v).
     if b then map_sum id (map_prod Suc id) (MakeSteps eat prog n v) else Inr (0, v))"
proof -
  have "(+) (Suc 0) = Suc" by (intro ext) simp
  then show ?thesis using make_steps_shift [of eat prog n "Suc 0"]
    by (cases "World_Step eat prog w") (simp_all add: MakeSteps_def split: prod.splits)
qed

lemma MakeSteps_count:
  "MakeSteps eat prog n w = Inr (k, w') \<Longrightarrow> k \<le> n \<and> w_step w' = w_step w + k \<and> w_now w \<le> w_now w' \<and>
     (k = n \<or> FindNextStep w' = None)"
proof (induction n arbitrary: w k)
  case (Suc n)
  obtain b v where v: "World_Step eat prog w = Inr (b, v)"
    using Suc.prems by (cases "World_Step eat prog w") (auto simp: MakeSteps_Suc)
  note s = World_Step_since [OF v]
  show ?case
  proof (cases b)
    case False
    then show ?thesis using Suc.prems v s by (simp add: MakeSteps_Suc)
  next
    case True
    then obtain j where "MakeSteps eat prog n v = Inr (j, w')" "k = Suc j"
      using Suc.prems v by (cases "MakeSteps eat prog n v") (auto simp: MakeSteps_Suc)
    then show ?thesis using Suc.IH [of v j] s True by (auto intro: order_trans)
  qed
qed simp

text \<open>\<open>MakeSteps\<close> reports how many steps were made: at most as many as asked, and fewer only when the
  simulation ended in a deadlock; the step counter advances by this number and the time does not go back.\<close>

theorem steps_are_counted:
  assumes "MakeSteps eat prog n w = Inr (made, w')"
  shows "made \<le> n \<and> w_step w' = w_step w + made \<and> w_now w \<le> w_now w' \<and>
    (made = n \<or> FindNextStep w' = None)"
  by (rule MakeSteps_count [OF assms])

section \<open>Running for a time\<close>



lemma MakeSteps_all_Suc:
  "MakeSteps eat prog (Suc n) w = Inr (Suc n, w') \<longleftrightarrow>
     (\<exists>v. World_Step eat prog w = Inr (True, v) \<and> MakeSteps eat prog n v = Inr (n, w'))"
proof (cases "World_Step eat prog w")
  case (Inr bv)
  obtain b v where bv: "bv = (b, v)" by (cases bv)
  show ?thesis
  proof (cases "MakeSteps eat prog n v")
    case (Inr kx)
    then show ?thesis using \<open>World_Step eat prog w = Inr bv\<close> bv by (cases kx) (auto simp: MakeSteps_Suc)
  qed (use Inr bv in \<open>auto simp: MakeSteps_Suc\<close>)
qed (simp add: MakeSteps_Suc)

text \<open>The state after \<open>n\<close> steps, if the simulation takes that many.\<close>

definition after_steps :: "(u64 \<Rightarrow> nat \<Rightarrow> u64) \<Rightarrow> ('h, 'u) program \<Rightarrow> nat \<Rightarrow> ('h, 'u) world \<Rightarrow> ('h, 'u) world option" where
  "after_steps eat prog n w =
     (case MakeSteps eat prog n w of Inr (k, w') \<Rightarrow> if k = n then Some w' else None | Inl _ \<Rightarrow> None)"

lemma after_steps_0 [simp]: "after_steps eat prog 0 w = Some w"
  by (simp add: after_steps_def)

lemma after_steps_iff: "after_steps eat prog n w = Some w' \<longleftrightarrow> MakeSteps eat prog n w = Inr (n, w')"
  by (auto simp: after_steps_def split: sum.splits prod.splits)

lemma after_steps_Suc:
  "after_steps eat prog (Suc n) w = Some w' \<longleftrightarrow>
     (\<exists>v. World_Step eat prog w = Inr (True, v) \<and> after_steps eat prog n v = Some w')"
  by (simp add: after_steps_iff MakeSteps_all_Suc)

definition run_ends :: "jiffies \<Rightarrow> ('h, 'u) world \<Rightarrow> bool" where
  "run_ends budget w \<longleftrightarrow> budget \<le> TimeElapsed w \<or> FindNextStep w = None"

lemma RunFor_sound:
  assumes "RunFor eat prog budget w = Some (Inr w')"
  shows "\<exists>n. after_steps eat prog n w = Some w' \<and> run_ends budget w' \<and>
    (\<forall>m < n. \<exists>v. after_steps eat prog m w = Some v \<and> \<not> run_ends budget v)"
proof -
  define Q where "Q eat prog budget w r \<longleftrightarrow> (\<forall>w'. r = Inr w' \<longrightarrow> (\<exists>n. after_steps eat prog n w = Some w' \<and>
      run_ends budget w' \<and> (\<forall>m < n. \<exists>v. after_steps eat prog m w = Some v \<and> \<not> run_ends budget v)))"
    for eat and prog :: "('a, 'b) program" and budget w and r :: "('a, 'b) world res"
  have "Q eat prog budget w (Inr w')"
  proof (rule RunFor.raw_induct [of Q, OF _ assms])
    fix rl :: "(u64 \<Rightarrow> nat \<Rightarrow> u64) \<Rightarrow> ('a, 'b) program \<Rightarrow> jiffies \<Rightarrow> ('a, 'b) world \<Rightarrow> ('a, 'b) world res option"
      and eat prog budget w r
    assume IH: "\<And>eat prog budget w r. rl eat prog budget w = Some r \<Longrightarrow> Q eat prog budget w r"
      and r: "(if TimeElapsed w < budget
        then case World_Step eat prog w of Inl e \<Rightarrow> Some (Inl e)
          | Inr (b, w') \<Rightarrow> if \<not> b then Some (Inr w') else rl eat prog budget w'
        else Some (Inr w)) = Some r"
    show "Q eat prog budget w r" unfolding Q_def
    proof (intro allI impI)
      fix w' assume r': "r = Inr w'"
      show "\<exists>n. after_steps eat prog n w = Some w' \<and> run_ends budget w' \<and>
        (\<forall>m < n. \<exists>v. after_steps eat prog m w = Some v \<and> \<not> run_ends budget v)"
      proof (cases "run_ends budget w")
        case True
        then have "w' = w" using r r' World_Step_since(4,5) [of eat prog w]
          by (auto simp: run_ends_def split: if_splits sum.splits)
        then show ?thesis using True by (intro exI [of _ 0]) simp
      next
        case False
        then obtain v where v: "World_Step eat prog w = Inr (True, v)" "rl eat prog budget v = Some (Inr w')"
          using r r' World_Step_since(4) [of eat prog w]
          by (cases "World_Step eat prog w") (auto simp: run_ends_def not_le split: if_splits prod.splits)
        obtain n where n: "after_steps eat prog n v = Some w'" "run_ends budget w'"
          "\<forall>m < n. \<exists>u. after_steps eat prog m v = Some u \<and> \<not> run_ends budget u"
          using IH [OF v(2)] unfolding Q_def by blast
        have "\<exists>u. after_steps eat prog m w = Some u \<and> \<not> run_ends budget u" if "m < Suc n" for m
          using that n(3) v(1) False by (cases m) (auto simp: after_steps_Suc)
        then show ?thesis using n(1,2) v(1) by (intro exI [of _ "Suc n"]) (auto simp: after_steps_Suc)
      qed
    qed
  qed
  then show ?thesis by (simp add: Q_def)
qed

lemma RunFor_complete:
  assumes "after_steps eat prog n w = Some w'" and "run_ends budget w'"
    and "\<forall>m < n. \<exists>v. after_steps eat prog m w = Some v \<and> \<not> run_ends budget v"
  shows "RunFor eat prog budget w = Some (Inr w')"
  using assms
proof (induction n arbitrary: w)
  case 0
  then show ?case by (auto simp: RunFor.simps run_ends_def World_Step_def)
next
  case (Suc n)
  obtain v where v: "World_Step eat prog w = Inr (True, v)" "after_steps eat prog n v = Some w'"
    using Suc.prems(1) by (auto simp: after_steps_Suc)
  have "\<not> run_ends budget w" using Suc.prems(3) by force
  moreover have "RunFor eat prog budget v = Some (Inr w')"
  proof (rule Suc.IH [OF v(2) Suc.prems(2)], intro allI impI)
    fix m assume "m < n"
    then show "\<exists>u. after_steps eat prog m v = Some u \<and> \<not> run_ends budget u"
      using Suc.prems(3) [rule_format, of "Suc m"] v(1) by (auto simp: after_steps_Suc)
  qed
  ultimately show ?case using v(1) by (simp add: RunFor.simps [of eat prog budget w] run_ends_def not_le)
qed

text \<open>C26. \<open>RunFor\<close> returns exactly if, after some number of steps, the time budget is used up or the
  simulation is in a deadlock, and then it returns the first such state; the simulation may run longer than
  the budget by its last step only.\<close>

theorem run_for_returns:
  "RunFor eat prog budget w = Some (Inr w') \<longleftrightarrow>
     (\<exists>n. after_steps eat prog n w = Some w' \<and> run_ends budget w' \<and>
       (\<forall>m < n. \<exists>v. after_steps eat prog m w = Some v \<and> \<not> run_ends budget v))"
  using RunFor_sound RunFor_complete by blast

text \<open>An error of \<open>RunFor\<close> is an error of one of its steps.\<close>

lemma RunFor_no_error:
  assumes "RunFor eat prog budget w = Some (Inl e)" and "P w"
    and "\<And>w. P w \<Longrightarrow> \<exists>b v. World_Step eat prog w = Inr (b, v) \<and> P v"
  shows False
proof -
  define Q where "Q eat' prog' budget w r \<longleftrightarrow> eat' = eat \<longrightarrow> prog' = prog \<longrightarrow> P w \<longrightarrow> (\<exists>w'. r = Inr w')"
    for eat' and prog' :: "('a, 'b) program" and budget :: jiffies and w and r :: "('a, 'b) world res"
  have "Q eat prog budget w (Inl e)"
  proof (rule RunFor.raw_induct [of Q, OF _ assms(1)])
    fix rl :: "(u64 \<Rightarrow> nat \<Rightarrow> u64) \<Rightarrow> ('a, 'b) program \<Rightarrow> jiffies \<Rightarrow> ('a, 'b) world \<Rightarrow> ('a, 'b) world res option"
      and eat' prog' budget w r
    assume IH: "\<And>eat prog budget w r. rl eat prog budget w = Some r \<Longrightarrow> Q eat prog budget w r"
      and r: "(if TimeElapsed w < budget
        then case World_Step eat' prog' w of Inl e \<Rightarrow> Some (Inl e)
          | Inr (b, w') \<Rightarrow> if \<not> b then Some (Inr w') else rl eat' prog' budget w'
        else Some (Inr w)) = Some r"
    show "Q eat' prog' budget w r" unfolding Q_def
    proof (intro impI)
      assume eq: "eat' = eat" "prog' = prog" and "P w"
      then obtain b v where "World_Step eat prog w = Inr (b, v)" "P v" using assms(3) by blast
      then show "\<exists>w'. r = Inr w'" using r eq IH [of eat prog budget v r] by (auto simp: Q_def split: if_splits)
    qed
  qed
  then show ?thesis using assms(2) by (simp add: Q_def)
qed

text \<open>A node whose every task submits another one.\<close>

definition spin :: "('h, nat) program" where
  "spin i t w = [SysSubmit 0]"

definition spinning :: "('h, nat) world \<Rightarrow> bool" where
  "spinning w \<longleftrightarrow> length (w_servers w) = 1 \<and> w_actors w = [ServerActor 0, NetworkActor] \<and>
     PQ_IsEmpty (events (w_net w)) \<and> s_state (w_servers w ! 0) = Running \<and>
     PQ_inv (s_scheduler (w_servers w ! 0)) \<and>
     map at_time (PQ_elems (s_scheduler (w_servers w ! 0))) = [w_now w]"

text \<open>The step of the only server of such a world, for any program.\<close>

lemma single_step:
  assumes "spinning w" and "w_servers w = [s]"
  obtains t q d where "PQ_inv q" and "PQ_elems q = []" and "map task (PQ_elems (s_scheduler s)) = [t]"
    and "\<And>u. u = w\<lparr>w_step := Suc (w_step w), w_digest := d,
        w_active := Some (ServerActor 0), w_servers := [s\<lparr>s_scheduler := q\<rparr>]\<rparr> \<Longrightarrow>
      World_Step eat prog w = res_bind (res_fold (run_syscall 0) (prog 0 t u) u) (\<lambda>v. Inr (True, v\<lparr>w_active := w_active w\<rparr>))"
proof -
  note ws = assms(2)
  have s: "s_state s = Running" "PQ_inv (s_scheduler s)" "w_actors w = [ServerActor 0, NetworkActor]"
    using assms ws by (simp_all add: spinning_def)
  obtain x where x: "PQ_elems (s_scheduler s) = [x]" "at_time x = w_now w"
    using assms ws by (auto simp: spinning_def map_eq_Cons_conv)
  have pick: "pick_least at_time (PQ_elems (s_scheduler s)) = Some (x, [])" using x by simp
  have ne: "\<not> Scheduler_IsEmpty (s_scheduler s)" using x by (auto simp: Scheduler_IsEmpty_def PQ_IsEmpty_elems)
  have next_t: "Scheduler_NextTaskTime (s_scheduler s) = Some (w_now w)"
    using sched_rules(3) [OF s(2)] pick x by (simp add: Scheduler_NextTaskTime_def)
  obtain t q where take: "Scheduler_TakeNext (s_scheduler s) = Some (t, q)"
    using sched_rules [OF s(2)] pick by (fastforce simp: Scheduler_TakeNext_def)
  have inv: "PQ_inv q" using PQ_inv_TakeNext [OF s(2) take] .
  obtain y where y: "PQ_Extract ScheduledTask_less (s_scheduler s) = Some (y, q)"
    using take by (auto simp: Scheduler_TakeNext_def)
  have q: "PQ_elems q = []" "y = x" using sched_rules(1) [OF s(2) y] pick by simp_all
  have t: "map task (PQ_elems (s_scheduler s)) = [t]" using take y x q(2) by (simp add: Scheduler_TakeNext_def)
  have net: "\<not> Network_IsRunnable (w_net w)" using assms by (simp add: spinning_def Network_IsRunnable_def)
  have next_s: "FindNextStep w = Some \<lparr>ns_actor = ServerActor 0, ns_index = 0, ns_time = w_now w\<rparr>"
    using s ws ne next_t net
    by (simp add: FindNextStep_def find_next_step_Cons due_def actor_IsRunnable_def actor_NextStepTime_def
        Server_IsRunnable_def Server_NextStepTime_def)
  have "World_Step eat prog w = res_bind (res_fold (run_syscall 0) (prog 0 t u) u) (\<lambda>v. Inr (True, v\<lparr>w_active := w_active w\<rparr>))"
    if "u = w\<lparr>w_step := Suc (w_step w),
        w_digest := eat (eat (w_digest w) (unat (w_now w))) 0, w_active := Some (ServerActor 0), w_servers := [s\<lparr>s_scheduler := q\<rparr>]\<rparr>" for u
    unfolding World_Step_def next_s that using ws take
    by (simp add: Let_def FastForwardTo_def verify_def scoped_def actor_step_def server_step_def Server_Step_def
        set_server_def res_bind_assoc)
  then show thesis by (rule that [OF inv q(1) t])
qed

lemma spin_step:
  assumes "spinning w"
  shows "\<exists>v. World_Step eat spin w = Inr (True, v) \<and> spinning v \<and> w_now v = w_now w \<and> w_start_time v = w_start_time w"
proof -
  obtain s where ws: "w_servers w = [s]" using assms by (auto simp: spinning_def length_Suc_conv)
  obtain t q d where q: "PQ_inv q" "PQ_elems q = []" and step: "\<And>u. u = w\<lparr>w_step := Suc (w_step w), w_digest := d, w_active := Some (ServerActor 0), w_servers := [s\<lparr>s_scheduler := q\<rparr>]\<rparr> \<Longrightarrow>
      World_Step eat spin w = res_bind (res_fold (run_syscall 0) (spin 0 t u) u) (\<lambda>v. Inr (True, v\<lparr>w_active := w_active w\<rparr>))"
    using single_step [OF assms ws, of eat spin] by metis
  have "PQ_inv (ThreadPool_Submit (w_now w) (RunTask 0) q)"
    "map at_time (PQ_elems (ThreadPool_Submit (w_now w) (RunTask 0) q)) = [w_now w]"
    using q by (simp_all add: ThreadPool_Submit_def inv_rules)
  then show ?thesis unfolding step [OF refl] using assms ws
    by (simp add: spin_def run_syscall_def set_server_def IsAlive_def on_server_def draw_def rnd_return_def spinning_def)
qed

text \<open>The budget of \<open>RunFor\<close> bounds virtual time, not work: a started world with a single server whose
  every task submits the next one never returns from \<open>RunFor\<close>, whatever the positive budget, since no
  virtual time passes.\<close>

theorem run_for_endless:
  assumes "built w0" and "time_model_ok D (w_time_model w0)" and "length (w_servers w0) = 1"
    and "World_Start w0 = Inr w" and "0 < budget"
  shows "RunFor eat spin budget w = None"
proof -
  have w: "spinning w" "w_start_time w = w_now w"
    using World_Start_ok [OF assms(1,2)] assms(3,4) built_fresh [OF assms(1)] Network_Start_timely [of "w_net w0"]
      Network_Start_idle [of "w_net w0"]
    by (auto simp: spinning_def launched_def fresh_world_def upt_rec [of 0])
  have n: "spinning u \<Longrightarrow> w_start_time u = w_now u \<Longrightarrow> after_steps eat spin n u = Some v \<Longrightarrow>
      spinning v \<and> w_start_time v = w_now v" for n u v
  proof (induction n arbitrary: u)
    case (Suc n)
    then show ?case using spin_step [OF Suc.prems(1), of eat] by (auto simp: after_steps_Suc)
  qed simp
  show ?thesis
  proof (cases "RunFor eat spin budget w")
    case (Some r)
    have endless: False if "spinning v" "w_start_time v = w_now v" "run_ends budget v" for v :: "('a, nat) world"
      using that assms(5) spin_step [OF that(1), of eat] World_Step_since(4) [of eat spin v]
      by (auto simp: run_ends_def TimeElapsed_def)
    show ?thesis
    proof (cases r)
      case (Inr w')
      then show ?thesis using RunFor_sound [of eat spin budget w w'] Some n [OF w] endless by blast
    next
      case (Inl e)
      then show ?thesis using RunFor_no_error [where P = spinning, of eat spin budget w e] Some w(1) spin_step by blast
    qed
  qed
qed

section \<open>Servers by name\<close>

text \<open>A restart of the world. \<open>RestartServer\<close> looks for the name in the pools only: for a client, an
  adversary or an unknown name it dereferences a null pointer. Otherwise it never aborts; it reboots
  exactly the server found, if it is alive, which keeps its disk and has its main program as the only task,
  and touches no other server.\<close>

theorem restart_server:
  assumes "simulated D eat prog w" and "timers_within D prog" and "room D (w_now w)"
  shows "case FindServer host w of
      None \<Rightarrow> RestartServer host w = Inl (Undefined ''null server'')
    | Some i \<Rightarrow> HostName i w = host \<and> i \<in> set (pool_members w) \<and> (\<exists>s w'. RestartServer host w = Inr w' \<and>
        w_servers w' = (w_servers w)[i := s] \<and> w_now w' = w_now w \<and>
        (if IsAlive (w_servers w ! i)
         then s_state s = Running \<and> content (s_fs s) = content (s_fs (w_servers w ! i)) \<and>
           PQ_elems (s_scheduler s) = [\<lparr>at_time = w_now w, task = RunMain\<rparr>]
         else s = w_servers w ! i))"
proof (cases "FindServer host w")
  case None
  then show ?thesis by (simp add: RestartServer_def GetServer_def)
next
  case (Some i)
  have inv: "sim_inv D w" by (rule sim_inv_simulated [OF assms])
  have i: "HostName i w = host" "i \<in> set (pool_members w)"
    using Some by (auto simp: FindServer_def find_Some_iff in_set_conv_nth)
  then have len: "i < length (w_servers w)" using inv by (auto simp: sim_inv_def members_def)
  let ?s = "w_servers w ! i"
  have "srv_timely (w_now w) ?s" using inv len by (simp add: sim_inv_def timely_def)
  then obtain tm where tm: "PQ_inv (s_scheduler ?s)" "s_time_model ?s = Some tm" "clock_model_ok tm"
    by (auto simp: srv_timely_def)
  obtain s r where s: "Server_FastReboot (w_now w) ?s (w_random w) = Inr (s, r)"
    "if IsAlive ?s then s_state s = Running \<and> content (s_fs s) = content (s_fs ?s) \<and>
       PQ_elems (s_scheduler s) = [\<lparr>at_time = w_now w, task = RunMain\<rparr>] else s = ?s"
    using FastReboot_ok [OF _ tm(2,3,1), of "w_now w" "w_random w"]
    by (cases "IsAlive ?s") (auto simp: Server_FastReboot_def rnd_return_def)
  have "RestartServer host w = Inr (w\<lparr>w_random := r, w_servers := (w_servers w)[i := s]\<rparr>)"
    using Some s(1) len by (simp add: RestartServer_def GetServer_def scoped_def on_server_def draw_def set_server_def)
  then show ?thesis using Some i s(2) by auto
qed

lemma MakeServerName_inj: "MakeServerName t i = MakeServerName t j \<longleftrightarrow> i = j"
  by (auto simp: MakeServerName_def dest: show_nat_inj)

lemma HostName_same: "w_servers w' ! i = w_servers w ! i \<Longrightarrow> HostName i w' = HostName i w"
  by (simp add: HostName_def)

lemma AddPool_names:
  fixes w :: "('h, 'u) world" and ids heap name n template
  assumes "built w"
  defines "w' \<equiv> AddPool ids heap name n template w" and "m \<equiv> length (GetPool name w)"
  shows "GetPool name w' = GetPool name w @ map (\<lambda>i. MakeServerName template (m + i + 1)) [0..<n] \<and>
    distinct (map (\<lambda>i. MakeServerName template (m + i + 1)) [0..<n]) \<and>
    (\<lambda>p. GetPool p w')(name := []) = (\<lambda>p. GetPool p w)(name := [])"
proof -
  have fresh: "fresh_world w" by (rule built_fresh [OF assms(1)])
  then have g: "growing w" and ok: "om_ok (w_pools w)" by (simp_all add: fresh_world_def growing_def)
  have mem: "set (members w) = {..<length (w_servers w)}"
    by (rule fresh_members(1) [OF fresh])
  obtain p v where pv: "add_many n ids heap name template (pool_of name w, w) = (p, v)"
    by (cases "add_many n ids heap name template (pool_of name w, w)")
  let ?k = "length (w_servers w)"
  have f: "p = pool_of name w @ [?k..<?k + n]" "w_pools v = w_pools w"
      "\<forall>i < ?k. w_servers v ! i = w_servers w ! i"
      "\<forall>i < n. HostName (?k + i) v = MakeServerName template (length (pool_of name w) + i + 1)"
    using add_many_facts [OF pv g] by auto
  have w': "w' = v\<lparr>w_pools := om_assign name p (w_pools w)\<rparr>" using pv f(2) by (simp add: w'_def AddPool_def)
  have old: "map (\<lambda>i. HostName i w') q = map (\<lambda>i. HostName i w) q" if "om_find (w_pools w) x = Some q" for x q
  proof -
    have "(x, q) \<in> set (w_pools w)" using that om_find_Some [OF ok] by simp
    then have "set q \<subseteq> set (members w)" by (auto simp: members_def pool_members_def)
    then have "\<forall>i \<in> set q. i < ?k" unfolding mem by blast
    then show ?thesis using f(3) by (simp add: w' HostName_def)
  qed
  have own: "GetPool name w = map (\<lambda>i. HostName i w) (pool_of name w)"
    by (simp add: GetPool_def pool_of_def split: option.splits)
  then have m: "m = length (pool_of name w)" by (simp add: m_def)
  have "map (\<lambda>i. HostName i w') [?k..<?k + n] = map (\<lambda>i. MakeServerName template (m + i + 1)) [0..<n]"
    using f(4) by (intro nth_equalityI) (simp_all add: w' HostName_def m)
  moreover have "map (\<lambda>i. HostName i w') (pool_of name w) = GetPool name w"
    unfolding own using old [of name] by (cases "om_find (w_pools w) name") (simp_all add: pool_of_def)
  ultimately have "GetPool name w' = GetPool name w @ map (\<lambda>i. MakeServerName template (m + i + 1)) [0..<n]"
    by (simp add: GetPool_def w' om_find_assign [OF ok] f(1))
  moreover have "GetPool x w' = GetPool x w" if "x \<noteq> name" for x
    using that old [of x] by (cases "om_find (w_pools w) x") (simp_all add: GetPool_def w' om_find_assign [OF ok])
  ultimately show ?thesis by (auto simp: distinct_map inj_on_def MakeServerName_inj)
qed

text \<open>The servers of a pool. Adding servers to a pool appends hosts whose names are numbered from the size
  the pool had, so that they are pairwise different, and no other pool changes.\<close>

theorem pool_names:
  fixes w :: "('h, 'u) world" and ids heap name n template
  assumes "built w"
  defines "w' \<equiv> AddPool ids heap name n template w" and "m \<equiv> length (GetPool name w)"
  shows "GetPool name w' = GetPool name w @ map (\<lambda>i. MakeServerName template (m + i + 1)) [0..<n] \<and>
    distinct (map (\<lambda>i. MakeServerName template (m + i + 1)) [0..<n]) \<and>
    (\<lambda>p. GetPool p w')(name := []) = (\<lambda>p. GetPool p w)(name := [])"
  unfolding w'_def m_def by (rule AddPool_names [OF assms(1)])

section \<open>Guids\<close>

primrec guids :: "nat \<Rightarrow> ('h, 'u) world \<Rightarrow> string list" where
  "guids 0 w = []"
| "guids (Suc n) w = (let (g, w) = GenerateGuid w in g # guids n w)"

lemma guids_eq:
  "guids n w = map (\<lambda>i. fst (GenerateNext (w_guids w + of_nat i))) [0..<n]"
proof (induction n arbitrary: w)
  case (Suc n)
  let ?w = "snd (GenerateGuid w)"
  have "w_guids ?w = w_guids w + 1" "fst (GenerateGuid w) = fst (GenerateNext (w_guids w))"
    by (simp_all add: GenerateGuid_def GenerateNext_def Let_def)
  then show ?case using Suc.IH [of ?w]
    by (simp add: map_upt_Suc split_beta add.assoc del: upt_Suc)
qed simp

lemma GenerateNext_inj:
  assumes "fst (GenerateNext a) = fst (GenerateNext b)"
  shows "a = b"
proof -
  have "show_nat (unat (a + 1)) = show_nat (unat (b + 1))"
    using assms by (simp add: GenerateNext_def Let_def)
  then have "unat (a + 1) = unat (b + 1)" by (rule show_nat_inj)
  then have "a + 1 = b + 1" by (rule word_unat_eq_iff [THEN iffD2])
  then show ?thesis by simp
qed

text \<open>Guids are unique: the \<open>2^64\<close> guids a world generates one after the other are different.\<close>

theorem guids_unique: "distinct (guids (2 ^ 64) w)"
proof -
  have "inj_on (\<lambda>i. fst (GenerateNext (w_guids w + of_nat i))) {0..<2 ^ 64}"
  proof (rule inj_onI)
    fix i j :: nat
    assume ij: "i \<in> {0..<2 ^ 64}" "j \<in> {0..<2 ^ 64}"
      and "fst (GenerateNext (w_guids w + of_nat i)) = fst (GenerateNext (w_guids w + of_nat j))"
    then have "(of_nat i :: u64) = of_nat j" using GenerateNext_inj by fastforce
    then show "i = j" using ij by (simp add: word_unat_eq_iff unat_of_nat take_bit_nat_eq_self)
  qed
  then show ?thesis by (simp add: guids_eq distinct_map del: upt_Suc)
qed

section \<open>A concrete world\<close>

text \<open>One server that spins, under a time model without randomness.\<close>

definition quiet_model :: time_model where
  "quiet_model = \<lparr>tm_GlobalStartTime = rnd_return 1, tm_MakeServerModel = (\<lambda>_. AdversaryTimeModel),
     tm_EstimateRtt = 10, tm_FlightTime = (\<lambda>_ _ _. rnd_return 5), tm_BackoffParams = (50, 1000, 2)\<rparr>"

definition demo_world :: "(nat, nat) world" where
  "demo_world = AddServer id small_arena ''Server-1'' (SetTimeModel quiet_model (World (\<lambda>seed n. 0) 7))"

lemma demo_world_built: "built demo_world"
  by (simp add: demo_world_def built.intros)

lemma demo_world_servers: "length (w_servers demo_world) = 1" "w_time_model demo_world = quiet_model"
  by (simp_all add: demo_world_def AddServer_def AddServerImpl_def Let_def World_def SetTimeModel_def AddActor_def)

lemma quiet_model_ok: "time_model_ok 1000 (w_time_model demo_world)"
  by (simp add: demo_world_servers quiet_model_def time_model_ok_def flights_within_def AdversaryTimeModel_ok yields_return)

lemma spin_timers: "timers_within 1000 spin"
  by (simp add: timers_within_def spin_def)

lemma start_servers_since: "res_fold start_server ks w = Inr w' \<Longrightarrow> since w w'"
  by (erule res_fold_inv [where P = "since w"])
    (auto simp: start_server_def intro: since_trans elim!: scoped_since on_server_since)

lemma demo_world_start:
  obtains w where "World_Start demo_world = Inr w" and "w_now w = 1" and "spinning w"
    and "simulated 1000 eat prog w"
proof -
  from World_Start_ok [OF demo_world_built quiet_model_ok]
  obtain w where w: "World_Start demo_world = Inr w" "length (w_servers w) = 1"
    "launched (w_now w) (w_servers demo_world ! 0) (w_servers w ! 0)"
    "w_actors w = [ServerActor 0, NetworkActor]" "w_net w = Network_Start (w_net demo_world)"
    unfolding demo_world_servers by auto
  have "w_now w = 1"
    using w(1) demo_world_servers(2)
    by (auto simp: World_Start_def SetStartTime_def quiet_model_def draw_def rnd_return_def FastForwardTo_def
        verify_def res_bind_Inr since_def Let_def AddActor_def SetConfigGlobals_def World_SetGlobal_def
        split: if_splits dest!: start_servers_since)
  moreover have "spinning w"
    using w built_fresh [OF demo_world_built] Network_Start_idle
    by (simp add: spinning_def launched_def fresh_world_def)
  moreover have "simulated 1000 eat prog w" by (rule sim_start [OF demo_world_built quiet_model_ok w(1)])
  ultimately show thesis using that w(1) by blast
qed

theorem world_starts_witness: "\<exists>w. World_Start demo_world = Inr w \<and> TimeElapsed w = 0"
  using world_starts [OF demo_world_built quiet_model_ok] by blast

lemma demo_room: "w_now w = 1 \<Longrightarrow> room 1000 (w_now w)"
  by (simp add: room_def)

theorem time_never_runs_back_witness:
  "\<exists>w s. World_Start demo_world = Inr w \<and> FindNextStep w = Some s \<and>
     FastForwardTo (ns_time s) (w_now w) = Inr (ns_time s)"
proof -
  obtain w where w: "World_Start demo_world = Inr w" "w_now w = 1" "spinning w" "simulated 1000 (\<lambda>d n. d) spin w"
    by (rule demo_world_start)
  have "FindNextStep w \<noteq> None"
    using spin_step [OF w(3), of "\<lambda>d n. d"] World_Step_since(4) [of "\<lambda>d n. d" spin w] by blast
  then show ?thesis using time_never_runs_back [OF w(4) spin_timers demo_room [OF w(2)]] w(1) by auto
qed

text \<open>A main program that records a call.\<close>

definition recording :: "(nat, nat) program" where
  "recording i t w = [SysRecord (Started ''Get'' ''k''), SysRecord (Completed 1 ''v'')]"

theorem simulated_history_proper_witness:
  "\<exists>w. simulated 1000 (\<lambda>d n. d) recording w \<and>
     (let h = World_History (w\<lparr>w_history := Recorder_Finalize (w_history w)\<rparr>) in
        length h = 1 \<and> (\<forall>c \<in> set h. proper_call c))"
proof -
  obtain w where w: "World_Start demo_world = Inr w" "spinning w" "simulated 1000 (\<lambda>d n. d) recording w"
    by (rule demo_world_start)
  obtain s where ws: "w_servers w = [s]" using w(2) by (auto simp: spinning_def length_Suc_conv)
  have h: "w_history w = HistoryRecorder"
    using World_Start_ok [OF demo_world_built quiet_model_ok] built_history [OF demo_world_built] w(1) by auto
  obtain t q d where step: "\<And>u. u = w\<lparr>w_step := Suc (w_step w), w_digest := d, w_active := Some (ServerActor 0), w_servers := [s\<lparr>s_scheduler := q\<rparr>]\<rparr> \<Longrightarrow>
      World_Step (\<lambda>d n. d) recording w = res_bind (res_fold (run_syscall 0) (recording 0 t u) u)
        (\<lambda>v. Inr (True, v\<lparr>w_active := w_active w\<rparr>))"
    using single_step [OF w(2) ws, of "\<lambda>d n. d" recording] by metis
  have "s_state s = Running" using w(2) ws by (simp add: spinning_def)
  then obtain v where v: "World_Step (\<lambda>d n. d) recording w = Inr (True, v)"
    "length (World_History (v\<lparr>w_history := Recorder_Finalize (w_history v)\<rparr>)) = 1"
    unfolding step [OF refl] using ws h
    by (simp add: recording_def run_syscall_def IsAlive_def World_History_def recorder_defs om_emplace_def om_erase_def)
  have "simulated 1000 (\<lambda>d n. d) recording v" by (rule sim_step [OF w(3) v(1)])
  from this simulated_history_proper [OF this] v(2) show ?thesis by (auto simp: Let_def)
qed

theorem world_stops_witness:
  "\<exists>w d w'. World_Start demo_world = Inr w \<and> World_Stop (\<lambda>a b. a + b) (\<lambda>s. 0) w = Inr (d, w') \<and>
     map s_state (w_servers w') = [Crashed]"
proof -
  obtain w where w: "World_Start demo_world = Inr w" "w_now w = 1" "spinning w" "simulated 1000 (\<lambda>d n. d) spin w"
    by (rule demo_world_start)
  then obtain s where "w_servers w = [s]" by (auto simp: spinning_def length_Suc_conv)
  then show ?thesis using world_stops [OF w(4) spin_timers demo_room [OF w(2)], of "\<lambda>a b. a + b" "\<lambda>s. 0"] w(1) by auto
qed

theorem steps_are_counted_witness:
  "\<exists>w w'. World_Start demo_world = Inr w \<and> MakeSteps (\<lambda>d n. d) spin 2 w = Inr (2, w') \<and> w_step w' = w_step w + 2"
proof -
  obtain w where w: "World_Start demo_world = Inr w" "spinning w" by (rule demo_world_start)
  obtain v where v: "World_Step (\<lambda>d n. d) spin w = Inr (True, v)" "spinning v" using spin_step [OF w(2)] by blast
  obtain u where "World_Step (\<lambda>d n. d) spin v = Inr (True, u)" using spin_step [OF v(2)] by blast
  then have "MakeSteps (\<lambda>d n. d) spin 2 w = Inr (2, u)" using v(1) by (simp add: MakeSteps_Suc numeral_2_eq_2)
  with w(1) steps_are_counted [OF this] show ?thesis by auto
qed

theorem run_for_returns_witness:
  "RunFor (\<lambda>d n. d) (spin :: (nat, nat) program) 5 (World (\<lambda>seed n. 0) 7) = Some (Inr (World (\<lambda>seed n. 0) 7))"
  by (rule run_for_returns [THEN iffD2], intro exI [of _ 0])
    (simp add: run_ends_def FindNextStep_def World_def)

theorem run_for_endless_witness: "\<exists>w. World_Start demo_world = Inr w \<and> RunFor (\<lambda>d n. d) spin 5 w = None"
proof -
  obtain w where w: "World_Start demo_world = Inr w" by (rule demo_world_start)
  from run_for_endless [OF demo_world_built quiet_model_ok demo_world_servers(1) w, of 5 "\<lambda>d n. d"] w
  show ?thesis by simp
qed

theorem restart_server_witness:
  "\<exists>w. World_Start demo_world = Inr w \<and> RestartServer ''Client-1'' w = Inl (Undefined ''null server'')"
proof -
  obtain w where w: "World_Start demo_world = Inr w" "w_now w = 1" "simulated 1000 (\<lambda>d n. d) spin w"
    by (rule demo_world_start)
  have "FindServer ''Client-1'' w = None"
    using w(1) World_Start_ok [OF demo_world_built quiet_model_ok]
    by (auto simp: FindServer_def find_None_iff pool_members_def demo_world_def AddServer_def AddServerImpl_def
        Let_def World_def SetTimeModel_def AddActor_def pool_of_def HostName_def launched_def Server_def)
  then show ?thesis using restart_server [OF w(3) spin_timers demo_room [OF w(2)], of "''Client-1''"] w(1) by simp
qed

theorem pool_names_witness:
  "GetPool ''nodes'' (AddPool id small_arena ''nodes'' 2 ''Node'' (demo_world)) = [''Node-1'', ''Node-2'']"
proof -
  have "GetPool ''nodes'' demo_world = []"
    by (simp add: demo_world_def AddServer_def AddServerImpl_def Let_def World_def SetTimeModel_def AddActor_def
        pool_of_def GetPool_def)
  moreover have "show_nat (Suc 0) = ''1''" "show_nat 2 = ''2''" "[0..<2] = [0, 1]" by code_simp+
  ultimately show ?thesis using pool_names [OF demo_world_built, of "''nodes''" id small_arena 2 "''Node''"]
    by (simp add: MakeServerName_def numeral_2_eq_2)
qed

end
