(* ===== verification/Globals.thy ===== *)
theory Globals
  imports Stepping
begin

text \<open>
  Global variables, counters and the configuration of a node (\<open>world/global/vars.hpp\<close>, \<open>config/config.cpp\<close>,
  \<open>facade/world.{hpp,cpp}\<close>): typed access to the untyped dictionary of the world, where a missing entry or
  an entry of another type makes \<open>std::any_cast\<close> throw, and the builder of pools.
\<close>

section \<open>Typed globals\<close>

definition any_cast :: "(any \<Rightarrow> 'a option) \<Rightarrow> any option \<Rightarrow> 'a res" where
  "any_cast sel v = (case Option.bind v sel of None \<Rightarrow> Inl (Thrown ''bad_any_cast'') | Some x \<Rightarrow> Inr x)"

fun as_int :: "any \<Rightarrow> int option" where
  "as_int (AnyInt i) = Some i" | "as_int v = None"

fun as_string :: "any \<Rightarrow> string option" where
  "as_string (AnyString s) = Some s" | "as_string v = None"

fun as_bool :: "any \<Rightarrow> bool option" where
  "as_bool (AnyBool b) = Some b" | "as_bool v = None"

fun as_size :: "any \<Rightarrow> u64 option" where
  "as_size (AnySize n) = Some n" | "as_size v = None"

definition GetGlobal :: "(any \<Rightarrow> 'a option) \<Rightarrow> string \<Rightarrow> ('h, 'u) world \<Rightarrow> 'a res" where
  "GetGlobal sel name w = any_cast sel (World_GetGlobal name w)"

definition SetGlobal :: "('a \<Rightarrow> any) \<Rightarrow> string \<Rightarrow> 'a \<Rightarrow> ('h, 'u) world \<Rightarrow> ('h, 'u) world" where
  "SetGlobal mk name v w = World_SetGlobal name (mk v) w"

definition GlobalVar_Set :: "('a \<Rightarrow> any) \<Rightarrow> string \<Rightarrow> 'a \<Rightarrow> ('h, 'u) world \<Rightarrow> ('h, 'u) world" where
  "GlobalVar_Set mk name v w = SetGlobal mk name v w"

definition GlobalVar_Get :: "(any \<Rightarrow> 'a option) \<Rightarrow> string \<Rightarrow> ('h, 'u) world \<Rightarrow> 'a res" where
  "GlobalVar_Get sel name w = GetGlobal sel name w"

definition GlobalCounter_Get :: "string \<Rightarrow> ('h, 'u) world \<Rightarrow> u64 res" where
  "GlobalCounter_Get name w = GlobalVar_Get as_size name w"

definition GlobalCounter_Add :: "string \<Rightarrow> u64 \<Rightarrow> ('h, 'u) world \<Rightarrow> (u64 \<times> ('h, 'u) world) res" where
  "GlobalCounter_Add name d w =
     res_bind (GlobalCounter_Get name w) (\<lambda>old. Inr (old, GlobalVar_Set AnySize name (old + d) w))"

definition GlobalCounter_Increment :: "string \<Rightarrow> ('h, 'u) world \<Rightarrow> (u64 \<times> ('h, 'u) world) res" where
  "GlobalCounter_Increment name w = GlobalCounter_Add name 1 w"

definition InitCounter :: "string \<Rightarrow> u64 \<Rightarrow> ('h, 'u) world \<Rightarrow> ('h, 'u) world" where
  "InitCounter name v w = SetGlobal AnySize name v w"

definition GetCounter :: "string \<Rightarrow> ('h, 'u) world \<Rightarrow> u64 res" where
  "GetCounter name w = GetGlobal as_size name w"

section \<open>Configuration of a node\<close>

definition KeyNotFound :: "string \<Rightarrow> 'a res" where
  "KeyNotFound key = Inl (Thrown (''Key '' @ [CHR 0x27] @ key @ [CHR 0x27] @ '' not found in configuration file''))"

definition TryGetGlobal :: "string \<Rightarrow> ('h, 'u) world \<Rightarrow> any option" where
  "TryGetGlobal key w = World_GetGlobal (''config.'' @ key) w"

definition config_global :: "(any \<Rightarrow> 'a option) \<Rightarrow> string \<Rightarrow> ('h, 'u) world \<Rightarrow> 'a res" where
  "config_global sel key w =
     (let v = TryGetGlobal key w in if v \<noteq> None then any_cast sel v else KeyNotFound key)"

definition NodeConfig_GetString :: "string \<Rightarrow> server_config \<Rightarrow> ('h, 'u) world \<Rightarrow> string res" where
  "NodeConfig_GetString key cfg w =
     (if key = ''pool.name'' \<or> key = ''pool'' then Inr (c_pool cfg)
      else if key = ''db.path'' then Inr ''/db''
      else config_global as_string key w)"

definition NodeConfig_GetInt64 :: "string \<Rightarrow> server_config \<Rightarrow> ('h, 'u) world \<Rightarrow> int res" where
  "NodeConfig_GetInt64 key cfg w =
     (if key = ''node.id'' then Inr (int (c_id cfg))
      else if key = ''rpc.port'' then Inr 42
      else if key = ''rpc.backoff.init'' then Inr (int (fst (tm_BackoffParams (w_time_model w))))
      else if key = ''rpc.backoff.max'' then Inr (int (fst (snd (tm_BackoffParams (w_time_model w)))))
      else if key = ''rpc.backoff.factor'' then Inr (int (snd (snd (tm_BackoffParams (w_time_model w)))))
      else config_global as_int key w)"

definition NodeConfig_GetBool :: "string \<Rightarrow> server_config \<Rightarrow> ('h, 'u) world \<Rightarrow> bool res" where
  "NodeConfig_GetBool key cfg w = config_global as_bool key w"

section \<open>Pools of the facade\<close>

record pool_builder =
  pb_pool_name :: string
  pb_size :: nat
  pb_name_template :: string

definition MakeNameTemplate :: "string \<Rightarrow> string" where
  "MakeNameTemplate pool_name = ''Server-'' @ pool_name"

definition MakePool :: "string \<Rightarrow> pool_builder" where
  "MakePool pool_name =
     \<lparr>pb_pool_name = pool_name, pb_size = 1, pb_name_template = MakeNameTemplate pool_name\<rparr>"

definition PoolBuilder_Size :: "nat \<Rightarrow> pool_builder \<Rightarrow> pool_builder" where
  "PoolBuilder_Size n b = b\<lparr>pb_size := n\<rparr>"

definition PoolBuilder_NameTemplate :: "string \<Rightarrow> pool_builder \<Rightarrow> pool_builder" where
  "PoolBuilder_NameTemplate t b = b\<lparr>pb_name_template := t\<rparr>"

text \<open>The destructor adds the pool.\<close>

definition PoolBuilder_destroy ::
    "(nat \<Rightarrow> nat) \<Rightarrow> allocator \<Rightarrow> pool_builder \<Rightarrow> ('h, 'u) world \<Rightarrow> ('h, 'u) world" where
  "PoolBuilder_destroy ids heap b w = AddPool ids heap (pb_pool_name b) (pb_size b) (pb_name_template b) w"

fun AddClients :: "(nat \<Rightarrow> nat) \<Rightarrow> allocator \<Rightarrow> nat \<Rightarrow> ('h, 'u) world \<Rightarrow> ('h, 'u) world" where
  "AddClients ids heap 0 w = w"
| "AddClients ids heap (Suc n) w = AddClients ids heap n (AddClient ids heap w)"

section \<open>Properties\<close>

definition globals_ok :: "('h, 'u) world \<Rightarrow> bool" where
  "globals_ok w \<longleftrightarrow> om_ok (w_globals w)"

lemma World_GetGlobal_find: "World_GetGlobal name w = om_find (w_globals w) name"
  by (simp add: World_GetGlobal_def Dict_Get_def Dict_Has_def)

lemma GetGlobal_SetGlobal:
  "globals_ok w \<Longrightarrow> World_GetGlobal m (World_SetGlobal n v w) = (if m = n then Some v else World_GetGlobal m w)"
  "globals_ok w \<Longrightarrow> globals_ok (World_SetGlobal n v w)"
  by (simp_all add: World_GetGlobal_find World_SetGlobal_def Dict_Set_def globals_ok_def om_find_assign om_ok_assign)

lemmas counter_defs = GlobalCounter_Increment_def GlobalCounter_Add_def GlobalCounter_Get_def GlobalVar_Get_def
  GlobalVar_Set_def GetCounter_def GetGlobal_def SetGlobal_def InitCounter_def any_cast_def

fun increments :: "nat \<Rightarrow> string \<Rightarrow> ('h, 'u) world \<Rightarrow> (u64 list \<times> ('h, 'u) world) res" where
  "increments 0 name w = Inr ([], w)"
| "increments (Suc n) name w =
     res_bind (GlobalCounter_Increment name w) (\<lambda>(old, w).
       res_bind (increments n name w) (\<lambda>(olds, w). Inr (old # olds, w)))"

lemma increments_count:
  assumes "globals_ok w" and "World_GetGlobal name w = Some (AnySize v)"
  shows "\<exists>w'. increments n name w = Inr (map (\<lambda>i. v + of_nat i) [0..<n], w') \<and> GetCounter name w' = Inr (v + of_nat n)"
  using assms
proof (induction n arbitrary: v w)
  case 0
  then show ?case by (simp add: counter_defs)
next
  case (Suc n)
  let ?w = "World_SetGlobal name (AnySize (v + 1)) w"
  have "GlobalCounter_Increment name w = Inr (v, ?w)" using Suc.prems by (simp add: counter_defs)
  moreover obtain w' where "increments n name ?w = Inr (map (\<lambda>i. v + 1 + of_nat i) [0..<n], w')"
    "GetCounter name w' = Inr (v + 1 + of_nat n)"
    using Suc.IH [of ?w "v + 1"] Suc.prems GetGlobal_SetGlobal by fastforce
  ultimately show ?case by (simp add: map_upt_Suc add.assoc del: upt_Suc)
qed

text \<open>Counters count. \<open>n\<close> increments of a counter that was initialised with \<open>v\<close> return \<open>v, v + 1, ...\<close>
  and leave it at \<open>v + n\<close>, modulo \<open>2^64\<close>; a counter that nobody initialised throws.\<close>

theorem counter_counts:
  assumes "globals_ok w"
  shows "(\<exists>w'. increments n name (InitCounter name v w) = Inr (map (\<lambda>i. v + of_nat i) [0..<n], w') \<and>
      GetCounter name w' = Inr (v + of_nat n)) \<and>
    (World_GetGlobal name w \<noteq> None \<or> GlobalCounter_Increment name w = Inl (Thrown ''bad_any_cast''))"
proof
  have "globals_ok (InitCounter name v w)" "World_GetGlobal name (InitCounter name v w) = Some (AnySize v)"
    using GetGlobal_SetGlobal [OF assms] by (simp_all add: InitCounter_def SetGlobal_def)
  then show "\<exists>w'. increments n name (InitCounter name v w) = Inr (map (\<lambda>i. v + of_nat i) [0..<n], w') \<and>
      GetCounter name w' = Inr (v + of_nat n)" by (rule increments_count)
  show "World_GetGlobal name w \<noteq> None \<or> GlobalCounter_Increment name w = Inl (Thrown ''bad_any_cast'')"
    by (cases "World_GetGlobal name w") (simp_all add: counter_defs)
qed

theorem counter_counts_witness:
  "\<exists>w'. increments 3 ''requests'' (InitCounter ''requests'' 5 demo_world) = Inr ([5, 6, 7], w') \<and>
     GetCounter ''requests'' w' = Inr 8"
proof -
  have "globals_ok demo_world"
    by (simp add: globals_ok_def demo_world_def AddServer_def AddServerImpl_def Let_def World_def SetTimeModel_def
        AddActor_def)
  moreover have "[0..<3] = [0, 1, 2]" by code_simp
  ultimately show ?thesis using counter_counts [of demo_world 3 "''requests''" 5] by simp
qed

lemma built_globals: "built w \<Longrightarrow> globals_ok w"
proof (induction rule: built.induct)
  case (built_pool w ids heap name sz template)
  have "w_globals (snd (add_many sz ids heap name template pw)) = w_globals (snd pw)" for pw :: "nat list \<times> ('a, 'b) world"
    by (induction sz arbitrary: pw) (simp_all add: AddToPool_def AddServerImpl_def Let_def AddActor_def)
  then show ?case using built_pool by (simp add: globals_ok_def AddPool_def split: prod.splits) (metis snd_conv)
next
  case (built_global w name v)
  then show ?case by (simp add: GetGlobal_SetGlobal(2))
qed (simp_all add: globals_ok_def om_ok_def World_def AddServer_def AddClient_def AddAdversary_def AddToPool_def
  AddServerImpl_def Let_def AddActor_def SetTimeModel_def)

text \<open>Configuration of the nodes of a started world: every node finds the estimate of the round trip time
  of the time model under \<open>net.rtt\<close>, the port 42, its database path and its own pool and id; \<open>net.rtt\<close> read
  as a string is a bad cast, and a key that nobody has set is not found.\<close>

theorem started_config:
  assumes "built w" and "time_model_ok D (w_time_model w)" and "World_Start w = Inr w'"
    and "World_GetGlobal (''config.'' @ key) w = None"
  shows "NodeConfig_GetInt64 ''net.rtt'' cfg w' = Inr (sint (tm_EstimateRtt (w_time_model w))) \<and>
    NodeConfig_GetInt64 ''rpc.port'' cfg w' = Inr 42 \<and> NodeConfig_GetString ''db.path'' cfg w' = Inr ''/db'' \<and>
    NodeConfig_GetString ''pool'' cfg w' = Inr (c_pool cfg) \<and> NodeConfig_GetInt64 ''node.id'' cfg w' = Inr (int (c_id cfg)) \<and>
    NodeConfig_GetString ''net.rtt'' cfg w' = Inl (Thrown ''bad_any_cast'') \<and>
    NodeConfig_GetBool key cfg w' = (if key = ''net.rtt'' then Inl (Thrown ''bad_any_cast'') else KeyNotFound key)"
proof -
  have "w_globals w' = w_globals (SetConfigGlobals w)" "w_time_model w' = w_time_model w"
    using World_Start_ok [OF assms(1,2)] assms(3) by auto
  then have g: "World_GetGlobal name w' = (if name = ''config.net.rtt''
      then Some (AnyInt (sint (tm_EstimateRtt (w_time_model w)))) else World_GetGlobal name w)"
    for name using GetGlobal_SetGlobal(1) [OF built_globals [OF assms(1)]]
    by (simp add: World_GetGlobal_find SetConfigGlobals_def)
  show ?thesis
    by (simp add: NodeConfig_GetInt64_def NodeConfig_GetString_def NodeConfig_GetBool_def config_global_def
        TryGetGlobal_def g any_cast_def Let_def assms(4) [simplified])
qed

lemma demo_world_globals: "World_GetGlobal name demo_world = None"
  by (simp add: demo_world_def AddServer_def AddServerImpl_def Let_def World_def SetTimeModel_def AddActor_def
      World_GetGlobal_find)

theorem started_config_witness:
  "\<exists>w. World_Start demo_world = Inr w \<and> NodeConfig_GetInt64 ''net.rtt'' \<lparr>c_id = 1, c_hostname = ''Server-1'', c_pool = ''nodes''\<rparr> w = Inr 10"
proof -
  obtain w where w: "World_Start demo_world = Inr w" by (rule demo_world_start)
  then show ?thesis using started_config [OF demo_world_built quiet_model_ok w demo_world_globals [of "''config.'' @ ''x''"], of "\<lparr>c_id = 1, c_hostname = ''Server-1'', c_pool = ''nodes''\<rparr>"]
    by (simp add: demo_world_servers quiet_model_def)
qed

text \<open>Pools of the facade can be partitioned. A pool made without a name template on a world without a pool
  of its name consists of as many hosts as were asked for, named after the pool, and all of them are system
  hosts for the network, so \<open>Split\<close> acts on their links; hosts of a pool whose template does not start with
  \<open>S\<close> are not, and \<open>Split\<close> leaves them connected.\<close>

theorem made_pool_splits:
  assumes "built w" and "GetPool name w = []"
  shows "GetPool name (PoolBuilder_destroy ids heap (PoolBuilder_Size n (MakePool name)) w) =
      map (\<lambda>i. ''Server-'' @ name @ ''-'' @ show_nat (i + 1)) [0..<n] \<and>
    (\<forall>i < length (servers net). (servers net ! i \<in> set (GetPool name (PoolBuilder_destroy ids heap
        (PoolBuilder_Size n (MakePool name)) w)) \<longrightarrow> IsSystem i net) \<and>
      (servers net ! i \<in> set (GetPool name (PoolBuilder_destroy ids heap
        (PoolBuilder_Size n (PoolBuilder_NameTemplate ''Node'' (MakePool name))) w)) \<longrightarrow> \<not> IsSystem i net))"
proof -
  have "GetPool name (PoolBuilder_destroy ids heap (PoolBuilder_Size n b) w) =
      map (\<lambda>i. MakeServerName (pb_name_template b) (i + 1)) [0..<n]" if "pb_pool_name b = name" for b
    using AddPool_names [OF assms(1), of name ids heap n "pb_name_template b"] assms(2) that
    by (simp add: PoolBuilder_destroy_def PoolBuilder_Size_def)
  from this [of "MakePool name"] this [of "PoolBuilder_NameTemplate ''Node'' (MakePool name)"] show ?thesis
    by (auto simp: MakePool_def PoolBuilder_NameTemplate_def MakeNameTemplate_def MakeServerName_def IsSystem_def)
qed

theorem made_pool_splits_witness:
  "GetPool ''kv'' (PoolBuilder_destroy id small_arena (PoolBuilder_Size 2 (MakePool ''kv'')) demo_world) =
     [''Server-kv-1'', ''Server-kv-2'']"
proof -
  have "GetPool ''kv'' demo_world = []"
    by (simp add: demo_world_def AddServer_def AddServerImpl_def Let_def World_def SetTimeModel_def AddActor_def
        pool_of_def GetPool_def)
  moreover have "show_nat (Suc 0) = ''1''" "show_nat 2 = ''2''" "[0..<2] = [0, 1]" by code_simp+
  ultimately show ?thesis using made_pool_splits [OF demo_world_built, of "''kv''" id small_arena 2 Network_init]
    by (simp add: numeral_2_eq_2)
qed

end
