(* ===== verification/KV_Node.thy ===== *)
theory KV_Node
  imports Clocks KV_Model Ordered_Map
begin

text \<open>
  \<open>examples/kv/node/main.cpp\<close>: the replicated key-value store that the simulator's example runs. Every
  node is a coordinator and a storage replica. A write is stamped with the wall clock of its coordinator
  and broadcast, a read collects the stamped values of a majority and returns the most recent one.

  The local store \<open>node::store::KVStore\<close> is library code: a \<open>kv_store\<close> record whose laws are the locale
  \<open>stamped_store\<close>. The remote calls are at-least-once, so that a step relation may execute each of them any
  number of times at any replica, in any order, and lose any number of replies. Replicas reboot at any time.
\<close>

section \<open>Stamped values\<close>

datatype write_timestamp = WriteTimestamp (ts_value: u64)

definition WriteTimestamp_less :: "write_timestamp \<Rightarrow> write_timestamp \<Rightarrow> bool" where
  "WriteTimestamp_less a b \<longleftrightarrow> ts_value a < ts_value b"

instantiation write_timestamp :: linorder
begin

definition less_write_timestamp :: "write_timestamp \<Rightarrow> write_timestamp \<Rightarrow> bool" where
  "less_write_timestamp = WriteTimestamp_less"

definition less_eq_write_timestamp :: "write_timestamp \<Rightarrow> write_timestamp \<Rightarrow> bool" where
  "less_eq_write_timestamp a b \<longleftrightarrow> ts_value a \<le> ts_value b"

instance
  by standard (auto simp: less_write_timestamp_def WriteTimestamp_less_def less_eq_write_timestamp_def intro: write_timestamp.expand)

end

definition WriteTimestamp_Min :: write_timestamp where
  "WriteTimestamp_Min = WriteTimestamp 0"

lemma Min_le [simp]: "WriteTimestamp_Min \<le> t"
  by (simp add: less_eq_write_timestamp_def WriteTimestamp_Min_def)

record stamped_value =
  sv_value :: string
  sv_timestamp :: write_timestamp

section \<open>Storage replica\<close>

record 's kv_store =
  TryGet :: "string \<Rightarrow> 's \<Rightarrow> stamped_value option"
  GetOr :: "string \<Rightarrow> stamped_value \<Rightarrow> 's \<Rightarrow> stamped_value"
  Put :: "string \<Rightarrow> stamped_value \<Rightarrow> 's \<Rightarrow> 's"
  Reopen :: "'s \<Rightarrow> 's"

definition Replica_Update :: "'s kv_store \<Rightarrow> string \<Rightarrow> stamped_value \<Rightarrow> 's \<Rightarrow> 's" where
  "Replica_Update st key target_value s = Put st key target_value s"

text \<open>The mutex makes the handler atomic.\<close>

definition LocalWrite :: "'s kv_store \<Rightarrow> string \<Rightarrow> stamped_value \<Rightarrow> 's \<Rightarrow> 's" where
  "LocalWrite st key target_value s =
     (case TryGet st key s of
        None \<Rightarrow> Replica_Update st key target_value s
      | Some local_value \<Rightarrow>
          if sv_timestamp local_value < sv_timestamp target_value then Replica_Update st key target_value s else s)"

definition LocalRead :: "'s kv_store \<Rightarrow> string \<Rightarrow> 's \<Rightarrow> stamped_value" where
  "LocalRead st key s = GetOr st key \<lparr>sv_value = [], sv_timestamp = WriteTimestamp_Min\<rparr> s"

text \<open>\<open>KVNodeMain\<close> after a crash: the database of the node is opened again and the store is built over it.\<close>

definition KVNodeMain :: "'s kv_store \<Rightarrow> 's \<Rightarrow> 's" where
  "KVNodeMain st s = Reopen st s"

section \<open>Coordinator\<close>

definition ChooseWriteTimestamp :: "wall_clock \<Rightarrow> time_point \<Rightarrow> write_timestamp" where
  "ChooseWriteTimestamp wall now = WriteTimestamp (WallClock_Now wall now)"

definition Majority :: "nat \<Rightarrow> nat" where
  "Majority n = n div 2 + 1"

text \<open>\<open>std::max_element\<close>: the first of the greatest elements.\<close>

fun max_element :: "stamped_value \<Rightarrow> stamped_value list \<Rightarrow> stamped_value" where
  "max_element largest [] = largest"
| "max_element largest (v # vs) =
     max_element (if sv_timestamp largest < sv_timestamp v then v else largest) vs"

definition FindMostRecent :: "stamped_value list \<Rightarrow> stamped_value res" where
  "FindMostRecent vs = (case vs of [] \<Rightarrow> Inl (Undefined ''end iterator'') | v # vs \<Rightarrow> Inr (max_element v vs))"

text \<open>A running \<open>Set\<close>: the replicas that executed its write and those whose acknowledgement has come back.
  A running \<open>Get\<close>: the replies on their way, and those that have come back, in order.\<close>

record pending_write =
  pw_key :: string
  pw_value :: stamped_value
  pw_applied :: "nat set"
  pw_acked :: "nat set"

record pending_read =
  pr_key :: string
  pr_seen :: "(nat \<times> stamped_value) list"
  pr_got :: "(nat \<times> stamped_value) list"

record 's kv_cluster =
  kc_replicas :: "'s list"
  kc_writes :: "pending_write list"
  kc_reads :: "pending_read list"

definition Coordinator_Set :: "string \<Rightarrow> string \<Rightarrow> wall_clock \<Rightarrow> time_point \<Rightarrow> pending_write" where
  "Coordinator_Set key v wall now =
     \<lparr>pw_key = key, pw_value = \<lparr>sv_value = v, sv_timestamp = ChooseWriteTimestamp wall now\<rparr>,
      pw_applied = {}, pw_acked = {}\<rparr>"

definition Set_done :: "nat \<Rightarrow> pending_write \<Rightarrow> bool" where
  "Set_done n p \<longleftrightarrow> Majority n \<le> card (pw_acked p)"

definition Coordinator_Get :: "string \<Rightarrow> pending_read" where
  "Coordinator_Get key = \<lparr>pr_key = key, pr_seen = [], pr_got = []\<rparr>"

text \<open>The quorum future takes the first \<open>Majority\<close> replies.\<close>

definition Get_result :: "nat \<Rightarrow> pending_read \<Rightarrow> stamped_value res option" where
  "Get_result n p =
     (if length (pr_got p) < Majority n then None else Some (FindMostRecent (map snd (pr_got p))))"

datatype kv_op =
    KSet string string wall_clock time_point
  | KApply nat nat
  | KAck nat nat
  | KGet string
  | KRead nat nat
  | KReply nat nat
  | KReboot nat

fun kv_step :: "'s kv_store \<Rightarrow> kv_op \<Rightarrow> 's kv_cluster \<Rightarrow> 's kv_cluster option" where
  "kv_step st (KSet key v wall now) c = Some (c\<lparr>kc_writes := kc_writes c @ [Coordinator_Set key v wall now]\<rparr>)"
| "kv_step st (KApply i r) c =
     (if i < length (kc_writes c) \<and> r < length (kc_replicas c) then
        let w = kc_writes c ! i in
        Some (c\<lparr>kc_replicas := (kc_replicas c)[r := LocalWrite st (pw_key w) (pw_value w) (kc_replicas c ! r)],
                kc_writes := (kc_writes c)[i := w\<lparr>pw_applied := insert r (pw_applied w)\<rparr>]\<rparr>)
      else None)"
| "kv_step st (KAck i r) c =
     (if i < length (kc_writes c) \<and> r \<in> pw_applied (kc_writes c ! i) then
        let w = kc_writes c ! i in
        Some (c\<lparr>kc_writes := (kc_writes c)[i := w\<lparr>pw_acked := insert r (pw_acked w)\<rparr>]\<rparr>)
      else None)"
| "kv_step st (KGet key) c = Some (c\<lparr>kc_reads := kc_reads c @ [Coordinator_Get key]\<rparr>)"
| "kv_step st (KRead j r) c =
     (if j < length (kc_reads c) \<and> r < length (kc_replicas c) then
        let p = kc_reads c ! j in
        Some (c\<lparr>kc_reads := (kc_reads c)[j := p\<lparr>pr_seen := pr_seen p @ [(r, LocalRead st (pr_key p) (kc_replicas c ! r))]\<rparr>]\<rparr>)
      else None)"
| "kv_step st (KReply j m) c =
     (if j < length (kc_reads c) \<and> m < length (pr_seen (kc_reads c ! j)) then
        let p = kc_reads c ! j; (r, v) = pr_seen p ! m in
        if r \<in> fst ` set (pr_got p) \<or> Majority (length (kc_replicas c)) \<le> length (pr_got p) then Some c
        else Some (c\<lparr>kc_reads := (kc_reads c)[j := p\<lparr>pr_got := pr_got p @ [(r, v)]\<rparr>]\<rparr>)
      else None)"
| "kv_step st (KReboot r) c =
     (if r < length (kc_replicas c)
      then Some (c\<lparr>kc_replicas := (kc_replicas c)[r := KVNodeMain st (kc_replicas c ! r)]\<rparr>) else None)"

fun kv_run :: "'s kv_store \<Rightarrow> kv_op list \<Rightarrow> 's kv_cluster \<Rightarrow> 's kv_cluster option" where
  "kv_run st [] c = Some c"
| "kv_run st (op # ops) c = (case kv_step st op c of None \<Rightarrow> None | Some c \<Rightarrow> kv_run st ops c)"

definition kv_init :: "'s \<Rightarrow> nat \<Rightarrow> 's kv_cluster" where
  "kv_init s0 n = \<lparr>kc_replicas = replicate n s0, kc_writes = [], kc_reads = []\<rparr>"

section \<open>Quorums\<close>

locale quorums =
  fixes is_quorum :: "'n set \<Rightarrow> bool"
  assumes intersect: "is_quorum Q \<Longrightarrow> is_quorum R \<Longrightarrow> Q \<inter> R \<noteq> {}"
begin

lemma nonempty: "is_quorum Q \<Longrightarrow> Q \<noteq> {}"
  using intersect by blast

text \<open>What one quorum has stored, another one reads: if every member of the first has at least the stamp
  \<open>t\<close>, the greatest stamp the second reads is at least \<open>t\<close>.\<close>

lemma quorum_read:
  assumes "is_quorum W" and "is_quorum R" and "\<And>r. r \<in> W \<Longrightarrow> r \<in> R \<Longrightarrow> t \<le> stamp r"
    and "\<And>r. r \<in> R \<Longrightarrow> stamp r \<le> m"
  shows "(t :: 'a :: linorder) \<le> m"
proof -
  obtain r where "r \<in> W" "r \<in> R" using intersect [OF assms(1,2)] by blast
  then show ?thesis using assms(3,4) by (meson order_trans)
qed

end

definition majority_of :: "nat \<Rightarrow> nat set \<Rightarrow> bool" where
  "majority_of n Q \<longleftrightarrow> Q \<subseteq> {..<n} \<and> Majority n \<le> card Q"

interpretation majority: quorums "majority_of n" for n
proof
  fix Q R assume Q: "majority_of n Q" and R: "majority_of n R"
  show "Q \<inter> R \<noteq> {}"
  proof
    assume "Q \<inter> R = {}"
    moreover have "finite Q" "finite R" using Q R by (auto simp: majority_of_def intro: finite_subset)
    ultimately have "card (Q \<union> R) = card Q + card R" by (simp add: card_Un_disjoint)
    moreover have "card (Q \<union> R) \<le> n" using Q R card_mono [of "{..<n}" "Q \<union> R"] by (simp add: majority_of_def)
    ultimately show False using Q R by (auto simp: majority_of_def Majority_def)
  qed
qed

section \<open>The local store\<close>

locale stamped_store =
  fixes st :: "'s kv_store" and valid :: "'s \<Rightarrow> bool"
  assumes get_put: "valid s \<Longrightarrow> TryGet st k (Put st k' v s) = (if k = k' then Some v else TryGet st k s)"
    and get_or: "valid s \<Longrightarrow> GetOr st k d s = (case TryGet st k s of None \<Rightarrow> d | Some v \<Rightarrow> v)"
    and valid_put: "valid s \<Longrightarrow> valid (Put st k v s)"
    and get_reopen: "valid s \<Longrightarrow> TryGet st k (Reopen st s) = TryGet st k s"
    and valid_reopen: "valid s \<Longrightarrow> valid (Reopen st s)"
begin

lemma valid_reboot: "valid s \<Longrightarrow> valid (KVNodeMain st s)"
  by (simp add: KVNodeMain_def valid_reopen)

lemma read_reboot: "valid s \<Longrightarrow> LocalRead st k (KVNodeMain st s) = LocalRead st k s"
  by (simp add: KVNodeMain_def LocalRead_def get_or get_reopen valid_reopen)

lemma valid_write: "valid s \<Longrightarrow> valid (LocalWrite st k v s)"
  by (simp add: LocalWrite_def Replica_Update_def valid_put split: option.splits)

lemma read_write:
  "valid s \<Longrightarrow> LocalRead st k (LocalWrite st k' v s) =
     (if k = k' \<and> (TryGet st k s = None \<or> sv_timestamp (LocalRead st k s) < sv_timestamp v) then v else LocalRead st k s)"
  by (auto simp: LocalRead_def LocalWrite_def Replica_Update_def get_put get_or valid_put split: option.splits)

text \<open>A write never lowers the stamp of a key, and the stamp is at least its own afterwards.\<close>

lemma write_mono: "valid s \<Longrightarrow> sv_timestamp (LocalRead st k s) \<le> sv_timestamp (LocalRead st k (LocalWrite st k' v s))"
proof -
  assume s: "valid s"
  have "TryGet st k s = None \<Longrightarrow> LocalRead st k s = \<lparr>sv_value = [], sv_timestamp = WriteTimestamp_Min\<rparr>"
    using s by (simp add: LocalRead_def get_or)
  then show ?thesis using read_write [OF s, of k k' v] by auto
qed

lemma write_stamp: "valid s \<Longrightarrow> sv_timestamp v \<le> sv_timestamp (LocalRead st k (LocalWrite st k v s))"
  using read_write [of s k k v] by auto

lemma write_repeated: "valid s \<Longrightarrow> LocalRead st k (LocalWrite st k' v (LocalWrite st k' v s)) = LocalRead st k (LocalWrite st k' v s)"
  using read_write [OF valid_write, of s k k' v] read_write [of s k' k' v]
  by (auto simp: LocalWrite_def Replica_Update_def get_put split: option.splits)

end

text \<open>The ordered maps of this development are such a store.\<close>

definition map_store :: "(string, stamped_value) omap kv_store" where
  "map_store = \<lparr>TryGet = (\<lambda>k m. om_find m k),
     GetOr = (\<lambda>k d m. case om_find m k of None \<Rightarrow> d | Some v \<Rightarrow> v), Put = om_assign, Reopen = id\<rparr>"

interpretation map_store: stamped_store map_store om_ok
  by unfold_locales (simp_all add: map_store_def om_find_assign om_ok_assign)

section \<open>Invariants\<close>

definition stamp :: "'s kv_store \<Rightarrow> string \<Rightarrow> 's \<Rightarrow> write_timestamp" where
  "stamp st k s = sv_timestamp (LocalRead st k s)"

definition write_ok :: "'s kv_store \<Rightarrow> 's list \<Rightarrow> pending_write \<Rightarrow> bool" where
  "write_ok st rs w \<longleftrightarrow> pw_acked w \<subseteq> pw_applied w \<and> pw_applied w \<subseteq> {..<length rs} \<and>
     (\<forall>r \<in> pw_applied w. sv_timestamp (pw_value w) \<le> stamp st (pw_key w) (rs ! r))"

definition read_ok :: "nat \<Rightarrow> pending_read \<Rightarrow> bool" where
  "read_ok n p \<longleftrightarrow> distinct (map fst (pr_got p)) \<and> length (pr_got p) \<le> Majority n \<and>
     set (pr_got p) \<subseteq> set (pr_seen p) \<and> fst ` set (pr_seen p) \<subseteq> {..<n}"

definition cluster_ok :: "'s kv_store \<Rightarrow> ('s \<Rightarrow> bool) \<Rightarrow> 's kv_cluster \<Rightarrow> bool" where
  "cluster_ok st valid c \<longleftrightarrow> (\<forall>s \<in> set (kc_replicas c). valid s) \<and>
     (\<forall>w \<in> set (kc_writes c). write_ok st (kc_replicas c) w) \<and>
     (\<forall>p \<in> set (kc_reads c). read_ok (length (kc_replicas c)) p)"

text \<open>Replicas only move forward.\<close>

definition forward :: "'s kv_store \<Rightarrow> 's list \<Rightarrow> 's list \<Rightarrow> bool" where
  "forward st rs rs' \<longleftrightarrow> length rs' = length rs \<and> (\<forall>r < length rs. \<forall>k. stamp st k (rs ! r) \<le> stamp st k (rs' ! r))"

lemma forward_refl [simp]: "forward st rs rs"
  by (simp add: forward_def)

lemma write_ok_forward:
  assumes "write_ok st rs w" and "forward st rs rs'"
  shows "write_ok st rs' w"
proof -
  have "sv_timestamp (pw_value w) \<le> stamp st (pw_key w) (rs' ! r)" if "r \<in> pw_applied w" for r
  proof -
    have "r < length rs" using assms(1) that by (auto simp: write_ok_def)
    then have "stamp st (pw_key w) (rs ! r) \<le> stamp st (pw_key w) (rs' ! r)" using assms(2) by (simp add: forward_def)
    moreover have "sv_timestamp (pw_value w) \<le> stamp st (pw_key w) (rs ! r)" using assms(1) that by (simp add: write_ok_def)
    ultimately show ?thesis by simp
  qed
  then show ?thesis using assms by (simp add: write_ok_def forward_def)
qed

lemma set_update_ball: "\<forall>x \<in> set xs. P x \<Longrightarrow> P y \<Longrightarrow> \<forall>x \<in> set (xs[i := y]). P x"
  using set_update_subset_insert [of xs i y] by auto

text \<open>Reads of \<open>k\<close> that start with number \<open>j0\<close> or later see, at the replicas of \<open>A\<close>, stamps of at least \<open>t\<close>.\<close>

definition tracked :: "'s kv_store \<Rightarrow> nat set \<Rightarrow> write_timestamp \<Rightarrow> string \<Rightarrow> nat \<Rightarrow> 's kv_cluster \<Rightarrow> bool" where
  "tracked st A t k j0 c \<longleftrightarrow> A \<subseteq> {..<length (kc_replicas c)} \<and> (\<forall>r \<in> A. t \<le> stamp st k (kc_replicas c ! r)) \<and>
     j0 \<le> length (kc_reads c) \<and>
     (\<forall>j \<in> {j0..<length (kc_reads c)}. pr_key (kc_reads c ! j) = k \<longrightarrow>
       (\<forall>(r, v) \<in> set (pr_seen (kc_reads c ! j)). r \<in> A \<longrightarrow> t \<le> sv_timestamp v))"

text \<open>The values that were issued for a key, and the reads of it.\<close>

definition issued :: "'s kv_cluster \<Rightarrow> string \<Rightarrow> stamped_value set" where
  "issued c k = insert \<lparr>sv_value = [], sv_timestamp = WriteTimestamp_Min\<rparr>
     {pw_value w |w. w \<in> set (kc_writes c) \<and> pw_key w = k}"

definition genuine :: "'s kv_store \<Rightarrow> 's kv_cluster \<Rightarrow> bool" where
  "genuine st c \<longleftrightarrow> (\<forall>s \<in> set (kc_replicas c). \<forall>k. LocalRead st k s \<in> issued c k) \<and>
     (\<forall>p \<in> set (kc_reads c). snd ` set (pr_seen p) \<subseteq> issued c (pr_key p))"

lemma issued_append [simp]:
  "issued (c\<lparr>kc_writes := kc_writes c @ [w]\<rparr>) k = issued c k \<union> (if pw_key w = k then {pw_value w} else {})"
  by (auto simp: issued_def)

lemma issued_map:
  "issued c k = insert \<lparr>sv_value = [], sv_timestamp = WriteTimestamp_Min\<rparr>
     (snd ` {e \<in> set (map (\<lambda>w. (pw_key w, pw_value w)) (kc_writes c)). fst e = k})"
  by (force simp: issued_def)

lemma issued_same:
  assumes "map (\<lambda>w. (pw_key w, pw_value w)) (kc_writes c') = map (\<lambda>w. (pw_key w, pw_value w)) (kc_writes c)"
  shows "issued c' = issued c"
  by (intro ext) (simp only: issued_map assms)

lemma new_calls_ok [simp]: "write_ok st rs (Coordinator_Set k v wall now)" "read_ok n (Coordinator_Get k)"
  by (simp_all add: write_ok_def read_ok_def Coordinator_Set_def Coordinator_Get_def)

context stamped_store
begin

lemma forward_write:
  assumes "\<forall>s \<in> set rs. valid s" and "r < length rs"
  shows "forward st rs (rs[r := LocalWrite st k v (rs ! r)])"
  using assms write_mono [of "rs ! r" _ k v] by (auto simp: forward_def stamp_def nth_list_update)

lemma reboot_ok:
  assumes "kv_step st (KReboot r) c = Some c'" and "cluster_ok st valid c"
  shows "cluster_ok st valid c' \<and> forward st (kc_replicas c) (kc_replicas c')"
proof -
  let ?s = "KVNodeMain st (kc_replicas c ! r)"
  have r: "r < length (kc_replicas c)" and c': "c' = c\<lparr>kc_replicas := (kc_replicas c)[r := ?s]\<rparr>"
    using assms(1) by (auto split: if_splits)
  have v: "\<forall>s \<in> set (kc_replicas c). valid s" using assms(2) by (simp add: cluster_ok_def)
  then have "forward st (kc_replicas c) ((kc_replicas c)[r := ?s])"
    using r by (auto simp: forward_def stamp_def nth_list_update read_reboot)
  moreover have "valid ?s" using v r by (simp add: valid_reboot)
  ultimately show ?thesis using assms(2) set_update_ball [OF v]
    by (auto simp: c' cluster_ok_def intro: write_ok_forward [of st "kc_replicas c"])
qed

lemma cluster_okD:
  assumes "cluster_ok st valid c"
  shows "\<forall>s \<in> set (kc_replicas c). valid s" and "\<forall>w \<in> set (kc_writes c). write_ok st (kc_replicas c) w"
    and "\<forall>p \<in> set (kc_reads c). read_ok (length (kc_replicas c)) p"
  using assms by (simp_all add: cluster_ok_def)

lemma apply_ok:
  assumes "kv_step st (KApply i r) c = Some c'" and "cluster_ok st valid c"
  shows "cluster_ok st valid c' \<and> forward st (kc_replicas c) (kc_replicas c')"
proof -
  note v = cluster_okD(1) [OF assms(2)] and w = cluster_okD(2) [OF assms(2)] and p = cluster_okD(3) [OF assms(2)]
  let ?w = "kc_writes c ! i" and ?rs = "(kc_replicas c)[r := LocalWrite st (pw_key (kc_writes c ! i)) (pw_value (kc_writes c ! i)) (kc_replicas c ! r)]"
  have i: "i < length (kc_writes c)" "r < length (kc_replicas c)"
    and c': "c' = c\<lparr>kc_replicas := ?rs, kc_writes := (kc_writes c)[i := ?w\<lparr>pw_applied := insert r (pw_applied ?w)\<rparr>]\<rparr>"
    using assms(1) by (auto simp: Let_def split: if_splits)
  have f: "forward st (kc_replicas c) ?rs" by (rule forward_write [OF v i(2)])
  have "valid (kc_replicas c ! r)" using v i(2) by simp
  then have new: "sv_timestamp (pw_value ?w) \<le> stamp st (pw_key ?w) (?rs ! r)"
    using i(2) by (simp add: stamp_def write_stamp)
  have "write_ok st ?rs ?w" by (rule write_ok_forward [OF _ f]) (use w i(1) in simp)
  then have nw: "write_ok st ?rs (?w\<lparr>pw_applied := insert r (pw_applied ?w)\<rparr>)"
    using new i(2) unfolding write_ok_def by (simp add: subset_insertI2)
  have ow: "\<forall>w \<in> set (kc_writes c). write_ok st ?rs w"
    by (intro ballI write_ok_forward [OF _ f]) (use w in simp)
  have "valid (LocalWrite st (pw_key ?w) (pw_value ?w) (kc_replicas c ! r))"
    using v i(2) by (intro valid_write) simp
  then have vv: "\<forall>s \<in> set ?rs. valid s" by (rule set_update_ball [OF v])
  have "\<forall>w \<in> set ((kc_writes c)[i := ?w\<lparr>pw_applied := insert r (pw_applied ?w)\<rparr>]). write_ok st ?rs w"
    by (rule set_update_ball [OF ow nw])
  then show ?thesis using f p vv unfolding c' cluster_ok_def by (simp del: fun_upd_apply)
qed

lemma ack_ok:
  assumes "kv_step st (KAck i r) c = Some c'" and "cluster_ok st valid c"
  shows "cluster_ok st valid c' \<and> forward st (kc_replicas c) (kc_replicas c')"
proof -
  note v = cluster_okD(1) [OF assms(2)] and w = cluster_okD(2) [OF assms(2)] and p = cluster_okD(3) [OF assms(2)]
  let ?w = "kc_writes c ! i"
  have i: "i < length (kc_writes c)" "r \<in> pw_applied ?w"
    and c': "c' = c\<lparr>kc_writes := (kc_writes c)[i := ?w\<lparr>pw_acked := insert r (pw_acked ?w)\<rparr>]\<rparr>"
    using assms(1) by (auto simp: Let_def split: if_splits)
  have "write_ok st (kc_replicas c) ?w" using w i by simp
  then have "write_ok st (kc_replicas c) (?w\<lparr>pw_acked := insert r (pw_acked ?w)\<rparr>)"
    using i(2) by (simp add: write_ok_def)
  then have "\<forall>w \<in> set ((kc_writes c)[i := ?w\<lparr>pw_acked := insert r (pw_acked ?w)\<rparr>]). write_ok st (kc_replicas c) w"
    by (rule set_update_ball [OF w])
  then show ?thesis using v p unfolding c' cluster_ok_def by simp
qed

lemma read_step_ok:
  assumes "kv_step st (KRead j r) c = Some c'" and "cluster_ok st valid c"
  shows "cluster_ok st valid c' \<and> forward st (kc_replicas c) (kc_replicas c')"
proof -
  note v = cluster_okD(1) [OF assms(2)] and w = cluster_okD(2) [OF assms(2)] and p = cluster_okD(3) [OF assms(2)]
  let ?p = "kc_reads c ! j"
  let ?v = "LocalRead st (pr_key ?p) (kc_replicas c ! r)"
  have j: "j < length (kc_reads c)" "r < length (kc_replicas c)"
    and c': "c' = c\<lparr>kc_reads := (kc_reads c)[j := ?p\<lparr>pr_seen := pr_seen ?p @ [(r, ?v)]\<rparr>]\<rparr>"
    using assms(1) by (auto simp: Let_def split: if_splits)
  have "read_ok (length (kc_replicas c)) ?p" using p j by simp
  then have "read_ok (length (kc_replicas c)) (?p\<lparr>pr_seen := pr_seen ?p @ [(r, ?v)]\<rparr>)"
    using j(2) by (auto simp: read_ok_def)
  then have "\<forall>p \<in> set ((kc_reads c)[j := ?p\<lparr>pr_seen := pr_seen ?p @ [(r, ?v)]\<rparr>]). read_ok (length (kc_replicas c)) p"
    by (rule set_update_ball [OF p])
  then show ?thesis using v w unfolding c' cluster_ok_def by simp
qed

lemma reply_ok:
  assumes "kv_step st (KReply j m) c = Some c'" and "cluster_ok st valid c"
  shows "cluster_ok st valid c' \<and> forward st (kc_replicas c) (kc_replicas c')"
proof -
  note v = cluster_okD(1) [OF assms(2)] and w = cluster_okD(2) [OF assms(2)] and p = cluster_okD(3) [OF assms(2)]
  let ?p = "kc_reads c ! j"
  obtain r x where rx: "pr_seen ?p ! m = (r, x)" by (cases "pr_seen ?p ! m")
  have j: "j < length (kc_reads c)" "m < length (pr_seen ?p)"
    and c': "c' = c \<or> (r \<notin> fst ` set (pr_got ?p) \<and> length (pr_got ?p) < Majority (length (kc_replicas c)) \<and>
      c' = c\<lparr>kc_reads := (kc_reads c)[j := ?p\<lparr>pr_got := pr_got ?p @ [(r, x)]\<rparr>]\<rparr>)"
    using assms(1) rx by (auto simp: Let_def split: if_splits)
  have "(r, x) \<in> set (pr_seen ?p)" using j(2) rx by (metis nth_mem)
  show ?thesis using c'
  proof
    assume "c' = c"
    then show ?thesis using assms(2) by simp
  next
    assume new: "r \<notin> fst ` set (pr_got ?p) \<and> length (pr_got ?p) < Majority (length (kc_replicas c)) \<and>
      c' = c\<lparr>kc_reads := (kc_reads c)[j := ?p\<lparr>pr_got := pr_got ?p @ [(r, x)]\<rparr>]\<rparr>"
    have "read_ok (length (kc_replicas c)) ?p" using p j(1) by simp
    then have "read_ok (length (kc_replicas c)) (?p\<lparr>pr_got := pr_got ?p @ [(r, x)]\<rparr>)"
      using new \<open>(r, x) \<in> set (pr_seen ?p)\<close> by (simp add: read_ok_def)
    then have "\<forall>p \<in> set ((kc_reads c)[j := ?p\<lparr>pr_got := pr_got ?p @ [(r, x)]\<rparr>]). read_ok (length (kc_replicas c)) p"
      by (rule set_update_ball [OF p])
    then show ?thesis using v w new unfolding cluster_ok_def by simp
  qed
qed

lemma kv_step_ok:
  assumes "kv_step st op c = Some c'" and "cluster_ok st valid c"
  shows "cluster_ok st valid c' \<and> forward st (kc_replicas c) (kc_replicas c')"
proof -
  note v = cluster_okD(1) [OF assms(2)] and w = cluster_okD(2) [OF assms(2)] and p = cluster_okD(3) [OF assms(2)]
  show ?thesis
  proof (cases op)
    case (KSet key x wall now)
    then show ?thesis using assms(1) v w p by (auto simp: cluster_ok_def)
  next
    case (KApply i r)
    then show ?thesis using apply_ok assms by blast
  next
    case (KAck i r)
    then show ?thesis using ack_ok assms by blast
  next
    case (KGet key)
    then show ?thesis using assms(1) v w p by (auto simp: cluster_ok_def)
  next
    case (KRead j r)
    then show ?thesis using read_step_ok assms by blast
  next
    case (KReply j m)
    then show ?thesis using reply_ok assms by blast
  next
    case (KReboot r)
    then show ?thesis using reboot_ok assms by blast
  qed
qed

lemma kv_run_ok:
  "kv_run st ops c = Some c' \<Longrightarrow> cluster_ok st valid c \<Longrightarrow> cluster_ok st valid c' \<and> forward st (kc_replicas c) (kc_replicas c')"
proof (induction ops arbitrary: c)
  case (Cons op ops)
  obtain d where d: "kv_step st op c = Some d" "kv_run st ops d = Some c'"
    using Cons.prems(1) by (auto split: option.splits)
  note step = kv_step_ok [OF d(1) Cons.prems(2)]
  have rest: "cluster_ok st valid c' \<and> forward st (kc_replicas d) (kc_replicas c')"
    using Cons.IH [OF d(2)] step by blast
  have "forward st (kc_replicas c) (kc_replicas c')"
    unfolding forward_def
  proof (intro conjI allI impI)
    show "length (kc_replicas c') = length (kc_replicas c)" using step rest by (simp add: forward_def)
    fix r k assume "r < length (kc_replicas c)"
    then have "stamp st k (kc_replicas c ! r) \<le> stamp st k (kc_replicas d ! r)"
      "stamp st k (kc_replicas d ! r) \<le> stamp st k (kc_replicas c' ! r)"
      using step rest by (simp_all add: forward_def)
    then show "stamp st k (kc_replicas c ! r) \<le> stamp st k (kc_replicas c' ! r)" by (rule order_trans)
  qed
  with rest show ?case by simp
qed simp

lemma kv_init_ok: "valid s0 \<Longrightarrow> cluster_ok st valid (kv_init s0 n)"
  by (simp add: cluster_ok_def kv_init_def)

lemma tracked_forward:
  assumes "tracked st A t k j0 c" and "forward st (kc_replicas c) (kc_replicas c')"
  shows "A \<subseteq> {..<length (kc_replicas c')} \<and> (\<forall>r \<in> A. t \<le> stamp st k (kc_replicas c' ! r))"
proof -
  have "t \<le> stamp st k (kc_replicas c' ! r)" if "r \<in> A" for r
  proof -
    have "r < length (kc_replicas c)" using assms(1) that by (auto simp: tracked_def)
    then have "stamp st k (kc_replicas c ! r) \<le> stamp st k (kc_replicas c' ! r)" using assms(2) by (simp add: forward_def)
    moreover have "t \<le> stamp st k (kc_replicas c ! r)" using assms(1) that by (simp add: tracked_def)
    ultimately show ?thesis by simp
  qed
  then show ?thesis using assms by (simp add: tracked_def forward_def)
qed

lemma tracked_update:
  assumes "tracked st A t k j0 c" and "forward st (kc_replicas c) (kc_replicas c')"
    and c': "kc_reads c' = (kc_reads c)[j := p]" and j: "j < length (kc_reads c)" and key: "pr_key p = pr_key (kc_reads c ! j)"
    and seen: "\<And>r v. pr_key p = k \<Longrightarrow> (r, v) \<in> set (pr_seen p) \<Longrightarrow> r \<in> A \<Longrightarrow>
      (r, v) \<in> set (pr_seen (kc_reads c ! j)) \<or> t \<le> sv_timestamp v"
  shows "tracked st A t k j0 c'"
proof -
  note fwd = tracked_forward [OF assms(1,2)]
  have "\<forall>(r, v) \<in> set (pr_seen (kc_reads c' ! i)). r \<in> A \<longrightarrow> t \<le> sv_timestamp v"
    if i: "i \<in> {j0..<length (kc_reads c)}" "pr_key (kc_reads c' ! i) = k" for i
  proof (cases "i = j")
    case True
    have old: "\<forall>(r, v) \<in> set (pr_seen (kc_reads c ! j)). r \<in> A \<longrightarrow> t \<le> sv_timestamp v"
      using assms(1) i key True c' j by (simp add: tracked_def)
    show ?thesis using True c' j i seen old by fastforce
  next
    case False
    then show ?thesis using assms(1) i c' by (simp add: tracked_def)
  qed
  then show ?thesis using fwd assms(1) c' by (simp add: tracked_def)
  qed

lemma tracked_step:
  assumes "kv_step st op c = Some c'" and "cluster_ok st valid c" and "tracked st A t k j0 c"
  shows "tracked st A t k j0 c'"
proof -
  note fwd = tracked_forward [OF assms(3) conjunct2 [OF kv_step_ok [OF assms(1,2)]]]
  have same: "tracked st A t k j0 c'" if "kc_reads c' = kc_reads c"
    using fwd assms(3) that by (simp add: tracked_def)
  note upd = tracked_update [OF assms(3) conjunct2 [OF kv_step_ok [OF assms(1,2)]]]
  show ?thesis
  proof (cases op)
    case (KSet key x wall now)
    then show ?thesis using same assms(1) by auto
  next
    case (KApply i r)
    then show ?thesis using same assms(1) by (auto simp: Let_def split: if_splits)
  next
    case (KAck i r)
    then show ?thesis using same assms(1) by (auto simp: Let_def split: if_splits)
  next
    case (KGet key)
    then have c': "kc_reads c' = kc_reads c @ [Coordinator_Get key]" using assms(1) by auto
    have "\<forall>(r, v) \<in> set (pr_seen (kc_reads c' ! j)). r \<in> A \<longrightarrow> t \<le> sv_timestamp v"
      if j: "j \<in> {j0..<length (kc_reads c')}" and key: "pr_key (kc_reads c' ! j) = k" for j
    proof (cases "j < length (kc_reads c)")
      case True
      then show ?thesis using assms(3) j key c' by (simp add: tracked_def nth_append)
    next
      case False
      then show ?thesis using j c' by (simp add: nth_append Coordinator_Get_def)
    qed
    then show ?thesis using fwd assms(3) c' by (simp add: tracked_def)
  next
    case (KRead j r)
    let ?p = "kc_reads c ! j"
    let ?v = "LocalRead st (pr_key ?p) (kc_replicas c ! r)"
    have j: "j < length (kc_reads c)" "kc_reads c' = (kc_reads c)[j := ?p\<lparr>pr_seen := pr_seen ?p @ [(r, ?v)]\<rparr>]"
      using assms(1) KRead by (auto simp: Let_def split: if_splits)
    show ?thesis using assms(3) by (intro upd [OF j(2,1)]) (auto simp: tracked_def stamp_def)
  next
    case (KReply j m)
    let ?p = "kc_reads c ! j"
    obtain r x where rx: "pr_seen ?p ! m = (r, x)" by (cases "pr_seen ?p ! m")
    have "j < length (kc_reads c)" "kc_reads c' = kc_reads c \<or> kc_reads c' = (kc_reads c)[j := ?p\<lparr>pr_got := pr_got ?p @ [(r, x)]\<rparr>]"
      using assms(1) KReply rx by (auto simp: Let_def split: if_splits)
    then show ?thesis using same upd [of j "?p\<lparr>pr_got := pr_got ?p @ [(r, x)]\<rparr>"] by auto
  next
    case (KReboot r)
    then show ?thesis using same assms(1) by (auto split: if_splits)
  qed
qed

lemma tracked_run:
  "kv_run st ops c = Some c' \<Longrightarrow> cluster_ok st valid c \<Longrightarrow> tracked st A t k j0 c \<Longrightarrow> tracked st A t k j0 c'"
proof (induction ops arbitrary: c)
  case (Cons op ops)
  then show ?case using kv_step_ok tracked_step by (fastforce split: option.splits)
qed simp

end

lemma max_element_spec:
  "max_element v vs \<in> set (v # vs) \<and> (\<forall>x \<in> set (v # vs). sv_timestamp x \<le> sv_timestamp (max_element v vs))"
proof (induction vs arbitrary: v)
  case (Cons u us)
  let ?m = "if sv_timestamp v < sv_timestamp u then u else v"
  have "sv_timestamp v \<le> sv_timestamp ?m" "sv_timestamp u \<le> sv_timestamp ?m" by auto
  moreover have "sv_timestamp ?m \<le> sv_timestamp (max_element ?m us)" using Cons [of ?m] by simp
  ultimately have "sv_timestamp v \<le> sv_timestamp (max_element ?m us)" "sv_timestamp u \<le> sv_timestamp (max_element ?m us)"
    by (blast intro: order_trans)+
  then show ?case using Cons [of ?m] by (auto split: if_splits)
qed simp

lemma FindMostRecent_spec:
  assumes "FindMostRecent vs = Inr m"
  shows "m \<in> set vs" "x \<in> set vs \<Longrightarrow> sv_timestamp x \<le> sv_timestamp m"
proof -
  obtain v us where vs: "vs = v # us" "m = max_element v us" using assms by (auto simp: FindMostRecent_def split: list.splits)
  then show "m \<in> set vs" "x \<in> set vs \<Longrightarrow> sv_timestamp x \<le> sv_timestamp m" using max_element_spec [of v us] by auto
qed

context stamped_store
begin

lemma genuine_apply:
  assumes "kv_step st (KApply i r) c = Some c'" and "\<forall>s \<in> set (kc_replicas c). valid s" and "genuine st c"
  shows "genuine st c'"
proof -
  have rep: "LocalRead st k s \<in> issued c k" if "s \<in> set (kc_replicas c)" for s k
    using assms(3) that by (simp add: genuine_def)
  have seen: "\<forall>p \<in> set (kc_reads c). snd ` set (pr_seen p) \<subseteq> issued c (pr_key p)"
    using assms(3) by (simp add: genuine_def)
  let ?w = "kc_writes c ! i"
  let ?s = "LocalWrite st (pw_key ?w) (pw_value ?w) (kc_replicas c ! r)"
  have i: "i < length (kc_writes c)" "r < length (kc_replicas c)"
    and c': "c' = c\<lparr>kc_replicas := (kc_replicas c)[r := ?s], kc_writes := (kc_writes c)[i := ?w\<lparr>pw_applied := insert r (pw_applied ?w)\<rparr>]\<rparr>"
    using assms(1) by (auto simp: Let_def split: if_splits)
  have iss: "issued c' = issued c"
    using i by (intro issued_same) (simp add: c' map_update list_update_same_conv)
  have v: "valid (kc_replicas c ! r)" using assms(2) i(2) by simp
  have "LocalRead st k ?s \<in> issued c k" for k
  proof -
    have "pw_value ?w \<in> issued c (pw_key ?w)" using i(1) by (auto simp: issued_def)
    then show ?thesis using read_write [OF v, of k "pw_key ?w" "pw_value ?w"] rep [of "kc_replicas c ! r" k] i(2) by auto
  qed
  then have "\<forall>s \<in> set ((kc_replicas c)[r := ?s]). \<forall>k. LocalRead st k s \<in> issued c k"
    by (intro set_update_ball) (use rep in auto)
  then show ?thesis using seen unfolding genuine_def iss by (simp add: c')
qed

lemma genuine_read:
  assumes g: "genuine st c" and q: "snd ` set (pr_seen q) \<subseteq> issued c (pr_key q)"
  shows "genuine st (c\<lparr>kc_reads := (kc_reads c)[j := q]\<rparr>)"
proof -
  have "\<forall>p \<in> set (kc_reads c). snd ` set (pr_seen p) \<subseteq> issued c (pr_key p)" using g by (simp add: genuine_def)
  from set_update_ball [OF this q]
  have "\<forall>p \<in> set ((kc_reads c)[j := q]). snd ` set (pr_seen p) \<subseteq> issued c (pr_key p)" .
  then show ?thesis using g issued_same [of "c\<lparr>kc_reads := (kc_reads c)[j := q]\<rparr>" c] by (simp add: genuine_def)
qed

lemma genuine_reboot:
  assumes g: "genuine st c" and v: "\<forall>s \<in> set (kc_replicas c). valid s" and r: "r < length (kc_replicas c)"
  shows "genuine st (c\<lparr>kc_replicas := (kc_replicas c)[r := KVNodeMain st (kc_replicas c ! r)]\<rparr>)" (is "genuine st ?c")
proof -
  have "\<forall>s \<in> set ((kc_replicas c)[r := KVNodeMain st (kc_replicas c ! r)]). \<forall>k. LocalRead st k s \<in> issued c k"
    using r g v by (intro set_update_ball) (auto simp: read_reboot genuine_def)
  then show ?thesis using g issued_same [of ?c c] by (simp add: genuine_def)
qed

lemma genuine_step:
  assumes step: "kv_step st op c = Some c'" and v: "\<forall>s \<in> set (kc_replicas c). valid s" and g: "genuine st c"
  shows "genuine st c'"
proof (cases op)
  case (KSet key x wall now)
  let ?c = "c\<lparr>kc_writes := kc_writes c @ [Coordinator_Set key x wall now]\<rparr>"
  have "c' = ?c" using step KSet by simp
  moreover have "issued c k \<subseteq> issued ?c k" for k by simp
  ultimately show ?thesis using g by (simp add: genuine_def del: issued_append) blast
next
  case (KApply i r)
  show ?thesis by (rule genuine_apply [OF step [unfolded KApply] v g])
next
  case (KAck i r)
  then have "issued c' = issued c" "kc_replicas c' = kc_replicas c" "kc_reads c' = kc_reads c"
    using step by (auto simp: Let_def map_update list_update_same_conv intro!: issued_same split: if_splits)
  then show ?thesis using g by (simp add: genuine_def)
next
  case (KGet key)
  then have "kc_reads c' = kc_reads c @ [Coordinator_Get key]" "kc_replicas c' = kc_replicas c" "issued c' = issued c"
    using step by (auto intro!: issued_same)
  then show ?thesis using g by (auto simp: genuine_def Coordinator_Get_def)
next
  case (KRead j r)
  let ?p = "kc_reads c ! j"
  let ?q = "?p\<lparr>pr_seen := pr_seen ?p @ [(r, LocalRead st (pr_key ?p) (kc_replicas c ! r))]\<rparr>"
  have j: "j < length (kc_reads c)" "r < length (kc_replicas c)" "c' = c\<lparr>kc_reads := (kc_reads c)[j := ?q]\<rparr>"
    using step KRead by (auto simp: Let_def split: if_splits)
  have "snd ` set (pr_seen ?q) \<subseteq> issued c (pr_key ?q)" using g j by (auto simp: genuine_def)
  from genuine_read [OF g this, of j] show ?thesis by (simp add: j(3))
next
  case (KReply j m)
  let ?p = "kc_reads c ! j"
  obtain r x where rx: "pr_seen ?p ! m = (r, x)" by (cases "pr_seen ?p ! m")
  let ?q = "?p\<lparr>pr_got := pr_got ?p @ [(r, x)]\<rparr>"
  have j: "j < length (kc_reads c)" "c' = c \<or> c' = c\<lparr>kc_reads := (kc_reads c)[j := ?q]\<rparr>"
    using step KReply rx by (auto simp: Let_def split: if_splits)
  have "snd ` set (pr_seen ?q) \<subseteq> issued c (pr_key ?q)" using g j(1) by (simp add: genuine_def)
  from genuine_read [OF g this, of j] show ?thesis using j(2) g by auto
next
  case (KReboot r)
  then have "r < length (kc_replicas c)"
    and "c' = c\<lparr>kc_replicas := (kc_replicas c)[r := KVNodeMain st (kc_replicas c ! r)]\<rparr>"
    using step by (auto split: if_splits)
  then show ?thesis using genuine_reboot [OF g v] by simp
qed

lemma genuine_run:
  "kv_run st ops c = Some c' \<Longrightarrow> cluster_ok st valid c \<Longrightarrow> genuine st c \<Longrightarrow> genuine st c'"
proof (induction ops arbitrary: c)
  case (Cons op ops)
  obtain d where d: "kv_step st op c = Some d" "kv_run st ops d = Some c'"
    using Cons.prems(1) by (auto split: option.splits)
  have "genuine st d" using genuine_step [OF d(1)] Cons.prems(2,3) by (simp add: cluster_ok_def)
  then show ?case using Cons.IH [OF d(2)] kv_step_ok [OF d(1) Cons.prems(2)] by blast
qed simp

lemma genuine_init:
  assumes "valid s0" and "\<And>k. TryGet st k s0 = None"
  shows "genuine st (kv_init s0 n)"
  using assms by (auto simp: genuine_def kv_init_def issued_def LocalRead_def get_or)

text \<open>A read that starts when a write is done returns a value that is at least as recent.\<close>

lemma read_after_write:
  assumes s0: "valid s0" "\<And>k. TryGet st k s0 = None" and run1: "kv_run st ops1 (kv_init s0 n) = Some c1"
    and i: "i < length (kc_writes c1)" "Set_done n (kc_writes c1 ! i)"
    and run2: "kv_run st ops2 c1 = Some c2"
    and j: "j \<in> {length (kc_reads c1)..<length (kc_reads c2)}" "pr_key (kc_reads c2 ! j) = pw_key (kc_writes c1 ! i)"
    and res: "Get_result n (kc_reads c2 ! j) = Some out"
  shows "\<exists>v. out = Inr v \<and> sv_timestamp (pw_value (kc_writes c1 ! i)) \<le> sv_timestamp v \<and>
    v \<in> issued c2 (pw_key (kc_writes c1 ! i))"
proof -
  let ?w = "kc_writes c1 ! i" and ?p = "kc_reads c2 ! j"
  have init: "cluster_ok st valid (kv_init s0 n)" by (rule kv_init_ok [OF s0(1)])
  have n0: "length (kc_replicas (kv_init s0 n)) = n" by (simp add: kv_init_def)
  note r1 = kv_run_ok [OF run1 init]
  note r2 = kv_run_ok [OF run2 conjunct1 [OF r1]]
  have n: "length (kc_replicas c1) = n" "length (kc_replicas c2) = n" using r1 r2 n0 by (simp_all add: forward_def)
  have w: "write_ok st (kc_replicas c1) ?w" using r1 i(1) by (simp add: cluster_ok_def)
  have "tracked st (pw_acked ?w) (sv_timestamp (pw_value ?w)) (pw_key ?w) (length (kc_reads c1)) c1"
    using w by (auto simp: tracked_def write_ok_def)
  from tracked_run [OF run2 conjunct1 [OF r1] this]
  have seen: "\<forall>(r, v) \<in> set (pr_seen ?p). r \<in> pw_acked ?w \<longrightarrow> sv_timestamp (pw_value ?w) \<le> sv_timestamp v"
    using j by (simp add: tracked_def)
  have p: "read_ok n ?p" using r2 j(1) n(2) by (simp add: cluster_ok_def)
  have got: "Majority n \<le> length (pr_got ?p)" "out = FindMostRecent (map snd (pr_got ?p))"
    using res by (auto simp: Get_result_def split: if_splits)
  then obtain v where v: "out = Inr v" by (cases "pr_got ?p") (auto simp: Majority_def FindMostRecent_def)
  have recent: "v \<in> set (map snd (pr_got ?p))" "\<And>x. x \<in> set (map snd (pr_got ?p)) \<Longrightarrow> sv_timestamp x \<le> sv_timestamp v"
    using FindMostRecent_spec [of "map snd (pr_got ?p)" v] got(2) v by auto
  have W: "majority_of n (pw_acked ?w)" using w i(2) n(1) by (auto simp: majority_of_def write_ok_def Set_done_def)
  have R: "majority_of n (fst ` set (pr_got ?p))"
    using p got(1) distinct_card [of "map fst (pr_got ?p)"] by (auto simp: majority_of_def read_ok_def)
  obtain r where r: "r \<in> pw_acked ?w" "r \<in> fst ` set (pr_got ?p)" using majority.intersect [OF W R] by blast
  then obtain x where x: "(r, x) \<in> set (pr_got ?p)" by auto
  then have "(r, x) \<in> set (pr_seen ?p)" using p by (auto simp: read_ok_def)
  then have "sv_timestamp (pw_value ?w) \<le> sv_timestamp x" using seen r(1) by auto
  also have "\<dots> \<le> sv_timestamp v" using recent(2) x by force
  finally have "sv_timestamp (pw_value ?w) \<le> sv_timestamp v" .
  moreover have "genuine st c2" using genuine_run [OF run2] genuine_run [OF run1 init genuine_init [OF s0]] r1 by blast
  then have "snd ` set (pr_seen ?p) \<subseteq> issued c2 (pr_key ?p)" using j(1) by (simp add: genuine_def)
  then have "v \<in> issued c2 (pw_key ?w)" using recent(1) p j(2) by (auto simp: read_ok_def)
  ultimately show ?thesis using v by blast
qed

end

section \<open>Properties\<close>

text \<open>C6. Reads see completed writes. However often the calls are repeated, reordered or lost and replicas reboot, a \<open>Get\<close> that
  starts after a \<open>Set\<close> of the same key has returned never aborts, and when it returns, its result is a value
  that was issued for the key (or the initial one) with a time stamp no smaller than the one of the \<open>Set\<close>: any
  two majorities intersect, and no replica ever goes back to a smaller stamp, not even when it crashes and reboots. The local stores are any that
  satisfy the laws of a map that survives reboots.\<close>

theorem kv_read_after_write:
  assumes "stamped_store st valid" and "valid s0" and "\<And>k. TryGet st k s0 = None"
    and "kv_run st ops1 (kv_init s0 n) = Some c1" and "i < length (kc_writes c1)"
    and "Set_done n (kc_writes c1 ! i)" and "kv_run st ops2 c1 = Some c2"
    and "j \<in> {length (kc_reads c1)..<length (kc_reads c2)}"
    and "pr_key (kc_reads c2 ! j) = pw_key (kc_writes c1 ! i)"
    and "Get_result n (kc_reads c2 ! j) = Some out"
  shows "\<exists>v. out = Inr v \<and> sv_timestamp (pw_value (kc_writes c1 ! i)) \<le> sv_timestamp v \<and>
    v \<in> issued c2 (pw_key (kc_writes c1 ! i))"
  by (rule stamped_store.read_after_write [OF assms])

text \<open>Runs over three replicas: a write acknowledged by the first two, and a read at two replicas.\<close>

definition write_ops :: "nat \<Rightarrow> string \<Rightarrow> wall_clock \<Rightarrow> time_point \<Rightarrow> kv_op list" where
  "write_ops i v wall now = [KSet ''x'' v wall now, KApply i 0, KApply i 1, KAck i 0, KAck i 1]"

definition read_ops :: "nat \<Rightarrow> nat \<Rightarrow> nat \<Rightarrow> kv_op list" where
  "read_ops j a b = [KGet ''x'', KRead j a, KRead j b, KReply j 0, KReply j 1]"

lemmas kv_run_simps = kv_init_def Coordinator_Set_def Coordinator_Get_def LocalWrite_def LocalRead_def
  Replica_Update_def map_store_def ChooseWriteTimestamp_def WallClock_Now_def Majority_def
  less_write_timestamp_def WriteTimestamp_less_def Set_done_def Get_result_def FindMostRecent_def WriteTimestamp_Min_def
  write_ops_def read_ops_def

theorem kv_read_after_write_witness:
  "\<exists>c1 c2. kv_run map_store (write_ops 0 ''a'' 0 10) (kv_init [] 3) = Some c1 \<and>
     kv_run map_store (read_ops 0 1 2) c1 = Some c2 \<and>
     Get_result 3 (kc_reads c2 ! 0) = Some (Inr \<lparr>sv_value = ''a'', sv_timestamp = WriteTimestamp 10\<rparr>) \<and>
     \<lparr>sv_value = ''a'', sv_timestamp = WriteTimestamp 10\<rparr> \<in> issued c2 ''x''"
proof -
  obtain c1 where c1: "kv_run map_store (write_ops 0 ''a'' 0 10) (kv_init [] 3) = Some c1"
    "length (kc_writes c1) = 1" "Set_done 3 (kc_writes c1 ! 0)" "pw_key (kc_writes c1 ! 0) = ''x''" "kc_reads c1 = []"
    "kv_run map_store (read_ops 0 1 2) c1 \<noteq> None \<and> (\<forall>c2. kv_run map_store (read_ops 0 1 2) c1 = Some c2 \<longrightarrow>
      length (kc_reads c2) = 1 \<and> pr_key (kc_reads c2 ! 0) = ''x'' \<and>
      Get_result 3 (kc_reads c2 ! 0) = Some (Inr \<lparr>sv_value = ''a'', sv_timestamp = WriteTimestamp 10\<rparr>))"
    by (simp add: kv_run_simps)
  then obtain c2 where c2: "kv_run map_store (read_ops 0 1 2) c1 = Some c2" "length (kc_reads c2) = 1"
    "pr_key (kc_reads c2 ! 0) = ''x''"
    "Get_result 3 (kc_reads c2 ! 0) = Some (Inr \<lparr>sv_value = ''a'', sv_timestamp = WriteTimestamp 10\<rparr>)" by blast
  have "TryGet map_store k [] = None" for k by (simp add: map_store_def)
  from kv_read_after_write [OF map_store.stamped_store_axioms om_ok_Nil this c1(1) _ _ c2(1) _ _ c2(4), of 0] c1 c2
  show ?thesis by auto
qed

text \<open>The calls of clients as the checker sees them: one-character keys, the arguments of a set are the key and
  the value.\<close>

definition text_codec :: "(string, string) kv_codec" where
  "text_codec = \<lparr>
     As_K = (\<lambda>b. Some b),
     As_KV = (\<lambda>b. case b of [] \<Rightarrow> None | k # v \<Rightarrow> Some ([k], v)),
     As_KVV = (\<lambda>b. None),
     MakeValue = (\<lambda>v. v), MakeUnit = [], DefaultValue = []\<rparr>"

definition client_set :: "string \<Rightarrow> time_point \<Rightarrow> time_point option \<Rightarrow> call" where
  "client_set v s e = \<lparr>call_method = ''Set'', arguments = ''x'' @ v, result = map_option (\<lambda>_. []) e,
     start_time = s, end_time = e, labels = []\<rparr>"

definition client_get :: "string \<Rightarrow> time_point \<Rightarrow> time_point \<Rightarrow> call" where
  "client_get v s e = \<lparr>call_method = ''Get'', arguments = ''x'', result = Some v, start_time = s,
     end_time = Some e, labels = []\<rparr>"

lemmas kv_check_simps = search_eval client_set_def client_get_def KVStoreModel_Apply_def as_args_def
  KVStoreModel_IsMutation_def KVStoreModel_Decompose_def text_codec_def KVStoreState_Set_def
  KVStoreState_Get_def atLeast0_lessThan_Suc



text \<open>With time stamps that respect the order of the writes the store is regular: if a write of the key is done
  before the read starts and every other value issued for the key has a smaller stamp, the read returns exactly
  the value of that write.\<close>

theorem kv_latest_write:
  assumes "stamped_store st valid" and "valid s0" and "\<And>k. TryGet st k s0 = None"
    and "kv_run st ops1 (kv_init s0 n) = Some c1" and "i < length (kc_writes c1)"
    and "Set_done n (kc_writes c1 ! i)" and "kv_run st ops2 c1 = Some c2"
    and "j \<in> {length (kc_reads c1)..<length (kc_reads c2)}"
    and "pr_key (kc_reads c2 ! j) = pw_key (kc_writes c1 ! i)"
    and "Get_result n (kc_reads c2 ! j) = Some out"
    and "\<And>v. v \<in> issued c2 (pw_key (kc_writes c1 ! i)) \<Longrightarrow> v \<noteq> pw_value (kc_writes c1 ! i) \<Longrightarrow>
      sv_timestamp v < sv_timestamp (pw_value (kc_writes c1 ! i))"
  shows "out = Inr (pw_value (kc_writes c1 ! i))"
  using stamped_store.read_after_write [OF assms(1-10)] assms(11) by (metis leD)

theorem kv_latest_write_witness:
  "\<exists>c1 c2. kv_run map_store (write_ops 0 ''a'' 0 10) (kv_init [] 3) = Some c1 \<and>
     kv_run map_store (read_ops 0 1 2) c1 = Some c2 \<and>
     Get_result 3 (kc_reads c2 ! 0) = Some (Inr (pw_value (kc_writes c1 ! 0)))"
proof -
  obtain c1 where c1: "kv_run map_store (write_ops 0 ''a'' 0 10) (kv_init [] 3) = Some c1"
    "length (kc_writes c1) = 1" "Set_done 3 (kc_writes c1 ! 0)" "pw_key (kc_writes c1 ! 0) = ''x''" "kc_reads c1 = []"
    "kv_run map_store (read_ops 0 1 2) c1 \<noteq> None \<and> (\<forall>c2. kv_run map_store (read_ops 0 1 2) c1 = Some c2 \<longrightarrow>
      length (kc_reads c2) = 1 \<and> pr_key (kc_reads c2 ! 0) = ''x'' \<and> Get_result 3 (kc_reads c2 ! 0) \<noteq> None \<and>
      (\<forall>v \<in> issued c2 ''x''. v \<noteq> pw_value (kc_writes c1 ! 0) \<longrightarrow> sv_timestamp v < sv_timestamp (pw_value (kc_writes c1 ! 0))))"
    by (simp add: kv_run_simps issued_def)
  then obtain c2 out where c2: "kv_run map_store (read_ops 0 1 2) c1 = Some c2" "length (kc_reads c2) = 1"
    "pr_key (kc_reads c2 ! 0) = ''x''" "Get_result 3 (kc_reads c2 ! 0) = Some out"
    "\<forall>v \<in> issued c2 ''x''. v \<noteq> pw_value (kc_writes c1 ! 0) \<longrightarrow> sv_timestamp v < sv_timestamp (pw_value (kc_writes c1 ! 0))"
    by blast
  have "TryGet map_store k [] = None" for k by (simp add: map_store_def)
  from kv_latest_write [OF map_store.stamped_store_axioms om_ok_Nil this c1(1) _ _ c2(1) _ _ c2(4), of 0] c1 c2
  show ?thesis by auto
qed

end
