(* ===== verification/Runner.thy ===== *)
theory Runner
  imports Prelude
begin

text \<open>
  The test runner (\<open>test/runner.{hpp,cpp}\<close>, \<open>test/main.cpp\<close>, \<open>test/event_log.cpp\<close>, \<open>test/random.hpp\<close>).
  The streams are lists of lines, a call of \<open>std::exit\<close> ends the run with the streams written so far. The
  engine \<open>std::mt19937\<close> is a function of its seed and the number of draws, \<open>std::filesystem\<close> a record
  of functions, and the simulation a function of its seed that may use the runner and a state \<open>'g\<close> of the
  process. The progress bar and the emoticons are left out.
\<close>

section \<open>Random parameters\<close>

text \<open>An engine and the number of values drawn from it.\<close>

type_synonym twister = "(nat \<Rightarrow> u32) \<times> nat"

definition Random :: "(u64 \<Rightarrow> nat \<Rightarrow> u32) \<Rightarrow> u64 \<Rightarrow> twister" where
  "Random mt19937 seed = (mt19937 seed, 0)"

definition Random_Generate :: "twister \<Rightarrow> u64 \<times> twister" where
  "Random_Generate t = (ucast (fst t (snd t)), (fst t, Suc (snd t)))"

definition Random_Get :: "u64 \<Rightarrow> u64 \<Rightarrow> twister \<Rightarrow> u64 \<times> twister" where
  "Random_Get min_value max_value t =
     (let (g, t) = Random_Generate t in (min_value + g mod (max_value - min_value + 1), t))"

definition Random_Maybe :: "u64 \<Rightarrow> twister \<Rightarrow> bool \<times> twister" where
  "Random_Maybe n t = (let (g, t) = Random_Generate t in (g mod n = 0, t))"

section \<open>The event log\<close>

definition kHeadLines :: nat where "kHeadLines = 100"
definition kTailLines :: nat where "kTailLines = 256"
definition kLinesLimit :: nat where "kLinesLimit = kHeadLines + kTailLines"

definition WriteTextLog :: "('e \<Rightarrow> string) \<Rightarrow> 'e list \<Rightarrow> string list" where
  "WriteTextLog FormatLogEvent evs =
     (if length evs \<le> kLinesLimit then map FormatLogEvent evs
      else map (\<lambda>i. FormatLogEvent (evs ! i)) [0..<kHeadLines] @
        [''... ('' @ show_nat (length evs - kLinesLimit) @ '' lines skipped)''] @
        map (\<lambda>i. FormatLogEvent (evs ! i)) [length evs - kTailLines..<length evs])"

section \<open>The runner\<close>

record runner =
  r_verbose :: bool
  r_log_path :: "string option"
  r_trace_path :: "string option"
  r_sink :: "string list"
  r_active :: bool
  r_stdout :: "string list"
  r_stderr :: "string list"
  r_log_file :: "string list"

definition TestRunner :: runner where
  "TestRunner = \<lparr>r_verbose = True, r_log_path = None, r_trace_path = None, r_sink = [], r_active = False,
     r_stdout = [], r_stderr = [], r_log_file = []\<rparr>"

datatype outcome = Exit nat | Abort error

text \<open>\<open>Inl\<close>: the process has ended.\<close>

type_synonym ('a, 'g) run = "runner \<times> 'g \<Rightarrow> (outcome \<times> runner) + ('a \<times> runner \<times> 'g)"

definition run_return :: "'a \<Rightarrow> ('a, 'g) run" where
  "run_return x s = Inr (x, s)"

definition run_bind :: "('a, 'g) run \<Rightarrow> ('a \<Rightarrow> ('b, 'g) run) \<Rightarrow> ('b, 'g) run" where
  "run_bind m f s = (case m s of Inl e \<Rightarrow> Inl e | Inr (x, s) \<Rightarrow> f x s)"

definition run_update :: "(runner \<Rightarrow> runner) \<Rightarrow> (unit, 'g) run" where
  "run_update f s = Inr ((), f (fst s), snd s)"

definition run_end :: "outcome \<Rightarrow> ('a, 'g) run" where
  "run_end e s = Inl (e, fst s)"

definition run_res :: "'a res \<Rightarrow> ('a, 'g) run" where
  "run_res r = (case r of Inl e \<Rightarrow> run_end (Abort e) | Inr x \<Rightarrow> run_return x)"

definition run_when :: "bool \<Rightarrow> (unit, 'g) run \<Rightarrow> (unit, 'g) run" where
  "run_when b m = (if b then m else run_return ())"

definition run_option :: "'a option \<Rightarrow> ('a \<Rightarrow> (unit, 'g) run) \<Rightarrow> (unit, 'g) run" where
  "run_option x f = (case x of None \<Rightarrow> run_return () | Some a \<Rightarrow> f a)"

definition BeVerbose :: "runner \<Rightarrow> runner" where
  "BeVerbose r = r\<lparr>r_verbose := True\<rparr>"

definition BeQuiet :: "runner \<Rightarrow> runner" where
  "BeQuiet r = r\<lparr>r_verbose := False\<rparr>"

definition Report :: "string \<Rightarrow> runner \<Rightarrow> runner" where
  "Report line r = r\<lparr>r_stdout := r_stdout r @ [line]\<rparr>"

definition Verbose :: "string \<Rightarrow> runner \<Rightarrow> runner" where
  "Verbose line r = (if r_verbose r then Report line r else r\<lparr>r_sink := r_sink r @ [line]\<rparr>)"

definition Runner_Access :: "(unit, 'g) run" where
  "Runner_Access s = (if r_active (fst s) then run_return () s
     else run_end (Abort (Panic ''Not in simulation context'')) s)"

definition Runner_Fail :: "('a, 'g) run" where
  "Runner_Fail = run_bind (run_update (Report ''FAIL'')) (\<lambda>_. run_end (Exit 1))"

definition Runner_FailWith :: "string \<Rightarrow> ('a, 'g) run" where
  "Runner_FailWith reason = run_bind (run_update (Report reason)) (\<lambda>_. Runner_Fail)"

definition Congratulate :: "(unit, 'g) run" where
  "Congratulate = run_bind (run_update (Report '''')) (\<lambda>_. run_update (Report ''Looks good!''))"

definition Runner_Panic :: "string \<Rightarrow> ('a, 'g) run" where
  "Runner_Panic reason =
     run_bind (run_update (\<lambda>r. r\<lparr>r_stderr := r_stderr r @ [''Whirl test runner FAILED: '' @ reason]\<rparr>)) (\<lambda>_. run_end (Exit 1))"

definition Runner_Cleanup :: "runner \<Rightarrow> runner" where
  "Runner_Cleanup r = r\<lparr>r_sink := []\<rparr>"

definition RunSimulation :: "(u64 \<Rightarrow> (u64, 'g) run) \<Rightarrow> u64 \<Rightarrow> (u64, 'g) run" where
  "RunSimulation sim seed =
     run_bind (run_update (\<lambda>r. r\<lparr>r_active := True\<rparr>)) (\<lambda>_.
     run_bind (sim seed) (\<lambda>digest.
     run_bind (run_update (\<lambda>r. r\<lparr>r_active := False\<rparr>)) (\<lambda>_.
     run_bind (run_update Runner_Cleanup) (\<lambda>_. run_return digest))))"

definition kSeed :: u64 where "kSeed = 104107713"

definition TestDeterminism :: "('g \<Rightarrow> u64) \<Rightarrow> (u64 \<Rightarrow> (u64, 'g) run) \<Rightarrow> (unit, 'g) run" where
  "TestDeterminism GlobalAllocsCheckSum sim =
     run_bind (run_update (Verbose (''Test determinism with seed '' @ show_nat (unat kSeed) @ '':''))) (\<lambda>_.
     run_bind (RunSimulation sim kSeed) (\<lambda>digest1.
     run_bind (\<lambda>s. Inr (GlobalAllocsCheckSum (snd s), s)) (\<lambda>allocs_checksum_1.
     run_bind (RunSimulation sim kSeed) (\<lambda>digest2.
     run_bind (\<lambda>s. Inr (GlobalAllocsCheckSum (snd s), s)) (\<lambda>allocs_checksum_2.
       if digest1 \<noteq> digest2 then
         run_bind (run_update (Report (''Simulation is not deterministic: digest = '' @ show_nat (unat digest1) @
           '', digest2 = {}'' @ show_nat (unat digest2)))) (\<lambda>_. Runner_Fail)
       else if allocs_checksum_1 \<noteq> allocs_checksum_2 then
         run_bind (run_update (Report ''Global allocator checksums mismatch'')) (\<lambda>_. Runner_Fail)
       else run_update (Report ''Determinism test is OK''))))))"

fun run_simulations :: "(u64 \<Rightarrow> (u64, 'g) run) \<Rightarrow> nat \<Rightarrow> u64 list \<Rightarrow> (unit, 'g) run" where
  "run_simulations sim i [] = run_return ()"
| "run_simulations sim i (seed # seeds) =
     run_bind (\<lambda>s. if r_verbose (fst s) then run_update (Verbose (''Simulation '' @ show_nat i @ ''...'')) s
                   else run_return () s) (\<lambda>_.
     run_bind (RunSimulation sim seed) (\<lambda>digest. run_simulations sim (Suc i) seeds))"

definition RunSimulations ::
    "(u32 \<Rightarrow> nat \<Rightarrow> u32) \<Rightarrow> (u64 \<Rightarrow> (u64, 'g) run) \<Rightarrow> nat \<Rightarrow> u32 \<Rightarrow> (unit, 'g) run" where
  "RunSimulations mt19937 sim n seq_seed =
     run_bind (run_update (Report (''Run '' @ show_nat n @ '' simulations...''))) (\<lambda>_.
       run_simulations sim 1 (map (\<lambda>i. ucast (mt19937 seq_seed i)) [0..<n]))"

definition RunSingleSimulation :: "(u64 \<Rightarrow> (u64, 'g) run) \<Rightarrow> u64 \<Rightarrow> (unit, 'g) run" where
  "RunSingleSimulation sim seed =
     run_bind (run_update (Report (''Run single simulation with seed = '' @ show_nat (unat seed)))) (\<lambda>_.
     run_bind (RunSimulation sim seed) (\<lambda>digest.
       run_update (Report (''Simulation digest = '' @ show_nat (unat digest)))))"

section \<open>Files of the runner\<close>

record fs_env =
  fs_is_absolute :: "string \<Rightarrow> bool"
  fs_has_parent_path :: "string \<Rightarrow> bool"
  fs_parent_path :: "string \<Rightarrow> string"
  fs_exists :: "string \<Rightarrow> bool"
  fs_is_directory :: "string \<Rightarrow> bool"
  fs_is_regular_file :: "string \<Rightarrow> bool"
  fs_writable :: "string \<Rightarrow> bool"
  fs_show :: "string \<Rightarrow> string"

definition CheckLogPath :: "fs_env \<Rightarrow> string \<Rightarrow> (unit, 'g) run" where
  "CheckLogPath fs p =
     (let parent_dir = fs_parent_path fs p in
      if \<not> fs_is_absolute fs p then Runner_Panic (''Absolute path expected: '' @ fs_show fs p)
      else if \<not> fs_has_parent_path fs p then Runner_Panic (''No parent path: '' @ fs_show fs p)
      else if \<not> fs_exists fs parent_dir then Runner_Panic (''Directory does not exist: '' @ fs_show fs parent_dir)
      else if \<not> fs_is_directory fs parent_dir
        then Runner_Panic (''Parent path does not refer to a directory: '' @ fs_show fs parent_dir)
      else if fs_exists fs p \<and> \<not> fs_is_regular_file fs p then Runner_Panic (''Regular file expected: '' @ fs_show fs p)
      else run_return ())"

definition WriteLogHeader :: "fs_env \<Rightarrow> string \<Rightarrow> (unit, 'g) run" where
  "WriteLogHeader fs p =
     (if fs_writable fs p then run_update (\<lambda>r. r\<lparr>r_log_file := [''Whirl simulator log'']\<rparr>)
      else run_end (Abort (Panic (''Failed to open '' @ fs_show fs p))))"

text \<open>\<open>resize_file\<close> throws when the file cannot be written.\<close>

definition ResetLogFile :: "fs_env \<Rightarrow> string \<Rightarrow> (unit, 'g) run" where
  "ResetLogFile fs p =
     run_bind (if fs_exists fs p
               then if fs_writable fs p then run_update (\<lambda>r. r\<lparr>r_log_file := []\<rparr>)
                    else run_end (Abort (Thrown ''filesystem_error''))
               else run_return ()) (\<lambda>_.
     run_bind (WriteLogHeader fs p) (\<lambda>_.
       run_update (Report (''Log file: '' @ fs_show fs p))))"

definition Runner_WriteLogTo :: "fs_env \<Rightarrow> string \<Rightarrow> (unit, 'g) run" where
  "Runner_WriteLogTo fs p =
     run_bind (CheckLogPath fs p) (\<lambda>_.
     run_bind (run_update (\<lambda>r. r\<lparr>r_log_path := Some p\<rparr>)) (\<lambda>_. ResetLogFile fs p))"

definition Runner_WriteTraceTo :: "fs_env \<Rightarrow> string \<Rightarrow> (unit, 'g) run" where
  "Runner_WriteTraceTo fs p =
     run_bind (CheckLogPath fs p) (\<lambda>_. run_update (\<lambda>r. r\<lparr>r_trace_path := Some p\<rparr>))"

section \<open>The command line\<close>

text \<open>\<open>istringstream >> size_t\<close>: blanks, a sign, digits; a number out of range gives the largest one, no digits
  give 0, and an input of blanks only leaves the variable uninitialised.\<close>

definition read_size :: "string \<Rightarrow> u64" where
  "read_size ds = (let v = digits_value (takeWhile is_digit ds) in if v < 2 ^ 64 then of_nat v else - 1)"

definition FromString :: "string \<Rightarrow> u64 res" where
  "FromString str = (case dropWhile is_space str of
       [] \<Rightarrow> Inl (Undefined ''uninitialised value'')
     | c # cs \<Rightarrow> Inr (if c = CHR ''-'' then if digits_value (takeWhile is_digit cs) < 2 ^ 64 then - read_size cs else - 1
                       else if c = CHR ''+'' then read_size cs else read_size (c # cs)))"

text \<open>The arguments the parser of the command line has accepted.\<close>

record parsed_args =
  arg_det :: bool
  arg_sims :: "string option"
  arg_seed :: "string option"
  arg_log :: "string option"
  arg_trace :: "string option"
  arg_quiet :: bool

definition Main ::
    "fs_env \<Rightarrow> (u32 \<Rightarrow> nat \<Rightarrow> u32) \<Rightarrow> ('g \<Rightarrow> u64) \<Rightarrow> parsed_args \<Rightarrow> (u64 \<Rightarrow> (u64, 'g) run) \<Rightarrow> (nat, 'g) run" where
  "Main fs mt19937 GlobalAllocsCheckSum args sim =
     run_bind (run_update (\<lambda>_. TestRunner)) (\<lambda>_.
     run_bind (run_option (arg_log args) (Runner_WriteLogTo fs)) (\<lambda>_.
     run_bind (run_option (arg_trace args) (Runner_WriteTraceTo fs)) (\<lambda>_.
     run_bind (run_when (arg_quiet args) (run_update BeQuiet)) (\<lambda>_.
       case arg_seed args of
         Some str \<Rightarrow> run_bind (run_res (FromString str)) (\<lambda>seed.
           run_bind (RunSingleSimulation sim seed) (\<lambda>_. run_return 0))
       | None \<Rightarrow>
           run_bind (run_when (arg_det args) (TestDeterminism GlobalAllocsCheckSum sim)) (\<lambda>_.
           run_bind (run_option (arg_sims args) (\<lambda>str. run_bind (run_res (FromString str)) (\<lambda>n.
             RunSimulations mt19937 sim (unat n) 42))) (\<lambda>_.
           run_bind Congratulate (\<lambda>_. run_return 0)))))))"

section \<open>Running\<close>

lemma run_simps [simp]:
  "run_return x s = Inr (x, s)"
  "run_update f (r, g) = Inr ((), f r, g)"
  "run_end e (r, g) = Inl (e, r)"
  "run_when True m = m"
  "run_when False m = run_return ()"
  "run_option None h = run_return ()"
  "run_option (Some a) h = h a"
  "run_res (Inr y) = run_return y"
  "run_res (Inl e2) = run_end (Abort e2)"
  by (simp_all add: run_return_def run_update_def run_end_def run_when_def run_option_def run_res_def)

lemma run_bind_eq [simp]:
  "m s = Inl e \<Longrightarrow> run_bind m f s = Inl e"
  "m s = Inr (x, t) \<Longrightarrow> run_bind m f s = f x t"
  by (simp_all add: run_bind_def)

lemma Runner_stops [simp]:
  "Runner_Fail (r, g) = Inl (Exit 1, Report ''FAIL'' r)"
  "Runner_Panic reason (r, g) = Inl (Exit 1, r\<lparr>r_stderr := r_stderr r @ [''Whirl test runner FAILED: '' @ reason]\<rparr>)"
  by (simp_all add: Runner_Fail_def Runner_Panic_def)

lemma Report_fields [simp]:
  "r_stdout (Report line r) = r_stdout r @ [line]" "r_verbose (Report line r) = r_verbose r"
  "r_verbose (Verbose line r) = r_verbose r"
  by (simp_all add: Report_def Verbose_def)

text \<open>A simulation that is a function of its seed: it gives its digest when the seed is a good one and ends the
  process with code 1 otherwise.\<close>

definition judges :: "(u64 \<Rightarrow> bool) \<Rightarrow> (u64 \<Rightarrow> u64) \<Rightarrow> (u64 \<Rightarrow> (u64, 'g) run) \<Rightarrow> bool" where
  "judges good digest sim \<longleftrightarrow> (\<forall>seed r g. \<exists>r'. r_verbose r' = r_verbose r \<and>
     sim seed (r, g) = (if good seed then Inr (digest seed, r', g) else Inl (Exit 1, r')))"

lemma RunSimulation_judges:
  assumes "judges good digest sim"
  shows "\<exists>r'. RunSimulation sim seed (r, g) = (if good seed then Inr (digest seed, r', g) else Inl (Exit 1, r'))"
proof -
  obtain r' where "sim seed (r\<lparr>r_active := True\<rparr>, g) = (if good seed then Inr (digest seed, r', g) else Inl (Exit 1, r'))"
    using assms unfolding judges_def by blast
  then show ?thesis by (cases "good seed") (simp_all add: RunSimulation_def)
qed

lemma run_simulations_judges:
  assumes "judges good digest sim"
  shows "\<exists>r'. run_simulations sim i seeds (r, g) = (if list_all good seeds then Inr ((), r', g) else Inl (Exit 1, r'))"
proof (induction seeds arbitrary: i r)
  case Nil
  then show ?case by simp
next
  case (Cons seed seeds)
  define r1 where "r1 = (if r_verbose r then Verbose (''Simulation '' @ show_nat i @ ''...'') r else r)"
  obtain r2 where "RunSimulation sim seed (r1, g) = (if good seed then Inr (digest seed, r2, g) else Inl (Exit 1, r2))"
    using RunSimulation_judges [OF assms] by blast
  then show ?case using Cons [of "Suc i" r2] by (cases "good seed") (auto simp: run_bind_def r1_def)
qed

lemma TestDeterminism_judges:
  assumes "judges good digest sim"
  shows "\<exists>r'. TestDeterminism checksum sim (r, g) = (if good kSeed then Inr ((), r', g) else Inl (Exit 1, r'))"
proof -
  obtain r1 where 1: "RunSimulation sim kSeed (Verbose (''Test determinism with seed '' @ show_nat (unat kSeed) @ '':'') r, g) =
      (if good kSeed then Inr (digest kSeed, r1, g) else Inl (Exit 1, r1))"
    using RunSimulation_judges [OF assms] by blast
  obtain r2 where "RunSimulation sim kSeed (r1, g) = (if good kSeed then Inr (digest kSeed, r2, g) else Inl (Exit 1, r2))"
    using RunSimulation_judges [OF assms] by blast
  with 1 show ?thesis by (cases "good kSeed") (simp_all add: TestDeterminism_def)
qed

section \<open>Numbers on the command line\<close>

lemma FromString_show: "FromString (show_nat n) = Inr (if n < 2 ^ 64 then of_nat n else - 1)"
proof -
  have "read_size (show_nat n) = (if n < 2 ^ 64 then of_nat n else - 1)" by (simp add: read_size_def)
  moreover have "FromString (show_nat n) = Inr (read_size (show_nat n))"
  proof (rule show_nat_head [of n])
    fix c cs assume "show_nat n = c # cs" "\<not> is_space c" "c \<noteq> CHR ''-''" "c \<noteq> CHR ''+''"
    then show ?thesis by (simp add: FromString_def)
  qed
  ultimately show ?thesis by simp
qed

section \<open>Properties\<close>

text \<open>C10. The exit status is the verdict. When the simulation is a function of its seed, a run of \<open>n\<close> simulations
  returns 0 exactly if the simulation accepts each of the first \<open>n\<close> seeds of the engine (and the seed of the
  determinism test, when asked for), and then it ends with the congratulation; otherwise the process exits with code 1.\<close>

theorem Main_verdict:
  assumes "judges good digest sim"
    and "arg_log args = None" and "arg_trace args = None" and "arg_seed args = None"
    and "arg_sims args = Some (show_nat n)" and "n < 2 ^ 64"
  shows "\<exists>r. Main fs mt19937 checksum args sim s =
    (if (arg_det args \<longrightarrow> good kSeed) \<and> (\<forall>i<n. good (ucast (mt19937 42 i)))
     then Inr (0, r\<lparr>r_stdout := r_stdout r @ [[], ''Looks good!'']\<rparr>, snd s) else Inl (Exit 1, r))"
proof -
  define r1 where "r1 = (if arg_quiet args then BeQuiet TestRunner else TestRunner)"
  obtain r2 where 2: "run_when (arg_det args) (TestDeterminism checksum sim) (r1, snd s) =
      (if arg_det args \<longrightarrow> good kSeed then Inr ((), r2, snd s) else Inl (Exit 1, r2))"
    using TestDeterminism_judges [OF assms(1)] by (cases "arg_det args") (simp, blast, simp)
  have seeds: "list_all good (map (\<lambda>i. ucast (mt19937 42 i)) [0..<n]) \<longleftrightarrow> (\<forall>i<n. good (ucast (mt19937 42 i)))"
    by (auto simp: list_all_iff)
  obtain r3 where 3: "run_simulations sim 1 (map (\<lambda>i. ucast (mt19937 42 i)) [0..<n]) (Report (''Run '' @ show_nat n @ '' simulations...'') r2, snd s) =
      (if \<forall>i<n. good (ucast (mt19937 42 i)) then Inr ((), r3, snd s) else Inl (Exit 1, r3))"
    using run_simulations_judges [OF assms(1), of 1 "map (\<lambda>i. ucast (mt19937 42 i)) [0..<n]", unfolded seeds] by blast
  have n: "unat (of_nat n :: u64) = n" using assms(6) by (simp add: unat_of_nat)
  have "run_when (arg_quiet args) (run_update BeQuiet) (TestRunner, snd s) = Inr ((), r1, snd s)"
    by (simp add: r1_def run_when_def)
  with assms 2 3 n show ?thesis
    by (cases s) (auto simp: Main_def RunSimulations_def Congratulate_def FromString_show Report_def run_bind_def
        cong: if_cong)
qed

text \<open>Even seeds pass.\<close>

definition even_sim :: "u64 \<Rightarrow> (u64, nat) run" where
  "even_sim seed s = (if even (unat seed) then Inr (seed, s) else Inl (Exit 1, fst s))"

lemma even_sim_judges: "judges (\<lambda>seed. even (unat seed)) (\<lambda>seed. seed) even_sim"
  by (auto simp: judges_def even_sim_def)

definition no_files :: fs_env where
  "no_files = \<lparr>fs_is_absolute = (\<lambda>p. take 1 p = ''/''), fs_has_parent_path = (\<lambda>_. True), fs_parent_path = (\<lambda>_. ''/''),
     fs_exists = (\<lambda>p. p = ''/''), fs_is_directory = (\<lambda>p. p = ''/''), fs_is_regular_file = (\<lambda>_. False),
     fs_writable = (\<lambda>_. True), fs_show = (\<lambda>p. p)\<rparr>"

definition two_runs :: parsed_args where
  "two_runs = \<lparr>arg_det = False, arg_sims = Some (show_nat 2), arg_seed = None, arg_log = None, arg_trace = None,
     arg_quiet = True\<rparr>"

theorem Main_verdict_witness:
  "(\<exists>r. Main no_files (\<lambda>_ i. of_nat (2 * i)) (\<lambda>_. 0) two_runs even_sim (TestRunner, 0) =
      Inr (0, r\<lparr>r_stdout := r_stdout r @ [[], ''Looks good!'']\<rparr>, 0)) \<and>
   (\<exists>r. Main no_files (\<lambda>_ i. of_nat i) (\<lambda>_. 0) two_runs even_sim (TestRunner, 0) = Inl (Exit 1, r))"
proof -
  have even: "(\<forall>i<2. even (unat (ucast (of_nat (2 * i) :: u32) :: u64))) \<longleftrightarrow> True"
    and odd: "(\<forall>i<2. even (unat (ucast (of_nat i :: u32) :: u64))) \<longleftrightarrow> False"
    by (auto simp: less_2_cases_iff)
  have args: "arg_det two_runs = False" "arg_log two_runs = None" "arg_trace two_runs = None"
    "arg_seed two_runs = None" "arg_sims two_runs = Some (show_nat 2)" "(2::nat) < 2 ^ 64"
    by (simp_all add: two_runs_def)
  note verdict = Main_verdict [OF even_sim_judges args(2-6), unfolded args]
  show ?thesis
    using verdict [of no_files "\<lambda>_ i. of_nat (2 * i)" "\<lambda>_. 0" "(TestRunner, 0)", unfolded even]
      verdict [of no_files "\<lambda>_ i. of_nat i" "\<lambda>_. 0" "(TestRunner, 0)", unfolded odd] by simp
qed

definition log_path_ok :: "fs_env \<Rightarrow> string \<Rightarrow> bool" where
  "log_path_ok fs p \<longleftrightarrow> fs_is_absolute fs p \<and> fs_has_parent_path fs p \<and> fs_exists fs (fs_parent_path fs p) \<and>
     fs_is_directory fs (fs_parent_path fs p) \<and> (fs_exists fs p \<longrightarrow> fs_is_regular_file fs p)"

lemma CheckLogPath_cases:
  "CheckLogPath fs p (r, g) = (if log_path_ok fs p then Inr ((), r, g)
     else Inl (Exit 1, r\<lparr>r_stderr := r_stderr r @ [''Whirl test runner FAILED: '' @
       (if \<not> fs_is_absolute fs p then ''Absolute path expected: '' @ fs_show fs p
        else if \<not> fs_has_parent_path fs p then ''No parent path: '' @ fs_show fs p
        else if \<not> fs_exists fs (fs_parent_path fs p) then ''Directory does not exist: '' @ fs_show fs (fs_parent_path fs p)
        else if \<not> fs_is_directory fs (fs_parent_path fs p)
          then ''Parent path does not refer to a directory: '' @ fs_show fs (fs_parent_path fs p)
        else ''Regular file expected: '' @ fs_show fs p)]\<rparr>))"
  by (simp add: CheckLogPath_def log_path_ok_def Let_def)

text \<open>A wrong path of the log stops the program before any simulation runs: if the path is not absolute, has no
  existing directory as its parent, or names something that is not a regular file, the process exits with code 1,
  one message on the error stream and nothing else. Otherwise a writable log file is reset to its header line.\<close>

theorem log_path_checked:
  assumes "arg_log args = Some p"
  shows "(\<not> log_path_ok fs p \<longrightarrow> (\<exists>line. Main fs mt19937 checksum args sim s = Inl (Exit 1, TestRunner\<lparr>r_stderr := [line]\<rparr>))) \<and>
    (log_path_ok fs p \<and> fs_writable fs p \<longrightarrow> Runner_WriteLogTo fs p s =
       Inr ((), (fst s)\<lparr>r_log_path := Some p, r_stdout := r_stdout (fst s) @ [''Log file: '' @ fs_show fs p],
         r_log_file := [''Whirl simulator log'']\<rparr>, snd s))"
proof (intro conjI impI)
  assume "\<not> log_path_ok fs p"
  then show "\<exists>line. Main fs mt19937 checksum args sim s = Inl (Exit 1, TestRunner\<lparr>r_stderr := [line]\<rparr>)"
    using assms by (cases s) (simp add: Main_def Runner_WriteLogTo_def CheckLogPath_cases TestRunner_def run_bind_def)
next
  assume "log_path_ok fs p \<and> fs_writable fs p"
  then show "Runner_WriteLogTo fs p s =
       Inr ((), (fst s)\<lparr>r_log_path := Some p, r_stdout := r_stdout (fst s) @ [''Log file: '' @ fs_show fs p],
         r_log_file := [''Whirl simulator log'']\<rparr>, snd s)"
    by (cases s) (simp add: Runner_WriteLogTo_def CheckLogPath_cases ResetLogFile_def WriteLogHeader_def Report_def run_bind_def)
qed

theorem log_path_checked_witness:
  "\<exists>line. Main no_files (\<lambda>_ i. of_nat i) (\<lambda>_. 0)
      \<lparr>arg_det = False, arg_sims = Some ''5'', arg_seed = None, arg_log = Some ''log.txt'', arg_trace = None, arg_quiet = True\<rparr>
      even_sim (TestRunner, 0) = Inl (Exit 1, TestRunner\<lparr>r_stderr := [line]\<rparr>)"
  using log_path_checked [of "\<lparr>arg_det = False, arg_sims = Some ''5'', arg_seed = None, arg_log = Some ''log.txt'',
      arg_trace = None, arg_quiet = True\<rparr>" "''log.txt''" no_files "\<lambda>_ i. of_nat i" "\<lambda>_. 0" even_sim "(TestRunner, 0)"]
  by (simp add: log_path_ok_def no_files_def)

text \<open>Seeds survive the command line: the decimal text the runner prints for a seed is read back as that seed, a
  number that does not fit is read as the largest one, and an empty argument is an uninitialised value.\<close>

theorem FromString_roundtrip:
  "FromString (show_nat (unat seed)) = Inr seed \<and> (2 ^ 64 \<le> n \<longrightarrow> FromString (show_nat n) = Inr (2 ^ 64 - 1)) \<and>
   FromString [] = Inl (Undefined ''uninitialised value'')"
proof -
  have "unat seed < 2 ^ 64" using unsigned_less [of seed] by simp
  then show ?thesis using FromString_show [of "unat seed"] FromString_show [of n] by (simp add: FromString_def)
qed

theorem FromString_roundtrip_witness: "FromString (show_nat (2 ^ 64 + 5)) = Inr (2 ^ 64 - 1)"
  using FromString_roundtrip [of 0 "2 ^ 64 + 5"] by simp

text \<open>A log is printed in full up to 356 events. A longer one is printed as its first 100 events, a line with the
  exact number of events left out, and its last 256 events.\<close>

theorem WriteTextLog_shape:
  assumes "k = length evs - 356"
  shows "(if length evs \<le> 356 then WriteTextLog f evs = map f evs
    else WriteTextLog f evs = map f (take 100 evs) @ [''... ('' @ show_nat k @ '' lines skipped)''] @ map f (drop (100 + k) evs)
      \<and> length (WriteTextLog f evs) = 357)"
proof (cases "length evs \<le> 356")
  case True
  then show ?thesis by (simp add: WriteTextLog_def kLinesLimit_def kHeadLines_def kTailLines_def)
next
  case False
  have "map (\<lambda>i. f (evs ! i)) [0..<100] = map f (take 100 evs)"
    using False by (intro nth_equalityI) simp_all
  moreover have "map (\<lambda>i. f (evs ! i)) [length evs - 256..<length evs] = map f (drop (100 + k) evs)"
    using False assms by (intro nth_equalityI) (simp_all add: add.commute)
  ultimately show ?thesis
    using False assms by (simp add: WriteTextLog_def kLinesLimit_def kHeadLines_def kTailLines_def del: upt_conv_Cons)
qed

theorem WriteTextLog_shape_witness:
  "length (WriteTextLog show_nat [0..<1000]) = 357 \<and>
   take 1 (drop 100 (WriteTextLog show_nat [0..<1000])) = [''... ('' @ show_nat 644 @ '' lines skipped)'']"
  using WriteTextLog_shape [of 644 "[0..<1000]" show_nat] by (simp del: upt_conv_Cons upt_rec_numeral)

lemma Random_Get_range:
  assumes "lo \<le> hi" and "hi - lo \<noteq> - 1"
  shows "lo \<le> fst (Random_Get lo hi t) \<and> fst (Random_Get lo hi t) \<le> hi"
proof -
  have *: "lo \<le> lo + m \<and> lo + m \<le> hi" if "m < hi - lo + 1" for m
    using assms that by unat_arith
  have "hi - lo + 1 \<noteq> 0" using assms(2) by (metis add_eq_0_iff2)
  then show ?thesis
    using * by (simp add: Random_Get_def word_gt_0 word_mod_less_divisor split: prod.splits)
qed

end
