(* ===== verification/KV_Simulation.thy ===== *)
theory KV_Simulation
  imports Globals Faults KV_Node KV_Model Printers Runner
begin

text \<open>
  The simulation of the key-value store (\<open>examples/kv/main.cpp\<close>, with \<open>fault/util.cpp\<close>, \<open>client/util.cpp\<close> and
  \<open>client/rpc.cpp\<close>): its random parameters, the choices of its clients, its three adversaries and
  the verdict on a run. The random numbers of the runtime of a node are parameters: \<open>rb n\<close> is below \<open>n\<close>,
  \<open>rn lo hi\<close> lies between its two bounds. An adversary is a fiber that sleeps between its actions: its
  program counter names the action after the sleep.
\<close>

section \<open>Clients\<close>

definition kKeys :: "string list" where
  "kKeys = [''a'', ''b'', ''c'']"

definition RandomKey :: "'s random_below \<Rightarrow> ('h, 'u) world \<Rightarrow> 's \<Rightarrow> (string \<times> 's) res" where
  "RandomKey rb w s =
     res_bind (GetGlobal as_size ''keys'' w) (\<lambda>n.
       let (i, s) = rb (unat n) s in
       if i < length kKeys then Inr (kKeys ! i, s) else Inl (Thrown ''out_of_range''))"

definition RandomValue :: "'s random_number \<Rightarrow> 's \<Rightarrow> string \<times> 's" where
  "RandomValue rn s = (let (n, s) = rn 1 100 s in (show_nat n, s))"

definition Either :: "'s random_below \<Rightarrow> 's \<Rightarrow> bool \<times> 's" where
  "Either rb s = (let (n, s) = rb 2 s in (n = 1, s))"

datatype kv_request = RequestSet string string | RequestGet string

text \<open>One round of \<open>Client\<close>: the request it makes, then, when the request is done, the counter and the pause.\<close>

definition Client_choose ::
    "'s random_below \<Rightarrow> 's random_number \<Rightarrow> ('h, 'u) world \<Rightarrow> 's \<Rightarrow> (kv_request \<times> 's) res" where
  "Client_choose rb rn w s =
     res_bind (RandomKey rb w s) (\<lambda>(key, s).
       let (b, s) = Either rb s in
       if b then (let (v, s) = RandomValue rn s in Inr (RequestSet key v, s)) else Inr (RequestGet key, s))"

definition Client_done ::
    "'s random_number \<Rightarrow> ('h, 'u) world \<Rightarrow> 's \<Rightarrow> (nat \<times> ('h, 'u) world \<times> 's) res" where
  "Client_done rn w s =
     res_bind (GlobalCounter_Increment ''requests'' w) (\<lambda>(old, w).
       let (delay, s) = rn 1 100 s in Inr (delay, w, s))"

text \<open>The layers of the channel of a client; the layers themselves are \<open>commute\<close>'s.\<close>

datatype channel =
    Dial string
  | RandomChannel "channel list"
  | HistoryChannel channel
  | WithRetries "nat \<times> nat \<times> nat" channel

definition RetriesBackoff :: "nat \<times> nat \<times> nat" where
  "RetriesBackoff = (50, 1000, 2)"

definition MakeAddress :: "host_name \<Rightarrow> u16 \<Rightarrow> string" where
  "MakeAddress host p = host @ '':'' @ show_nat (unat p)"

definition MakeRpcChannel :: "string \<Rightarrow> u16 \<Rightarrow> bool \<Rightarrow> ('h, 'u) world \<Rightarrow> channel" where
  "MakeRpcChannel pool_name p log_retries w =
     (let random = RandomChannel (map (\<lambda>host. Dial (MakeAddress host p)) (GetPool pool_name w))
      in if log_retries then WithRetries RetriesBackoff (HistoryChannel random)
         else HistoryChannel (WithRetries RetriesBackoff random))"

section \<open>Adversaries\<close>

definition rt_draw :: "(random_source \<Rightarrow> 'a \<times> random_source) \<Rightarrow> ('h, 'u) world \<Rightarrow> 'a \<times> ('h, 'u) world" where
  "rt_draw f w = (let (x, r) = f (w_random w) in (x, w\<lparr>w_random := r\<rparr>))"

text \<open>The time \<open>RandomPause\<close> sleeps.\<close>

definition RandomPause :: "random_source random_number \<Rightarrow> nat \<Rightarrow> nat \<Rightarrow> ('h, 'u) world \<Rightarrow> nat \<times> ('h, 'u) world" where
  "RandomPause rn lo hi w = rt_draw (rn lo hi) w"

definition RandomServer ::
    "random_source random_below \<Rightarrow> host_name list \<Rightarrow> ('h, 'u) world \<Rightarrow> (nat \<times> ('h, 'u) world) res" where
  "RandomServer rb hosts w =
     (let (i, w) = rt_draw (rb (length hosts)) w in
      if i < length hosts then res_bind (GetServer (hosts ! i) w) (\<lambda>k. Inr (k, w))
      else Inl (Thrown ''out_of_range''))"

definition on_victim :: "life_op \<Rightarrow> nat \<Rightarrow> ('h, 'u) world \<Rightarrow> ('h, 'u) world res" where
  "on_victim op k w = scoped (ServerActor k) (on_server k (life_step (w_now w) op)) w"

datatype adversary =
    NetMain | NetStar | NetHeal
  | NodeMain | NodeFault | NodeResume nat
  | ReaperMain | ReaperCrash nat
  | Finished

definition kNoMoreFaults :: time_point where "kNoMoreFaults = 5000"

text \<open>The sleep at the head of the loop of each adversary.\<close>

definition NetAdversary_loop ::
    "random_source random_number \<Rightarrow> ('h, 'u) world \<Rightarrow> nat \<times> adversary \<times> ('h, 'u) world" where
  "NetAdversary_loop rn w = (let (d, w) = rt_draw (rn 10 1000) w in (d, NetStar, w))"

definition NodeAdversary_loop ::
    "random_source random_number \<Rightarrow> ('h, 'u) world \<Rightarrow> nat \<times> adversary \<times> ('h, 'u) world" where
  "NodeAdversary_loop rn w =
     (if w_now w < kNoMoreFaults then (let (d, w) = RandomPause rn 200 800 w in (d, NodeFault, w))
      else (0, Finished, w))"

fun NodeReaper_loop ::
    "random_source random_number \<Rightarrow> nat \<Rightarrow> ('h, 'u) world \<Rightarrow> nat \<times> adversary \<times> ('h, 'u) world" where
  "NodeReaper_loop rn 0 w = (0, Finished, w)"
| "NodeReaper_loop rn (Suc n) w = (let (d, w) = RandomPause rn 300 1000 w in (d, ReaperCrash n, w))"

text \<open>From one sleep to the next: how long the next sleep is, what comes after it.\<close>

fun adversary_step ::
    "random_source random_below \<Rightarrow> random_source random_number \<Rightarrow> host_name list \<Rightarrow> adversary \<Rightarrow> ('h, 'u) world \<Rightarrow>
     (nat \<times> adversary \<times> ('h, 'u) world) res" where
  "adversary_step rb rn pool NetMain w = Inr (NetAdversary_loop rn w)"
| "adversary_step rb rn pool NetStar w =
     (let (center, w) = rt_draw (rb (length pool)) w in
      res_bind (on_net (MakeStar pool center) w) (\<lambda>w.
        let (d, w) = RandomPause rn 100 300 w in Inr (d, NetHeal, w)))"
| "adversary_step rb rn pool NetHeal w =
     res_bind (on_net (\<lambda>net. loop_ends (Network_Heal (w_now w) net)) w) (\<lambda>w. Inr (NetAdversary_loop rn w))"
| "adversary_step rb rn pool NodeMain w = Inr (NodeAdversary_loop rn w)"
| "adversary_step rb rn pool NodeFault w =
     res_bind (RandomServer rb pool w) (\<lambda>(victim, w).
       let (n, w) = rt_draw (rb 3) w in
       if n = 0 then res_bind (on_victim LFastReboot victim w) (\<lambda>w. Inr (NodeAdversary_loop rn w))
       else if n = 1 then res_bind (on_victim LPause victim w) (\<lambda>w.
         let (d, w) = RandomPause rn 100 300 w in Inr (d, NodeResume victim, w))
       else if n = 2 then res_bind (scoped (ServerActor victim) (on_server victim AdjustWallClock) w) (\<lambda>w.
         Inr (NodeAdversary_loop rn w))
       else Inr (NodeAdversary_loop rn w))"
| "adversary_step rb rn pool (NodeResume victim) w =
     res_bind (on_victim LResume victim w) (\<lambda>w. Inr (NodeAdversary_loop rn w))"
| "adversary_step rb rn pool ReaperMain w =
     (let bound = (length pool - 1) div 2;
          (crashes, w) = rt_draw (rn 0 bound) w
      in Inr (NodeReaper_loop rn crashes w))"
| "adversary_step rb rn pool (ReaperCrash n) w =
     res_bind (RandomServer rb pool w) (\<lambda>(victim, w).
       res_bind (if IsAlive (w_servers w ! victim) then on_victim LCrash victim w else Inr w) (\<lambda>w.
         Inr (NodeReaper_loop rn n w)))"
| "adversary_step rb rn pool Finished w = Inr (0, Finished, w)"

section \<open>The simulation\<close>

record kv_params =
  kp_replicas :: u64
  kp_clients :: u64
  kp_keys :: u64
  kp_adversaries :: "adversary list"

record ('h, 'u) kv_env =
  e_ids :: "nat \<Rightarrow> nat"
  e_heap :: allocator
  e_mt19937 :: "u64 \<Rightarrow> nat \<Rightarrow> u32"
  e_eat :: "u64 \<Rightarrow> nat \<Rightarrow> u64"
  e_program :: "kv_params \<Rightarrow> ('h, 'u) program"
  e_combine :: "u64 \<Rightarrow> u64 \<Rightarrow> u64"
  e_server_digest :: "('h, 'u) server \<Rightarrow> u64"
  e_event_log :: "('h, 'u) world \<Rightarrow> string list"
  e_codec :: "(string, string) kv_codec"
  e_show :: "(string, string) kv_show"

definition kTimeLimit_kv :: jiffies where "kTimeLimit_kv = 20000"
definition kRequestsThreshold :: u64 where "kRequestsThreshold = 7"

definition maybe_adversary ::
    "('h, 'u) kv_env \<Rightarrow> u64 \<Rightarrow> adversary \<Rightarrow> (kv_params \<times> ('h, 'u) world) \<times> twister \<Rightarrow> (kv_params \<times> ('h, 'u) world) \<times> twister" where
  "maybe_adversary E n a = (\<lambda>((p, w), random).
     let (b, random) = Random_Maybe n random in
     if b then ((p\<lparr>kp_adversaries := kp_adversaries p @ [a]\<rparr>, AddAdversary (e_ids E) (e_heap E) w), random)
     else ((p, w), random))"

text \<open>Up to \<open>world.Start()\<close>.\<close>

definition kv_build :: "('h, 'u) kv_env \<Rightarrow> u64 \<Rightarrow> kv_params \<times> ('h, 'u) world" where
  "kv_build E seed =
     (let random = Random (e_mt19937 E) seed;
          (replicas, random) = Random_Get 3 5 random;
          (clients, random) = Random_Get 2 3 random;
          (keys, random) = Random_Get 1 2 random;
          w = World (e_mt19937 E) seed;
          w = SetTimeModel CrazyTimeModel w;
          w = PoolBuilder_destroy (e_ids E) (e_heap E) (PoolBuilder_Size (unat replicas) (MakePool ''kv'')) w;
          w = AddClients (e_ids E) (e_heap E) (unat clients) w;
          p = \<lparr>kp_replicas = replicas, kp_clients = clients, kp_keys = keys, kp_adversaries = []\<rparr>;
          (b, random) = Random_Maybe 3 random;
          (p, w) = (if b then fst (maybe_adversary E 11 ReaperMain (maybe_adversary E 7 NodeMain
                      (maybe_adversary E 3 NetMain ((p, w), random)))) else (p, w));
          w = SetGlobal AnySize ''keys'' keys w;
          w = InitCounter ''requests'' 0 w
      in (p, w))"

text \<open>The loop runs for ever when neither the counter nor the time grows: \<open>None\<close>.\<close>

partial_function (option) kv_loop ::
    "(u64 \<Rightarrow> nat \<Rightarrow> u64) \<Rightarrow> ('h, 'u) program \<Rightarrow> ('h, 'u) world \<Rightarrow> ('h, 'u) world res option" where
  "kv_loop eat prog w =
     (case GetCounter ''requests'' w of
        Inl e \<Rightarrow> Some (Inl e)
      | Inr requests \<Rightarrow>
          if requests < kRequestsThreshold \<and> TimeElapsed w < kTimeLimit_kv
          then (case World_Step eat prog w of
              Inl e \<Rightarrow> Some (Inl e)
            | Inr (b, w') \<Rightarrow> if \<not> b then Some (Inr w') else kv_loop eat prog w')
          else Some (Inr w))"

definition kv_finish ::
    "('h, 'u) kv_env \<Rightarrow> u64 \<Rightarrow> ('h, 'u) world \<Rightarrow> runner \<Rightarrow> (outcome \<times> runner) + (u64 \<times> runner)" where
  "kv_finish E seed w r =
     (case World_Stop (e_combine E) (e_server_digest E) w of
        Inl e \<Rightarrow> Inl (Abort e, r)
      | Inr (dg, w) \<Rightarrow>
        let r = Verbose (''Seed '' @ show_nat (unat seed) @ '' -> digest: '' @ show_nat (unat dg) @ '', time: '' @
              show_nat (unat (TimeElapsed w)) @ '', steps: '' @ show_nat (w_step w)) r in
        (case GetCounter ''requests'' w of
           Inl e \<Rightarrow> Inl (Abort e, r)
         | Inr requests \<Rightarrow>
           let r = Verbose (''Requests completed: '' @ show_nat (unat requests)) r in
           if requests < kRequestsThreshold then
             (let r = fold Report (''Log:'' # WriteTextLog (\<lambda>line. line) (e_event_log E w) @ [[]]) r;
                  r = Report (if TimeElapsed w < kTimeLimit_kv then ''Deadlock in simulation''
                              else ''Simulation time limit exceeded'') r
              in Inl (Exit 1, Report ''FAIL'' r))
           else
             (case LinCheck (KVStoreModel (e_codec E)) (World_History w) of
                Inl e \<Rightarrow> Inl (Abort e, r)
              | Inr lin_ok \<Rightarrow>
                if \<not> lin_ok then
                  (let r = fold Verbose (''Log:'' # WriteTextLog (\<lambda>line. line) (e_event_log E w) @ [[]]) r;
                       r = Report (''History is NOT LINEARIZABLE for seed = '' @ show_nat (unat seed) @ '':'') r
                   in (case PrintKVHistory (e_codec E) (e_show E) (World_History w) of
                         Inl e \<Rightarrow> Inl (Abort e, r)
                       | Inr text \<Rightarrow> Inl (Exit 1, Report ''FAIL'' (Report text r))))
                else Inr (dg, r))))"

definition kv_RunSimulation ::
    "('h, 'u) kv_env \<Rightarrow> u64 \<Rightarrow> runner \<Rightarrow> ((outcome \<times> runner) + (u64 \<times> runner)) option" where
  "kv_RunSimulation E seed r =
     (if \<not> r_active r then Some (Inl (Abort (Panic ''Not in simulation context''), r))
      else
        let r = Verbose (''Simulation seed: '' @ show_nat (unat seed)) r;
            (p, w) = kv_build E seed;
            r = Verbose (''Parameters: replicas = '' @ show_nat (unat (kp_replicas p)) @ '', clients = '' @
              show_nat (unat (kp_clients p)) @ '', keys = '' @ show_nat (unat (kp_keys p))) r
        in (case World_Start w of
              Inl e \<Rightarrow> Some (Inl (Abort e, r))
            | Inr w \<Rightarrow> (case kv_loop (e_eat E) (e_program E p) w of
                None \<Rightarrow> None
              | Some (Inl e) \<Rightarrow> Some (Inl (Abort e, r))
              | Some (Inr w) \<Rightarrow> Some (kv_finish E seed w r))))"

section \<open>The world of the simulation\<close>

definition kv_shape :: "nat \<Rightarrow> ('h, 'u) world \<Rightarrow> bool" where
  "kv_shape n w \<longleftrightarrow> built w \<and> w_time_model w = CrazyTimeModel \<and> w_pools w = [(''kv'', [0..<n])]"

lemma kv_shape_actor:
  "kv_shape n w \<Longrightarrow> kv_shape n (AddClient ids heap w)"
  "kv_shape n w \<Longrightarrow> kv_shape n (AddAdversary ids heap w)"
  "kv_shape n w \<Longrightarrow> kv_shape n (World_SetGlobal name v w)"
  using built_client [of w] built_adversary [of w] built_global [of w]
  by (simp_all add: kv_shape_def AddClient_def AddAdversary_def AddToPool_def AddServerImpl_def Let_def AddActor_def
      World_SetGlobal_def)

lemma kv_shape_clients: "kv_shape n w \<Longrightarrow> kv_shape n (AddClients ids heap k w)"
  by (induction k arbitrary: w) (simp_all add: kv_shape_actor)

lemma kv_shape_pool:
  fixes mt :: "u64 \<Rightarrow> nat \<Rightarrow> u32" and seed :: u64
  defines "w \<equiv> SetTimeModel CrazyTimeModel (World mt seed)"
  shows "kv_shape n (PoolBuilder_destroy ids heap (PoolBuilder_Size n (MakePool ''kv'')) w)"
proof -
  have built: "built w" unfolding w_def by (intro built_time_model built_world)
  have w: "w_pools w = []" "w_servers w = []" "w_time_model w = CrazyTimeModel" by (simp_all add: w_def SetTimeModel_def World_def)
  obtain p v where pv: "add_many n ids heap ''kv'' (MakeNameTemplate ''kv'') ([], w) = (p, v)"
    by (cases "add_many n ids heap ''kv'' (MakeNameTemplate ''kv'') ([], w)")
  have tm: "w_time_model (snd (add_many k ids heap pool_name template pw)) = w_time_model (snd pw)"
    for k pool_name template and pw :: "nat list \<times> ('a, 'b) world"
    by (induction k arbitrary: pw) (simp_all add: AddToPool_def AddServerImpl_def Let_def AddActor_def)
  have "growing w" using built_fresh [OF built] by (simp add: fresh_world_def growing_def)
  from add_many_facts [OF pv this] have "p = [0..<n]" "w_pools v = []" using w by auto
  moreover have "w_time_model v = CrazyTimeModel" using tm [where pw = "([], w)"] pv w by (metis snd_conv)
  ultimately show ?thesis
    using built_pool [OF built, where ids = ids and heap = heap and name = "''kv''" and sz = n and template = "MakeNameTemplate ''kv''"] pv w
    by (simp add: kv_shape_def PoolBuilder_destroy_def PoolBuilder_Size_def MakePool_def AddPool_def pool_of_def)
qed

lemma maybe_adversary_list:
  obtains b where "kp_adversaries (fst (fst (maybe_adversary E n a x))) = kp_adversaries (fst (fst x)) @ (if b then [a] else [])"
proof -
  have "\<exists>b. kp_adversaries (fst (fst (maybe_adversary E n a x))) = kp_adversaries (fst (fst x)) @ (if b then [a] else [])"
    by (cases "fst (Random_Maybe n (snd x))") (auto simp: maybe_adversary_def split: prod.splits)
  then show thesis using that by blast
qed

definition kv_plan :: "u64 \<Rightarrow> u64 \<Rightarrow> u64 \<Rightarrow> (kv_params \<times> ('h, 'u) world) \<Rightarrow> bool" where
  "kv_plan replicas clients keys pw \<longleftrightarrow> kv_shape (unat replicas) (snd pw) \<and> kp_replicas (fst pw) = replicas \<and>
     kp_clients (fst pw) = clients \<and> kp_keys (fst pw) = keys"

lemma maybe_adversary_plan: "kv_plan r c k (fst x) \<Longrightarrow> kv_plan r c k (fst (maybe_adversary E n a x))"
  by (auto simp: kv_plan_def maybe_adversary_def kv_shape_actor split: prod.splits)

lemma kv_build_shape:
  fixes E :: "('h, 'u) kv_env"
  obtains p w where "kv_build E seed = (p, w)"
    "3 \<le> kp_replicas p \<and> kp_replicas p \<le> 5" "2 \<le> kp_clients p \<and> kp_clients p \<le> 3" "1 \<le> kp_keys p \<and> kp_keys p \<le> 2"
    "kv_shape (unat (kp_replicas p)) w"
    "World_GetGlobal ''keys'' w = Some (AnySize (kp_keys p))" "World_GetGlobal ''requests'' w = Some (AnySize 0)"
    "set (kp_adversaries p) \<subseteq> {NetMain, NodeMain, ReaperMain} \<and> distinct (kp_adversaries p)"
proof -
  obtain replicas r1 where 1: "Random_Get 3 5 (Random (e_mt19937 E) seed) = (replicas, r1)" by (metis surj_pair)
  obtain clients r2 where 2: "Random_Get 2 3 r1 = (clients, r2)" by (metis surj_pair)
  obtain keys r3 where 3: "Random_Get 1 2 r2 = (keys, r3)" by (metis surj_pair)
  obtain b r4 where 4: "Random_Maybe 3 r3 = (b, r4)" by (metis surj_pair)
  define w0 :: "('h, 'u) world" where "w0 = AddClients (e_ids E) (e_heap E) (unat clients) (PoolBuilder_destroy (e_ids E) (e_heap E)
    (PoolBuilder_Size (unat replicas) (MakePool ''kv'')) (SetTimeModel CrazyTimeModel (World (e_mt19937 E) seed)))"
  define p0 where "p0 = \<lparr>kp_replicas = replicas, kp_clients = clients, kp_keys = keys, kp_adversaries = []\<rparr>"
  define pw where "pw = (if b then fst (maybe_adversary E 11 ReaperMain (maybe_adversary E 7 NodeMain
    (maybe_adversary E 3 NetMain ((p0, w0), r4)))) else (p0, w0))"
  have "kv_plan replicas clients keys (p0, w0)"
    by (simp add: kv_plan_def p0_def w0_def kv_shape_clients kv_shape_pool)
  then have plan: "kv_plan replicas clients keys pw"
    by (simp add: pw_def maybe_adversary_plan)
  have advs: "set (kp_adversaries (fst pw)) \<subseteq> {NetMain, NodeMain, ReaperMain} \<and> distinct (kp_adversaries (fst pw))"
  proof (cases b)
    case True
    let ?x1 = "maybe_adversary E 3 NetMain ((p0, w0), r4)"
    let ?x2 = "maybe_adversary E 7 NodeMain ?x1"
    obtain b1 where 1: "kp_adversaries (fst (fst ?x1)) = (if b1 then [NetMain] else [])"
      by (rule maybe_adversary_list [of E 3 NetMain "((p0, w0), r4)"]) (auto simp: p0_def)
    obtain b2 where 2: "kp_adversaries (fst (fst ?x2)) = kp_adversaries (fst (fst ?x1)) @ (if b2 then [NodeMain] else [])"
      by (rule maybe_adversary_list)
    obtain b3 where 3: "kp_adversaries (fst (fst (maybe_adversary E 11 ReaperMain ?x2))) =
        kp_adversaries (fst (fst ?x2)) @ (if b3 then [ReaperMain] else [])"
      by (rule maybe_adversary_list)
    show ?thesis using 1 2 3 True by (simp add: pw_def)
  qed (simp add: pw_def p0_def)
  let ?w = "World_SetGlobal ''requests'' (AnySize 0) (World_SetGlobal ''keys'' (AnySize keys) (snd pw))"
  have eq: "kp_replicas (fst pw) = replicas" "kp_clients (fst pw) = clients" "kp_keys (fst pw) = keys"
    using plan by (simp_all add: kv_plan_def)
  have build: "kv_build E seed = (fst pw, ?w)"
    by (simp add: kv_build_def 1 2 3 4 Let_def pw_def InitCounter_def SetGlobal_def w0_def p0_def case_prod_beta)
  have ranges: "3 \<le> replicas \<and> replicas \<le> 5" "2 \<le> clients \<and> clients \<le> 3" "1 \<le> keys \<and> keys \<le> 2"
    using Random_Get_range [of 3 5 "Random (e_mt19937 E) seed"] Random_Get_range [of 2 3 r1] Random_Get_range [of 1 2 r2] 1 2 3
    by simp_all
  have "globals_ok (snd pw)" using plan built_globals by (auto simp: kv_shape_def kv_plan_def)
  then have globals: "World_GetGlobal ''keys'' ?w = Some (AnySize keys)" "World_GetGlobal ''requests'' ?w = Some (AnySize 0)"
    by (simp_all add: GetGlobal_SetGlobal)
  have shape: "kv_shape (unat replicas) ?w" using plan by (intro kv_shape_actor) (simp add: kv_plan_def)
  show thesis by (rule that [of "fst pw" ?w, unfolded eq]) (fact build ranges shape globals advs)+
qed

lemma start_time_early:
  assumes "World_Start w = Inr w'" and "w_time_model w = CrazyTimeModel"
  shows "unat (w_now w') < 200"
proof -
  have "yields Crazy_GlobalStartTime (\<lambda>t. 1 \<le> t \<and> t < 200)"
    unfolding Crazy_GlobalStartTime_def by (intro yields_range_in) simp_all
  then obtain t r where t: "Crazy_GlobalStartTime (w_random w) = Inr (t, r)" "t < 200" using yields_simple by blast
  have "w_now w' = t"
    using assms t(1)
    by (auto simp: World_Start_def SetStartTime_def CrazyTimeModel_def draw_def FastForwardTo_def verify_def res_bind_Inr
        since_def Let_def AddActor_def SetConfigGlobals_def World_SetGlobal_def split: if_splits dest!: start_servers_since)
  then show ?thesis using t(2) by (simp add: word_less_nat_alt)
qed

text \<open>A started world: nothing has happened yet.\<close>

definition kv_fresh :: "('h, 'u) world \<Rightarrow> bool" where
  "kv_fresh w \<longleftrightarrow> (\<forall>s \<in> set (w_servers w). s_state s = Running \<and> PQ_inv (s_scheduler s) \<and>
       map at_time (PQ_elems (s_scheduler s)) = [w_now w]) \<and>
     w_actors w = map ServerActor [0..<length (w_servers w)] @ [NetworkActor] \<and> PQ_IsEmpty (events (w_net w)) \<and>
     w_history w = HistoryRecorder \<and> globals_ok w \<and> unat (w_now w) < 200"

lemma kv_start:
  fixes E :: "('h, 'u) kv_env"
  obtains p w w' where "kv_build E seed = (p, w)" "World_Start w = Inr w'"
    "3 \<le> kp_replicas p \<and> kp_replicas p \<le> 5" "2 \<le> kp_clients p \<and> kp_clients p \<le> 3" "1 \<le> kp_keys p \<and> kp_keys p \<le> 2"
    "pool_of ''kv'' w' = [0..<unat (kp_replicas p)]" "unat (kp_replicas p) \<le> length (w_servers w')"
    "\<forall>k < length (w_servers w'). IsAlive (w_servers w' ! k)"
    "GetGlobal as_size ''keys'' w' = Inr (kp_keys p)" "GetCounter ''requests'' w' = Inr 0"
    "\<And>eat prog. simulated 1000 eat prog w'" "TimeElapsed w' = 0" "kv_fresh w'"
    "set (kp_adversaries p) \<subseteq> {NetMain, NodeMain, ReaperMain} \<and> distinct (kp_adversaries p)"
proof -
  obtain p w where build: "kv_build E seed = (p, w)" and
    ranges: "3 \<le> kp_replicas p \<and> kp_replicas p \<le> 5" "2 \<le> kp_clients p \<and> kp_clients p \<le> 3" "1 \<le> kp_keys p \<and> kp_keys p \<le> 2"
    and shape: "kv_shape (unat (kp_replicas p)) w"
    and globals: "World_GetGlobal ''keys'' w = Some (AnySize (kp_keys p))" "World_GetGlobal ''requests'' w = Some (AnySize 0)"
    and advs: "set (kp_adversaries p) \<subseteq> {NetMain, NodeMain, ReaperMain} \<and> distinct (kp_adversaries p)"
    by (rule kv_build_shape)
  have built: "built w" and tm: "time_model_ok 1000 (w_time_model w)" and pools: "w_pools w = [(''kv'', [0..<unat (kp_replicas p)])]"
    using shape CrazyTimeModel_ok by (simp_all add: kv_shape_def)
  from World_Start_ok [OF built tm] obtain w' where w': "World_Start w = Inr w'" "length (w_servers w') = length (w_servers w)"
    "\<forall>k < length (w_servers w). launched (w_now w') (w_servers w ! k) (w_servers w' ! k)" "w_pools w' = w_pools w"
    "w_globals w' = w_globals (SetConfigGlobals w)" "w_start_time w' = w_now w'"
    "w_actors w' = map ServerActor [0..<length (w_servers w)] @ [NetworkActor]" "w_net w' = Network_Start (w_net w)"
    "w_history w' = w_history w" by blast
  have "pool_of ''kv'' w' = [0..<unat (kp_replicas p)]" using w'(4) pools by (simp add: pool_of_def)
  moreover have "unat (kp_replicas p) \<le> length (w_servers w')"
  proof -
    have "set [0..<unat (kp_replicas p)] \<subseteq> set (members w)" using pools by (auto simp: members_def pool_members_def)
    then have "{0..<unat (kp_replicas p)} \<subseteq> {..<length (w_servers w)}"
      using fresh_members(1) [OF built_fresh [OF built]] by simp
    then have "card {0..<unat (kp_replicas p)} \<le> card {..<length (w_servers w)}" by (intro card_mono) simp_all
    then show ?thesis using w'(2) by simp
  qed
  moreover have "\<forall>k < length (w_servers w'). IsAlive (w_servers w' ! k)" using w'(2,3) by (auto simp: launched_def IsAlive_def)
  moreover have g: "World_GetGlobal name w' = (if name = ''config.net.rtt''
      then Some (AnyInt (sint (tm_EstimateRtt (w_time_model w)))) else World_GetGlobal name w)" for name
    using GetGlobal_SetGlobal(1) [OF built_globals [OF built]] w'(5)
    by (simp add: World_GetGlobal_find SetConfigGlobals_def)
  have "GetGlobal as_size ''keys'' w' = Inr (kp_keys p)" "GetCounter ''requests'' w' = Inr 0"
    using globals by (simp_all add: GetGlobal_def GetCounter_def any_cast_def g)
  moreover have "\<And>eat prog. simulated 1000 eat prog w'" by (rule sim_start [OF built tm w'(1)])
  moreover have "TimeElapsed w' = 0" using w'(6) by (simp add: TimeElapsed_def)
  moreover have "kv_fresh w'"
  proof -
    have "fresh_net (w_net w)" using built_fresh [OF built] by (simp add: fresh_world_def)
    then have "PQ_IsEmpty (events (w_net w'))" using Network_Start_idle w'(8) by simp
    moreover have "globals_ok w'"
      using GetGlobal_SetGlobal(2) [OF built_globals [OF built]] w'(5) by (simp add: globals_ok_def SetConfigGlobals_def)
    moreover have "unat (w_now w') < 200" using start_time_early [OF w'(1)] shape by (simp add: kv_shape_def)
    ultimately show ?thesis using w'(2,3,7,9) built_history [OF built]
      by (auto simp: kv_fresh_def launched_def in_set_conv_nth)
  qed
  ultimately show thesis using that [OF build w'(1) ranges] advs by metis
qed

text \<open>C9. Every seed gives a simulation that starts: 3 to 5 replicas, 2 or 3 clients, 1 or 2 keys; all replicas
  run, no request is counted yet, and a key that a client draws is one of the first keys, so \<open>kKeys.at\<close>
  never throws; the values are between 1 and 100.\<close>

theorem kv_starts:
  assumes "rb_ok rb" and "rn_ok rn"
  shows "\<exists>p w w'. kv_build E seed = (p, w) \<and> World_Start w = Inr w' \<and> kp_replicas p \<in> {3..5} \<and>
    kp_clients p \<in> {2..3} \<and> kp_keys p \<in> {1..2} \<and> length (GetPool ''kv'' w') = unat (kp_replicas p) \<and>
    (\<forall>k \<in> set (pool_of ''kv'' w'). IsAlive (w_servers w' ! k)) \<and> GetCounter ''requests'' w' = Inr 0 \<and>
    (\<exists>req s'. Client_choose rb rn w' s = Inr (req, s') \<and>
      (\<exists>key \<in> set (take (unat (kp_keys p)) kKeys). req = RequestGet key \<or> (\<exists>n \<in> {1..100}. req = RequestSet key (show_nat n))))"
proof -
  obtain p w w' where facts: "kv_build E seed = (p, w)" "World_Start w = Inr w'"
    "3 \<le> kp_replicas p \<and> kp_replicas p \<le> 5" "2 \<le> kp_clients p \<and> kp_clients p \<le> 3" "1 \<le> kp_keys p \<and> kp_keys p \<le> 2"
    "pool_of ''kv'' w' = [0..<unat (kp_replicas p)]" "unat (kp_replicas p) \<le> length (w_servers w')"
    "\<forall>k < length (w_servers w'). IsAlive (w_servers w' ! k)"
    "GetGlobal as_size ''keys'' w' = Inr (kp_keys p)" "GetCounter ''requests'' w' = Inr 0"
    by (rule kv_start [of E seed])
  let ?k = "unat (kp_keys p)"
  have k: "0 < ?k" "?k \<le> length kKeys" using facts(5) by (auto simp: kKeys_def word_le_nat_alt)
  obtain i s1 where 1: "rb ?k s = (i, s1)" by (cases "rb ?k s")
  then have i: "i < ?k" using assms(1) k(1) unfolding rb_ok_def by (metis fst_conv)
  have key: "RandomKey rb w' s = Inr (kKeys ! i, s1)" using facts(9) 1 i k(2) by (simp add: RandomKey_def)
  have "kKeys ! i = take ?k kKeys ! i" "i < length (take ?k kKeys)" using i k(2) by simp_all
  then have mem: "kKeys ! i \<in> set (take ?k kKeys)" by (metis nth_mem)
  obtain m s2 where 2: "rb 2 s1 = (m, s2)" by (cases "rb 2 s1")
  obtain v s3 where 3: "rn 1 100 s2 = (v, s3)" by (cases "rn 1 100 s2")
  have "1 \<le> v \<and> v \<le> 100" using assms(2) 3 unfolding rn_ok_def by (metis fst_conv one_le_numeral)
  then have "\<exists>req s'. Client_choose rb rn w' s = Inr (req, s') \<and>
      (\<exists>key \<in> set (take ?k kKeys). req = RequestGet key \<or> (\<exists>n \<in> {1..100}. req = RequestSet key (show_nat n)))"
    using key mem 2 3 by (cases "m = 1") (auto simp: Client_choose_def Either_def RandomValue_def)
  moreover have "length (GetPool ''kv'' w') = length (pool_of ''kv'' w')"
    by (simp add: pool_of_def GetPool_def split: option.splits)
  then have "length (GetPool ''kv'' w') = unat (kp_replicas p)" using facts(6) by simp
  moreover have "\<forall>k \<in> set (pool_of ''kv'' w'). IsAlive (w_servers w' ! k)" using facts(6-8) by auto
  ultimately show ?thesis using facts(1-5,10) by (intro exI [of _ p] exI [of _ w] exI [of _ w']) simp
qed

section \<open>The verdict\<close>

definition kv_ends :: "('h, 'u) world \<Rightarrow> bool" where
  "kv_ends w \<longleftrightarrow> (\<exists>c. GetCounter ''requests'' w = Inr c \<and>
     (kRequestsThreshold \<le> c \<or> kTimeLimit_kv \<le> TimeElapsed w \<or> FindNextStep w = None))"

lemma kv_loop_sound:
  assumes "kv_loop eat prog w = Some (Inr w')"
  shows "\<exists>n. after_steps eat prog n w = Some w' \<and> kv_ends w'"
proof -
  define Q where "Q eat prog w r \<longleftrightarrow> (\<forall>w'. r = Inr w' \<longrightarrow> (\<exists>n. after_steps eat prog n w = Some w' \<and> kv_ends w'))"
    for eat and prog :: "('a, 'b) program" and w and r :: "('a, 'b) world res"
  have "Q eat prog w (Inr w')"
  proof (rule kv_loop.raw_induct [of Q, OF _ assms])
    fix rl :: "(u64 \<Rightarrow> nat \<Rightarrow> u64) \<Rightarrow> ('a, 'b) program \<Rightarrow> ('a, 'b) world \<Rightarrow> ('a, 'b) world res option"
      and eat prog w r
    assume IH: "\<And>eat prog w r. rl eat prog w = Some r \<Longrightarrow> Q eat prog w r"
      and r: "(case GetCounter ''requests'' w of Inl e \<Rightarrow> Some (Inl e)
        | Inr requests \<Rightarrow> if requests < kRequestsThreshold \<and> TimeElapsed w < kTimeLimit_kv
          then case World_Step eat prog w of Inl e \<Rightarrow> Some (Inl e)
            | Inr (b, w') \<Rightarrow> if \<not> b then Some (Inr w') else rl eat prog w'
          else Some (Inr w)) = Some r"
    show "Q eat prog w r" unfolding Q_def
    proof (intro allI impI)
      fix w' assume r': "r = Inr w'"
      then obtain c where c: "GetCounter ''requests'' w = Inr c" using r by (cases "GetCounter ''requests'' w") auto
      show "\<exists>n. after_steps eat prog n w = Some w' \<and> kv_ends w'"
      proof (cases "kv_ends w")
        case True
        then have "w' = w" using r r' c World_Step_since(4,5) [of eat prog w]
          by (auto simp: kv_ends_def split: if_splits sum.splits)
        then show ?thesis using True by (intro exI [of _ 0]) simp
      next
        case False
        then obtain v where v: "World_Step eat prog w = Inr (True, v)" "rl eat prog v = Some (Inr w')"
          using r r' c World_Step_since(4) [of eat prog w]
          by (cases "World_Step eat prog w") (auto simp: kv_ends_def not_le split: if_splits prod.splits)
        obtain n where "after_steps eat prog n v = Some w'" "kv_ends w'" using IH [OF v(2)] unfolding Q_def by blast
        then show ?thesis using v(1) by (intro exI [of _ "Suc n"]) (auto simp: after_steps_Suc)
      qed
    qed
  qed
  then show ?thesis by (simp add: Q_def)
qed

lemma simulated_after_steps:
  "simulated D eat prog w \<Longrightarrow> after_steps eat prog n w = Some v \<Longrightarrow> simulated D eat prog v"
proof (induction n arbitrary: w)
  case (Suc n)
  then obtain u where "World_Step eat prog w = Inr (True, u)" "after_steps eat prog n u = Some v"
    by (auto simp: after_steps_Suc)
  then show ?case using Suc.IH sim_step [OF Suc.prems(1)] by blast
qed simp

definition stop_keeps :: "('h, 'u) world \<Rightarrow> ('h, 'u) world \<Rightarrow> bool" where
  "stop_keeps w w' \<longleftrightarrow> w_history w' = w_history w \<and> w_globals w' = w_globals w \<and> TimeElapsed w' = TimeElapsed w"

lemma stop_server_keeps: "stop_server i w = Inr w' \<Longrightarrow> stop_keeps w w'"
  by (auto simp: stop_server_def scoped_def on_server_def draw_def set_server_def Server_destroy_def res_bind_Inr
      verify_Inr Let_def stop_keeps_def TimeElapsed_def split: if_splits)

lemma stop_all_keeps:
  assumes "res_fold (\<lambda>i w. stop_server i (w\<lparr>w_digest := g i w\<rparr>)) ks w = Inr w'"
  shows "stop_keeps w w'"
  using assms
  by (rule res_fold_inv [where P = "stop_keeps w"])
    (auto simp: stop_keeps_def TimeElapsed_def dest!: stop_server_keeps)

lemma World_Stop_keeps:
  assumes "World_Stop comb sd w = Inr (d, w')"
  shows "World_History w' = GetHistory (Recorder_Finalize (w_history w))" "World_GetGlobal name w' = World_GetGlobal name w"
    "TimeElapsed w' = TimeElapsed w"
proof -
  have plain: "res_fold stop_server ks u = Inr u' \<Longrightarrow> stop_keeps u u'" for ks and u u' :: "('a, 'b) world"
    using stop_all_keeps [of "\<lambda>i w. w_digest w" ks u u'] by simp
  obtain w1 w2 w3 where 1: "res_fold stop_server (w_adversaries w) w = Inr w1"
    and 2: "res_fold (\<lambda>i w. stop_server i (w\<lparr>w_digest := comb (w_digest w) (sd (w_servers w ! i))\<rparr>)) (pool_members w1)
      (w1\<lparr>w_adversaries := [], w_digest := comb (w_digest w1) (digest (w_net w1)), w_net := Network_Shutdown (w_net w1)\<rparr>) = Inr w2"
    and 3: "res_fold stop_server (w_clients w2) (w2\<lparr>w_pools := []\<rparr>) = Inr w3"
    and w': "w' = w3\<lparr>w_clients := [], w_actors := [], w_history := Recorder_Finalize (w_history w3)\<rparr>"
    using assms by (auto simp: World_Stop_def res_bind_Inr Let_def pool_members_def)
  note k = plain [OF 1] stop_all_keeps [OF 2] plain [OF 3]
  show "World_History w' = GetHistory (Recorder_Finalize (w_history w))" "World_GetGlobal name w' = World_GetGlobal name w"
    "TimeElapsed w' = TimeElapsed w"
    using k by (simp_all add: w' stop_keeps_def World_History_def World_GetGlobal_find TimeElapsed_def)
qed

text \<open>The states of the simulation of a seed and the history that is checked after one of them.\<close>

definition kv_reached :: "('h, 'u) kv_env \<Rightarrow> u64 \<Rightarrow> ('h, 'u) world \<Rightarrow> bool" where
  "kv_reached E seed v \<longleftrightarrow> (\<exists>w n. World_Start (snd (kv_build E seed)) = Inr w \<and>
     after_steps (e_eat E) (e_program E (fst (kv_build E seed))) n w = Some v)"

definition checked_history :: "('h, 'u) world \<Rightarrow> history" where
  "checked_history v = GetHistory (Recorder_Finalize (w_history v))"

lemma kv_reached_proper:
  assumes "kv_reached E seed v"
  shows "\<forall>c \<in> set (checked_history v). proper_call c"
proof -
  obtain p w w' where s: "kv_build E seed = (p, w)" "World_Start w = Inr w'"
    "\<And>eat prog. simulated 1000 eat prog w'" by (rule kv_start [of E seed]) blast
  then obtain n where "after_steps (e_eat E) (e_program E p) n w' = Some v" using assms by (auto simp: kv_reached_def)
  with s(3) have "simulated 1000 (e_eat E) (e_program E p) v" by (rule simulated_after_steps)
  then show ?thesis using sim_history recorder_run_proper unfolding checked_history_def by blast
qed

lemma kv_RunSimulation_cases:
  assumes "kv_RunSimulation E seed r = Some res"
  shows "(\<exists>e r'. res = Inl (Abort e, r')) \<or>
    (\<exists>v r'. kv_reached E seed v \<and> kv_ends v \<and> res = kv_finish E seed v r')"
proof (cases "r_active r")
  case True
  obtain p w where b: "kv_build E seed = (p, w)" by (cases "kv_build E seed")
  show ?thesis
  proof (cases "World_Start w")
    case (Inr u)
    then obtain l where l: "kv_loop (e_eat E) (e_program E p) u = Some l"
      using assms True b by (auto simp: kv_RunSimulation_def Let_def split: option.splits)
    show ?thesis
    proof (cases l)
      case l2: (Inr v)
      then obtain n where "after_steps (e_eat E) (e_program E p) n u = Some v" "kv_ends v"
        using kv_loop_sound l by blast
      then have "kv_reached E seed v" using b Inr by (auto simp: kv_reached_def)
      then show ?thesis using assms True b Inr l l2 \<open>kv_ends v\<close> by (auto simp: kv_RunSimulation_def Let_def)
    qed (use assms True b Inr l in \<open>auto simp: kv_RunSimulation_def Let_def\<close>)
  qed (use assms True b in \<open>auto simp: kv_RunSimulation_def Let_def\<close>)
qed (use assms in \<open>auto simp: kv_RunSimulation_def\<close>)

lemma kv_finish_cases:
  obtains (abort) e r' where "kv_finish E seed v r = Inl (Abort e, r')"
  | (few) c r' where "kv_finish E seed v r = Inl (Exit 1, r')" "GetCounter ''requests'' v = Inr c" "c < kRequestsThreshold"
  | (wrong) c r' where "kv_finish E seed v r = Inl (Exit 1, r')" "GetCounter ''requests'' v = Inr c" "kRequestsThreshold \<le> c"
      "LinCheck (KVStoreModel (e_codec E)) (checked_history v) = Inr False"
  | (pass) d c r' where "kv_finish E seed v r = Inr (d, r')" "GetCounter ''requests'' v = Inr c" "kRequestsThreshold \<le> c"
      "LinCheck (KVStoreModel (e_codec E)) (checked_history v) = Inr True"
proof (cases "World_Stop (e_combine E) (e_server_digest E) v")
  case (Inl e)
  then show thesis using abort by (simp add: kv_finish_def)
next
  case (Inr dw)
  then obtain d w where dw: "World_Stop (e_combine E) (e_server_digest E) v = Inr (d, w)" by (cases dw) simp
  note k = World_Stop_keeps [OF dw]
  have cnt: "GetCounter ''requests'' w = GetCounter ''requests'' v" by (simp add: GetCounter_def GetGlobal_def k(2))
  have hist: "World_History w = checked_history v" using k(1) by (simp add: checked_history_def)
  show thesis
  proof (cases "GetCounter ''requests'' v")
    case (Inl e)
    then show thesis using abort dw cnt by (simp add: kv_finish_def Let_def)
  next
    case c: (Inr c)
    show thesis
    proof (cases "c < kRequestsThreshold")
      case True
      then show thesis using few dw cnt c by (simp add: kv_finish_def Let_def)
    next
      case False
      show thesis
      proof (cases "LinCheck (KVStoreModel (e_codec E)) (checked_history v)")
        case (Inl e)
        then show thesis using abort dw cnt c False hist by (simp add: kv_finish_def Let_def)
      next
        case l: (Inr b)
        show thesis
        proof (cases b)
          case True
          then show thesis using pass dw cnt c False hist l by (simp add: kv_finish_def Let_def)
        next
          case b: False
          then show thesis using abort wrong dw cnt c False hist l
            by (cases "PrintKVHistory (e_codec E) (e_show E) (checked_history v)") (simp_all add: kv_finish_def Let_def)
        qed
      qed
    qed
  qed
qed


section \<open>A run that passes\<close>

text \<open>The first step of a started world is a step of a server that runs its main program.\<close>

lemma started_step:
  assumes running: "\<forall>s \<in> set (w_servers w). s_state s = Running \<and> PQ_inv (s_scheduler s) \<and>
      map at_time (PQ_elems (s_scheduler s)) = [w_now w]"
    and actors: "w_actors w = map ServerActor [0..<length (w_servers w)] @ [NetworkActor]"
    and net: "PQ_IsEmpty (events (w_net w))" and ne: "w_servers w \<noteq> []"
  obtains i t q d where "i < length (w_servers w)"
    "\<And>u. u = w\<lparr>w_step := Suc (w_step w), w_digest := d, w_active := Some (ServerActor i),
        w_servers := (w_servers w)[i := (w_servers w ! i)\<lparr>s_scheduler := q\<rparr>]\<rparr> \<Longrightarrow>
      World_Step eat prog w = res_bind (res_fold (run_syscall i) (prog i t u) u) (\<lambda>v. Inr (True, v\<lparr>w_active := w_active w\<rparr>))"
proof -
  have due: "due w (ServerActor k) = Some (w_now w)" if k: "k < length (w_servers w)" for k
  proof -
    have s: "s_state (w_servers w ! k) = Running" "PQ_inv (s_scheduler (w_servers w ! k))"
      "map at_time (PQ_elems (s_scheduler (w_servers w ! k))) = [w_now w]" using running k by simp_all
    then obtain x where "PQ_elems (s_scheduler (w_servers w ! k)) = [x]" "at_time x = w_now w" by (auto simp: map_eq_Cons_conv)
    then show ?thesis using s sched_rules(3) [OF s(2)]
      by (simp add: due_def actor_IsRunnable_def actor_NextStepTime_def Server_IsRunnable_def Server_NextStepTime_def
          Scheduler_NextTaskTime_def Scheduler_IsEmpty_def PQ_IsEmpty_elems)
  qed
  have idle: "due w NetworkActor = None" using net by (simp add: due_def actor_IsRunnable_def Network_IsRunnable_def)
  have "FindNextStep w \<noteq> None" using FindNextStep_spec [of w] due [of 0] ne actors by auto
  then obtain s where s: "FindNextStep w = Some s" "first_due w 0 (w_actors w) s" using FindNextStep_spec [of w] by blast
  then obtain j where j: "j < length (w_actors w)" "ns_actor s = w_actors w ! j" "due w (w_actors w ! j) = Some (ns_time s)"
    by (auto simp: first_due_def)
  have jl: "j < length (w_servers w)" using j idle actors by (cases "j < length (w_servers w)") (auto simp: nth_append)
  then have actor: "ns_actor s = ServerActor j" "ns_time s = w_now w" using j due actors by (simp_all add: nth_append)
  have inv: "PQ_inv (s_scheduler (w_servers w ! j))" and some: "PQ_elems (s_scheduler (w_servers w ! j)) \<noteq> []"
    using running [rule_format, OF nth_mem [OF jl]] by auto
  obtain t q where take: "Scheduler_TakeNext (s_scheduler (w_servers w ! j)) = Some (t, q)"
    using sched_rules(2) [OF inv] some by (cases "PQ_Extract ScheduledTask_less (s_scheduler (w_servers w ! j))")
      (auto simp: Scheduler_TakeNext_def)
  show thesis
  proof (rule that [OF jl, where d = "eat (eat (w_digest w) (unat (w_now w))) (ns_index s)" and q = q and t = t])
    fix u assume u: "u = w\<lparr>w_step := Suc (w_step w), w_digest := eat (eat (w_digest w) (unat (w_now w))) (ns_index s),
      w_active := Some (ServerActor j), w_servers := (w_servers w)[j := (w_servers w ! j)\<lparr>s_scheduler := q\<rparr>]\<rparr>"
    show "World_Step eat prog w = res_bind (res_fold (run_syscall j) (prog j t u) u) (\<lambda>v. Inr (True, v\<lparr>w_active := w_active w\<rparr>))"
      unfolding World_Step_def s(1) u using jl take actor
      by (simp add: Let_def FastForwardTo_def verify_def scoped_def actor_step_def server_step_def Server_Step_def
          set_server_def res_bind_assoc)
  qed
qed

text \<open>A program that counts seven requests at once and does nothing else.\<close>

definition eager :: "kv_params \<Rightarrow> (nat, nat) program" where
  "eager p i t w = [SysSetGlobal ''requests'' (AnySize 7)]"

definition demo_env :: "(nat, nat) kv_env" where
  "demo_env = \<lparr>e_ids = id, e_heap = small_arena, e_mt19937 = (\<lambda>_ _. 0), e_eat = (\<lambda>d _. d), e_program = eager,
     e_combine = (\<lambda>a b. a), e_server_digest = (\<lambda>_. 0), e_event_log = (\<lambda>_. []),
     e_codec = \<lparr>As_K = Some, As_KV = (\<lambda>_. None), As_KVV = (\<lambda>_. None), MakeValue = (\<lambda>v. v), MakeUnit = [], DefaultValue = []\<rparr>,
     e_show = \<lparr>show_key = (\<lambda>k. k), show_value = (\<lambda>v. v), As_V = Some\<rparr>\<rparr>"

lemma demo_passes:
  assumes "r_active r"
  obtains d r' where "kv_RunSimulation demo_env seed r = Some (Inr (d, r'))"
proof -
  obtain p w w' where s: "kv_build demo_env seed = (p, w)" "World_Start w = Inr w'"
    "3 \<le> kp_replicas p \<and> kp_replicas p \<le> 5" "unat (kp_replicas p) \<le> length (w_servers w')"
    "\<forall>k < length (w_servers w'). IsAlive (w_servers w' ! k)"
    "GetCounter ''requests'' w' = Inr 0" "\<And>eat prog. simulated 1000 eat prog w'" "TimeElapsed w' = 0" "kv_fresh w'"
    by (rule kv_start [of demo_env seed]) blast
  have ne: "w_servers w' \<noteq> []" using s(3,4) by (auto simp: word_le_nat_alt)
  note f = s(9) [unfolded kv_fresh_def]
  obtain i t q d where i: "i < length (w_servers w')" and step:
    "\<And>u. u = w'\<lparr>w_step := Suc (w_step w'), w_digest := d, w_active := Some (ServerActor i),
        w_servers := (w_servers w')[i := (w_servers w' ! i)\<lparr>s_scheduler := q\<rparr>]\<rparr> \<Longrightarrow>
      World_Step (\<lambda>d _. d) (eager p) w' = res_bind (res_fold (run_syscall i) (eager p i t u) u) (\<lambda>v. Inr (True, v\<lparr>w_active := w_active w'\<rparr>))"
    by (rule started_step [where w = w' and eat = "\<lambda>d _. d" and prog = "eager p"]) (use f ne in blast)+
  obtain v where v: "World_Step (\<lambda>d _. d) (eager p) w' = Inr (True, v)" "w_now v = w_now w'" "w_history v = HistoryRecorder"
      "w_globals v = w_globals (World_SetGlobal ''requests'' (AnySize 7) w')"
    unfolding step [OF refl] using i s(5) f
    by (simp add: eager_def run_syscall_def IsAlive_def World_SetGlobal_def)
  have "GetCounter ''requests'' v = Inr 7"
    using GetGlobal_SetGlobal(1) [of w' "''requests''" "''requests''" "AnySize 7"] f v(4)
    by (simp add: GetCounter_def GetGlobal_def any_cast_def World_GetGlobal_find)
  note cnt = this
  have "kv_loop (\<lambda>d _. d) (eager p) v = Some (Inr v)"
    by (subst kv_loop.simps) (simp add: cnt kRequestsThreshold_def)
  then have loop: "kv_loop (\<lambda>d _. d) (eager p) w' = Some (Inr v)"
    by (subst kv_loop.simps) (simp add: s(6,8) kRequestsThreshold_def kTimeLimit_kv_def v(1))
  have "simulated 1000 (\<lambda>d _. d) (eager p) v" using s(7) v(1) by (rule sim_step)
  then have "\<exists>dg w2. World_Stop (e_combine demo_env) (e_server_digest demo_env) v = Inr (dg, w2)"
    using World_Stop_ok [of 1000 "\<lambda>d _. d" "eager p" v "e_combine demo_env" "e_server_digest demo_env"] f v(2)
    by (auto simp: timers_within_def eager_def room_def)
  then obtain dg w2 where stop: "World_Stop (e_combine demo_env) (e_server_digest demo_env) v = Inr (dg, w2)" by blast
  note k = World_Stop_keeps [OF stop]
  have h: "World_History w2 = []" using k(1) v(3) by (simp add: HistoryRecorder_def Recorder_Finalize_def GetHistory_def)
  have "LinCheck (KVStoreModel (e_codec demo_env)) [] = Inr True"
    using kv.LinCheck_exact [of "[]" "e_codec demo_env"] by (simp add: linearizable_def)
  moreover have "GetCounter ''requests'' w2 = Inr 7" using cnt k(2) by (simp add: GetCounter_def GetGlobal_def)
  ultimately have "\<exists>r'. kv_finish demo_env seed v r0 = Inr (dg, r')" for r0
    using stop h by (simp add: kv_finish_def Let_def kRequestsThreshold_def)
  then show thesis using that assms s(1,2) loop by (simp add: kv_RunSimulation_def demo_env_def Let_def) blast
qed


definition first_number :: "nat random_below" where
  "first_number n s = (s mod n, Suc s)"

definition low_number :: "nat random_number" where
  "low_number lo hi s = (lo, Suc s)"

theorem kv_starts_witness:
  "\<exists>p w w'. kv_build demo_env 42 = (p, w) \<and> World_Start w = Inr w' \<and> kp_replicas p \<in> {3..5}"
proof -
  have "rb_ok first_number" "rn_ok low_number" by (simp_all add: rb_ok_def rn_ok_def first_number_def low_number_def)
  from kv_starts [OF this, of demo_env 42 0] show ?thesis by blast
qed

section \<open>The adversaries\<close>

text \<open>Which servers are alive.\<close>

definition alive :: "('h, 'u) world \<Rightarrow> bool list" where
  "alive w = map IsAlive (w_servers w)"

definition dead :: "nat list \<Rightarrow> ('h, 'u) world \<Rightarrow> nat" where
  "dead ks w = length (filter (\<lambda>k. k < length (w_servers w) \<and> \<not> IsAlive (w_servers w ! k)) ks)"

lemma dead_alive: "alive w' = alive w \<Longrightarrow> dead ks w' = dead ks w"
proof -
  assume eq: "alive w' = alive w"
  then have len: "length (w_servers w') = length (w_servers w)" by (metis alive_def length_map)
  have "IsAlive (w_servers w' ! k) = IsAlive (w_servers w ! k)" if "k < length (w_servers w)" for k
    using arg_cong [OF eq, of "\<lambda>xs. xs ! k"] that len by (simp add: alive_def)
  then show ?thesis unfolding dead_def len by (metis (mono_tags, lifting))
qed

lemma on_server_alive:
  assumes "on_server k f w = Inr w'"
    and "\<And>s r s' r'. f s r = Inr (s', r') \<Longrightarrow> IsAlive s' = IsAlive s"
  shows "alive w' = alive w" and "w_pools w' = w_pools w"
proof -
  obtain s r where f: "k < length (w_servers w)" "f (w_servers w ! k) (w_random w) = Inr (s, r)"
      "w' = set_server k s (w\<lparr>w_random := r\<rparr>)"
    using assms(1) by (auto simp: on_server_def draw_def res_bind_Inr split: if_splits)
  then show "alive w' = alive w" using assms(2) by (simp add: alive_def set_server_def map_update list_update_same_conv)
  show "w_pools w' = w_pools w" using f(3) by (simp add: set_server_def)
qed

lemma life_step_alive:
  assumes "life_step now op s r = Inr (s', r')" and "op \<in> {LFastReboot, LPause, LResume}"
  shows "IsAlive s' = IsAlive s"
  using assms
  by (auto simp: server_defs res_bind_Inr split: if_splits sum.splits prod.splits option.splits)

lemma on_victim_alive:
  assumes "on_victim op k w = Inr w'" and "op \<in> {LFastReboot, LPause, LResume}"
  shows "alive w' = alive w" and "w_pools w' = w_pools w"
proof -
  obtain v where v: "on_server k (life_step (w_now w) op) (w\<lparr>w_active := Some (ServerActor k)\<rparr>) = Inr v"
      "w' = v\<lparr>w_active := w_active w\<rparr>"
    using assms(1) by (auto simp: on_victim_def scoped_def res_bind_Inr)
  have *: "IsAlive s' = IsAlive s" if "life_step (w_now w) op s r = Inr (s', r')" for s :: "('a, 'b) server" and r s' r'
    using that assms(2) by (rule life_step_alive)
  show "alive w' = alive w" "w_pools w' = w_pools w"
    using on_server_alive [OF v(1) *] v(2) by (simp_all add: alive_def)
qed

text \<open>How many servers an adversary may still crash.\<close>

fun budget :: "nat \<Rightarrow> adversary \<Rightarrow> nat" where
  "budget n ReaperMain = (n - 1) div 2"
| "budget n (ReaperCrash k) = Suc k"
| "budget n a = 0"

lemma rt_draw_alive: "rt_draw f w = (x, w') \<Longrightarrow> alive w' = alive w \<and> w_servers w' = w_servers w"
  by (auto simp: rt_draw_def alive_def split: prod.splits)

lemma loops_alive:
  "NetAdversary_loop rn w = (d, a, w') \<Longrightarrow> alive w' = alive w \<and> budget n a = 0"
  "NodeAdversary_loop rn w = (d, a, w') \<Longrightarrow> alive w' = alive w \<and> budget n a = 0"
  "NodeReaper_loop rn m w = (d, a, w') \<Longrightarrow> alive w' = alive w \<and> budget n a = m"
  by (auto simp: NetAdversary_loop_def NodeAdversary_loop_def RandomPause_def split: prod.splits if_splits dest!: rt_draw_alive)
    (cases m; auto simp: RandomPause_def split: prod.splits dest!: rt_draw_alive)+

lemma dead_update:
  assumes "distinct ks"
  shows "dead ks (w\<lparr>w_servers := (w_servers w)[k := s]\<rparr>) \<le> Suc (dead ks w)"
proof -
  have "set (filter (\<lambda>j. j < length (w_servers w) \<and> \<not> IsAlive ((w_servers w)[k := s] ! j)) ks) \<subseteq>
      insert k (set (filter (\<lambda>j. j < length (w_servers w) \<and> \<not> IsAlive (w_servers w ! j)) ks))"
    by (auto simp: nth_list_update split: if_splits)
  from card_mono [OF _ this]
  have "card (set (filter (\<lambda>j. j < length (w_servers w) \<and> \<not> IsAlive ((w_servers w)[k := s] ! j)) ks)) \<le>
      Suc (card (set (filter (\<lambda>j. j < length (w_servers w) \<and> \<not> IsAlive (w_servers w ! j)) ks)))"
    by (simp add: card_insert_if split: if_splits)
  then show ?thesis by (simp add: dead_def distinct_card [OF distinct_filter [OF assms], symmetric])
qed

lemma crash_dead:
  assumes "on_victim LCrash k w = Inr w'"
  shows "distinct ks \<Longrightarrow> dead ks w' \<le> Suc (dead ks w)" and "length (w_servers w') = length (w_servers w)"
proof -
  obtain s r where w': "w' = w\<lparr>w_random := r, w_servers := (w_servers w)[k := s]\<rparr>"
    using assms by (auto simp: on_victim_def scoped_def on_server_def draw_def set_server_def res_bind_Inr
        split: if_splits)
  then show "distinct ks \<Longrightarrow> dead ks w' \<le> Suc (dead ks w)"
    using dead_update [of ks "w\<lparr>w_random := r\<rparr>" k s] by (simp add: dead_def)
  show "length (w_servers w') = length (w_servers w)" by (simp add: w')
qed

lemma RandomServer_alive: "RandomServer rb hosts w = Inr (k, w') \<Longrightarrow> alive w' = alive w"
  by (auto simp: RandomServer_def res_bind_Inr split: prod.splits if_splits dest!: rt_draw_alive)

lemma on_net_alive: "on_net f w = Inr w' \<Longrightarrow> alive w' = alive w"
  by (auto simp: on_net_def res_bind_Inr alive_def)

lemma adjust_alive: "scoped (ServerActor k) (on_server k AdjustWallClock) w = Inr w' \<Longrightarrow> alive w' = alive w"
proof -
  assume "scoped (ServerActor k) (on_server k AdjustWallClock) w = Inr w'"
  then obtain v where v: "on_server k AdjustWallClock (w\<lparr>w_active := Some (ServerActor k)\<rparr>) = Inr v"
      "w' = v\<lparr>w_active := w_active w\<rparr>" by (auto simp: scoped_def res_bind_Inr)
  have *: "IsAlive s' = IsAlive s" if "AdjustWallClock s r = Inr (s', r')" for s :: "('a, 'b) server" and r s' r'
    using that by (auto simp: AdjustWallClock_def rnd_bind_def rnd_return_def res_bind_Inr IsAlive_def split: sum.splits prod.splits)
  show ?thesis using on_server_alive(1) [OF v(1) *] v(2) by (simp add: alive_def)
qed

lemma alive_length: "alive w' = alive w \<Longrightarrow> length (w_servers w') = length (w_servers w)"
  by (metis alive_def length_map)

text \<open>An adversary crashes at most as many servers as its budget allows.\<close>

lemma NodeFault_alive:
  fixes w w' :: "('a, 'b) world"
  assumes "adversary_step rb rn names NodeFault w = Inr (d, a', w')"
  shows "alive w' = alive w \<and> budget n a' = 0"
proof -
  obtain k u where u1: "RandomServer rb names w = Inr (k, u)" using assms by (auto simp: res_bind_Inr)
  obtain m v where u2: "rt_draw (rb 3) u = (m, v)" by (cases "rt_draw (rb 3) u")
  note u = u1 u2
  have v: "(if m = 0 then res_bind (on_victim LFastReboot k v) (\<lambda>w. Inr (NodeAdversary_loop rn w))
       else if m = 1 then res_bind (on_victim LPause k v) (\<lambda>w.
         let (d, w) = RandomPause rn 100 300 w in Inr (d, NodeResume k, w))
       else if m = 2 then res_bind (scoped (ServerActor k) (on_server k AdjustWallClock) v) (\<lambda>w.
         Inr (NodeAdversary_loop rn w))
       else Inr (NodeAdversary_loop rn v)) = Inr (d, a', w')"
    using assms u1 u2 by simp
  have "alive w' = alive v \<and> budget n a' = 0"
  proof -
    consider "m = 0" | "m = 1" | "m = 2" | "2 < m" by linarith
    then show ?thesis
    proof cases
      case 1
      then obtain x where x: "on_victim LFastReboot k v = Inr x" "NodeAdversary_loop rn x = (d, a', w')"
        using v by (auto simp: res_bind_Inr)
      show ?thesis using on_victim_alive(1) [OF x(1)] loops_alive(2) [OF x(2)] by simp
    next
      case 2
      then obtain x where x: "on_victim LPause k v = Inr x"
          "(let (d, w) = RandomPause rn 100 300 x in Inr (d, NodeResume k, w)) = (Inr (d, a', w') :: (nat \<times> adversary \<times> ('a, 'b) world) res)"
        using v by (auto simp: res_bind_Inr)
      obtain y z where y: "RandomPause rn 100 300 x = (y, z)" by (cases "RandomPause rn 100 300 x")
      have "a' = NodeResume k" "w' = z" using x(2) y by simp_all
      then show ?thesis using on_victim_alive(1) [OF x(1)] y by (auto simp: RandomPause_def dest: rt_draw_alive)
    next
      case 3
      then obtain x where x: "scoped (ServerActor k) (on_server k AdjustWallClock) v = Inr x" "NodeAdversary_loop rn x = (d, a', w')"
        using v by (auto simp: res_bind_Inr)
      show ?thesis using adjust_alive [OF x(1)] loops_alive(2) [OF x(2)] by simp
    next
      case 4
      then have "NodeAdversary_loop rn v = (d, a', w')" using v by simp
      then show ?thesis by (rule loops_alive(2))
    qed
  qed
  then show ?thesis using RandomServer_alive [OF u(1)] rt_draw_alive [OF u(2)] by simp
qed

lemma NetStar_alive:
  fixes w w' :: "('a, 'b) world"
  assumes "adversary_step rb rn names NetStar w = Inr (d, a', w')"
  shows "alive w' = alive w \<and> budget n a' = 0"
proof -
  obtain m v where m: "rt_draw (rb (length names)) w = (m, v)" by (cases "rt_draw (rb (length names)) w")
  have step: "res_bind (on_net (MakeStar names m) v) (\<lambda>w. let (d, w) = RandomPause rn 100 300 w in Inr (d, NetHeal, w)) =
      (Inr (d, a', w') :: (nat \<times> adversary \<times> ('a, 'b) world) res)"
    using assms m by simp
  then obtain x where x: "on_net (MakeStar names m) v = Inr x"
      "(let (d, w) = RandomPause rn 100 300 x in Inr (d, NetHeal, w)) = (Inr (d, a', w') :: (nat \<times> adversary \<times> ('a, 'b) world) res)"
    by (auto simp: res_bind_Inr)
  obtain y z where y: "RandomPause rn 100 300 x = (y, z)" by (cases "RandomPause rn 100 300 x")
  have "a' = NetHeal" "w' = z" using x(2) y by simp_all
  then show ?thesis
    using y on_net_alive [OF x(1)] rt_draw_alive [OF m] by (auto simp: RandomPause_def dest: rt_draw_alive)
qed

lemma ReaperMain_budget:
  assumes "adversary_step rb rn names ReaperMain w = Inr (d, a', w')" and "rn_ok rn" and "length names = n"
  shows "dead ks w' + budget n a' \<le> dead ks w + budget n ReaperMain \<and> length (w_servers w') = length (w_servers w)"
proof -
  obtain m v where m: "rt_draw (rn 0 ((n - 1) div 2)) w = (m, v)" by (cases "rt_draw (rn 0 ((n - 1) div 2)) w")
  have "m \<le> (n - 1) div 2"
  proof -
    have "m = fst (rn 0 ((n - 1) div 2) (w_random w))" using m by (auto simp: rt_draw_def split: prod.splits)
    then show ?thesis using assms(2) unfolding rn_ok_def by blast
  qed
  moreover have "NodeReaper_loop rn m v = (d, a', w')" using assms(1,3) m by simp
  then have "alive w' = alive v" "budget n a' = m" using loops_alive(3) by blast+
  ultimately show ?thesis using dead_alive [of w' w ks] alive_length [of w' w] rt_draw_alive [OF m] by simp
qed

lemma ReaperCrash_budget:
  assumes "adversary_step rb rn names (ReaperCrash m) w = Inr (d, a', w')" and "distinct ks"
  shows "dead ks w' + budget n a' \<le> dead ks w + budget n (ReaperCrash m) \<and> length (w_servers w') = length (w_servers w)"
proof -
  obtain k u v where u: "RandomServer rb names w = Inr (k, u)"
      "(if IsAlive (w_servers u ! k) then on_victim LCrash k u else Inr u) = Inr v" "NodeReaper_loop rn m v = (d, a', w')"
    using assms(1) by (auto simp: res_bind_Inr)
  have "dead ks v \<le> Suc (dead ks u)"
    using u(2) crash_dead(1) [OF _ assms(2)] by (cases "IsAlive (w_servers u ! k)") auto
  moreover have "dead ks u = dead ks w" using RandomServer_alive [OF u(1)] by (rule dead_alive)
  moreover have "dead ks w' = dead ks v" "length (w_servers w') = length (w_servers v)" "budget n a' = m"
    using loops_alive(3) [OF u(3)] dead_alive alive_length by blast+
  moreover have "length (w_servers v) = length (w_servers u)"
    using u(2) crash_dead(2) by (cases "IsAlive (w_servers u ! k)") auto
  moreover have "length (w_servers u) = length (w_servers w)" using RandomServer_alive [OF u(1)] by (rule alive_length)
  ultimately show ?thesis by simp
qed

lemma harmless_budget:
  "alive w' = alive w \<and> budget n a' = 0 \<Longrightarrow>
     dead ks w' + budget n a' \<le> dead ks w + budget n a \<and> length (w_servers w') = length (w_servers w)"
  using dead_alive [of w' w ks] alive_length [of w' w] by simp

lemma adversary_budget:
  assumes "adversary_step rb rn names a w = Inr (d, a', w')" and "rn_ok rn" and "distinct ks" and "length names = n"
  shows "dead ks w' + budget n a' \<le> dead ks w + budget n a \<and> length (w_servers w') = length (w_servers w)"
proof (cases a)
  case ReaperMain
  then show ?thesis using ReaperMain_budget assms(1,2,4) by blast
next
  case (ReaperCrash m)
  then show ?thesis using ReaperCrash_budget assms(1,3) by blast
next
  case NodeFault
  show ?thesis by (rule harmless_budget, rule NodeFault_alive) (rule assms(1) [unfolded NodeFault])
next
  case (NodeResume k)
  then obtain v where v: "on_victim LResume k w = Inr v" "NodeAdversary_loop rn v = (d, a', w')"
    using assms(1) by (auto simp: res_bind_Inr)
  show ?thesis using on_victim_alive(1) [OF v(1)] loops_alive(2) [OF v(2)] by (intro harmless_budget) simp
next
  case NetStar
  show ?thesis by (rule harmless_budget, rule NetStar_alive) (rule assms(1) [unfolded NetStar])
next
  case NetHeal
  then obtain v where v: "on_net (\<lambda>net. loop_ends (Network_Heal (w_now w) net)) w = Inr v" "NetAdversary_loop rn v = (d, a', w')"
    using assms(1) by (auto simp: res_bind_Inr)
  show ?thesis using on_net_alive [OF v(1)] loops_alive(1) [OF v(2)] by (intro harmless_budget) simp
next
  case NetMain
  then show ?thesis using assms(1) loops_alive(1) by (intro harmless_budget) simp
next
  case NodeMain
  then show ?thesis using assms(1) loops_alive(2) by (intro harmless_budget) simp
next
  case Finished
  then show ?thesis using assms(1) by simp
qed

text \<open>The adversaries of a simulation act one by one, at any times between steps of the world in which the nodes
  and clients do not crash or start servers themselves.\<close>

inductive attacked ::
    "random_source random_below \<Rightarrow> random_source random_number \<Rightarrow> ('h, 'u) kv_env \<Rightarrow> u64 \<Rightarrow> adversary list \<Rightarrow> ('h, 'u) world \<Rightarrow> bool"
  for rb rn E seed where
  attack_start: "kv_build E seed = (p, w) \<Longrightarrow> World_Start w = Inr w' \<Longrightarrow> attacked rb rn E seed (kp_adversaries p) w'"
| attack_adversary: "attacked rb rn E seed as w \<Longrightarrow> i < length as \<Longrightarrow>
    length names = unat (kp_replicas (fst (kv_build E seed))) \<Longrightarrow>
    adversary_step rb rn names (as ! i) w = Inr (d, a, w') \<Longrightarrow> attacked rb rn E seed (as[i := a]) w'"
| attack_world: "attacked rb rn E seed as w \<Longrightarrow> World_Step eat prog w = Inr (b, w') \<Longrightarrow> alive w' = alive w \<Longrightarrow>
    attacked rb rn E seed as w'"

inductive_cases attackedE: "attacked rb rn E seed as w"

lemma budget_update:
  "i < length as \<Longrightarrow> sum_list (map (budget n) (as[i := a])) + budget n (as ! i) = sum_list (map (budget n) as) + budget n a"
proof (induction as arbitrary: i)
  case (Cons x as)
  then show ?case by (cases i) auto
qed simp

lemma attacked_budget:
  assumes "attacked rb rn E seed as w" and "rn_ok rn" and "kv_build E seed = (p, w0)"
  shows "dead [0..<unat (kp_replicas p)] w + sum_list (map (budget (unat (kp_replicas p))) as) \<le> (unat (kp_replicas p) - 1) div 2 \<and>
    unat (kp_replicas p) \<le> length (w_servers w)"
  using assms(1)
proof (induction rule: attacked.induct)
  case (attack_start q u w')
  let ?n = "unat (kp_replicas p)"
  have q: "q = p" "u = w0" using attack_start.hyps(1) assms(3) by simp_all
  obtain p2 w2 w3 where s: "kv_build E seed = (p2, w2)" "World_Start w2 = Inr w3" "unat (kp_replicas p2) \<le> length (w_servers w3)"
    "\<forall>k < length (w_servers w3). IsAlive (w_servers w3 ! k)"
    "set (kp_adversaries p2) \<subseteq> {NetMain, NodeMain, ReaperMain} \<and> distinct (kp_adversaries p2)"
    by (rule kv_start [of E seed]) blast
  have eq: "p2 = p" "w3 = w'" using s(1,2) q assms(3) attack_start.hyps by auto
  have "dead [0..<?n] w' = 0" using s(4) by (auto simp: dead_def eq filter_empty_conv)
  moreover have "sum_list (map (budget ?n) (kp_adversaries p)) = (\<Sum>a \<in> set (kp_adversaries p). budget ?n a)"
    using s(5) by (simp add: sum_list_distinct_conv_sum_set eq)
  moreover have "(\<Sum>a \<in> set (kp_adversaries p). budget ?n a) \<le> (\<Sum>a \<in> {NetMain, NodeMain, ReaperMain}. budget ?n a)"
    using s(5) by (intro sum_mono2) (simp_all add: eq)
  ultimately show ?case using s(3) by (simp add: q eq)
next
  case (attack_adversary as w i names d a w')
  let ?n = "unat (kp_replicas p)"
  have "length names = ?n" using attack_adversary.hyps(3) assms(3) by simp
  from adversary_budget [OF attack_adversary.hyps(4) assms(2) _ this, of "[0..<?n]"]
  have "dead [0..<?n] w' + budget ?n a \<le> dead [0..<?n] w + budget ?n (as ! i)"
    "length (w_servers w') = length (w_servers w)" by simp_all
  moreover note budget_update [OF attack_adversary.hyps(2), of ?n a]
  ultimately show ?case using attack_adversary.IH by linarith
next
  case (attack_world as w eat prog b w')
  have "length (w_servers w') = length (w_servers w)"
    using arg_cong [OF attack_world.hyps(3), of length] by (simp add: alive_def)
  then show ?case using attack_world.IH dead_alive [OF attack_world.hyps(3)] by simp
qed

text \<open>C5. The adversaries leave a quorum. Whatever they draw, in whatever order and at whatever times the adversaries
  of a simulation act, at every moment a majority of the replicas is alive, so a coordinator that waits for
  a majority does not wait for a crashed replica.\<close>

theorem majority_survives:
  assumes "attacked rb rn E seed as w" and "rn_ok rn"
  shows "Majority (unat (kp_replicas (fst (kv_build E seed)))) \<le>
    card {k. k < unat (kp_replicas (fst (kv_build E seed))) \<and> IsAlive (w_servers w ! k)}"
proof -
  obtain p w0 where b: "kv_build E seed = (p, w0)" by (cases "kv_build E seed")
  let ?n = "unat (kp_replicas p)"
  have *: "dead [0..<?n] w \<le> (?n - 1) div 2" "?n \<le> length (w_servers w)"
    using attacked_budget [OF assms b] by auto
  have "1 \<le> ?n" by (rule kv_build_shape [of E seed]) (use b in \<open>auto simp: word_le_nat_alt\<close>)
  have "{k. k < ?n \<and> IsAlive (w_servers w ! k)} = {..<?n} - set (filter (\<lambda>k. k < length (w_servers w) \<and> \<not> IsAlive (w_servers w ! k)) [0..<?n])"
    using *(2) by auto
  moreover have "card ({..<?n} - set (filter (\<lambda>k. k < length (w_servers w) \<and> \<not> IsAlive (w_servers w ! k)) [0..<?n])) =
      ?n - dead [0..<?n] w"
    by (subst card_Diff_subset) (auto simp: dead_def distinct_card [OF distinct_filter, symmetric])
  ultimately show ?thesis using *(1) \<open>1 \<le> ?n\<close> by (simp add: b Majority_def)
qed

theorem majority_survives_witness:
  "\<exists>as w. attacked (\<lambda>n r. (0, r)) (\<lambda>lo hi r. (lo, r)) demo_env 42 as w \<and>
     Majority (unat (kp_replicas (fst (kv_build demo_env 42)))) \<le>
       card {k. k < unat (kp_replicas (fst (kv_build demo_env 42))) \<and> IsAlive (w_servers w ! k)}"
proof -
  obtain p w w' where s: "kv_build demo_env 42 = (p, w)" "World_Start w = Inr w'" by (rule kv_start [of demo_env 42])
  have "attacked (\<lambda>n r. (0, r)) (\<lambda>lo hi r. (lo, r)) demo_env 42 (kp_adversaries p) w'" by (rule attack_start [OF s])
  moreover have "rn_ok (\<lambda>lo hi (r :: random_source). (lo, r))" by (simp add: rn_ok_def)
  ultimately show ?thesis using majority_survives by blast
qed

end
