(* ===== verification/New_Delete.thy ===== *)
theory New_Delete
  imports Allocator
begin

text \<open>
  \<open>new/{new.hpp,new.cpp,tracker.hpp}\<close> and \<open>process/memory.hpp\<close>: the global \<open>operator new\<close> and \<open>delete\<close>, which
  go to the heap of the scope they are called in, the guards that open these scopes, the checksum of the
  allocations of the simulator itself and their tracker. What \<open>std::malloc\<close> returns is an argument.
\<close>

unbundle bit_operations_syntax

section \<open>The tracker\<close>

record alloc_record =
  ar_address :: u64
  ar_size :: nat
  ar_id :: nat

text \<open>The intrusive lists hold positions of the pool.\<close>

record alloc_tracker =
  at_active :: bool
  at_pool :: "nat \<Rightarrow> alloc_record"
  at_next_index :: nat
  at_next_id :: nat
  at_free_list :: "nat list"
  at_allocs :: "nat list"

definition kAllocLimit :: nat where "kAllocLimit = 100500"

definition GlobalAllocTracker :: "(nat \<Rightarrow> alloc_record) \<Rightarrow> alloc_tracker" where
  "GlobalAllocTracker pool = \<lparr>at_active = False, at_pool = pool, at_next_index = 0, at_next_id = 0,
     at_free_list = [], at_allocs = []\<rparr>"

definition Tracker_Activate :: "alloc_tracker \<Rightarrow> alloc_tracker" where
  "Tracker_Activate t = t\<lparr>at_active := True\<rparr>"

text \<open>The position may lie beyond the end of the pool.\<close>

definition Tracker_GetRecord :: "alloc_tracker \<Rightarrow> nat \<times> alloc_tracker" where
  "Tracker_GetRecord t = (case at_free_list t of
       i # rest \<Rightarrow> (i, t\<lparr>at_free_list := rest\<rparr>)
     | [] \<Rightarrow> (at_next_index t, t\<lparr>at_next_index := at_next_index t + 1\<rparr>))"

definition Tracker_Allocate :: "u64 \<Rightarrow> nat \<Rightarrow> alloc_tracker \<Rightarrow> (nat \<times> alloc_tracker) res" where
  "Tracker_Allocate addr sz t =
     (if \<not> at_active t then Inr (0, t)
      else let (i, t) = Tracker_GetRecord t; alloc_id = at_next_id t + 1 in
        if i < kAllocLimit
        then Inr (alloc_id, t\<lparr>at_pool := (at_pool t)(i := \<lparr>ar_address = addr, ar_size = sz, ar_id = alloc_id\<rparr>),
               at_next_id := alloc_id, at_allocs := at_allocs t @ [i]\<rparr>)
        else Inl (Undefined ''pool_[i]''))"

definition Tracker_Deallocate :: "u64 \<Rightarrow> alloc_tracker \<Rightarrow> alloc_tracker" where
  "Tracker_Deallocate addr t =
     (if \<not> at_active t then t
      else case find (\<lambda>i. ar_address (at_pool t i) = addr) (at_allocs t) of
          None \<Rightarrow> t
        | Some i \<Rightarrow> t\<lparr>at_allocs := remove1 i (at_allocs t), at_free_list := at_free_list t @ [i]\<rparr>)"

definition Tracker_PrintReport :: "(u64 \<Rightarrow> string) \<Rightarrow> alloc_tracker \<Rightarrow> string list" where
  "Tracker_PrintReport show_ptr t = ''Active global allocations:'' #
     map (\<lambda>i. show_ptr (ar_address (at_pool t i)) @ '' / '' @ show_nat (ar_size (at_pool t i)) @ '' / id = '' @
       show_nat (ar_id (at_pool t i))) (at_allocs t)"

section \<open>New and delete\<close>

text \<open>\<open>None\<close> is the global allocator, \<open>Some h\<close> the heap of process \<open>h\<close>.\<close>

record new_state =
  ns_allocator :: "nat option"
  ns_checksum :: u64
  ns_tracker :: alloc_tracker
  ns_heaps :: "allocator list"

definition SetAllocator :: "nat option \<Rightarrow> new_state \<Rightarrow> new_state" where
  "SetAllocator a s = s\<lparr>ns_allocator := a\<rparr>"

definition GetCurrentAllocator :: "new_state \<Rightarrow> nat option" where
  "GetCurrentAllocator s = ns_allocator s"

definition AllocateGlobal :: "u64 option \<Rightarrow> nat \<Rightarrow> new_state \<Rightarrow> (u64 \<times> new_state) res" where
  "AllocateGlobal malloc sz s = (case malloc of
       Some addr \<Rightarrow>
         let s = s\<lparr>ns_checksum := ns_checksum s XOR addr\<rparr> in
         res_bind (Tracker_Allocate addr sz (ns_tracker s)) (\<lambda>(_, t). Inr (addr, s\<lparr>ns_tracker := t\<rparr>))
     | None \<Rightarrow> Inl (Panic (''Failed to malloc '' @ show_nat sz @ '' bytes'')))"

definition FreeGlobal :: "u64 \<Rightarrow> new_state \<Rightarrow> new_state" where
  "FreeGlobal addr s =
     s\<lparr>ns_checksum := ns_checksum s XOR addr, ns_tracker := Tracker_Deallocate addr (ns_tracker s)\<rparr>"

definition GlobalAllocsCheckSum :: "new_state \<Rightarrow> u64" where
  "GlobalAllocsCheckSum s = ns_checksum s"

definition ActivateAllocsTracker :: "new_state \<Rightarrow> new_state" where
  "ActivateAllocsTracker s = s\<lparr>ns_tracker := Tracker_Activate (ns_tracker s)\<rparr>"

definition operator_new :: "bithacks \<Rightarrow> u64 option \<Rightarrow> nat \<Rightarrow> new_state \<Rightarrow> (u64 \<times> new_state) res" where
  "operator_new bh malloc sz s = (case ns_allocator s of
       Some h \<Rightarrow>
         if h < length (ns_heaps s)
         then res_bind (Allocate bh sz (ns_heaps s ! h)) (\<lambda>(a, m). Inr (of_nat a, s\<lparr>ns_heaps := (ns_heaps s)[h := m]\<rparr>))
         else Inl (Undefined ''dangling allocator'')
     | None \<Rightarrow> AllocateGlobal malloc sz s)"

definition operator_delete :: "bithacks \<Rightarrow> u64 \<Rightarrow> new_state \<Rightarrow> new_state res" where
  "operator_delete bh addr s = (case ns_allocator s of
       Some h \<Rightarrow>
         if h < length (ns_heaps s)
         then res_bind (Free bh (unat addr) (ns_heaps s ! h)) (\<lambda>m. Inr (s\<lparr>ns_heaps := (ns_heaps s)[h := m]\<rparr>))
         else Inl (Undefined ''dangling allocator'')
     | None \<Rightarrow> Inr (FreeGlobal addr s))"

section \<open>Guards\<close>

record allocator_guard =
  ag_active :: bool
  ag_saved :: "nat option"

definition AllocatorGuard :: "nat option \<Rightarrow> new_state \<Rightarrow> allocator_guard \<times> new_state" where
  "AllocatorGuard a s = (\<lparr>ag_active = True, ag_saved = GetCurrentAllocator s\<rparr>, SetAllocator a s)"

definition GlobalAllocatorGuard :: "new_state \<Rightarrow> allocator_guard \<times> new_state" where
  "GlobalAllocatorGuard = AllocatorGuard None"

definition ParentScopeHeap :: "allocator_guard \<Rightarrow> nat option" where
  "ParentScopeHeap g = ag_saved g"

definition RollBack :: "allocator_guard \<Rightarrow> new_state \<Rightarrow> allocator_guard \<times> new_state" where
  "RollBack g s = (if ag_active g then (g\<lparr>ag_active := False\<rparr>, SetAllocator (ag_saved g) s) else (g, s))"

definition AllocatorGuard_destroy :: "allocator_guard \<Rightarrow> new_state \<Rightarrow> new_state" where
  "AllocatorGuard_destroy g s = snd (RollBack g s)"

definition Memory_Use :: "nat \<Rightarrow> new_state \<Rightarrow> allocator_guard \<times> new_state" where
  "Memory_Use h = AllocatorGuard (Some h)"

text \<open>Code with scopes: \<open>early\<close> code runs under the guard, \<open>late\<close> code after its \<open>RollBack\<close>, in the same scope.\<close>

datatype mem_code =
    MNew nat "u64 option"
  | MDelete u64
  | MScope "nat option" "mem_code list" "mem_code list"

fun run_code :: "bithacks \<Rightarrow> mem_code \<Rightarrow> new_state \<Rightarrow> new_state res"
  and run_codes :: "bithacks \<Rightarrow> mem_code list \<Rightarrow> new_state \<Rightarrow> new_state res" where
  "run_code bh (MNew sz malloc) s = res_bind (operator_new bh malloc sz s) (\<lambda>(a, s). Inr s)"
| "run_code bh (MDelete a) s = operator_delete bh a s"
| "run_code bh (MScope a early late) s =
     (let (g, s) = AllocatorGuard a s in
      res_bind (run_codes bh early s) (\<lambda>s.
        let (g, s) = (if late = [] then (g, s) else RollBack g s) in
        res_bind (run_codes bh late s) (\<lambda>s. Inr (AllocatorGuard_destroy g s))))"
| "run_codes bh [] s = Inr s"
| "run_codes bh (c # cs) s = res_bind (run_code bh c s) (run_codes bh cs)"

section \<open>Scopes\<close>

text \<open>The allocators that a piece of code switches to.\<close>

fun scopes :: "mem_code \<Rightarrow> nat option set" where
  "scopes (MNew sz malloc) = {}"
| "scopes (MDelete a) = {}"
| "scopes (MScope a early late) = insert a (\<Union> (scopes ` set early) \<union> \<Union> (scopes ` set late))"

definition untouched :: "nat option set \<Rightarrow> new_state \<Rightarrow> new_state \<Rightarrow> bool" where
  "untouched A s s' \<longleftrightarrow> (\<forall>h. Some h \<notin> A \<longrightarrow> ns_heaps s' ! h = ns_heaps s ! h) \<and>
     (None \<notin> A \<longrightarrow> ns_checksum s' = ns_checksum s \<and> ns_tracker s' = ns_tracker s)"

lemma untouched_refl [simp]: "untouched A s s"
  by (simp add: untouched_def)

lemma untouched_trans: "untouched A s t \<Longrightarrow> untouched B t u \<Longrightarrow> A \<subseteq> C \<Longrightarrow> B \<subseteq> C \<Longrightarrow> untouched C s u"
  unfolding untouched_def by (metis subsetD)

lemma untouched_switch [simp]:
  "untouched A (SetAllocator a s) t = untouched A s t" "untouched A s (SetAllocator a t) = untouched A s t"
  by (simp_all add: untouched_def SetAllocator_def)

lemma operator_new_untouched:
  "operator_new bh malloc sz s = Inr (a, s') \<Longrightarrow> ns_allocator s' = ns_allocator s \<and> untouched {ns_allocator s} s s'"
  by (auto simp: operator_new_def AllocateGlobal_def untouched_def res_bind_Inr Let_def split: option.splits if_splits)

lemma operator_delete_untouched:
  "operator_delete bh a s = Inr s' \<Longrightarrow> ns_allocator s' = ns_allocator s \<and> untouched {ns_allocator s} s s'"
  by (auto simp: operator_delete_def FreeGlobal_def untouched_def res_bind_Inr split: option.splits if_splits)

lemma run_code_scopes:
  "run_code bh c s = Inr s' \<Longrightarrow> ns_allocator s' = ns_allocator s \<and> untouched (insert (ns_allocator s) (scopes c)) s s'"
  "run_codes bh cs s = Inr s' \<Longrightarrow> ns_allocator s' = ns_allocator s \<and>
     untouched (insert (ns_allocator s) (\<Union> (scopes ` set cs))) s s'"
proof (induction bh c s and bh cs s arbitrary: s' and s' rule: run_code_run_codes.induct)
  case (1 bh sz malloc s)
  then show ?case using operator_new_untouched by (auto simp: res_bind_Inr)
next
  case (2 bh a s)
  then show ?case using operator_delete_untouched by auto
next
  case (3 bh a early late s)
  let ?g = "\<lparr>ag_active = True, ag_saved = ns_allocator s\<rparr>"
  obtain t where t: "run_codes bh early (SetAllocator a s) = Inr t"
    using "3.prems" by (auto simp: AllocatorGuard_def res_bind_Inr)
  have g: "(?g, SetAllocator a s) = AllocatorGuard a s" by (simp add: AllocatorGuard_def GetCurrentAllocator_def)
  have cur: "ns_allocator (SetAllocator a s) = a" for a s by (simp add: SetAllocator_def)
  have 1: "ns_allocator t = a" "untouched (insert a (\<Union> (scopes ` set early))) s t"
    using "3.IH"(1) [OF refl g t] by (simp_all add: cur)
  show ?case
  proof (cases "late = []")
    case True
    then have "s' = SetAllocator (ns_allocator s) t"
      using "3.prems" t by (simp add: AllocatorGuard_def GetCurrentAllocator_def AllocatorGuard_destroy_def RollBack_def)
    moreover have "untouched (insert (ns_allocator s) (scopes (MScope a early late))) s t"
      by (rule untouched_trans [OF 1(2) untouched_refl [of "{}"]]) auto
    ultimately show ?thesis by (simp add: cur)
  next
    case False
    then have u: "run_codes bh late (SetAllocator (ns_allocator s) t) = Inr s'"
      using "3.prems" t by (auto simp: AllocatorGuard_def GetCurrentAllocator_def AllocatorGuard_destroy_def RollBack_def res_bind_Inr)
    have 2: "ns_allocator s' = ns_allocator s \<and> untouched (insert (ns_allocator s) (\<Union> (scopes ` set late))) t s'"
      using "3.IH"(2) [OF refl g _ _ u, of "(?g\<lparr>ag_active := False\<rparr>, SetAllocator (ns_allocator s) t)" t] False
      by (simp add: RollBack_def cur)
    have "untouched (insert (ns_allocator s) (scopes (MScope a early late))) s s'"
      by (rule untouched_trans [OF 1(2) conjunct2 [OF 2]]) auto
    then show ?thesis using 2 by simp
  qed
next
  case (4 bh s)
  then show ?case by simp
next
  case (5 bh c cs s)
  obtain t where t: "run_code bh c s = Inr t" "run_codes bh cs t = Inr s'" using "5.prems" by (auto simp: res_bind_Inr)
  have 1: "ns_allocator t = ns_allocator s" "untouched (insert (ns_allocator s) (scopes c)) s t"
    using "5.IH"(1) [OF t(1)] by simp_all
  have 2: "ns_allocator s' = ns_allocator s" "untouched (insert (ns_allocator s) (\<Union> (scopes ` set cs))) t s'"
    using "5.IH"(2) [OF t(2)] 1(1) by simp_all
  have "untouched (insert (ns_allocator s) (\<Union> (scopes ` set (c # cs)))) s s'"
    by (rule untouched_trans [OF 1(2) 2(2)]) auto
  then show ?case using 2(1) by simp
qed

text \<open>C31. Scopes of allocators nest. Whatever a piece of code does, its guards put the allocator back that was
  active before it, rolled back early or not; heaps that it neither runs in nor opens a scope for are not
  touched, and the allocations of the simulator are accounted for only in the global scope.\<close>

theorem guards_nest:
  assumes "run_code bh c s = Inr s'"
  shows "GetCurrentAllocator s' = GetCurrentAllocator s \<and>
    (\<forall>h. GetCurrentAllocator s \<noteq> Some h \<and> Some h \<notin> scopes c \<longrightarrow> ns_heaps s' ! h = ns_heaps s ! h) \<and>
    (GetCurrentAllocator s \<noteq> None \<and> None \<notin> scopes c \<longrightarrow>
       GlobalAllocsCheckSum s' = GlobalAllocsCheckSum s \<and> ns_tracker s' = ns_tracker s)"
  using run_code_scopes(1) [OF assms] by (auto simp: untouched_def GetCurrentAllocator_def GlobalAllocsCheckSum_def)

definition no_allocs :: "allocator list \<Rightarrow> new_state" where
  "no_allocs hs = \<lparr>ns_allocator = None, ns_checksum = 0,
     ns_tracker = GlobalAllocTracker (\<lambda>_. \<lparr>ar_address = 0, ar_size = 0, ar_id = 0\<rparr>), ns_heaps = hs\<rparr>"

definition boot :: mem_code where
  "boot = MScope (Some 0) [MScope None [MNew 8 (Some 4096)] []] [MNew 8 (Some 8192), MDelete 4096]"

theorem guards_nest_witness:
  "\<exists>s'. run_code std_bithacks boot (no_allocs [small_arena]) = Inr s' \<and> GetCurrentAllocator s' = None \<and>
     GlobalAllocsCheckSum s' = 8192"
proof -
  have "\<exists>s'. run_code std_bithacks boot (no_allocs [small_arena]) = Inr s' \<and> GlobalAllocsCheckSum s' = 8192"
    by (simp add: boot_def no_allocs_def AllocatorGuard_def GetCurrentAllocator_def SetAllocator_def operator_new_def
        AllocateGlobal_def Let_def Tracker_Allocate_def GlobalAllocTracker_def AllocatorGuard_destroy_def RollBack_def
        operator_delete_def FreeGlobal_def GlobalAllocsCheckSum_def)
  then obtain s' where s': "run_code std_bithacks boot (no_allocs [small_arena]) = Inr s'" "GlobalAllocsCheckSum s' = 8192" by blast
  then show ?thesis using guards_nest [OF s'(1)] by (auto simp: no_allocs_def GetCurrentAllocator_def)
qed

section \<open>Live allocations of the simulator\<close>

definition xor_all :: "u64 list \<Rightarrow> u64" where
  "xor_all xs = foldr (XOR) xs 0"

lemma xor_all_simps [simp]:
  "xor_all [] = 0" "xor_all (x # xs) = x XOR xor_all xs" "xor_all (xs @ [x]) = xor_all xs XOR x"
  by (induction xs) (simp_all add: xor_all_def ac_simps)

lemma xor_all_remove: "a \<in> set xs \<Longrightarrow> distinct xs \<Longrightarrow> xor_all (filter (\<lambda>x. x \<noteq> a) xs) = xor_all xs XOR a"
proof (induction xs)
  case (Cons x xs)
  show ?case
  proof (cases "x = a")
    case True
    then have "filter (\<lambda>x. x \<noteq> a) xs = xs" using Cons.prems(2) by (auto simp: filter_id_conv)
    then show ?thesis using True by (simp add: ac_simps bit.xor_left_self flip: xor.assoc)
  next
    case False
    then show ?thesis using Cons by (simp add: ac_simps)
  qed
qed simp

text \<open>The allocations that are live after a piece of straight code of the simulator, in the order they were
  made; \<open>None\<close> when \<open>malloc\<close> gives an address that is in use or the code deletes one that is not.\<close>

fun live_after :: "mem_code list \<Rightarrow> (u64 \<times> nat) list \<Rightarrow> (u64 \<times> nat) list option" where
  "live_after [] live = Some live"
| "live_after (MNew sz (Some a) # cs) live = (if a \<in> fst ` set live then None else live_after cs (live @ [(a, sz)]))"
| "live_after (MDelete a # cs) live =
     (if a \<in> fst ` set live then live_after cs (filter (\<lambda>p. fst p \<noteq> a) live) else None)"
| "live_after (c # cs) live = None"

text \<open>The largest number of live allocations on the way.\<close>

fun peak :: "mem_code list \<Rightarrow> (u64 \<times> nat) list \<Rightarrow> nat" where
  "peak [] live = length live"
| "peak (MNew sz (Some a) # cs) live = max (length live) (peak cs (live @ [(a, sz)]))"
| "peak (MDelete a # cs) live = max (length live) (peak cs (filter (\<lambda>p. fst p \<noteq> a) live))"
| "peak (c # cs) live = length live"

lemma peak_ge: "length live \<le> peak cs live"
  by (induction cs live rule: peak.induct) auto

definition entry :: "alloc_tracker \<Rightarrow> nat \<Rightarrow> u64 \<times> nat" where
  "entry t i = (ar_address (at_pool t i), ar_size (at_pool t i))"

definition tracks :: "alloc_tracker \<Rightarrow> (u64 \<times> nat) list \<Rightarrow> bool" where
  "tracks t live \<longleftrightarrow> at_active t \<and> map (entry t) (at_allocs t) = live \<and> distinct (map fst live) \<and>
     distinct (at_allocs t @ at_free_list t) \<and> set (at_allocs t @ at_free_list t) = {..<at_next_index t} \<and>
     at_next_index t \<le> kAllocLimit \<and> sorted_wrt (<) (map (\<lambda>i. ar_id (at_pool t i)) (at_allocs t)) \<and>
     (\<forall>i \<in> set (at_allocs t). ar_id (at_pool t i) \<le> at_next_id t)"

lemma tracks_count: "tracks t live \<Longrightarrow> at_next_index t = length live + length (at_free_list t)"
proof -
  assume t: "tracks t live"
  then have "card (set (at_allocs t @ at_free_list t)) = length (at_allocs t @ at_free_list t)"
    unfolding tracks_def by (intro distinct_card) simp
  moreover have "length live = length (at_allocs t)" using t by (auto simp: tracks_def)
  ultimately show ?thesis using t by (simp add: tracks_def)
qed

lemma tracks_bound: "tracks t live \<Longrightarrow> length live \<le> kAllocLimit"
  using tracks_count [of t live] unfolding tracks_def by linarith

lemma Tracker_GetRecord_ok:
  assumes t: "tracks t live" and r: "Tracker_GetRecord t = (i, u)"
  shows "at_active u" and "at_pool u = at_pool t" and "at_next_id u = at_next_id t" and "at_allocs u = at_allocs t"
    and "i \<notin> set (at_allocs t)" and "distinct (at_allocs t @ [i] @ at_free_list u)"
    and "set (at_allocs t @ [i] @ at_free_list u) = {..<at_next_index u}"
    and "i < kAllocLimit \<longleftrightarrow> length live < kAllocLimit" and "i < kAllocLimit \<longrightarrow> at_next_index u \<le> kAllocLimit"
proof -
  have "at_active u \<and> at_pool u = at_pool t \<and> at_next_id u = at_next_id t \<and> at_allocs u = at_allocs t \<and>
    i \<notin> set (at_allocs t) \<and> distinct (at_allocs t @ [i] @ at_free_list u) \<and>
    set (at_allocs t @ [i] @ at_free_list u) = {..<at_next_index u} \<and>
    (i < kAllocLimit \<longleftrightarrow> length live < kAllocLimit) \<and> (i < kAllocLimit \<longrightarrow> at_next_index u \<le> kAllocLimit)"
  proof (cases "at_free_list t")
    case Nil
    then have "i = at_next_index t" "u = t\<lparr>at_next_index := at_next_index t + 1\<rparr>" using r by (auto simp: Tracker_GetRecord_def)
    then show ?thesis using t Nil tracks_count [OF t] by (auto simp: tracks_def)
  next
    case (Cons j rest)
    then have iu: "i = j" "u = t\<lparr>at_free_list := rest\<rparr>" using r by (simp_all add: Tracker_GetRecord_def)
    have "i < at_next_index t" using t Cons iu by (auto simp: tracks_def)
    then show ?thesis using t Cons tracks_count [OF t] iu by (auto simp: tracks_def)
  qed
  then show "at_active u" "at_pool u = at_pool t" "at_next_id u = at_next_id t" "at_allocs u = at_allocs t"
    "i \<notin> set (at_allocs t)" "distinct (at_allocs t @ [i] @ at_free_list u)"
    "set (at_allocs t @ [i] @ at_free_list u) = {..<at_next_index u}"
    "i < kAllocLimit \<longleftrightarrow> length live < kAllocLimit" "i < kAllocLimit \<longrightarrow> at_next_index u \<le> kAllocLimit" by blast+
qed

lemma tracks_Allocate:
  assumes "tracks t live" and "a \<notin> fst ` set live"
  shows "if length live < kAllocLimit then \<exists>k t'. Tracker_Allocate a sz t = Inr (k, t') \<and> tracks t' (live @ [(a, sz)])
    else Tracker_Allocate a sz t = Inl (Undefined ''pool_[i]'')"
proof -
  obtain i u where r: "Tracker_GetRecord t = (i, u)" by (cases "Tracker_GetRecord t")
  note u = Tracker_GetRecord_ok [OF assms(1) r]
  define pool where "pool = (at_pool t)(i := \<lparr>ar_address = a, ar_size = sz, ar_id = at_next_id t + 1\<rparr>)"
  let ?t = "u\<lparr>at_pool := pool, at_next_id := at_next_id t + 1, at_allocs := at_allocs t @ [i]\<rparr>"
  have old: "pool j = at_pool t j" if "j \<in> set (at_allocs t)" for j using that u(5) by (auto simp: pool_def)
  have new: "pool i = \<lparr>ar_address = a, ar_size = sz, ar_id = at_next_id t + 1\<rparr>" by (simp add: pool_def)
  show ?thesis
  proof (cases "length live < kAllocLimit")
    case True
    have "Tracker_Allocate a sz t = Inr (at_next_id t + 1, ?t)"
      using assms(1) r u(1,2,3,4,8) True by (simp add: Tracker_Allocate_def tracks_def pool_def)
    moreover have "map (entry ?t) (at_allocs t) = live" using assms(1) old by (simp add: tracks_def entry_def cong: map_cong)
    moreover have "sorted_wrt (<) (map (\<lambda>j. ar_id (pool j)) (at_allocs t @ [i]))"
    proof -
      have "map (\<lambda>j. ar_id (pool j)) (at_allocs t) = map (\<lambda>j. ar_id (at_pool t j)) (at_allocs t)"
        using old by simp
      then show ?thesis using assms(1) new
        by (simp only: map_append sorted_wrt_append) (simp add: tracks_def less_Suc_eq_le)
    qed
    moreover have "\<forall>j \<in> set (at_allocs t @ [i]). ar_id (pool j) \<le> at_next_id t + 1"
      using assms(1) old new by (simp add: tracks_def le_SucI)
    ultimately have "tracks ?t (live @ [(a, sz)])"
      using u True assms new by (simp add: tracks_def entry_def)
    then show ?thesis using True \<open>Tracker_Allocate a sz t = Inr (at_next_id t + 1, ?t)\<close> by auto
  next
    case False
    then show ?thesis using assms(1) r u by (simp add: Tracker_Allocate_def tracks_def)
  qed
qed

lemma map_entry_remove:
  assumes "distinct (map (fst \<circ> f) ys)" and "i \<in> set ys"
  shows "map f (remove1 i ys) = filter (\<lambda>p. fst p \<noteq> fst (f i)) (map f ys)"
  using assms
proof (induction ys)
  case (Cons y ys)
  show ?case
  proof (cases "y = i")
    case True
    have "fst (f i) \<notin> fst ` f ` set ys" using Cons.prems(1) True by (simp add: image_comp)
    then have "filter (\<lambda>p. fst p \<noteq> fst (f i)) (map f ys) = map f ys" unfolding filter_id_conv by (metis imageI list.set_map)
    then show ?thesis using True by simp
  next
    case False
    then have "fst (f y) \<noteq> fst (f i)" using Cons.prems by (auto simp: image_iff)
    then show ?thesis using Cons False by simp
  qed
qed simp

lemma tracks_Deallocate:
  assumes "tracks t live" and "a \<in> fst ` set live"
  shows "tracks (Tracker_Deallocate a t) (filter (\<lambda>p. fst p \<noteq> a) live)"
proof -
  have live: "live = map (entry t) (at_allocs t)" and dist: "distinct (map (fst \<circ> entry t) (at_allocs t))"
    using assms(1) by (auto simp: tracks_def)
  have "\<exists>i \<in> set (at_allocs t). ar_address (at_pool t i) = a" using assms(2) live by (auto simp: entry_def)
  then obtain i where i: "find (\<lambda>i. ar_address (at_pool t i) = a) (at_allocs t) = Some i"
    by (cases "find (\<lambda>i. ar_address (at_pool t i) = a) (at_allocs t)") (auto simp: find_None_iff)
  then have mem: "i \<in> set (at_allocs t)" "ar_address (at_pool t i) = a" by (auto simp: find_Some_iff in_set_conv_nth)
  let ?t = "t\<lparr>at_allocs := remove1 i (at_allocs t), at_free_list := at_free_list t @ [i]\<rparr>"
  have e: "entry ?t = entry t" by (rule ext) (simp add: entry_def)
  have "map (entry t) (remove1 i (at_allocs t)) = filter (\<lambda>p. fst p \<noteq> a) live"
    using map_entry_remove [OF dist mem(1)] mem(2) live by (simp add: entry_def)
  moreover have "distinct (map fst (filter (\<lambda>p. fst p \<noteq> a) live))" using assms(1) by (simp add: tracks_def distinct_map_filter)
  moreover have "sorted_wrt (<) (map (\<lambda>i. ar_id (at_pool t i)) (remove1 i (at_allocs t)))"
  proof -
    have "remove1 i (at_allocs t) = filter ((\<noteq>) i) (at_allocs t)"
      using assms(1) by (simp add: tracks_def distinct_remove1_removeAll removeAll_filter_not_eq)
    then show ?thesis using assms(1) by (simp add: tracks_def sorted_wrt_map sorted_wrt_filter)
  qed
  moreover have "set (remove1 i (at_allocs t) @ at_free_list t @ [i]) = set (at_allocs t @ at_free_list t)"
    "distinct (remove1 i (at_allocs t) @ at_free_list t @ [i])"
    using assms(1) mem(1) by (auto simp: tracks_def)
  moreover have "\<forall>j \<in> set (remove1 i (at_allocs t)). ar_id (at_pool t j) \<le> at_next_id t"
    using assms(1) set_remove1_subset by (fastforce simp: tracks_def)
  ultimately have "tracks ?t (filter (\<lambda>p. fst p \<noteq> a) live)"
    using assms(1) unfolding tracks_def e by simp
  moreover have "Tracker_Deallocate a t = ?t" using i assms(1) by (simp add: Tracker_Deallocate_def tracks_def)
  ultimately show ?thesis by simp
qed

lemma tracker_run:
  assumes "live_after cs live = Some out" and "tracks (ns_tracker s) live" and "ns_allocator s = None"
    and "ns_checksum s = xor_all (map fst live)"
  shows "if peak cs live \<le> kAllocLimit
    then \<exists>s'. run_codes bh cs s = Inr s' \<and> ns_checksum s' = xor_all (map fst out) \<and> tracks (ns_tracker s') out
    else run_codes bh cs s = Inl (Undefined ''pool_[i]'')"
  using assms
proof (induction cs live arbitrary: s rule: live_after.induct)
  case (1 live)
  then show ?case using tracks_bound [of "ns_tracker s" live] by simp
next
  case (2 sz a cs live)
  then have a: "a \<notin> fst ` set live" and out: "live_after cs (live @ [(a, sz)]) = Some out" by (auto split: if_splits)
  show ?case
  proof (cases "length live < kAllocLimit")
    case True
    then obtain k t where t: "Tracker_Allocate a sz (ns_tracker s) = Inr (k, t)" "tracks t (live @ [(a, sz)])"
      using tracks_Allocate [OF "2.prems"(2) a, of sz] by auto
    let ?s = "s\<lparr>ns_checksum := ns_checksum s XOR a, ns_tracker := t\<rparr>"
    have "run_code bh (MNew sz (Some a)) s = Inr ?s"
      using t(1) "2.prems"(3) by (simp add: operator_new_def AllocateGlobal_def Let_def)
    moreover have "if peak cs (live @ [(a, sz)]) \<le> kAllocLimit
      then \<exists>s'. run_codes bh cs ?s = Inr s' \<and> ns_checksum s' = xor_all (map fst out) \<and> tracks (ns_tracker s') out
      else run_codes bh cs ?s = Inl (Undefined ''pool_[i]'')"
      using "2.IH" [OF a out, of ?s] t(2) "2.prems"(3,4) by simp
    ultimately show ?thesis using True by simp
  next
    case False
    have "run_code bh (MNew sz (Some a)) s = Inl (Undefined ''pool_[i]'')"
      using tracks_Allocate [OF "2.prems"(2) a, of sz] False "2.prems"(3) by (simp add: operator_new_def AllocateGlobal_def Let_def)
    moreover have "kAllocLimit < peak cs (live @ [(a, sz)])"
      using False peak_ge [of "live @ [(a, sz)]" cs] by simp
    ultimately show ?thesis by simp
  qed
next
  case (3 a cs live)
  then have a: "a \<in> fst ` set live" and out: "live_after cs (filter (\<lambda>p. fst p \<noteq> a) live) = Some out" by (auto split: if_splits)
  let ?s = "FreeGlobal a s"
  have "map fst (filter (\<lambda>p. fst p \<noteq> a) live) = filter (\<lambda>x. x \<noteq> a) (map fst live)" by (simp add: filter_map o_def)
  then have "ns_checksum ?s = xor_all (map fst (filter (\<lambda>p. fst p \<noteq> a) live))"
    using xor_all_remove [of a "map fst live"] a "3.prems"(2,4) by (simp add: FreeGlobal_def tracks_def)
  moreover have "tracks (ns_tracker ?s) (filter (\<lambda>p. fst p \<noteq> a) live)"
    using tracks_Deallocate [OF "3.prems"(2) a] by (simp add: FreeGlobal_def)
  ultimately have "if peak cs (filter (\<lambda>p. fst p \<noteq> a) live) \<le> kAllocLimit
      then \<exists>s'. run_codes bh cs ?s = Inr s' \<and> ns_checksum s' = xor_all (map fst out) \<and> tracks (ns_tracker s') out
      else run_codes bh cs ?s = Inl (Undefined ''pool_[i]'')"
    using "3.IH" [OF a out, of ?s] "3.prems"(3) by (simp add: FreeGlobal_def)
  moreover have "run_code bh (MDelete a) s = Inr ?s" using "3.prems"(3) by (simp add: operator_delete_def)
  moreover have "length live \<le> kAllocLimit" using tracks_bound "3.prems"(2) by blast
  ultimately show ?case by simp
qed simp_all

text \<open>C32. The accounts of the simulator's own allocations are exact. After any code that allocates and deletes in the
  global scope the checksum is the exclusive or of the addresses that are live, in particular 0 when everything has
  been deleted, and the tracker lists exactly the live allocations, in the order they were made, with
  increasing ids. But its pool is not checked: the 100501st allocation that is live at the same time
  writes behind it.\<close>

theorem tracker_exact:
  assumes "live_after cs [] = Some live"
  shows "if peak cs [] \<le> 100500
    then \<exists>s'. run_codes bh cs (ActivateAllocsTracker (no_allocs hs)) = Inr s' \<and>
      GlobalAllocsCheckSum s' = xor_all (map fst live) \<and>
      map (entry (ns_tracker s')) (at_allocs (ns_tracker s')) = live \<and>
      sorted_wrt (<) (map (\<lambda>i. ar_id (at_pool (ns_tracker s') i)) (at_allocs (ns_tracker s')))
    else run_codes bh cs (ActivateAllocsTracker (no_allocs hs)) = Inl (Undefined ''pool_[i]'')"
proof -
  have "tracks (ns_tracker (ActivateAllocsTracker (no_allocs hs))) []"
    by (simp add: tracks_def ActivateAllocsTracker_def Tracker_Activate_def no_allocs_def GlobalAllocTracker_def)
  from tracker_run [OF assms this, of bh] show ?thesis
    by (auto simp: ActivateAllocsTracker_def no_allocs_def GlobalAllocsCheckSum_def tracks_def kAllocLimit_def)
qed

theorem tracker_exact_witness:
  "\<exists>s'. run_codes std_bithacks [MNew 8 (Some 64), MNew 16 (Some 128), MDelete 64, MNew 4 (Some 192)]
      (ActivateAllocsTracker (no_allocs [])) = Inr s' \<and>
    GlobalAllocsCheckSum s' = 64 \<and> map (entry (ns_tracker s')) (at_allocs (ns_tracker s')) = [(128, 16), (192, 4)]"
  using tracker_exact [of "[MNew 8 (Some 64), MNew 16 (Some 128), MDelete 64, MNew 4 (Some 192)]" "[(128, 16), (192, 4)]"
      std_bithacks "[]"] by auto

end
