(* ===== verification/Trace.thy ===== *)
theory Trace
  imports Network
begin

text \<open>
  \<open>trace/impl/tracer.cpp\<close>: the trace of the network, a JSON array with one object for every delivered frame that
  carries user data. The writer of rapidjson is the sequence of tokens that is written to it; \<open>read_json\<close> reads such a
  sequence back. The messages of commute, their decoder and the JSON parser are arguments (\<open>wire\<close>).
\<close>

section \<open>JSON\<close>

datatype json =
    JNull
  | JBool bool
  | JInt int
  | JReal string
  | JString string
  | JArray "json list"
  | JObject "(string \<times> json) list"

datatype token =
    TNull
  | TBool bool
  | TInt int
  | TReal string
  | TString string
  | TStartArray
  | TEndArray
  | TStartObject
  | TKey string
  | TEndObject

text \<open>\<open>Document::Accept\<close>: the tokens of a document.\<close>

fun accept :: "json \<Rightarrow> token list" where
  "accept JNull = [TNull]"
| "accept (JBool b) = [TBool b]"
| "accept (JInt i) = [TInt i]"
| "accept (JReal r) = [TReal r]"
| "accept (JString s) = [TString s]"
| "accept (JArray vs) = TStartArray # concat (map accept vs) @ [TEndArray]"
| "accept (JObject ms) = TStartObject # concat (map (\<lambda>(k, v). TKey k # accept v) ms) @ [TEndObject]"

text \<open>A reader of tokens; its stack holds the arrays and objects that are open.\<close>

datatype open_value =
    InArray "json list"
  | InObject "(string \<times> json) list"
  | InMember "(string \<times> json) list" string

fun put :: "json \<Rightarrow> open_value list \<Rightarrow> (open_value list \<times> json option) option" where
  "put v [] = Some ([], Some v)"
| "put v (InArray vs # st) = Some (InArray (vs @ [v]) # st, None)"
| "put v (InMember ms k # st) = Some (InObject (ms @ [(k, v)]) # st, None)"
| "put v (InObject ms # st) = None"

fun read_token :: "token \<Rightarrow> open_value list \<Rightarrow> (open_value list \<times> json option) option" where
  "read_token TNull st = put JNull st"
| "read_token (TBool b) st = put (JBool b) st"
| "read_token (TInt i) st = put (JInt i) st"
| "read_token (TReal r) st = put (JReal r) st"
| "read_token (TString s) st = put (JString s) st"
| "read_token TStartArray st = Some (InArray [] # st, None)"
| "read_token TEndArray (InArray vs # st) = put (JArray vs) st"
| "read_token TStartObject st = Some (InObject [] # st, None)"
| "read_token (TKey k) (InObject ms # st) = Some (InMember ms k # st, None)"
| "read_token TEndObject (InObject ms # st) = put (JObject ms) st"
| "read_token _ _ = None"

fun read_json :: "token list \<Rightarrow> open_value list \<Rightarrow> json option"
  and read_rest :: "token list \<Rightarrow> (open_value list \<times> json option) option \<Rightarrow> json option" where
  "read_json [] st = None"
| "read_json (t # toks) st = read_rest toks (read_token t st)"
| "read_rest toks None = None"
| "read_rest toks (Some (st, None)) = read_json toks st"
| "read_rest toks (Some (st, Some v)) = (if toks = [] then Some v else None)"

lemma read_array:
  assumes "\<And>v toks st. v \<in> set vs \<Longrightarrow> read_json (accept v @ toks) st = read_rest toks (put v st)"
  shows "read_json (concat (map accept vs) @ toks) (InArray us # st) = read_json toks (InArray (us @ vs) # st)"
  using assms by (induction vs arbitrary: us) simp_all

lemma read_object:
  assumes "\<And>m toks st. m \<in> set ms \<Longrightarrow> read_json (accept (snd m) @ toks) st = read_rest toks (put (snd m) st)"
  shows "read_json (concat (map (\<lambda>(k, v). TKey k # accept v) ms) @ toks) (InObject ns # st) = read_json toks (InObject (ns @ ms) # st)"
  using assms
proof (induction ms arbitrary: ns)
  case (Cons m ms)
  have "read_json (accept (snd m) @ rest) st = read_rest rest (put (snd m) st)" for rest st using Cons.prems by simp
  then show ?case using Cons by (cases m) simp
qed simp

lemma read_accept: "read_json (accept v @ toks) st = read_rest toks (put v st)"
proof (induction v arbitrary: toks st)
  case (JArray vs)
  then show ?case using read_array [of vs "TEndArray # toks" "[]" st] by simp
next
  case (JObject ms)
  have "read_json (accept (snd m) @ toks) st = read_rest toks (put (snd m) st)" if "m \<in> set ms" for m toks st
    using JObject that by (cases m) auto
  then show ?case using read_object [of ms "TEndObject # toks" "[]" st] by simp
qed simp_all

section \<open>The tracer\<close>

text \<open>The fields of the messages of commute that the tracer uses.\<close>

record rpc_request =
  rq_id :: int
  rq_trace_id :: string
  rq_service :: string
  rq_method :: string
  rq_input :: string

record rpc_response =
  rs_id :: int
  rs_trace_id :: string
  rs_service :: string
  rs_method :: string
  rs_error :: int
  rs_ok :: bool
  rs_result :: string

record wire =
  wire_request :: "string \<Rightarrow> rpc_request option"
  wire_response :: "string \<Rightarrow> rpc_response option"
  wire_binary :: bool
  wire_parse :: "string \<Rightarrow> json"

record tracer =
  tr_path :: string
  tr_tokens :: "token list"
  tr_flushed :: bool

text \<open>A C string ends at the first NUL. \<open>Writer::Int\<close> takes an \<open>int\<close>.\<close>

definition c_str :: "string \<Rightarrow> string" where
  "c_str s = takeWhile (\<lambda>c. c \<noteq> CHR 0x00) s"

definition to_int :: "int \<Rightarrow> int" where
  "to_int i = sint (word_of_int i :: u32)"

definition WriteJson :: "wire \<Rightarrow> string \<Rightarrow> token list" where
  "WriteJson W s = accept (wire_parse W (c_str s))"

definition WriteMessage :: "wire \<Rightarrow> string \<Rightarrow> token list" where
  "WriteMessage W s = (if wire_binary W then [TString ''<binary>''] else WriteJson W s)"

definition Tracer :: "bool \<Rightarrow> string \<Rightarrow> tracer res" where
  "Tracer opened path = verify opened (''Failed to open '' @ path)
     (Inr \<lparr>tr_path = path, tr_tokens = [TStartArray], tr_flushed = False\<rparr>)"

definition IsData :: "frame \<Rightarrow> bool" where
  "IsData f \<longleftrightarrow> p_type (f_packet f) = Data"

definition Describe :: "string \<Rightarrow> string \<Rightarrow> string" where
  "Describe service name = service @ ''.'' @ name"

definition WriteResponse :: "wire \<Rightarrow> rpc_response \<Rightarrow> token list" where
  "WriteResponse W rsp =
     [TKey ''type'', TString ''commute::rpc::proto::Response'',
      TKey ''id'', TInt (to_int (rs_id rsp)),
      TKey ''trace_id'', TString (c_str (rs_trace_id rsp)),
      TKey ''method'', TString (c_str (Describe (rs_service rsp) (rs_method rsp))),
      TKey ''error'', TInt (to_int (rs_error rsp))] @
     (if rs_ok rsp then TKey ''result'' # WriteMessage W (rs_result rsp) else [])"

definition WriteRequest :: "wire \<Rightarrow> rpc_request \<Rightarrow> token list" where
  "WriteRequest W req =
     [TKey ''type'', TString ''commute::rpc::proto::Request'',
      TKey ''id'', TInt (to_int (rq_id req)),
      TKey ''trace_id'', TString (c_str (rq_trace_id req)),
      TKey ''method'', TString (c_str (Describe (rq_service req) (rq_method req))),
      TKey ''arguments''] @ WriteMessage W (rq_input req)"

definition Tracer_Deliver :: "wire \<Rightarrow> time_point \<Rightarrow> frame \<Rightarrow> tracer \<Rightarrow> tracer" where
  "Tracer_Deliver W now f t =
     (if \<not> IsData f then t
      else let payload = message (f_packet f) in
        t\<lparr>tr_tokens := tr_tokens t @
          [TStartObject,
           TKey ''event_type'', TString ''message'',
           TKey ''source_host'', TString (c_str (source_host f)),
           TKey ''dest_host'', TString (c_str (dest_host f)),
           TKey ''send_time'', TInt (to_int (uint (send_time f))),
           TKey ''receive_time'', TInt (to_int (uint now)),
           TKey ''payload'', TStartObject] @
          (case wire_request W payload of
             Some req \<Rightarrow> WriteRequest W req
           | None \<Rightarrow> (case wire_response W payload of
                 Some rsp \<Rightarrow> WriteResponse W rsp
               | None \<Rightarrow> [])) @
          [TEndObject, TEndObject]\<rparr>)"

definition Tracer_Finalize :: "tracer \<Rightarrow> tracer" where
  "Tracer_Finalize t = t\<lparr>tr_tokens := tr_tokens t @ [TEndArray], tr_flushed := True\<rparr>"

text \<open>The trace of a simulation that delivers the given frames at the given times.\<close>

definition traced :: "wire \<Rightarrow> string \<Rightarrow> (time_point \<times> frame) list \<Rightarrow> tracer res" where
  "traced W path ds = res_bind (Tracer True path) (\<lambda>t.
     Inr (Tracer_Finalize (foldl (\<lambda>t (now, f). Tracer_Deliver W now f t) t ds)))"

section \<open>What a trace says\<close>

text \<open>The objects of the trace, as values.\<close>

definition message_json :: "wire \<Rightarrow> string \<Rightarrow> json" where
  "message_json W s = (if wire_binary W then JString ''<binary>'' else wire_parse W (c_str s))"

definition payload_json :: "wire \<Rightarrow> string \<Rightarrow> json" where
  "payload_json W s = JObject (case wire_request W s of
       Some req \<Rightarrow> [(''type'', JString ''commute::rpc::proto::Request''), (''id'', JInt (to_int (rq_id req))),
         (''trace_id'', JString (c_str (rq_trace_id req))), (''method'', JString (c_str (Describe (rq_service req) (rq_method req)))),
         (''arguments'', message_json W (rq_input req))]
     | None \<Rightarrow> (case wire_response W s of
         Some rsp \<Rightarrow> [(''type'', JString ''commute::rpc::proto::Response''), (''id'', JInt (to_int (rs_id rsp))),
           (''trace_id'', JString (c_str (rs_trace_id rsp))), (''method'', JString (c_str (Describe (rs_service rsp) (rs_method rsp)))),
           (''error'', JInt (to_int (rs_error rsp)))] @ (if rs_ok rsp then [(''result'', message_json W (rs_result rsp))] else [])
       | None \<Rightarrow> []))"

definition frame_json :: "wire \<Rightarrow> time_point \<Rightarrow> frame \<Rightarrow> json" where
  "frame_json W now f = JObject
     [(''event_type'', JString ''message''), (''source_host'', JString (c_str (source_host f))),
      (''dest_host'', JString (c_str (dest_host f))), (''send_time'', JInt (to_int (uint (send_time f)))),
      (''receive_time'', JInt (to_int (uint now))), (''payload'', payload_json W (message (f_packet f)))]"

fun field :: "string \<Rightarrow> json \<Rightarrow> json option" where
  "field k (JObject ms) = map_of ms k"
| "field k v = None"

lemma WriteMessage_accept: "WriteMessage W s = accept (message_json W s)"
  by (simp add: WriteMessage_def WriteJson_def message_json_def)

lemma Tracer_Deliver_accept:
  "tr_tokens (Tracer_Deliver W now f t) = tr_tokens t @ (if IsData f then accept (frame_json W now f) else [])"
  by (simp add: Tracer_Deliver_def Let_def frame_json_def payload_json_def WriteRequest_def WriteResponse_def
      WriteMessage_accept split: option.split)

lemma Tracer_Deliver_all:
  "tr_tokens (foldl (\<lambda>t (now, f). Tracer_Deliver W now f t) t ds) =
     tr_tokens t @ concat (map accept (map (\<lambda>(now, f). frame_json W now f) (filter (IsData \<circ> snd) ds)))"
  by (induction ds arbitrary: t) (auto simp: Tracer_Deliver_accept)

lemma to_int_exact:
  assumes "0 \<le> i"
  shows "to_int i = i \<longleftrightarrow> i < 2 ^ 31"
proof -
  have "to_int i = signed_take_bit 31 i" by (simp add: to_int_def signed_take_bit_take_bit signed_of_int)
  then show ?thesis using assms by (simp add: signed_take_bit_int_eq_self_iff)
qed

lemma time_exact: "to_int (uint t) = uint (t :: time_point) \<longleftrightarrow> t < 0x80000000"
  using to_int_exact [of "uint t"] by (simp add: word_less_alt)

definition entry_of :: "wire \<Rightarrow> time_point \<times> frame \<Rightarrow> json \<Rightarrow> bool" where
  "entry_of W = (\<lambda>(now, f) e.
     field ''source_host'' e = Some (JString (c_str (source_host f))) \<and>
     field ''dest_host'' e = Some (JString (c_str (dest_host f))) \<and>
     field ''payload'' e = Some (payload_json W (message (f_packet f))) \<and>
     (field ''send_time'' e = Some (JInt (uint (send_time f))) \<longleftrightarrow> send_time f < 0x80000000) \<and>
     (field ''receive_time'' e = Some (JInt (uint now)) \<longleftrightarrow> now < 0x80000000))"

lemma entries_exist: "list_all2 (entry_of W) ds (map (\<lambda>(now, f). frame_json W now f) ds)"
  by (auto simp: list_all2_map2 list.rel_refl frame_json_def entry_of_def time_exact intro!: list_all2_refl)

lemma delivered_reads_back:
  assumes "tr_tokens t = [TStartArray]"
  shows "read_json (tr_tokens (Tracer_Finalize (foldl (\<lambda>t (now, f). Tracer_Deliver W now f t) t ds))) [] =
    Some (JArray (map (\<lambda>(now, f). frame_json W now f) (filter (IsData \<circ> snd) ds)))"
proof -
  let ?es = "map (\<lambda>(now, f). frame_json W now f) (filter (IsData \<circ> snd) ds)"
  have "tr_tokens (Tracer_Finalize (foldl (\<lambda>t (now, f). Tracer_Deliver W now f t) t ds)) = accept (JArray ?es)"
    using assms by (simp add: Tracer_Finalize_def Tracer_Deliver_all)
  then show ?thesis using read_accept [of "JArray ?es" "[]" "[]"] by simp
qed

lemma Deliver_path [simp]: "tr_path (foldl (\<lambda>t (now, f). Tracer_Deliver W now f t) t ds) = tr_path t"
  by (induction ds arbitrary: t) (auto simp: Tracer_Deliver_def Let_def)

text \<open>C29. The trace of a simulation is complete and can be read back. Its tokens are a well-formed JSON array, with one
  object for each frame delivered that carries user data, in the order of delivery; service packets leave no
  mark. The object names the two hosts up to their first NUL, carries the request or the response in the frame
  or an empty payload, and has the time of sending and the time of delivery, each right exactly as long as it is below
  \<open>2 ^ 31\<close>: later times are cut to 32 bits.\<close>

theorem trace_reads_back:
  "\<exists>t es. traced W path ds = Inr t \<and> tr_path t = path \<and> tr_flushed t \<and> read_json (tr_tokens t) [] = Some (JArray es) \<and>
     list_all2 (\<lambda>(now, f) e.
         field ''source_host'' e = Some (JString (c_str (source_host f))) \<and>
         field ''dest_host'' e = Some (JString (c_str (dest_host f))) \<and>
         field ''payload'' e = Some (payload_json W (message (f_packet f))) \<and>
         (field ''send_time'' e = Some (JInt (uint (send_time f))) \<longleftrightarrow> send_time f < 0x80000000) \<and>
         (field ''receive_time'' e = Some (JInt (uint now)) \<longleftrightarrow> now < 0x80000000))
       (filter (IsData \<circ> snd) ds) es"
proof -
  let ?s = "\<lparr>tr_path = path, tr_tokens = [TStartArray], tr_flushed = False\<rparr>"
  let ?t = "Tracer_Finalize (foldl (\<lambda>t (now, f). Tracer_Deliver W now f t) ?s ds)"
  have "traced W path ds = Inr ?t" "tr_path ?t = path" "tr_flushed ?t"
    by (simp_all add: traced_def Tracer_def Tracer_Finalize_def)
  then show ?thesis
    using delivered_reads_back [of ?s W ds] entries_exist [of W "filter (IsData \<circ> snd) ds"]
    unfolding entry_of_def by auto
qed

end
