(* ===== verification/Log.thy ===== *)
theory Log
  imports World
begin

text \<open>
  \<open>log/\<close>: the log of a simulation. The backend reads the minimal levels of the components from an environment
  variable, captures the context of every event, keeps all of them and appends their lines to a file. The levels
  of \<open>timber\<close>, their names and \<open>wheels::Split\<close> are arguments, as are the fiber and the trace id that the
  event comes from.
\<close>

section \<open>Levels\<close>

type_synonym 'l log_levels = "(string, 'l) omap"

fun parse_levels :: "(string \<Rightarrow> char \<Rightarrow> string list) \<Rightarrow> (string \<Rightarrow> 'l) \<Rightarrow> string list \<Rightarrow> 'l log_levels \<Rightarrow> 'l log_levels res" where
  "parse_levels split LevelFromString [] levels = Inr levels"
| "parse_levels split LevelFromString (component_level # rest) levels =
     (let parts = split component_level CHR ''='' in
      verify (length parts = 2) ''Invalid WHIRL_LOG_LEVELS format''
        (parse_levels split LevelFromString rest (om_emplace (parts ! 0) (LevelFromString (parts ! 1)) levels)))"

definition ParseLogLevels :: "(string \<Rightarrow> char \<Rightarrow> string list) \<Rightarrow> (string \<Rightarrow> 'l) \<Rightarrow> string \<Rightarrow> 'l log_levels res" where
  "ParseLogLevels split LevelFromString s = parse_levels split LevelFromString (split s CHR '','') []"

text \<open>\<open>env\<close> is what \<open>getenv\<close> returns.\<close>

definition GetLogLevelsFromEnv ::
    "(string \<Rightarrow> char \<Rightarrow> string list) \<Rightarrow> (string \<Rightarrow> 'l) \<Rightarrow> string option \<Rightarrow> 'l log_levels res" where
  "GetLogLevelsFromEnv split LevelFromString env = (case env of
       None \<Rightarrow> Inr []
     | Some s \<Rightarrow> ParseLogLevels split LevelFromString s)"

section \<open>Events\<close>

record 'l timber_event =
  te_level :: 'l
  te_component :: string
  te_message :: string

record 'l log_event =
  ev_time :: time_point
  ev_step :: nat
  ev_level :: 'l
  ev_actor :: string
  ev_component :: string
  ev_trace_id :: "string option"
  ev_message :: string

record this_fiber =
  tf_id :: nat
  tf_name :: "string option"

definition ThisFiberServiceName :: "this_fiber \<Rightarrow> string" where
  "ThisFiberServiceName fiber = ''T'' @ show_nat (tf_id fiber)"

definition ThisFiberName :: "this_fiber \<Rightarrow> string" where
  "ThisFiberName fiber = (case tf_name fiber of Some name \<Rightarrow> name | None \<Rightarrow> ThisFiberServiceName fiber)"

fun actor_name :: "('h, 'u) world \<Rightarrow> actor \<Rightarrow> string" where
  "actor_name w (ServerActor i) = c_hostname (s_config (w_servers w ! i))"
| "actor_name w NetworkActor = ''Network''"

definition ThisActorName :: "('h, 'u) world \<Rightarrow> string" where
  "ThisActorName w = (if AmIActor w then actor_name w (the (ThisActor w)) else ''World'')"

definition DescribeThisActor :: "this_fiber option \<Rightarrow> ('h, 'u) world \<Rightarrow> string" where
  "DescribeThisActor fiber w =
     ThisActorName w @ (case fiber of Some f \<Rightarrow> '' /'' @ ThisFiberName f | None \<Rightarrow> [])"

definition CaptureMatrixContext ::
    "this_fiber option \<Rightarrow> string option \<Rightarrow> 'l timber_event \<Rightarrow> ('h, 'u) world \<Rightarrow> 'l log_event" where
  "CaptureMatrixContext fiber trace_id e w =
     \<lparr>ev_time = w_now w, ev_step = w_step w, ev_level = te_level e, ev_actor = DescribeThisActor fiber w,
      ev_component = te_component e, ev_trace_id = trace_id, ev_message = te_message e\<rparr>"

section \<open>Lines\<close>

text \<open>\<open>std::left << std::setw(width)\<close> fills with blanks on the right.\<close>

definition LimitWidth :: "string \<Rightarrow> nat \<Rightarrow> string" where
  "LimitWidth s width = (if length s < width then s else take width s)"

definition setw_left :: "nat \<Rightarrow> string \<Rightarrow> string" where
  "setw_left width s = s @ replicate (width - length s) CHR '' ''"

definition fmt_column :: "string \<Rightarrow> nat \<Rightarrow> string" where
  "fmt_column s width = setw_left width (LimitWidth s width)"

abbreviation tab :: char where "tab \<equiv> CHR 0x09"
abbreviation newline :: char where "newline \<equiv> CHR 0x0A"

definition FormatLogEventTo :: "('l \<Rightarrow> string) \<Rightarrow> 'l log_event \<Rightarrow> string \<Rightarrow> string" where
  "FormatLogEventTo LevelToString e out =
     (let out = out @ ''[T '' @ show_nat (unat (ev_time e)) @ '' | '' @ show_nat (ev_step e) @ '']'' @ [tab]
            @ ''['' @ fmt_column (LevelToString (ev_level e)) 7 @ '']'' @ [tab]
            @ ''['' @ fmt_column (ev_actor e) 15 @ '']'' @ [tab]
            @ ''['' @ fmt_column (ev_component e) 12 @ '']'';
          out = (case ev_trace_id e of None \<Rightarrow> out | Some i \<Rightarrow> out @ [tab] @ ''['' @ i @ '']'')
      in out @ [tab] @ ev_message e)"

definition FormatMessage :: "bool \<Rightarrow> string \<Rightarrow> string" where
  "FormatMessage binary bytes = (if binary then ''<binary>'' else ''<'' @ bytes @ ''>'')"

section \<open>The backend\<close>

text \<open>\<open>lb_disk\<close> holds the files of the host, by path. A stream that could not be opened, \<open>Some None\<close>, ignores what
  is written to it.\<close>

record 'l log_backend =
  lb_levels :: "'l log_levels"
  lb_events :: "'l log_event list"
  lb_file :: "string option option"
  lb_disk :: "string \<Rightarrow> string"

definition LogBackend ::
    "(string \<Rightarrow> char \<Rightarrow> string list) \<Rightarrow> (string \<Rightarrow> 'l) \<Rightarrow> string option \<Rightarrow> (string \<Rightarrow> string) \<Rightarrow> 'l log_backend res" where
  "LogBackend split LevelFromString env disk = res_bind (GetLogLevelsFromEnv split LevelFromString env) (\<lambda>levels.
     Inr \<lparr>lb_levels = levels, lb_events = [], lb_file = None, lb_disk = disk\<rparr>)"

text \<open>\<open>info\<close> is the level \<open>timber::Level::Info\<close>.\<close>

definition GetMinLevelFor :: "'l \<Rightarrow> string \<Rightarrow> 'l log_backend \<Rightarrow> 'l" where
  "GetMinLevelFor info component b = (case om_find (lb_levels b) component of Some l \<Rightarrow> l | None \<Rightarrow> info)"

definition stream_write :: "(string \<Rightarrow> string) \<Rightarrow> 'l log_backend \<Rightarrow> 'l log_backend" where
  "stream_write f b = (case lb_file b of
       Some (Some path) \<Rightarrow> b\<lparr>lb_disk := (lb_disk b)(path := f (lb_disk b path))\<rparr>
     | _ \<Rightarrow> b)"

definition Log_Write :: "('l \<Rightarrow> string) \<Rightarrow> 'l log_event \<Rightarrow> 'l log_backend \<Rightarrow> 'l log_backend" where
  "Log_Write LevelToString e b = stream_write (\<lambda>out. FormatLogEventTo LevelToString e out @ [newline])
     (b\<lparr>lb_events := lb_events b @ [e]\<rparr>)"

definition Log ::
    "('l \<Rightarrow> string) \<Rightarrow> this_fiber option \<Rightarrow> string option \<Rightarrow> 'l timber_event \<Rightarrow> ('h, 'u) world \<Rightarrow>
     'l log_backend \<Rightarrow> 'l log_backend" where
  "Log LevelToString fiber trace_id e w b = Log_Write LevelToString (CaptureMatrixContext fiber trace_id e w) b"

definition AppendToFile :: "bool \<Rightarrow> string \<Rightarrow> 'l log_backend \<Rightarrow> 'l log_backend" where
  "AppendToFile opened path b = stream_write (\<lambda>out. out @ replicate 80 CHR ''-'' @ [newline])
     (b\<lparr>lb_file := Some (if opened then Some path else None)\<rparr>)"

section \<open>Properties\<close>

lemma om_find_empty: "m ++ om_find [] = m"
  by (simp add: fun_eq_iff map_add_def)

text \<open>The entry of an item.\<close>

definition level_entry :: "(string \<Rightarrow> char \<Rightarrow> string list) \<Rightarrow> (string \<Rightarrow> 'l) \<Rightarrow> string \<Rightarrow> string \<times> 'l" where
  "level_entry split lvl c = (split c CHR ''='' ! 0, lvl (split c CHR ''='' ! 1))"

lemma parse_levels_Cons:
  "parse_levels split lvl (c # cs) levels =
     (if length (split c CHR ''='') = 2
      then parse_levels split lvl cs (case level_entry split lvl c of (k, v) \<Rightarrow> om_emplace k v levels)
      else Inl (Panic ''Invalid WHIRL_LOG_LEVELS format''))"
  by (simp add: level_entry_def Let_def verify_def)

lemma parse_levels_bad:
  "\<exists>c \<in> set cs. length (split c CHR ''='') \<noteq> 2 \<Longrightarrow>
   parse_levels split lvl cs levels = Inl (Panic ''Invalid WHIRL_LOG_LEVELS format'')"
  by (induction cs arbitrary: levels) (auto simp: parse_levels_Cons simp del: parse_levels.simps(2))

lemma parse_levels_good:
  "\<forall>c \<in> set cs. length (split c CHR ''='') = 2 \<Longrightarrow> om_ok levels \<Longrightarrow>
   \<exists>m. parse_levels split lvl cs levels = Inr m \<and> om_find m = map_of (map (level_entry split lvl) cs) ++ om_find levels"
proof (induction cs arbitrary: levels)
  case (Cons c cs)
  obtain k v where e: "level_entry split lvl c = (k, v)" by (cases "level_entry split lvl c")
  have "om_find (om_emplace k v levels) = [k \<mapsto> v] ++ om_find levels"
    using om_find_emplace [OF Cons.prems(2)] by (auto simp: fun_eq_iff map_add_def split: option.split)
  then have "map_of (map (level_entry split lvl) (c # cs)) ++ om_find levels =
      map_of (map (level_entry split lvl) cs) ++ om_find (om_emplace k v levels)"
    by (auto simp: e map_add_def fun_eq_iff split: option.split)
  then show ?case using Cons.IH [of "om_emplace k v levels"] Cons.prems
    by (metis (no_types, lifting) case_prod_conv e list.set_intros parse_levels_Cons om_ok_emplace)
qed simp

text \<open>The levels of \<open>WHIRL_LOG_LEVELS\<close>. The backend is made unless an item of the variable has not exactly two parts,
  then it aborts; the minimal level of a component is the one that the first item for it gives, later items
  for the same component are ignored, and \<open>Info\<close> without any.\<close>

theorem log_levels:
  fixes split :: "string \<Rightarrow> char \<Rightarrow> string list" and env :: "string option"
  defines "entries \<equiv> (case env of None \<Rightarrow> [] | Some s \<Rightarrow> map (\<lambda>c. split c CHR ''='') (split s CHR '',''))"
  shows "case LogBackend split lvl env disk of
      Inl e \<Rightarrow> e = Panic ''Invalid WHIRL_LOG_LEVELS format'' \<and> (\<exists>p. p \<in> set entries \<and> length p \<noteq> 2)
    | Inr b \<Rightarrow> (\<nexists>p. p \<in> set entries \<and> length p \<noteq> 2) \<and>
        (\<forall>c. GetMinLevelFor info c b = (case find (\<lambda>p. p ! 0 = c) entries of Some p \<Rightarrow> lvl (p ! 1) | None \<Rightarrow> info))"
proof (cases env)
  case None
  then show ?thesis by (simp add: LogBackend_def GetLogLevelsFromEnv_def GetMinLevelFor_def entries_def)
next
  case (Some s)
  show ?thesis
  proof (cases "\<forall>c \<in> set (split s CHR '',''). length (split c CHR ''='') = 2")
    case True
    have lookup: "map_of (map (level_entry split lvl) cs) k =
        map_option (\<lambda>p. lvl (p ! 1)) (find (\<lambda>p. p ! 0 = k) (map (\<lambda>c. split c CHR ''='') cs))" for cs k
      by (induction cs) (auto simp: level_entry_def)
    obtain m where m: "ParseLogLevels split lvl s = Inr m" "om_find m = map_of (map (level_entry split lvl) (split s CHR '',''))"
      using parse_levels_good [of "split s CHR '',''" split "[]" lvl] True
      by (auto simp: ParseLogLevels_def om_find_empty)
    then show ?thesis using True
      by (simp add: LogBackend_def GetLogLevelsFromEnv_def GetMinLevelFor_def entries_def Some lookup option.case_eq_if
          option.map_sel)
  next
    case False
    then have "ParseLogLevels split lvl s = Inl (Panic ''Invalid WHIRL_LOG_LEVELS format'')"
      using parse_levels_bad [of "split s CHR '',''" split lvl] by (auto simp: ParseLogLevels_def)
    then show ?thesis using False by (auto simp: LogBackend_def GetLogLevelsFromEnv_def entries_def Some)
  qed
qed

text \<open>What a person reads in a line: the numbers in front, the three columns at their fixed places and the rest.\<close>

definition read_line :: "string \<Rightarrow> nat \<times> nat \<times> string list \<times> string" where
  "read_line line =
     (let t = takeWhile is_digit (drop 3 line); line = drop (3 + length t + 3) line;
          n = takeWhile is_digit line; line = drop (length n + 3) line
      in (digits_value t, digits_value n, [take 7 line, take 15 (drop 10 line), take 12 (drop 28 line)], drop 41 line))"

lemma fmt_column: "fmt_column s width = take width (s @ replicate width CHR '' '')"
  by (simp add: fmt_column_def setw_left_def LimitWidth_def)

lemma length_fmt_column [simp]: "length (fmt_column s width) = width"
  by (simp add: fmt_column)

lemma takeWhile_number: "\<not> is_digit c \<Longrightarrow> takeWhile is_digit (show_nat n @ c # rest) = show_nat n"
  using show_nat_digits [of n] by (simp add: takeWhile_append)

lemma read_layout:
  assumes "length a = 7" and "length b = 15" and "length c = 12"
  shows "read_line (''[T '' @ show_nat t @ CHR '' '' # ''| '' @ show_nat n @ CHR '']'' # tab # ''['' @ a @ '']'' @ [tab] @ ''['' @
      b @ '']'' @ [tab] @ ''['' @ c @ '']'' @ rest) = (t, n, [a, b, c], rest)"
proof -
  define cols where "cols = a @ '']'' @ [tab] @ ''['' @ b @ '']'' @ [tab] @ ''['' @ c @ '']'' @ rest"
  define tail where "tail = show_nat n @ CHR '']'' # tab # ''['' @ cols"
  have 1: "takeWhile is_digit (show_nat t @ CHR '' '' # ''| '' @ tail) = show_nat t"
    by (rule takeWhile_number) (simp add: is_digit_def)
  have 2: "takeWhile is_digit tail = show_nat n" unfolding tail_def by (rule takeWhile_number) (simp add: is_digit_def)
  have 3: "drop (length (show_nat n) + 3) tail = cols" by (simp add: tail_def)
  have 4: "take 7 cols = a" "take 15 (drop 10 cols) = b" "take 12 (drop 28 cols) = c" "drop 41 cols = rest"
    using assms by (simp_all add: cols_def)
  have 5: "drop 3 (''[T '' @ show_nat t @ CHR '' '' # ''| '' @ tail) = show_nat t @ CHR '' '' # ''| '' @ tail" by simp
  have 6: "drop (3 + length (show_nat t) + 3) (''[T '' @ show_nat t @ CHR '' '' # ''| '' @ tail) = tail"
    by (simp add: eval_nat_numeral)
  have "read_line (''[T '' @ show_nat t @ CHR '' '' # ''| '' @ tail) = (t, n, [a, b, c], rest)"
    unfolding read_line_def Let_def 5 1 6 2 3 4 by simp
  then show ?thesis by (simp only: tail_def cols_def append_assoc append_Cons append_Nil)
qed

lemma FormatLogEventTo_layout:
  "FormatLogEventTo lvl e [] = ''[T '' @ show_nat (unat (ev_time e)) @ CHR '' '' # ''| '' @ show_nat (ev_step e) @
     CHR '']'' # tab # ''['' @ fmt_column (lvl (ev_level e)) 7 @ '']'' @ [tab] @ ''['' @ fmt_column (ev_actor e) 15 @ '']'' @ [tab] @
     ''['' @ fmt_column (ev_component e) 12 @ '']'' @
     ((case ev_trace_id e of None \<Rightarrow> [] | Some i \<Rightarrow> [tab] @ ''['' @ i @ '']'') @ [tab] @ ev_message e)"
  by (cases "ev_trace_id e") (simp_all add: FormatLogEventTo_def Let_def)

lemma read_log_line:
  "read_line (FormatLogEventTo lvl e []) = (unat (ev_time e), ev_step e,
     [fmt_column (lvl (ev_level e)) 7, fmt_column (ev_actor e) 15, fmt_column (ev_component e) 12],
     (case ev_trace_id e of None \<Rightarrow> [] | Some i \<Rightarrow> [tab] @ ''['' @ i @ '']'') @ [tab] @ ev_message e)"
  unfolding FormatLogEventTo_layout by (rule read_layout) simp_all

lemma Log_all:
  "lb_events (foldl (\<lambda>b e. Log_Write lvl e b) b es) = lb_events b @ es"
  "lb_file b = Some (Some path) \<Longrightarrow> lb_disk (foldl (\<lambda>b e. Log_Write lvl e b) b es) =
     (lb_disk b)(path := lb_disk b path @ concat (map (\<lambda>e. FormatLogEventTo lvl e [] @ [newline]) es))"
proof (induction es arbitrary: b)
  case Nil
  { case 1 show ?case by simp }
  { case 2 show ?case by simp }
next
  case (Cons e es)
  have out: "FormatLogEventTo lvl e out = out @ FormatLogEventTo lvl e []" for out
    by (simp add: FormatLogEventTo_def Let_def split: option.split)
  { case 1 show ?case using Cons.IH(1) by (simp add: Log_Write_def stream_write_def split: option.split) }
  { case 2
    then have 1: "lb_file (Log_Write lvl e b) = Some (Some path)" "lb_disk (Log_Write lvl e b) =
        (lb_disk b)(path := lb_disk b path @ FormatLogEventTo lvl e [] @ [newline])"
      using out [of "lb_disk b path"] by (simp_all add: Log_Write_def stream_write_def)
    show ?case using Cons.IH(2) [OF 1(1)] by (auto simp: 1(2) fun_eq_iff) }
qed

text \<open>C33. The log is complete and its file can be read. Every event that is logged is kept, in order, with the time, the step
  and the name of the actor it comes from, and its line is appended to the file, which keeps what was in it before; other
  files do not change. The line shows the time and the step in full, and the level, the actor and the component
  in columns of 7, 15 and 12 characters, cut or filled with blanks, so that they are at the same place in
  every line; then comes the trace id if there is one, and the message.\<close>

theorem log_complete:
  fixes contexts :: "(this_fiber option \<times> string option \<times> 'l timber_event \<times> ('h, 'u) world) list"
  defines "captured \<equiv> map (\<lambda>(fiber, i, e, w). CaptureMatrixContext fiber i e w) contexts"
  shows "let b' = foldl (\<lambda>b (fiber, i, e, w). Log lvl fiber i e w b) (AppendToFile True path b) contexts in
    lb_events b' = lb_events b @ captured \<and>
    map ev_time captured = map (\<lambda>(fiber, i, e, w). w_now w) contexts \<and>
    (\<exists>lines. lb_disk b' = (lb_disk b)(path := lb_disk b path @ replicate 80 CHR ''-'' @ [newline] @
         concat (map (\<lambda>l. l @ [newline]) lines)) \<and>
       map read_line lines = map (\<lambda>e. (unat (ev_time e), ev_step e,
         [take 7 (lvl (ev_level e) @ replicate 7 CHR '' ''), take 15 (ev_actor e @ replicate 15 CHR '' ''),
          take 12 (ev_component e @ replicate 12 CHR '' '')],
         (case ev_trace_id e of None \<Rightarrow> [] | Some i \<Rightarrow> [tab] @ ''['' @ i @ '']'') @ [tab] @ ev_message e)) captured)"
proof -
  let ?b = "AppendToFile True path b"
  have run: "foldl (\<lambda>b (fiber, i, e, w). Log lvl fiber i e w b) b0 contexts = foldl (\<lambda>b e. Log_Write lvl e b) b0 captured" for b0
    unfolding captured_def by (induction contexts arbitrary: b0) (auto simp: Log_def)
  have b: "lb_file ?b = Some (Some path)" "lb_events ?b = lb_events b"
    "lb_disk ?b = (lb_disk b)(path := lb_disk b path @ replicate 80 CHR ''-'' @ [newline])"
    by (simp_all add: AppendToFile_def stream_write_def)
  let ?lines = "map (\<lambda>e. FormatLogEventTo lvl e []) captured"
  have "lb_disk (foldl (\<lambda>b e. Log_Write lvl e b) ?b captured) = (lb_disk b)(path := lb_disk b path @
      replicate 80 CHR ''-'' @ [newline] @ concat (map (\<lambda>l. l @ [newline]) ?lines))"
    using Log_all(2) [OF b(1), of lvl captured] by (simp add: b(3) comp_def)
  moreover have "map ev_time captured = map (\<lambda>(fiber, i, e, w). w_now w) contexts"
    by (auto simp: captured_def CaptureMatrixContext_def)
  ultimately show ?thesis
    unfolding Let_def run
    by (intro conjI exI [of _ ?lines]) (simp_all add: Log_all(1) b(2) read_log_line fmt_column del: take_append)
qed

end
