(* ===== verification/World_Trace.thy ===== *)
theory World_Trace
  imports Stepping Trace Log Runner
begin

text \<open>
  \<open>World::WriteTraceTo\<close>, \<open>Network::Step\<close> and \<open>World::Stop\<close> with a tracer: a world and the tracer it may own. A step of the
  network that delivers a frame shows it to the tracer before the receiver handles it.
\<close>

section \<open>A world with a tracer\<close>

type_synonym ('h, 'u) traced_world = "('h, 'u) world \<times> tracer option"

definition WriteTraceTo :: "bool \<Rightarrow> string \<Rightarrow> ('h, 'u) traced_world \<Rightarrow> ('h, 'u) traced_world res" where
  "WriteTraceTo opened fpath tw = res_bind (Tracer opened fpath) (\<lambda>t. Inr (fst tw, Some t))"

definition GetTracer :: "('h, 'u) traced_world \<Rightarrow> tracer option" where
  "GetTracer tw = snd tw"

text \<open>The frame that the next step delivers, with the time of the delivery.\<close>

definition step_delivery :: "(u64 \<Rightarrow> nat \<Rightarrow> u64) \<Rightarrow> ('h, 'u) world \<Rightarrow> (time_point \<times> frame) option" where
  "step_delivery eat w =
     (case FindNextStep w of
        None \<Rightarrow> None
      | Some s \<Rightarrow> if ns_actor s \<noteq> NetworkActor then None
          else (case Network_Step eat (w_net w) of Inr (_, Some (f, _, _)) \<Rightarrow> Some (ns_time s, f) | _ \<Rightarrow> None))"

definition Step_traced ::
    "wire \<Rightarrow> (u64 \<Rightarrow> nat \<Rightarrow> u64) \<Rightarrow> ('h, 'u) program \<Rightarrow> ('h, 'u) traced_world \<Rightarrow> (bool \<times> ('h, 'u) traced_world) res" where
  "Step_traced W eat prog tw =
     (let tr = (case (GetTracer tw, step_delivery eat (fst tw)) of
          (Some tracer, Some (now, f)) \<Rightarrow> Some (Tracer_Deliver W now f tracer)
        | _ \<Rightarrow> GetTracer tw)
      in res_bind (World_Step eat prog (fst tw)) (\<lambda>(b, w). Inr (b, w, tr)))"

fun MakeSteps_traced ::
    "wire \<Rightarrow> (u64 \<Rightarrow> nat \<Rightarrow> u64) \<Rightarrow> ('h, 'u) program \<Rightarrow> nat \<Rightarrow> ('h, 'u) traced_world \<Rightarrow> (nat \<times> ('h, 'u) traced_world) res" where
  "MakeSteps_traced W eat prog 0 tw = Inr (0, tw)"
| "MakeSteps_traced W eat prog (Suc n) tw = res_bind (Step_traced W eat prog tw) (\<lambda>(b, tw).
     if b then map_sum id (map_prod Suc id) (MakeSteps_traced W eat prog n tw) else Inr (0, tw))"

definition Stop_traced ::
    "(u64 \<Rightarrow> u64 \<Rightarrow> u64) \<Rightarrow> (('h, 'u) server \<Rightarrow> u64) \<Rightarrow> ('h, 'u) traced_world \<Rightarrow> (u64 \<times> ('h, 'u) traced_world) res" where
  "Stop_traced combine server_digest tw = res_bind (World_Stop combine server_digest (fst tw)) (\<lambda>(d, w).
     Inr (d, w, map_option Tracer_Finalize (GetTracer tw)))"

text \<open>What a run delivers.\<close>

fun deliveries :: "(u64 \<Rightarrow> nat \<Rightarrow> u64) \<Rightarrow> ('h, 'u) program \<Rightarrow> nat \<Rightarrow> ('h, 'u) world \<Rightarrow> (time_point \<times> frame) list" where
  "deliveries eat prog 0 w = []"
| "deliveries eat prog (Suc n) w =
     (case World_Step eat prog w of
        Inl e \<Rightarrow> []
      | Inr (b, w') \<Rightarrow> (case step_delivery eat w of None \<Rightarrow> [] | Some d \<Rightarrow> [d]) @ (if b then deliveries eat prog n w' else []))"

text \<open>The test runner points the log and the tracer of every world it runs at the files of its command line;
  \<open>can_open\<close> says which files can be opened.\<close>

definition Configure ::
    "(string \<Rightarrow> bool) \<Rightarrow> runner \<Rightarrow> ('h, 'u) traced_world \<times> 'l log_backend \<Rightarrow>
     (('h, 'u) traced_world \<times> 'l log_backend) res" where
  "Configure can_open r = (\<lambda>(tw, b).
     let b = (case r_log_path r of None \<Rightarrow> b | Some p \<Rightarrow> AppendToFile (can_open p) p b)
     in case r_trace_path r of
          None \<Rightarrow> Inr (tw, b)
        | Some p \<Rightarrow> res_bind (WriteTraceTo (can_open p) p tw) (\<lambda>tw. Inr (tw, b)))"

lemma Configure_world: "Configure can_open r (tw, b) = Inr (tw', b') \<Longrightarrow> fst tw' = fst tw"
  by (auto simp: Configure_def WriteTraceTo_def Let_def res_bind_Inr split: option.splits)

section \<open>The trace of a run\<close>

lemma Step_traced_world: "map_sum id (map_prod id fst) (Step_traced W eat prog tw) = World_Step eat prog (fst tw)"
  by (cases "World_Step eat prog (fst tw)") (auto simp: Step_traced_def Let_def)

lemma MakeSteps_traced_world:
  "map_sum id (map_prod id fst) (MakeSteps_traced W eat prog n tw) = MakeSteps eat prog n (fst tw)"
proof (induction n arbitrary: tw)
  case (Suc n)
  show ?case
  proof (cases "World_Step eat prog (fst tw)")
    case (Inl e)
    then show ?thesis by (simp add: MakeSteps_Suc Step_traced_def Let_def)
  next
    case (Inr p)
    then obtain b w where p: "World_Step eat prog (fst tw) = Inr (b, w)" by (cases p) auto
    then obtain tr where "Step_traced W eat prog tw = Inr (b, w, tr)" by (auto simp: Step_traced_def Let_def)
    moreover have "MakeSteps eat prog n w = map_sum id (map_prod id fst) (MakeSteps_traced W eat prog n (w, tr))"
      by (simp only: Suc.IH [of "(w, tr)"] fst_conv)
    ultimately show ?thesis using p
      by (cases "MakeSteps_traced W eat prog n (w, tr)") (auto simp: MakeSteps_Suc)
  qed
qed simp

lemma step_delivery_due:
  assumes "World_Step eat prog w = Inr (b, w')" and "step_delivery eat w = Some (now, f)"
  shows "w_now w \<le> now" and "now = w_now w'" and "b"
proof -
  obtain s where s: "FindNextStep w = Some s" "ns_time s = now"
    using assms(2) by (auto simp: step_delivery_def split: option.splits if_splits sum.splits prod.splits)
  let ?u = "w\<lparr>w_step := Suc (w_step w), w_digest := eat (eat (w_digest w) (unat (ns_time s))) (ns_index s),
      w_now := ns_time s\<rparr>"
  have "w_now w \<le> ns_time s" and "b" and sc: "scoped (ns_actor s) (actor_step eat prog (ns_actor s)) ?u = Inr w'"
    using assms(1) s by (auto simp: World_Step_def Let_def FastForwardTo_def verify_def res_bind_Inr split: if_splits)
  moreover have "since ?u w'" using sc by (rule scoped_since) (rule actor_step_since)
  ultimately show "w_now w \<le> now" "now = w_now w'" "b" using s(2) by (auto simp: since_def)
qed

lemma MakeSteps_trace:
  "MakeSteps_traced W eat prog n (w, tr) = Inr (k, w', tr') \<Longrightarrow>
     tr' = map_option (\<lambda>t. foldl (\<lambda>t (now, f). Tracer_Deliver W now f t) t (deliveries eat prog n w)) tr \<and>
     w_now w \<le> w_now w' \<and> sorted (map fst (deliveries eat prog n w)) \<and> length (deliveries eat prog n w) \<le> k \<and>
     (\<forall>d \<in> set (deliveries eat prog n w). w_now w \<le> fst d \<and> fst d \<le> w_now w')"
proof (induction n arbitrary: w tr k)
  case 0
  then show ?case by (cases tr) auto
next
  case (Suc n)
  obtain b v where v: "World_Step eat prog w = Inr (b, v)"
    using Suc.prems by (cases "World_Step eat prog w") (auto simp: Step_traced_def Let_def)
  let ?ds = "case step_delivery eat w of None \<Rightarrow> [] | Some d \<Rightarrow> [d]"
  let ?tr = "map_option (\<lambda>t. foldl (\<lambda>t (now, f). Tracer_Deliver W now f t) t ?ds) tr"
  have st: "Step_traced W eat prog (w, tr) = Inr (b, v, ?tr)"
    using v by (auto simp: Step_traced_def GetTracer_def Let_def split: option.splits)
  have le: "w_now w \<le> w_now v" by (rule World_Step_since [OF v])
  have now: "\<forall>d \<in> set ?ds. fst d = w_now v \<and> b"
    using step_delivery_due [OF v] by (cases "step_delivery eat w") auto
  show ?case
  proof (cases b)
    case False
    then have "?ds = []" using now by (auto split: option.splits)
    moreover from this have "?tr = tr" by (cases tr) simp_all
    ultimately show ?thesis using False Suc.prems st v le World_Step_since(5) [OF v] by (cases tr) auto
  next
    case True
    then obtain j where j: "MakeSteps_traced W eat prog n (v, ?tr) = Inr (j, w', tr')" "k = Suc j"
      using Suc.prems st by (cases "MakeSteps_traced W eat prog n (v, ?tr)") auto
    note IH = Suc.IH [OF j(1)]
    have ds: "deliveries eat prog (Suc n) w = ?ds @ deliveries eat prog n v" using v True by simp
    have one: "length ?ds \<le> 1" by (simp split: option.split)
    show ?thesis unfolding ds using IH now le one j(2)
      by (cases tr) (auto simp: sorted_append intro: order_trans split: option.splits)
  qed
qed

lemma traced_run: "map_sum id (map_prod id fst) r = Inr (k, w) \<Longrightarrow> \<exists>tr. r = Inr (k, w, tr)"
  by (cases r) auto

section \<open>Properties\<close>

text \<open>C30. Tracing a simulation does not change it: with or without a tracer the same steps are made and end in the same
  world, or abort in the same way. A simulation that is traced from some state on and then stopped has
  written, for each frame with user data that a step delivered from then on, one object, in the order of the
  deliveries, and the times of the deliveries never decrease and lie between the first state and the last one.\<close>

theorem simulation_traced:
  "map_sum id (map_prod id fst) (MakeSteps_traced W eat prog n (w, tr)) = MakeSteps eat prog n w \<and>
   (\<forall>path k w' tr' d w'' tr''. res_bind (WriteTraceTo True path (w, tr)) (MakeSteps_traced W eat prog n) = Inr (k, w', tr') \<longrightarrow>
      Stop_traced combine server_digest (w', tr') = Inr (d, w'', tr'') \<longrightarrow>
      (\<exists>t es. tr'' = Some t \<and> tr_path t = path \<and> tr_flushed t \<and> read_json (tr_tokens t) [] = Some (JArray es) \<and>
         list_all2 (entry_of W) (filter (IsData \<circ> snd) (deliveries eat prog n w)) es \<and>
         sorted (map fst (deliveries eat prog n w)) \<and> length (deliveries eat prog n w) \<le> k \<and>
         (\<forall>(now, f) \<in> set (deliveries eat prog n w). w_now w \<le> now \<and> now \<le> w_now w')))"
proof (intro conjI allI impI)
  show "map_sum id (map_prod id fst) (MakeSteps_traced W eat prog n (w, tr)) = MakeSteps eat prog n w"
    using MakeSteps_traced_world [of W eat prog n "(w, tr)"] by simp
next
  fix path k w' tr' d w'' tr''
  assume run: "res_bind (WriteTraceTo True path (w, tr)) (MakeSteps_traced W eat prog n) = Inr (k, w', tr')"
    and stop: "Stop_traced combine server_digest (w', tr') = Inr (d, w'', tr'')"
  let ?t = "\<lparr>tr_path = path, tr_tokens = [TStartArray], tr_flushed = False\<rparr>" and ?ds = "deliveries eat prog n w"
  have "MakeSteps_traced W eat prog n (w, Some ?t) = Inr (k, w', tr')"
    using run by (simp add: WriteTraceTo_def Tracer_def)
  note trace = MakeSteps_trace [OF this]
  let ?u = "Tracer_Finalize (foldl (\<lambda>t (now, f). Tracer_Deliver W now f t) ?t ?ds)"
  have "tr'' = Some ?u" using stop trace by (auto simp: Stop_traced_def GetTracer_def res_bind_Inr)
  moreover have "tr_path ?u = path" "tr_flushed ?u" by (simp_all add: Tracer_Finalize_def)
  ultimately show "\<exists>t es. tr'' = Some t \<and> tr_path t = path \<and> tr_flushed t \<and> read_json (tr_tokens t) [] = Some (JArray es) \<and>
      list_all2 (entry_of W) (filter (IsData \<circ> snd) ?ds) es \<and> sorted (map fst ?ds) \<and> length ?ds \<le> k \<and>
      (\<forall>(now, f) \<in> set ?ds. w_now w \<le> now \<and> now \<le> w_now w')"
    using delivered_reads_back [of ?t W ?ds] entries_exist [of W "filter (IsData \<circ> snd) ?ds"] trace by auto
qed

theorem simulation_traced_witness:
  "\<forall>W. \<exists>w k w' tr d w'' t es. World_Start demo_world = Inr w \<and>
     res_bind (WriteTraceTo True ''trace.json'' (w, None)) (MakeSteps_traced W (\<lambda>d n. d) spin 2) = Inr (k, w', tr) \<and>
     Stop_traced (\<lambda>a b. a + b) (\<lambda>s. 0) (w', tr) = Inr (d, w'', Some t) \<and> k = 2 \<and> read_json (tr_tokens t) [] = Some (JArray es)"
proof
  fix W
  obtain w where w: "World_Start demo_world = Inr w" "w_now w = 1" "spinning w" "simulated 1000 (\<lambda>d n. d) spin w"
    by (rule demo_world_start)
  obtain v where v: "World_Step (\<lambda>d n. d) spin w = Inr (True, v)" "spinning v" "w_now v = w_now w" using spin_step [OF w(3)] by blast
  obtain u where u: "World_Step (\<lambda>d n. d) spin v = Inr (True, u)" "spinning u" "w_now u = w_now v" using spin_step [OF v(2)] by blast
  have w': "simulated 1000 (\<lambda>d n. d) spin v" by (rule sim_step [OF w(4) v(1)])
  have u': "simulated 1000 (\<lambda>d n. d) spin u" by (rule sim_step [OF w' u(1)])
  have "MakeSteps (\<lambda>d n. d) spin 2 w = Inr (2, u)" using v(1) u(1) by (simp add: MakeSteps_Suc numeral_2_eq_2)
  then have run2: "\<exists>tr. MakeSteps_traced W (\<lambda>d n. d) spin 2 (w, Some t) = Inr (2, u, tr)" for t
    using MakeSteps_traced_world [of W "\<lambda>d n. d" spin 2 "(w, Some t)"] by (intro traced_run) (simp only: fst_conv)
  then obtain tr where run: "res_bind (WriteTraceTo True ''trace.json'' (w, None)) (MakeSteps_traced W (\<lambda>d n. d) spin 2) = Inr (2, u, tr)"
    using run2 by (auto simp only: verify_simps WriteTraceTo_def Tracer_def res_bind_simps if_True fst_conv)
  obtain d x where "World_Stop (\<lambda>a b. a + b) (\<lambda>s. 0) u = Inr (d, x)"
    using World_Stop_ok [OF u' spin_timers demo_room, of "\<lambda>a b. a + b" "\<lambda>s. 0"] u(3) v(3) w(2) by auto
  then have stop: "Stop_traced (\<lambda>a b. a + b) (\<lambda>s. 0) (u, tr) = Inr (d, x, map_option Tracer_Finalize tr)"
    by (simp add: Stop_traced_def GetTracer_def)
  from simulation_traced [of W "\<lambda>d n. d" spin 2 w, THEN conjunct2, rule_format, OF run stop]
  obtain t es where t: "map_option Tracer_Finalize tr = Some t" "read_json (tr_tokens t) [] = Some (JArray es)" by auto
  show "\<exists>w k w' tr d w'' t es. World_Start demo_world = Inr w \<and>
     res_bind (WriteTraceTo True ''trace.json'' (w, None)) (MakeSteps_traced W (\<lambda>d n. d) spin 2) = Inr (k, w', tr) \<and>
     Stop_traced (\<lambda>a b. a + b) (\<lambda>s. 0) (w', tr) = Inr (d, w'', Some t) \<and> k = 2 \<and> read_json (tr_tokens t) [] = Some (JArray es)"
    by (rule exI [of _ w], rule exI [of _ 2], rule exI [of _ u], rule exI [of _ tr], rule exI [of _ d],
        rule exI [of _ x], rule exI [of _ t], rule exI [of _ es]) (simp add: w(1) run stop t)
qed

end
