(* ===== verification/Fibers.thy ===== *)
theory Fibers
  imports Prelude
begin

text \<open>
  \<open>process/fibers.{hpp,cpp}\<close>: the manager of the fibers of a process, which numbers them and lends them their stacks. Stacks
  that are given back are kept and reused, cleared, in the order of a stack. The bytes of a stack are found by its address;
  the address that \<open>new\<close> returns for a new stack is an argument. The branches of the address sanitizer are left out.
\<close>

type_synonym stack_memory = "u64 \<Rightarrow> nat \<Rightarrow> 8 word"

record fiber_manager =
  fm_next_id :: u64
  fm_pool :: "u64 list"

definition kStackSize :: nat where "kStackSize = 64 * 4 * 1024"

definition FiberManager :: fiber_manager where
  "FiberManager = \<lparr>fm_next_id = 0, fm_pool = []\<rparr>"

definition GenerateId :: "fiber_manager \<Rightarrow> u64 \<times> fiber_manager" where
  "GenerateId m = (let i = fm_next_id m + 1 in (i, m\<lparr>fm_next_id := i\<rparr>))"

text \<open>Both the initialiser \<open>{}\<close> of a new stack and \<open>ResetForReuse\<close> fill it with zeros.\<close>

definition ResetForReuse :: "u64 \<Rightarrow> stack_memory \<Rightarrow> stack_memory" where
  "ResetForReuse a mem = mem(a := \<lambda>i. if i < kStackSize then 0 else mem a i)"

definition AcquireStack :: "u64 \<Rightarrow> fiber_manager \<Rightarrow> stack_memory \<Rightarrow> (u64 \<times> nat) \<times> fiber_manager \<times> stack_memory" where
  "AcquireStack fresh m mem = (case fm_pool m of
       a # pool \<Rightarrow> ((a, kStackSize), m\<lparr>fm_pool := pool\<rparr>, ResetForReuse a mem)
     | [] \<Rightarrow> ((fresh, kStackSize), m, ResetForReuse fresh mem))"

definition ReleaseStack :: "u64 \<times> nat \<Rightarrow> fiber_manager \<Rightarrow> fiber_manager" where
  "ReleaseStack view m = m\<lparr>fm_pool := fst view # fm_pool m\<rparr>"

section \<open>Processes that use the manager\<close>

text \<open>What a process does: number a fiber, take a stack (\<open>new\<close> would return the given address), give one back, write
  to one. \<open>fs_lent\<close> are the stacks of the running fibers, \<open>fs_made\<close> counts the calls of \<open>new\<close>.\<close>

datatype fiber_op =
    NewId
  | Acquire u64
  | Release u64
  | Store u64 nat "8 word"

record fibers_state =
  fs_manager :: fiber_manager
  fs_memory :: stack_memory
  fs_ids :: "u64 list"
  fs_lent :: "u64 list"
  fs_made :: nat
  fs_peak :: nat

definition fibers_start :: "stack_memory \<Rightarrow> fibers_state" where
  "fibers_start mem = \<lparr>fs_manager = FiberManager, fs_memory = mem, fs_ids = [], fs_lent = [], fs_made = 0, fs_peak = 0\<rparr>"

text \<open>\<open>None\<close> when \<open>new\<close> returns a stack that is not free or the process touches one that is not its own.\<close>

fun fiber_step :: "fiber_op \<Rightarrow> fibers_state \<Rightarrow> fibers_state option" where
  "fiber_step NewId s = (let (i, m) = GenerateId (fs_manager s) in
     Some (s\<lparr>fs_manager := m, fs_ids := fs_ids s @ [i]\<rparr>))"
| "fiber_step (Acquire fresh) s =
     (if fresh \<in> set (fs_lent s) \<union> set (fm_pool (fs_manager s)) then None
      else let ((a, sz), m, mem) = AcquireStack fresh (fs_manager s) (fs_memory s);
               made = (if fm_pool (fs_manager s) = [] then Suc (fs_made s) else fs_made s) in
        Some (s\<lparr>fs_manager := m, fs_memory := mem, fs_lent := a # fs_lent s, fs_made := made,
          fs_peak := max (fs_peak s) (Suc (length (fs_lent s)))\<rparr>))"
| "fiber_step (Release a) s =
     (if a \<in> set (fs_lent s)
      then Some (s\<lparr>fs_manager := ReleaseStack (a, kStackSize) (fs_manager s), fs_lent := remove1 a (fs_lent s)\<rparr>)
      else None)"
| "fiber_step (Store a i v) s =
     (if a \<in> set (fs_lent s) \<and> i < kStackSize
      then Some (s\<lparr>fs_memory := (fs_memory s)(a := (fs_memory s a)(i := v))\<rparr>) else None)"

fun fiber_run :: "fiber_op list \<Rightarrow> fibers_state \<Rightarrow> fibers_state option" where
  "fiber_run [] s = Some s"
| "fiber_run (op # ops) s = (case fiber_step op s of None \<Rightarrow> None | Some s \<Rightarrow> fiber_run ops s)"

definition numbered :: "u64 list \<Rightarrow> bool" where
  "numbered ids \<longleftrightarrow> ids = map of_nat [1..<Suc (length ids)]"

lemma numbered_snoc: "numbered ids \<Longrightarrow> numbered (ids @ [1 + of_nat (length ids)])"
  unfolding numbered_def by (simp only: length_append) (simp)

definition fibers_ok :: "fibers_state \<Rightarrow> bool" where
  "fibers_ok s \<longleftrightarrow> distinct (fs_lent s @ fm_pool (fs_manager s)) \<and>
     fs_made s = length (fs_lent s) + length (fm_pool (fs_manager s)) \<and> fs_made s = fs_peak s \<and>
     numbered (fs_ids s) \<and> fm_next_id (fs_manager s) = of_nat (length (fs_ids s))"

lemma fibers_ok_step [inv_rules]: "fibers_ok s \<Longrightarrow> fiber_step op s = Some s' \<Longrightarrow> fibers_ok s'"
proof (cases op)
  case NewId
  assume "fibers_ok s" "fiber_step op s = Some s'"
  then show ?thesis using NewId numbered_snoc [of "fs_ids s"] by (auto simp: fibers_ok_def GenerateId_def Let_def add.commute)
next
  case (Acquire fresh)
  assume "fibers_ok s" "fiber_step op s = Some s'"
  then show ?thesis using Acquire
    by (cases "fm_pool (fs_manager s)") (auto simp: fibers_ok_def AcquireStack_def Let_def split: if_splits)
next
  case (Release a)
  assume ok: "fibers_ok s" and step: "fiber_step op s = Some s'"
  then have a: "a \<in> set (fs_lent s)" using Release by (auto split: if_splits)
  have s': "s' = s\<lparr>fs_manager := ReleaseStack (a, kStackSize) (fs_manager s), fs_lent := remove1 a (fs_lent s)\<rparr>"
    using step a Release by simp
  have "0 < length (fs_lent s)" using a by (auto simp: length_greater_0_conv)
  then show ?thesis using ok a unfolding s'
    by (simp add: fibers_ok_def ReleaseStack_def length_remove1) (use notin_set_remove1 in fastforce)
next
  case (Store a i v)
  assume "fibers_ok s" "fiber_step op s = Some s'"
  then show ?thesis using Store by (auto simp: fibers_ok_def split: if_splits)
qed

lemma fibers_ok_run: "fibers_ok s \<Longrightarrow> fiber_run ops s = Some s' \<Longrightarrow> fibers_ok s'"
  by (induction ops arbitrary: s) (auto split: option.splits intro: fibers_ok_step)

text \<open>C34. Fibers of a process do not share anything through their stacks. In every state that a process can reach, the stacks
  of its fibers are different and none is in the pool; a stack that is lent next is none of them and all of
  its 262144 bytes are zero, whatever fibers did with it before; fibers are numbered 1, 2, 3, ...; and exactly as many stacks
  have been allocated as fibers were alive at the same time.\<close>

theorem stacks_are_private:
  assumes "fiber_run ops (fibers_start mem) = Some s"
  shows "distinct (fs_lent s) \<and> set (fs_lent s) \<inter> set (fm_pool (fs_manager s)) = {} \<and>
    fs_ids s = map of_nat [1..<Suc (length (fs_ids s))] \<and> fs_made s = fs_peak s \<and>
    (\<forall>fresh a sz m mem'. fresh \<notin> set (fs_lent s) \<and> AcquireStack fresh (fs_manager s) (fs_memory s) = ((a, sz), m, mem') \<longrightarrow>
       a \<notin> set (fs_lent s) \<and> sz = 262144 \<and> (\<forall>i < sz. mem' a i = 0) \<and> (\<forall>b \<in> set (fs_lent s). mem' b = fs_memory s b))"
proof -
  have "fibers_ok (fibers_start mem)" by (simp add: fibers_ok_def fibers_start_def FiberManager_def numbered_def)
  then have ok: "fibers_ok s" by (rule fibers_ok_run [OF _ assms])
  then have "fs_ids s = map of_nat [1..<Suc (length (fs_ids s))]" by (simp add: fibers_ok_def numbered_def)
  moreover have "\<forall>fresh a sz m mem'. fresh \<notin> set (fs_lent s) \<and> AcquireStack fresh (fs_manager s) (fs_memory s) = ((a, sz), m, mem') \<longrightarrow>
       a \<notin> set (fs_lent s) \<and> sz = 262144 \<and> (\<forall>i < sz. mem' a i = 0) \<and> (\<forall>b \<in> set (fs_lent s). mem' b = fs_memory s b)"
    using ok by (cases "fm_pool (fs_manager s)") (auto simp: fibers_ok_def AcquireStack_def ResetForReuse_def kStackSize_def)
  ultimately show ?thesis using ok by (auto simp: fibers_ok_def)
qed

theorem stacks_are_private_witness:
  "\<exists>s. fiber_run [NewId, Acquire 4096, Store 4096 7 1, NewId, Acquire 8192, Release 4096, NewId] (fibers_start (\<lambda>_ _. 0)) = Some s \<and>
     fs_lent s = [8192] \<and> fs_ids s = [1, 2, 3] \<and> fs_memory s 4096 7 = 1 \<and>
     (case AcquireStack 12288 (fs_manager s) (fs_memory s) of ((a, sz), m, mem) \<Rightarrow> a = 4096 \<and> mem a 7 = 0)"
proof -
  let ?ops = "[NewId, Acquire 4096, Store 4096 7 1, NewId, Acquire 8192, Release 4096, NewId]"
  obtain s where s: "fiber_run ?ops (fibers_start (\<lambda>_ _. 0)) = Some s" "fs_lent s = [8192]" "fm_pool (fs_manager s) = [4096]"
    "length (fs_ids s) = 3" "fs_memory s 4096 7 = 1"
    by (simp add: fibers_start_def FiberManager_def GenerateId_def AcquireStack_def ReleaseStack_def ResetForReuse_def
        kStackSize_def Let_def)
  note p = stacks_are_private [OF s(1)]
  have "fs_ids s = map of_nat [1..<Suc 3]" using p s(4) by metis
  then have "fs_ids s = [1, 2, 3]" by (simp add: upt_rec)
  moreover have "(case AcquireStack 12288 (fs_manager s) (fs_memory s) of ((a, sz), m, mem) \<Rightarrow> a = 4096 \<and> mem a 7 = 0)"
    by (simp add: AcquireStack_def s(3) ResetForReuse_def kStackSize_def)
  ultimately show ?thesis using s(1,2,5) by (intro exI [of _ s] conjI)
qed

end
