(* ===== verification/Net_Transport.thy ===== *)
theory Net_Transport
  imports Transport
begin

text \<open>
  \<open>server/runtime/{net_transport.hpp,transport.cpp}\<close>: the transport that programs of a node see. Its sockets and servers are
  objects that own an endpoint of the transport below and are the handlers of this endpoint. An object is found by its
  address, a number; the weak pointer to the program's own handler is a number too, and whether its target is alive is
  an argument. What is sent to the network is returned.
\<close>

section \<open>Objects\<close>

datatype net_object =
    NetTransportSocket "client_socket option" nat
  | NetTransportServer "server_socket option" nat

text \<open>What the program's handlers are told.\<close>

datatype notice =
    Message nat string "reply_socket option"
  | Disconnect nat host_name

record 'u node_transport =
  nt_transport :: "nat transport"
  nt_objects :: "nat \<Rightarrow> net_object option"
  nt_tasks :: "(nat, 'u) process_task scheduler"
  nt_notices :: "notice list"

definition NetTransport :: "host_name \<Rightarrow> 'u node_transport" where
  "NetTransport host = \<lparr>nt_transport = Transport_init host, nt_objects = (\<lambda>_. None), nt_tasks = Scheduler_init, nt_notices = []\<rparr>"

abbreviation set_object :: "nat \<Rightarrow> net_object \<Rightarrow> nat transport \<Rightarrow> 'u node_transport \<Rightarrow> 'u node_transport" where
  "set_object a x t s \<equiv> s\<lparr>nt_transport := t, nt_objects := (nt_objects s)(a \<mapsto> x)\<rparr>"

text \<open>\<open>None\<close>: looking for a port does not end.\<close>

definition NetTransport_ConnectTo ::
    "(host_name \<Rightarrow> nat) \<Rightarrow> nat \<Rightarrow> bool \<Rightarrow> nat \<Rightarrow> string \<Rightarrow> nat \<Rightarrow> 'u node_transport \<Rightarrow>
     ((nat \<times> packet) option \<times> 'u node_transport) res option" where
  "NetTransport_ConnectTo link_to step adversary this address handler s =
     (case ParseAddress address of
        Inl e \<Rightarrow> Some (Inl e)
      | Inr (host, p) \<Rightarrow>
          (case ConnectTo (link_to host) p this step adversary (nt_transport s) of
             None \<Rightarrow> None
           | Some (sock, out, t) \<Rightarrow> Some (Inr (map_option (Pair (link_to host)) out,
               set_object this (NetTransportSocket (Some sock) handler) t s))))"

definition NetTransport_Serve :: "nat \<Rightarrow> nat \<Rightarrow> string \<Rightarrow> nat \<Rightarrow> 'u node_transport \<Rightarrow> 'u node_transport res" where
  "NetTransport_Serve step this port_str handler s =
     res_bind (ParsePort port_str) (\<lambda>p.
       res_bind (Transport.Serve p this step (nt_transport s)) (\<lambda>(sock, t).
         Inr (set_object this (NetTransportServer (Some sock) handler) t s)))"

definition NetTransportSocket_Send :: "string \<Rightarrow> client_socket option \<Rightarrow> (nat \<times> packet) res" where
  "NetTransportSocket_Send msg sock = ClientSocket_Send msg sock"

definition NetTransportSocket_IsConnected :: "client_socket option \<Rightarrow> bool" where
  "NetTransportSocket_IsConnected sock = ClientSocket_IsValid sock"

definition NetTransportSocket_Close :: "client_socket option \<Rightarrow> nat transport \<Rightarrow> client_socket option \<times> nat transport" where
  "NetTransportSocket_Close sock t = ClientSocket_Close sock t"

definition NetTransportSocket_destroy :: "client_socket option \<Rightarrow> nat transport \<Rightarrow> nat transport" where
  "NetTransportSocket_destroy sock t =
     (let (sock, t) = (if ClientSocket_IsValid sock then ClientSocket_Close sock t else (sock, t))
      in snd (ClientSocket_Close sock t))"

definition NetTransportServer_Shutdown :: "server_socket option \<Rightarrow> nat transport \<Rightarrow> server_socket option \<times> nat transport" where
  "NetTransportServer_Shutdown sock t = ServerSocket_Close sock t"

definition NetTransportServer_HandleDisconnect :: "host_name \<Rightarrow> bool \<Rightarrow> host_name option" where
  "NetTransportServer_HandleDisconnect host handler_alive = (if handler_alive then Some host else None)"

text \<open>The socket a server's handler answers with.\<close>

definition ReplyTransportSocket_Send :: "string \<Rightarrow> reply_socket \<Rightarrow> nat \<times> packet" where
  "ReplyTransportSocket_Send msg sock = ReplySocket_Send msg sock"

definition ReplyTransportSocket_IsConnected :: "reply_socket \<Rightarrow> bool" where
  "ReplyTransportSocket_IsConnected sock = True"

definition ReplyTransportSocket_Close :: "reply_socket \<Rightarrow> reply_socket" where
  "ReplyTransportSocket_Close sock = sock"

text \<open>The virtual calls of the tasks that \<open>HandlePacket\<close> schedules. The task keeps the plain pointer of the endpoint's
  handler.\<close>

definition notify :: "(nat \<Rightarrow> bool) \<Rightarrow> nat \<Rightarrow> notice option \<Rightarrow> 'u node_transport \<Rightarrow> 'u node_transport" where
  "notify alive handler n s = (case n of Some n \<Rightarrow> s\<lparr>nt_notices := nt_notices s @ [n]\<rparr> | None \<Rightarrow> s)"

definition call_HandleMessage ::
    "(nat \<Rightarrow> bool) \<Rightarrow> nat \<Rightarrow> string \<Rightarrow> reply_socket \<Rightarrow> 'u node_transport \<Rightarrow> 'u node_transport res" where
  "call_HandleMessage alive this msg back s =
     (case nt_objects s this of
        None \<Rightarrow> Inl (Undefined ''dangling handler'')
      | Some (NetTransportSocket sock h) \<Rightarrow> Inr (notify alive h
          (map_option (\<lambda>m. Message h m None) (NetTransportSocket_HandleMessage msg (alive h))) s)
      | Some (NetTransportServer sock h) \<Rightarrow> Inr (notify alive h
          (map_option (\<lambda>(m, back). Message h m (Some back)) (NetTransportServer_HandleMessage msg back (alive h))) s))"

definition call_HandleDisconnect :: "(nat \<Rightarrow> bool) \<Rightarrow> nat \<Rightarrow> host_name \<Rightarrow> 'u node_transport \<Rightarrow> 'u node_transport res" where
  "call_HandleDisconnect alive this host s =
     (case nt_objects s this of
        None \<Rightarrow> Inl (Undefined ''dangling handler'')
      | Some (NetTransportSocket sock h) \<Rightarrow>
          (let (sock, t, told) = NetTransportSocket_HandleDisconnect host (alive h) sock (nt_transport s)
           in Inr (notify alive h (map_option (Disconnect h) told) (set_object this (NetTransportSocket sock h) t s)))
      | Some (NetTransportServer sock h) \<Rightarrow> Inr (notify alive h
          (map_option (Disconnect h) (NetTransportServer_HandleDisconnect host (alive h))) s))"

section \<open>A process and its transport\<close>

text \<open>What happens to the transport of a process: the program makes, uses and destroys sockets and servers, packets come in,
  tasks run.\<close>

datatype nt_event =
    NConnect nat string nat
  | NServe nat string nat
  | NSend nat string
  | NClose nat
  | NShutdown nat
  | NDestroy nat
  | NPacket packet nat host_name
  | NTask

fun run_task :: "(nat \<Rightarrow> bool) \<Rightarrow> (nat, 'u) process_task \<Rightarrow> 'u node_transport \<Rightarrow> 'u node_transport res" where
  "run_task alive (HandleMessage this msg back) s = call_HandleMessage alive this msg back s"
| "run_task alive (HandleDisconnect this host) s = call_HandleDisconnect alive this host s"
| "run_task alive t s = Inr s"

text \<open>\<open>None\<close>: the event cannot happen in this state, or does not end. Calls of the program on objects that do not exist
  are left out.\<close>

fun nt_step ::
    "(host_name \<Rightarrow> nat) \<Rightarrow> (nat \<Rightarrow> bool) \<Rightarrow> nat \<Rightarrow> bool \<Rightarrow> time_point \<Rightarrow> nt_event \<Rightarrow> 'u node_transport \<Rightarrow>
     'u node_transport res option" where
  "nt_step link_to alive step adv now (NConnect this address h) s =
     (if nt_objects s this = None
      then map_option (\<lambda>r. res_bind r (\<lambda>(out, s). Inr s)) (NetTransport_ConnectTo link_to step adv this address h s) else None)"
| "nt_step link_to alive step adv now (NServe this port_str h) s =
     (if nt_objects s this = None then Some (NetTransport_Serve step this port_str h s) else None)"
| "nt_step link_to alive step adv now (NSend this msg) s = (case nt_objects s this of
       Some (NetTransportSocket sock h) \<Rightarrow> Some (res_bind (NetTransportSocket_Send msg sock) (\<lambda>out. Inr s))
     | _ \<Rightarrow> None)"
| "nt_step link_to alive step adv now (NClose this) s = (case nt_objects s this of
       Some (NetTransportSocket sock h) \<Rightarrow>
         (let (sock, t) = NetTransportSocket_Close sock (nt_transport s) in Some (Inr (set_object this (NetTransportSocket sock h) t s)))
     | _ \<Rightarrow> None)"
| "nt_step link_to alive step adv now (NShutdown this) s = (case nt_objects s this of
       Some (NetTransportServer sock h) \<Rightarrow>
         (let (sock, t) = NetTransportServer_Shutdown sock (nt_transport s) in Some (Inr (set_object this (NetTransportServer sock h) t s)))
     | _ \<Rightarrow> None)"
| "nt_step link_to alive step adv now (NDestroy this) s =
     map_option (\<lambda>x. Inr (s\<lparr>nt_transport := (case x of
           NetTransportSocket sock h \<Rightarrow> NetTransportSocket_destroy sock (nt_transport s)
         | NetTransportServer sock h \<Rightarrow> snd (ServerSocket_Close sock (nt_transport s))),
       nt_objects := (nt_objects s)(this := None)\<rparr>)) (nt_objects s this)"
| "nt_step link_to alive step adv now (NPacket pkt out host) s =
     Some (Inr (s\<lparr>nt_tasks := snd (HandlePacket pkt out host now (nt_transport s) (nt_tasks s))\<rparr>))"
| "nt_step link_to alive step adv now NTask s = (case Scheduler_TakeNext (nt_tasks s) of
       Some (t, q) \<Rightarrow> Some (run_task alive t (s\<lparr>nt_tasks := q\<rparr>))
     | None \<Rightarrow> None)"

text \<open>Each event comes with the handlers alive, the step of the world and the time.\<close>

fun nt_run :: "(host_name \<Rightarrow> nat) \<Rightarrow> bool \<Rightarrow> ((nat \<Rightarrow> bool) \<times> nat \<times> time_point \<times> nt_event) list \<Rightarrow> 'u node_transport \<Rightarrow>
    'u node_transport res option" where
  "nt_run link_to adv [] s = Some (Inr s)"
| "nt_run link_to adv ((alive, step, now, ev) # evs) s = (case nt_step link_to alive step adv now ev s of
       Some (Inr s) \<Rightarrow> nt_run link_to adv evs s
     | r \<Rightarrow> r)"

section \<open>Endpoints belong to the open objects\<close>

fun object_port :: "net_object \<Rightarrow> port option" where
  "object_port (NetTransportSocket sock h) = map_option cs_self_port sock"
| "object_port (NetTransportServer sock h) = map_option ss_port sock"

definition nt_inv :: "'u node_transport \<Rightarrow> bool" where
  "nt_inv s \<longleftrightarrow> om_ok (endpoints (nt_transport s)) \<and>
     (\<forall>p a. (\<exists>e. om_find (endpoints (nt_transport s)) p = Some e \<and> e_handler e = a) \<longleftrightarrow>
        (\<exists>x. nt_objects s a = Some x \<and> object_port x = Some p))"

lemma nt_inv_open:
  assumes "nt_inv s" and "nt_objects s a = None" and "om_find (endpoints (nt_transport s)) p = None"
    and "endpoints t = om_emplace p \<lparr>e_handler = a, e_ts = step\<rparr> (endpoints (nt_transport s))" and "object_port x = Some p"
  shows "nt_inv (set_object a x t s)"
proof -
  have ok: "om_ok (endpoints (nt_transport s))" using assms(1) by (simp add: nt_inv_def)
  then have "om_find (endpoints t) = (om_find (endpoints (nt_transport s)))(p \<mapsto> \<lparr>e_handler = a, e_ts = step\<rparr>)"
    unfolding assms(4) using om_find_emplace [OF ok] assms(3) by (auto simp: fun_eq_iff)
  moreover have "om_ok (endpoints t)" unfolding assms(4) by (rule om_ok_emplace [OF ok])
  moreover have "object_port y \<noteq> Some p" if "nt_objects s b = Some y" for b y
    using assms(1,3) that unfolding nt_inv_def by (metis option.distinct(1))
  ultimately show ?thesis using assms(1,2,3,5) unfolding nt_inv_def by auto
qed

text \<open>Closing an object or destroying it, \<open>x'\<close> is what is left of it.\<close>

lemma nt_inv_close:
  assumes "nt_inv s" and "nt_objects s a = Some x" and "case x' of None \<Rightarrow> True | Some y \<Rightarrow> object_port y = None"
    and "t = (case object_port x of None \<Rightarrow> nt_transport s | Some p \<Rightarrow> RemoveEndpoint p (nt_transport s))"
  shows "nt_inv (s\<lparr>nt_transport := t, nt_objects := (nt_objects s)(a := x')\<rparr>)"
proof -
  have ok: "om_ok (endpoints t)" using assms(1,4) by (auto simp: nt_inv_def RemoveEndpoint_def om_ok_erase split: option.split)
  have f: "om_find (endpoints t) = (case object_port x of None \<Rightarrow> om_find (endpoints (nt_transport s))
      | Some p \<Rightarrow> (om_find (endpoints (nt_transport s)))(p := None))"
    using assms(4) by (auto simp: RemoveEndpoint_def om_find_erase split: option.split)
  have iff: "(\<exists>e. om_find (endpoints (nt_transport s)) p = Some e \<and> e_handler e = b) \<longleftrightarrow>
      (\<exists>x. nt_objects s b = Some x \<and> object_port x = Some p)" for p b
    using assms(1) by (simp add: nt_inv_def)
  have "(\<exists>e. om_find (endpoints t) p = Some e \<and> e_handler e = b) \<longleftrightarrow>
      (\<exists>y. ((nt_objects s)(a := x')) b = Some y \<and> object_port y = Some p)" for p b
  proof (cases "b = a")
    case True
    have "(\<exists>e. om_find (endpoints t) p = Some e \<and> e_handler e = a) \<longleftrightarrow> False"
      using iff [of p a] assms(2) unfolding f by (auto split: option.splits if_splits)
    then show ?thesis using assms(3) True by (auto split: option.splits)
  next
    case False
    have "om_find (endpoints t) p = om_find (endpoints (nt_transport s)) p"
      if "om_find (endpoints (nt_transport s)) p = Some e" "e_handler e = b" for e
      using iff [of p a] that assms(2) False unfolding f by (auto split: option.splits)
    moreover have "om_find (endpoints t) p = Some e \<Longrightarrow> om_find (endpoints (nt_transport s)) p = Some e" for e
      unfolding f by (auto split: option.splits if_splits)
    ultimately show ?thesis using False iff [of p b] by (metis fun_upd_other)
  qed
  then show ?thesis using ok by (simp add: nt_inv_def)
qed

lemma notify_keeps [simp]: "nt_transport (notify alive h n s) = nt_transport s" "nt_objects (notify alive h n s) = nt_objects s"
  by (simp_all add: notify_def split: option.split)

lemma nt_inv_cong: "nt_transport s' = nt_transport s \<Longrightarrow> nt_objects s' = nt_objects s \<Longrightarrow> nt_inv s \<Longrightarrow> nt_inv s'"
  by (simp add: nt_inv_def)

lemma socket_closed:
  "ClientSocket_Close sock t = (None, case map_option cs_self_port sock of None \<Rightarrow> t | Some p \<Rightarrow> RemoveEndpoint p t)"
  "ServerSocket_Close sock' t = (None, case map_option ss_port sock' of None \<Rightarrow> t | Some p \<Rightarrow> RemoveEndpoint p t)"
  by (simp_all add: ClientSocket_Close_def ServerSocket_Close_def split: option.split)

lemma socket_destroyed:
  "NetTransportSocket_destroy sock t = (case map_option cs_self_port sock of None \<Rightarrow> t | Some p \<Rightarrow> RemoveEndpoint p t)"
  by (simp add: NetTransportSocket_destroy_def socket_closed ClientSocket_IsValid_def split: option.split)

lemma nt_inv_ConnectTo:
  assumes "nt_inv s" and "nt_objects s this = None"
    and "NetTransport_ConnectTo link_to step adv this address h s = Some (Inr (out, s'))"
  shows "nt_inv s'"
proof -
  obtain host p sock pkt t where c: "ConnectTo (link_to host) p this step adv (nt_transport s) = Some (sock, pkt, t)"
    and s': "s' = set_object this (NetTransportSocket (Some sock) h) t s"
    using assms(3) by (auto simp: NetTransport_ConnectTo_def split: sum.splits option.splits)
  show ?thesis unfolding s'
    using nt_inv_open [OF assms(1,2) ConnectTo_Some(1,2) [OF c]] by simp
qed

lemma nt_inv_Serve:
  assumes "nt_inv s" and "nt_objects s this = None" and "NetTransport_Serve step this port_str h s = Inr s'"
  shows "nt_inv s'"
proof -
  obtain p sock t where v: "Transport.Serve p this step (nt_transport s) = Inr (sock, t)"
    and s': "s' = set_object this (NetTransportServer (Some sock) h) t s"
    using assms(3) by (auto simp: NetTransport_Serve_def res_bind_Inr)
  have "om_find (endpoints (nt_transport s)) p = None" "ss_port sock = p"
    "endpoints t = om_emplace p \<lparr>e_handler = this, e_ts = step\<rparr> (endpoints (nt_transport s))"
    using v by (auto simp: Serve_def verify_def split: if_splits)
  then show ?thesis unfolding s' using nt_inv_open [OF assms(1,2)] by simp
qed

lemma nt_inv_task:
  assumes "nt_inv s" and "run_task alive t s = Inr s'"
  shows "nt_inv s'"
proof (cases t)
  case (HandleMessage this msg reply)
  then have "nt_transport s' = nt_transport s" "nt_objects s' = nt_objects s"
    using assms(2) by (auto simp: call_HandleMessage_def split: option.splits net_object.splits)
  then show ?thesis by (rule nt_inv_cong [OF _ _ assms(1)])
next
  case (HandleDisconnect this host)
  show ?thesis
  proof (cases "\<exists>sock h. nt_objects s this = Some (NetTransportSocket sock h)")
    case True
    then obtain sock h where x: "nt_objects s this = Some (NetTransportSocket sock h)" by blast
    obtain t' where "nt_transport s' = t'" "nt_objects s' = (nt_objects s)(this \<mapsto> NetTransportSocket None h)"
      "t' = (case map_option cs_self_port sock of None \<Rightarrow> nt_transport s | Some p \<Rightarrow> RemoveEndpoint p (nt_transport s))"
      using assms(2) HandleDisconnect x
      by (auto simp: call_HandleDisconnect_def NetTransportSocket_HandleDisconnect_def socket_closed Let_def)
    then show ?thesis using nt_inv_close [OF assms(1) x, of "Some (NetTransportSocket None h)" t']
      by (intro nt_inv_cong [of s' "s\<lparr>nt_transport := t', nt_objects := (nt_objects s)(this \<mapsto> NetTransportSocket None h)\<rparr>"])
        simp_all
  next
    case False
    then have "nt_transport s' = nt_transport s" "nt_objects s' = nt_objects s"
      using assms(2) HandleDisconnect by (auto simp: call_HandleDisconnect_def split: option.splits net_object.splits)
    then show ?thesis by (rule nt_inv_cong [OF _ _ assms(1)])
  qed
qed (use assms in simp_all)

lemma nt_inv_step [inv_rules]:
  assumes "nt_inv s" and "nt_step link_to alive step adv now ev s = Some (Inr s')"
  shows "nt_inv s'"
proof (cases ev)
  case (NConnect this address h)
  then show ?thesis using assms nt_inv_ConnectTo by (auto simp: res_bind_Inr split: if_splits)
next
  case (NServe this port_str h)
  then show ?thesis using assms nt_inv_Serve by (auto split: if_splits)
next
  case (NSend this msg)
  then show ?thesis using assms by (auto simp: res_bind_Inr split: option.splits net_object.splits)
next
  case (NClose this)
  then obtain sock h where x: "nt_objects s this = Some (NetTransportSocket sock h)"
    using assms(2) by (auto split: option.splits net_object.splits)
  from nt_inv_close [OF assms(1) x, of "Some (NetTransportSocket None h)"] show ?thesis
    using assms(2) NClose x by (simp add: NetTransportSocket_Close_def socket_closed)
next
  case (NShutdown this)
  then obtain sock h where x: "nt_objects s this = Some (NetTransportServer sock h)"
    using assms(2) by (auto split: option.splits net_object.splits)
  from nt_inv_close [OF assms(1) x, of "Some (NetTransportServer None h)"] show ?thesis
    using assms(2) NShutdown x by (simp add: NetTransportServer_Shutdown_def socket_closed)
next
  case (NDestroy this)
  then obtain x where x: "nt_objects s this = Some x" using assms(2) by auto
  then show ?thesis using NDestroy assms nt_inv_close [OF assms(1) x, of None]
    by (cases x) (auto simp: socket_closed socket_destroyed)
next
  case (NPacket pkt out host)
  then show ?thesis using assms by (auto intro: nt_inv_cong)
next
  case NTask
  then obtain t q where "run_task alive t (s\<lparr>nt_tasks := q\<rparr>) = Inr s'" using assms(2) by (auto split: option.splits)
  then show ?thesis by (rule nt_inv_task [OF nt_inv_cong [OF _ _ assms(1)], rotated 2]) simp_all
qed

lemma nt_inv_run: "nt_inv s \<Longrightarrow> nt_run link_to adv evs s = Some (Inr s') \<Longrightarrow> nt_inv s'"
proof (induction evs arbitrary: s)
  case (Cons ev evs)
  then show ?case by (cases ev) (auto split: option.splits sum.splits intro: nt_inv_step)
qed simp

lemma nt_inv_init: "nt_inv (NetTransport host)"
  by (simp add: nt_inv_def NetTransport_def Transport_init_def)

section \<open>Properties\<close>

fun task_handler :: "(nat, 'u) process_task \<Rightarrow> nat option" where
  "task_handler (HandleMessage this msg back) = Some this"
| "task_handler (HandleDisconnect this host) = Some this"
| "task_handler t = None"

lemma HandlePacket_schedules:
  "snd (HandlePacket pkt out host now t q) = q \<or>
   (\<exists>e task. om_find (endpoints t) (dest_port pkt) = Some e \<and> task_handler task = Some (e_handler e) \<and>
      snd (HandlePacket pkt out host now t q) = Scheduler_ScheduleAsap now task q)"
  by (cases "om_find (endpoints t) (dest_port pkt)"; cases "p_type pkt")
    (auto simp: HandlePacket_def intro: exI [of _ "HandleDisconnect _ _"] exI [of _ "HandleMessage _ _ _"])

lemma run_task_error:
  "run_task alive t s = Inl e \<longleftrightarrow> (\<exists>a. task_handler t = Some a \<and> nt_objects s a = None \<and> e = Undefined ''dangling handler'')"
  by (cases t) (auto simp: call_HandleMessage_def call_HandleDisconnect_def split: option.splits net_object.splits prod.splits)

text \<open>C35. Sockets and servers of a program own their endpoints. However a process makes, uses, closes and destroys them and
  whatever packets come in, the endpoints of its transport are exactly those of its objects that are open: a
  closed or destroyed object has none, an open one has one, which nobody else has and whose handler it is, and
  every task that a packet leaves behind is for an object that exists.\<close>

theorem endpoints_owned:
  assumes "nt_run link_to adv evs (NetTransport host) = Some (Inr s)"
  shows "(\<forall>p e. om_find (endpoints (nt_transport s)) p = Some e \<longrightarrow>
       (\<exists>x. nt_objects s (e_handler e) = Some x \<and> object_port x = Some p)) \<and>
    (\<forall>a x p. nt_objects s a = Some x \<and> object_port x = Some p \<longrightarrow>
       (\<exists>e. om_find (endpoints (nt_transport s)) p = Some e \<and> e_handler e = a)) \<and>
    (\<forall>a b x y p. nt_objects s a = Some x \<and> object_port x = Some p \<and> nt_objects s b = Some y \<and> object_port y = Some p \<longrightarrow> a = b) \<and>
    (\<forall>pkt out peer now. snd (HandlePacket pkt out peer now (nt_transport s) (nt_tasks s)) = nt_tasks s \<or>
       (\<exists>a task. snd (HandlePacket pkt out peer now (nt_transport s) (nt_tasks s)) = Scheduler_ScheduleAsap now task (nt_tasks s) \<and>
          task_handler task = Some a \<and> nt_objects s a \<noteq> None))"
proof -
  have iff: "(\<exists>e. om_find (endpoints (nt_transport s)) p = Some e \<and> e_handler e = a) \<longleftrightarrow>
      (\<exists>x. nt_objects s a = Some x \<and> object_port x = Some p)" for p a
    using nt_inv_run [OF nt_inv_init assms] by (simp add: nt_inv_def)
  have "snd (HandlePacket pkt out peer now (nt_transport s) (nt_tasks s)) = nt_tasks s \<or>
       (\<exists>a task. snd (HandlePacket pkt out peer now (nt_transport s) (nt_tasks s)) = Scheduler_ScheduleAsap now task (nt_tasks s) \<and>
          task_handler task = Some a \<and> nt_objects s a \<noteq> None)" for pkt out peer now
    using HandlePacket_schedules [of pkt out peer now "nt_transport s" "nt_tasks s"] iff
    by (metis option.distinct(1))
  moreover have "a = b" if "nt_objects s a = Some x" "object_port x = Some p" "nt_objects s b = Some y" "object_port y = Some p"
    for a b x y p using that iff [of p] by (metis option.inject)
  ultimately show ?thesis using iff by blast
qed

definition no_links :: "host_name \<Rightarrow> nat" where
  "no_links host = 1"

definition reset_of :: "port \<Rightarrow> nat \<Rightarrow> packet" where
  "reset_of p stamp = \<lparr>p_type = Reset, source_port = 42, dest_port = p, ts = stamp, message = ''<reset>''\<rparr>"

lemma demo_address: "ParseAddress ''Server-1:42'' = Inr (''Server-1'', 42)"
  by (simp add: ParseAddress_def ParsePort_def atoi_def is_space_def is_digit_def digits_value_def Let_def)

lemmas nt_defs = NetTransport_def NetTransport_ConnectTo_def demo_address ConnectTo_def Transport_init_def FindFreePort.simps
  om_emplace_def reset_of_def no_links_def HandlePacket_def socket_closed socket_destroyed Let_def

theorem endpoints_owned_witness:
  "\<exists>s x. nt_run no_links False [(\<lambda>_. True, 5, 10, NConnect 100 ''Server-1:42'' 7), (\<lambda>_. True, 6, 20, NSend 100 ''hi'')]
     (NetTransport ''Client-1'' :: nat node_transport) = Some (Inr s) \<and> nt_objects s 100 = Some x \<and> object_port x = Some 1 \<and>
     (\<exists>e. om_find (endpoints (nt_transport s)) 1 = Some e \<and> e_handler e = 100)"
proof -
  obtain s x where s: "nt_run no_links False [(\<lambda>_. True, 5, 10, NConnect 100 ''Server-1:42'' 7), (\<lambda>_. True, 6, 20, NSend 100 ''hi'')]
      (NetTransport ''Client-1'' :: nat node_transport) = Some (Inr s)" "nt_objects s 100 = Some x" "object_port x = Some 1"
    by (simp add: nt_defs NetTransportSocket_Send_def ClientSocket_Send_def)
  then show ?thesis using endpoints_owned [OF s(1)] by blast
qed


end
