(* ===== verification/Node_Disk.thy ===== *)
theory Node_Disk
  imports Server
begin

text \<open>
  \<open>server/runtime/{filesystem.hpp,detail/disk.hpp}\<close> and \<open>fault/{thread,self}.cpp\<close>: the disk as the programs of a node see
  it. A call that moves bytes first blocks its fiber on a timer, for the latency drawn from the time model, and
  then reaches the disk. The rest of the fiber is the task that the timer runs. Whether \<open>await\<close> resumes the fiber
  at once or hands it to the executor of the node is an argument, \<open>resubmit\<close>.
\<close>

section \<open>Blocking\<close>

datatype 'k fiber_task =
    TimerFires 'k
  | FiberResumes 'k

definition rnd_lift :: "'a res \<Rightarrow> 'a rnd" where
  "rnd_lift x r = map_sum id (\<lambda>a. (a, r)) x"

definition BlockFor ::
    "jiffies \<Rightarrow> time_point \<Rightarrow> 'k \<Rightarrow> ('h, 'k fiber_task) server \<Rightarrow> ('h, 'k fiber_task) server res" where
  "BlockFor latency now k s =
     res_bind (AfterJiffies (s_mono s) now latency (RunTask (TimerFires k)) (s_scheduler s))
       (\<lambda>q. Inr (s\<lparr>s_scheduler := q\<rparr>))"

definition Disk_Read ::
    "nat \<Rightarrow> time_point \<Rightarrow> 'k \<Rightarrow> ('h, 'k fiber_task) server \<Rightarrow> ('h, 'k fiber_task) server rnd" where
  "Disk_Read bytes now k s = rnd_bind (GetTimeModel s) (\<lambda>tm. rnd_bind (m_DiskRead tm bytes) (\<lambda>latency.
     rnd_lift (BlockFor latency now k s)))"

definition Disk_Write ::
    "nat \<Rightarrow> time_point \<Rightarrow> 'k \<Rightarrow> ('h, 'k fiber_task) server \<Rightarrow> ('h, 'k fiber_task) server rnd" where
  "Disk_Write bytes now k s = rnd_bind (GetTimeModel s) (\<lambda>tm. rnd_bind (m_DiskWrite tm bytes) (\<lambda>latency.
     rnd_lift (BlockFor latency now k s)))"

text \<open>Outside of a fiber the caller goes on at once: \<open>Some k\<close>.\<close>

definition ThreadPause ::
    "bool \<Rightarrow> time_point \<Rightarrow> 'k \<Rightarrow> ('h, 'k fiber_task) server \<Rightarrow> ('k option \<times> ('h, 'k fiber_task) server) rnd" where
  "ThreadPause AmIFiber now k s =
     (if \<not> AmIFiber then rnd_return (Some k, s)
      else rnd_bind (GetTimeModel s) (\<lambda>tm. rnd_bind (m_ThreadPause tm) (\<lambda>pause.
        rnd_bind (rnd_lift (BlockFor pause now k s)) (\<lambda>s. rnd_return (None, s)))))"

definition PauseThisThread ::
    "bool \<Rightarrow> time_point \<Rightarrow> 'k \<Rightarrow> ('h, 'k fiber_task) server \<Rightarrow> ('k option \<times> ('h, 'k fiber_task) server) rnd" where
  "PauseThisThread AmIFiber now k s =
     (if \<not> AmIFiber then rnd_return (Some k, s)
      else rnd_bind (GetTimeModel s) (\<lambda>tm. rnd_bind (m_ThreadPause tm) (\<lambda>pause.
        rnd_bind (rnd_lift (BlockFor pause now k s)) (\<lambda>s. rnd_return (None, s)))))"

section \<open>Calls\<close>

definition disk_op :: "(string \<Rightarrow> nat \<Rightarrow> string) \<Rightarrow> fs_op \<Rightarrow> ('h, 'u) server \<Rightarrow> ('h, 'u) server res" where
  "disk_op rd c s = res_bind (fs_step rd c (s_fs s)) (\<lambda>fs. Inr (s\<lparr>s_fs := fs\<rparr>))"

text \<open>The first half of a call, up to its blocking point; a call that does not block is complete. There is
  no process to make a call on a server that is not alive.\<close>

definition FS_call ::
    "(string \<Rightarrow> nat \<Rightarrow> string) \<Rightarrow> time_point \<Rightarrow> fs_op \<Rightarrow> ('h, fs_op fiber_task) server \<Rightarrow> ('h, fs_op fiber_task) server rnd" where
  "FS_call rd now c s =
     (if \<not> IsAlive s then rnd_fail (Undefined ''no process'')
      else case c of
        Append d data \<Rightarrow> Disk_Write (length data) now c s
      | Read d n \<Rightarrow> Disk_Read n now c s
      | Crash \<Rightarrow> rnd_fail (Undefined ''not a call'')
      | _ \<Rightarrow> rnd_lift (disk_op rd c s))"

text \<open>The tasks of the node: the second half of a call.\<close>

fun run_fiber_task ::
    "(string \<Rightarrow> nat \<Rightarrow> string) \<Rightarrow> bool \<Rightarrow> time_point \<Rightarrow> ('h, fs_op fiber_task) process_task \<Rightarrow>
     ('h, fs_op fiber_task) server \<Rightarrow> (fs_op list \<times> ('h, fs_op fiber_task) server) res" where
  "run_fiber_task rd resubmit now (RunTask (TimerFires c)) s =
     (if resubmit
      then Inr ([], s\<lparr>s_scheduler := ThreadPool_Submit now (RunTask (FiberResumes c)) (s_scheduler s)\<rparr>)
      else res_bind (disk_op rd c s) (\<lambda>s. Inr ([c], s)))"
| "run_fiber_task rd resubmit now (RunTask (FiberResumes c)) s = res_bind (disk_op rd c s) (\<lambda>s. Inr ([c], s))"
| "run_fiber_task rd resubmit now t s = Inr ([], s)"

section \<open>Runs of a node\<close>

fun blocks :: "fs_op \<Rightarrow> bool" where
  "blocks (Append d data) \<longleftrightarrow> True"
| "blocks (Read d n) \<longleftrightarrow> True"
| "blocks _ \<longleftrightarrow> False"

fun blocked_call :: "('h, 'k fiber_task) process_task \<Rightarrow> 'k list" where
  "blocked_call (RunTask (TimerFires c)) = [c]"
| "blocked_call (RunTask (FiberResumes c)) = [c]"
| "blocked_call _ = []"

definition blocked :: "('h, 'k fiber_task) server \<Rightarrow> 'k multiset" where
  "blocked s = (\<Sum>t\<leftarrow>PQ_elems (s_scheduler s). mset (blocked_call (task t)))"

fun crashes :: "life_op \<Rightarrow> ('h, 'u) server \<Rightarrow> bool" where
  "crashes LCrash s \<longleftrightarrow> True"
| "crashes LFastReboot s \<longleftrightarrow> IsAlive s"
| "crashes LShutdown s \<longleftrightarrow> s_state s \<noteq> Crashed"
| "crashes _ s \<longleftrightarrow> False"

text \<open>A node together with the journal of its disk: the blocking calls that programs started, what reached the
  disk, and the calls that crashes cut off.\<close>

record 'h disk_node =
  dn_server :: "('h, fs_op fiber_task) server"
  dn_started :: "fs_op list"
  dn_applied :: "fs_op list"
  dn_lost :: "fs_op multiset"

datatype node_event =
    NCall fs_op
  | NStep
  | NLife life_op

fun node_step ::
    "(string \<Rightarrow> nat \<Rightarrow> string) \<Rightarrow> bool \<Rightarrow> time_point \<times> node_event \<Rightarrow> 'h disk_node \<Rightarrow> 'h disk_node rnd" where
  "node_step rd resubmit (now, NCall c) n =
     rnd_bind (FS_call rd now c (dn_server n)) (\<lambda>s.
       rnd_return (if blocks c then n\<lparr>dn_server := s, dn_started := dn_started n @ [c]\<rparr>
         else n\<lparr>dn_server := s, dn_applied := dn_applied n @ [c]\<rparr>))"
| "node_step rd resubmit (now, NStep) n =
     rnd_lift (res_bind (Server_Step (dn_server n)) (\<lambda>(t, s).
       res_bind (run_fiber_task rd resubmit now t s) (\<lambda>(cs, s).
         Inr (n\<lparr>dn_server := s, dn_applied := dn_applied n @ cs\<rparr>))))"
| "node_step rd resubmit (now, NLife l) n =
     rnd_bind (life_step now l (dn_server n)) (\<lambda>s.
       rnd_return (if crashes l (dn_server n)
         then n\<lparr>dn_server := s, dn_applied := dn_applied n @ [Crash], dn_lost := dn_lost n + blocked (dn_server n)\<rparr>
         else n\<lparr>dn_server := s\<rparr>))"

fun node_run ::
    "(string \<Rightarrow> nat \<Rightarrow> string) \<Rightarrow> bool \<Rightarrow> (time_point \<times> node_event) list \<Rightarrow> 'h disk_node \<Rightarrow> 'h disk_node rnd" where
  "node_run rd resubmit [] n = rnd_return n"
| "node_run rd resubmit (e # es) n = rnd_bind (node_step rd resubmit e n) (node_run rd resubmit es)"

definition disk_node :: "('h, fs_op fiber_task) server \<Rightarrow> 'h disk_node" where
  "disk_node s = \<lparr>dn_server = s, dn_started = [], dn_applied = [], dn_lost = {#}\<rparr>"

section \<open>Nothing is lost or repeated\<close>

definition disk_ok :: "(string \<Rightarrow> nat \<Rightarrow> string) \<Rightarrow> file_system \<Rightarrow> 'h disk_node \<Rightarrow> bool" where
  "disk_ok rd fs n \<longleftrightarrow> PQ_inv (s_scheduler (dn_server n)) \<and>
     mset (dn_started n) = mset (filter blocks (dn_applied n)) + blocked (dn_server n) + dn_lost n \<and>
     (\<forall>c \<in># blocked (dn_server n). blocks c) \<and>
     fs_run rd (dn_applied n) fs = Inr (s_fs (dn_server n))"

lemma disk_op_Inr: "disk_op rd c s = Inr s' \<longleftrightarrow> (\<exists>fs. fs_step rd c (s_fs s) = Inr fs \<and> s' = s\<lparr>s_fs := fs\<rparr>)"
  by (auto simp: disk_op_def res_bind_Inr)

lemma rnd_lift_Inr: "rnd_lift x r = Inr (a, r') \<longleftrightarrow> x = Inr a \<and> r' = r"
  by (cases x) (auto simp: rnd_lift_def)

lemma rnd_bind_Inr: "rnd_bind m f r = Inr z \<longleftrightarrow> (\<exists>x r'. m r = Inr (x, r') \<and> f x r' = Inr z)"
  by (auto simp: rnd_bind_def res_bind_Inr)

lemmas rnd_Inr = rnd_lift_Inr rnd_bind_Inr rnd_return_def rnd_fail_def

lemma blocked_Schedule [simp]:
  "blocked (s\<lparr>s_scheduler := Scheduler_Schedule at t q\<rparr>) =
     blocked (s\<lparr>s_scheduler := q\<rparr>) + mset (blocked_call t)"
  by (simp add: blocked_def)

lemma blocked_fs [simp]: "blocked (s\<lparr>s_fs := fs\<rparr>) = blocked s"
  by (simp add: blocked_def)

lemma fs_run_snoc:
  "fs_run rd (cs @ [c]) fs = Inr fs' \<longleftrightarrow> (\<exists>u. fs_run rd cs fs = Inr u \<and> fs_step rd c u = Inr fs')"
  by (auto simp: fs_run_def res_fold_append res_bind_Inr)

lemma BlockFor_Inr:
  "BlockFor latency now k s = Inr s' \<Longrightarrow>
     \<exists>at. s' = s\<lparr>s_scheduler := Scheduler_Schedule at (RunTask (TimerFires k)) (s_scheduler s)\<rparr>"
  by (auto simp: BlockFor_def AfterJiffies_def res_bind_Inr)

lemma FS_call_Inr:
  assumes "FS_call rd now c s r = Inr (s', r')"
  shows "if blocks c then \<exists>at. s' = s\<lparr>s_scheduler := Scheduler_Schedule at (RunTask (TimerFires c)) (s_scheduler s)\<rparr>
    else \<exists>fs. fs_step rd c (s_fs s) = Inr fs \<and> s' = s\<lparr>s_fs := fs\<rparr>"
  using assms
  by (cases c) (auto simp: FS_call_def Disk_Write_def Disk_Read_def rnd_Inr disk_op_Inr
      split: if_splits dest: BlockFor_Inr)


lemma blocked_tasks: "blocked s = (\<Sum>t\<in>#mset (map task (PQ_elems (s_scheduler s))). mset (blocked_call t))"
  by (simp add: blocked_def multiset.map_comp o_def flip: sum_mset_sum_list)

lemma Server_Step_Inr:
  assumes "Server_Step s = Inr (t, s')" and "PQ_inv (s_scheduler s)"
  shows "blocked s = mset (blocked_call t) + blocked s'" and "PQ_inv (s_scheduler s')" and "s_fs s' = s_fs s"
proof -
  obtain q where q: "Scheduler_TakeNext (s_scheduler s) = Some (t, q)" "s' = s\<lparr>s_scheduler := q\<rparr>"
    using assms(1) by (auto simp: Server_Step_def split: option.splits)
  then obtain x where x: "PQ_Extract ScheduledTask_less (s_scheduler s) = Some (x, q)" "task x = t"
    by (auto simp: Scheduler_TakeNext_def)
  show "PQ_inv (s_scheduler s')" "s_fs s' = s_fs s" using q PQ_inv_TakeNext [OF assms(2)] by auto
  have "mset (PQ_elems (s_scheduler s)) = add_mset x (mset (PQ_elems q))"
    using sched_rules(1) [OF assms(2) x(1)] by (rule pick_least_mset)
  then show "blocked s = mset (blocked_call t) + blocked s'"
    using q x by (simp add: blocked_tasks)
qed

lemma run_fiber_task_Inr:
  assumes "run_fiber_task rd resubmit now t s = Inr (cs, s')" and "PQ_inv (s_scheduler s)"
  shows "mset (blocked_call t) + blocked s = mset cs + blocked s'" and "PQ_inv (s_scheduler s')"
    and "fs_run rd cs (s_fs s) = Inr (s_fs s')" and "set cs \<subseteq> set (blocked_call t)"
proof -
  have "mset (blocked_call t) + blocked s = mset cs + blocked s' \<and> PQ_inv (s_scheduler s') \<and>
      fs_run rd cs (s_fs s) = Inr (s_fs s') \<and> set cs \<subseteq> set (blocked_call t)"
    using assms
    by (cases "(rd, resubmit, now, t, s)" rule: run_fiber_task.cases)
      (auto simp: disk_op_Inr res_bind_Inr ThreadPool_Submit_def fs_run_def inv_rules split: if_splits)
  then show "mset (blocked_call t) + blocked s = mset cs + blocked s'" "PQ_inv (s_scheduler s')"
    "fs_run rd cs (s_fs s) = Inr (s_fs s')" "set cs \<subseteq> set (blocked_call t)" by simp_all
qed

lemma life_step_disk:
  assumes "life_step now l s r = Inr (s', r')" and "PQ_inv (s_scheduler s)"
  shows "PQ_inv (s_scheduler s')"
    and "if crashes l s then blocked s' = {#} \<and> s_fs s' = FS_Reset (s_fs s) else blocked s' = blocked s \<and> s_fs s' = s_fs s"
proof -
  have crash: "PQ_inv (s_scheduler u') \<and> blocked u' = {#} \<and> s_fs u' = FS_Reset (s_fs u) \<and> s_state u' = Crashed"
    if "Server_Crash u = Inr u'" "PQ_inv (s_scheduler u)" for u u' :: "('a, 'b fiber_task) server"
    using that by (auto simp: Server_Crash_def verify_def blocked_def Scheduler_Reset_def PQ_inv_Clear split: if_splits)
  have launch: "PQ_inv (s_scheduler u') \<and> blocked u' = blocked u \<and> s_fs u' = s_fs u"
    if "Server_Launch now u r1 = Inr (u', r2)" "PQ_inv (s_scheduler u)" for u u' :: "('a, 'b fiber_task) server" and r1 r2
    using that by (auto simp: Server_Launch_def rnd_Inr StartProcess_def blocked_def inv_rules Let_def split: if_splits)
  have "PQ_inv (s_scheduler s') \<and> (if crashes l s then blocked s' = {#} \<and> s_fs s' = FS_Reset (s_fs s)
      else blocked s' = blocked s \<and> s_fs s' = s_fs s)"
  proof (cases l)
    case LCrash
    then show ?thesis using assms crash [of s s'] by (cases "Server_Crash s") auto
  next
    case LLaunch
    then show ?thesis using assms launch by auto
  next
    case LFastReboot
    then show ?thesis using assms
      by (auto simp: Server_FastReboot_def rnd_Inr split: if_splits sum.splits dest!: crash launch)
  next
    case LPause
    then show ?thesis using assms by (auto simp: Server_Pause_def rnd_return_def blocked_def)
  next
    case LResume
    then show ?thesis using assms Resume_mset [OF assms(2), of now]
      by (auto simp: Server_Resume_def rnd_return_def blocked_tasks inv_rules)
  next
    case LShutdown
    then show ?thesis using assms
      by (cases "Server_Crash s") (auto simp: Server_Shutdown_def split: if_splits dest!: crash)
  qed
  then show "PQ_inv (s_scheduler s')" "if crashes l s then blocked s' = {#} \<and> s_fs s' = FS_Reset (s_fs s)
      else blocked s' = blocked s \<and> s_fs s' = s_fs s" by simp_all
qed


lemma disk_ok_step:
  assumes "node_step rd resubmit e n r = Inr (m, r')" and ok: "disk_ok rd fs n"
  shows "disk_ok rd fs m"
proof -
  obtain now ev where e: "e = (now, ev)" by (cases e)
  let ?s = "dn_server n"
  have inv: "PQ_inv (s_scheduler ?s)" and run: "fs_run rd (dn_applied n) fs = Inr (s_fs ?s)"
    and all: "\<forall>c \<in># blocked ?s. blocks c"
    and eq: "mset (dn_started n) = mset (filter blocks (dn_applied n)) + blocked ?s + dn_lost n"
    using ok by (simp_all add: disk_ok_def)
  show ?thesis
  proof (cases ev)
    case (NCall c)
    obtain s' where s': "FS_call rd now c ?s r = Inr (s', r')"
      and m: "m = (if blocks c then n\<lparr>dn_server := s', dn_started := dn_started n @ [c]\<rparr>
        else n\<lparr>dn_server := s', dn_applied := dn_applied n @ [c]\<rparr>)"
      using assms(1) by (auto simp: e NCall rnd_Inr)
    show ?thesis using FS_call_Inr [OF s'] inv run all eq
      by (auto simp: m disk_ok_def inv_rules fs_run_snoc)
  next
    case NStep
    obtain t s1 cs s2 where s1: "Server_Step ?s = Inr (t, s1)" and s2: "run_fiber_task rd resubmit now t s1 = Inr (cs, s2)"
      and m: "m = n\<lparr>dn_server := s2, dn_applied := dn_applied n @ cs\<rparr>"
      using assms(1) by (auto simp: e NStep rnd_Inr res_bind_Inr)
    note st = Server_Step_Inr [OF s1 inv]
    note tk = run_fiber_task_Inr [OF s2 st(2)]
    have b: "blocked ?s = mset cs + blocked s2" using st(1) tk(1) by simp
    then have "filter blocks cs = cs" using all by (auto intro!: filter_True)
    moreover have "fs_run rd (dn_applied n @ cs) fs = Inr (s_fs s2)"
      using run tk(3) st(3) by (simp add: fs_run_def res_fold_append)
    ultimately show ?thesis using b tk(2) all eq by (auto simp: m disk_ok_def)
  next
    case (NLife l)
    obtain s' where s': "life_step now l ?s r = Inr (s', r')"
      and m: "m = (if crashes l ?s then n\<lparr>dn_server := s', dn_applied := dn_applied n @ [Crash],
          dn_lost := dn_lost n + blocked ?s\<rparr> else n\<lparr>dn_server := s'\<rparr>)"
      using assms(1) by (auto simp: e NLife rnd_Inr)
    show ?thesis using life_step_disk [OF s' inv] run all eq
      by (auto simp: m disk_ok_def fs_run_snoc split: if_splits)
  qed
qed

lemma disk_ok_run: "node_run rd resubmit es n r = Inr (m, r') \<Longrightarrow> disk_ok rd fs n \<Longrightarrow> disk_ok rd fs m"
  by (induction es arbitrary: n r) (auto simp: rnd_Inr dest: disk_ok_step)

section \<open>Blocked calls return\<close>

fun task_weight :: "('h, 'k fiber_task) process_task \<Rightarrow> nat" where
  "task_weight (RunTask (TimerFires c)) = 2"
| "task_weight _ = 1"

definition weight :: "('h, 'k fiber_task) server \<Rightarrow> nat" where
  "weight s = (\<Sum>t\<in>#mset (PQ_elems (s_scheduler s)). task_weight (task t))"

lemma weight_Schedule [simp]:
  "weight (s\<lparr>s_scheduler := Scheduler_Schedule at t q\<rparr>) = task_weight t + weight (s\<lparr>s_scheduler := q\<rparr>)"
  by (simp add: weight_def)

lemma weight_le: "weight s \<le> 2 * length (PQ_elems (s_scheduler s))"
proof -
  have two: "task_weight t \<le> 2" for t :: "('a, 'b fiber_task) process_task"
    by (cases t rule: task_weight.cases) auto
  have "(\<Sum>t\<in>#mset xs. task_weight (task t)) \<le> 2 * length xs" for xs :: "('a, 'b fiber_task) process_task scheduled_task list"
  proof (induction xs)
    case (Cons x xs)
    then show ?case using two [of "task x"] by simp
  qed simp
  then show ?thesis by (simp add: weight_def)
qed

lemma Server_Step_weight:
  assumes "Server_Step s = Inr (t, s')" and "PQ_inv (s_scheduler s)"
  shows "weight s = task_weight t + weight s'"
proof -
  obtain q x where q: "s' = s\<lparr>s_scheduler := q\<rparr>" "PQ_Extract ScheduledTask_less (s_scheduler s) = Some (x, q)" "task x = t"
    using assms(1) by (auto simp: Server_Step_def Scheduler_TakeNext_def split: option.splits)
  have "mset (PQ_elems (s_scheduler s)) = add_mset x (mset (PQ_elems q))"
    using sched_rules(1) [OF assms(2) q(2)] by (rule pick_least_mset)
  then show ?thesis using q by (simp add: weight_def)
qed

lemma run_fiber_task_weight:
  assumes "run_fiber_task rd resubmit now t s = Inr (cs, s')"
  shows "weight s' < task_weight t + weight s"
  using assms
  by (cases "(rd, resubmit, now, t, s)" rule: run_fiber_task.cases)
    (auto simp: disk_op_Inr res_bind_Inr ThreadPool_Submit_def weight_def split: if_splits)

lemma run_fiber_task_Inl:
  assumes "run_fiber_task rd resubmit now t s = Inl e"
  shows "\<exists>c fs. c \<in># mset (blocked_call t) \<and> fs_step rd c fs = Inl e"
  using assms
  by (cases "(rd, resubmit, now, t, s)" rule: run_fiber_task.cases)
    (auto simp: disk_op_def res_bind_def split: if_splits sum.splits)

lemma steps_end:
  assumes "PQ_inv (s_scheduler (dn_server n))" and "weight (dn_server n) = k"
  shows "\<exists>j \<le> k. case node_run rd resubmit (replicate j (now, NStep)) n r of
    Inl e \<Rightarrow> \<exists>c fs. c \<in># blocked (dn_server n) \<and> fs_step rd c fs = Inl e
  | Inr (m, r') \<Rightarrow> blocked (dn_server m) = {#} \<and> dn_lost m = dn_lost n \<and> r' = r"
  using assms
proof (induction k arbitrary: n rule: less_induct)
  case (less k)
  let ?s = "dn_server n"
  show ?case
  proof (cases "Server_Step ?s")
    case (Inl e)
    then have "Scheduler_TakeNext (s_scheduler ?s) = None" by (auto simp: Server_Step_def split: option.splits)
    then have "PQ_elems (s_scheduler ?s) = []"
      using sched_rules(2) [OF less.prems(1)] by (auto simp: Scheduler_TakeNext_def)
    then show ?thesis by (intro exI [of _ 0]) (simp add: blocked_def rnd_return_def)
  next
    case (Inr p)
    then obtain t s1 where s1: "Server_Step ?s = Inr (t, s1)" by (cases p) auto
    note st = Server_Step_Inr [OF s1 less.prems(1)]
    have w: "k = task_weight t + weight s1" using Server_Step_weight [OF s1 less.prems(1)] less.prems(2) by simp
    show ?thesis
    proof (cases "run_fiber_task rd resubmit now t s1")
      case (Inl e)
      have "1 \<le> k" unfolding w by (cases t rule: task_weight.cases) auto
      moreover have "node_run rd resubmit (replicate 1 (now, NStep)) n r = Inl e"
        using s1 Inl by (simp add: rnd_bind_def rnd_lift_def)
      ultimately show ?thesis using run_fiber_task_Inl [OF Inl] st(1) by (intro exI [of _ 1]) auto
    next
      case (Inr p)
      then obtain cs s2 where s2: "run_fiber_task rd resubmit now t s1 = Inr (cs, s2)" by (cases p) auto
      let ?n = "n\<lparr>dn_server := s2, dn_applied := dn_applied n @ cs\<rparr>"
      note tk = run_fiber_task_Inr [OF s2 st(2)]
      have lt: "weight s2 < k" using run_fiber_task_weight [OF s2] w by simp
      have sub: "blocked s2 \<subseteq># blocked ?s" using st(1) tk(1) by simp
      obtain j where j: "j \<le> weight s2" "case node_run rd resubmit (replicate j (now, NStep)) ?n r of
          Inl e \<Rightarrow> \<exists>c fs. c \<in># blocked (dn_server ?n) \<and> fs_step rd c fs = Inl e
        | Inr (m, r') \<Rightarrow> blocked (dn_server m) = {#} \<and> dn_lost m = dn_lost ?n \<and> r' = r"
        using less.IH [OF lt, of ?n] tk(2) by auto
      have "node_run rd resubmit (replicate (Suc j) (now, NStep)) n r = node_run rd resubmit (replicate j (now, NStep)) ?n r"
        using s1 s2 by (simp add: rnd_bind_def rnd_lift_def)
      then show ?thesis using j lt mset_subset_eqD [OF sub]
        by (intro exI [of _ "Suc j"]) (auto split: sum.splits)
    qed
  qed
qed

section \<open>Properties\<close>

text \<open>C38. The disk under a program. Whatever the fibers of a node do, however they interleave, and whenever the
  server is paused, resumed, crashed or rebooted, every call that blocks on the disk reaches it exactly once, unless
  a crash cuts it off while it is blocked; then it never reaches it. What is on the disk is the result of
  the calls that finished, one after the other. Unless a call breaks the rules of the file system, all blocked calls
  return after as many steps of the server as it has tasks, twice that many at most. A crash changes no file.\<close>

theorem disk_calls_once:
  assumes "node_run rd resubmit evs (disk_node s) r = Inr (n, r')"
    and "PQ_inv (s_scheduler s)" and "blocked s = {#}"
  shows "mset (dn_started n) = mset (filter blocks (dn_applied n)) + blocked (dn_server n) + dn_lost n \<and>
    fs_run rd (dn_applied n) (s_fs s) = Inr (s_fs (dn_server n)) \<and>
    (\<exists>j \<le> 2 * Scheduler_QueueSize (s_scheduler (dn_server n)).
       case node_run rd resubmit (replicate j (now, NStep)) n r of
         Inl e \<Rightarrow> \<exists>c fs. c \<in># blocked (dn_server n) \<and> fs_step rd c fs = Inl e
       | Inr (m, _) \<Rightarrow> mset (dn_started m) = mset (filter blocks (dn_applied m)) + dn_lost n) \<and>
    (\<forall>t m r1 r2. node_step rd resubmit (t, NLife LCrash) n r1 = Inr (m, r2) \<longrightarrow>
       dn_lost m = dn_lost n + blocked (dn_server n) \<and> blocked (dn_server m) = {#} \<and>
       content (s_fs (dn_server m)) = content (s_fs (dn_server n)))"
proof -
  have start: "disk_ok rd (s_fs s) (disk_node s)"
    using assms(2,3) by (simp add: disk_ok_def disk_node_def fs_run_def)
  have ok: "disk_ok rd (s_fs s) n" by (rule disk_ok_run [OF assms(1) start])
  then have inv: "PQ_inv (s_scheduler (dn_server n))" by (simp add: disk_ok_def)
  obtain j where j: "j \<le> weight (dn_server n)" "case node_run rd resubmit (replicate j (now, NStep)) n r of
      Inl e \<Rightarrow> \<exists>c fs. c \<in># blocked (dn_server n) \<and> fs_step rd c fs = Inl e
    | Inr (m, r') \<Rightarrow> blocked (dn_server m) = {#} \<and> dn_lost m = dn_lost n \<and> r' = r"
    using steps_end [OF inv refl] by blast
  have "case node_run rd resubmit (replicate j (now, NStep)) n r of
      Inl e \<Rightarrow> \<exists>c fs. c \<in># blocked (dn_server n) \<and> fs_step rd c fs = Inl e
    | Inr (m, _) \<Rightarrow> mset (dn_started m) = mset (filter blocks (dn_applied m)) + dn_lost n"
  proof (cases "node_run rd resubmit (replicate j (now, NStep)) n r")
    case (Inr p)
    then obtain m r1 where m: "node_run rd resubmit (replicate j (now, NStep)) n r = Inr (m, r1)" by (cases p) auto
    show ?thesis using j(2) m disk_ok_run [OF m ok] by (simp add: disk_ok_def)
  qed (use j(2) in auto)
  moreover have "j \<le> 2 * Scheduler_QueueSize (s_scheduler (dn_server n))"
    using j(1) weight_le [of "dn_server n"] by (simp add: Scheduler_QueueSize_def PQ_Size_elems)
  ultimately have returns: "\<exists>j \<le> 2 * Scheduler_QueueSize (s_scheduler (dn_server n)).
    case node_run rd resubmit (replicate j (now, NStep)) n r of
      Inl e \<Rightarrow> \<exists>c fs. c \<in># blocked (dn_server n) \<and> fs_step rd c fs = Inl e
    | Inr (m, _) \<Rightarrow> mset (dn_started m) = mset (filter blocks (dn_applied m)) + dn_lost n" by blast
  have crash: "dn_lost m = dn_lost n + blocked (dn_server n) \<and> blocked (dn_server m) = {#} \<and>
      content (s_fs (dn_server m)) = content (s_fs (dn_server n))"
    if step: "node_step rd resubmit (t, NLife LCrash) n r1 = Inr (m, r2)" for t m r1 r2
  proof -
    obtain s' where s': "life_step t LCrash (dn_server n) r1 = Inr (s', r2)"
      and m: "m = n\<lparr>dn_server := s', dn_applied := dn_applied n @ [Crash], dn_lost := dn_lost n + blocked (dn_server n)\<rparr>"
      using step by (auto simp: rnd_Inr simp del: life_step.simps)
    show ?thesis using life_step_disk(2) [OF s' inv] by (simp add: m FS_Reset_def content_def)
  qed
  show ?thesis using ok returns crash unfolding disk_ok_def by blast
qed

definition disk_machine :: "(nat, fs_op fiber_task) server" where
  "disk_machine = (Server \<lparr>c_id = 1, c_hostname = ''Server-1'', c_pool = ''nodes''\<rparr> small_arena)
     \<lparr>s_time_model := Some AdversaryTimeModel\<rparr>"

lemma BlockFor_tick:
  assumes "drift (s_mono s) = 0"
  shows "BlockFor 1 now k s =
    Inr (s\<lparr>s_scheduler := Scheduler_Schedule (now + 1) (RunTask (TimerFires k)) (s_scheduler s)\<rparr>)"
  using assms
  by (simp add: BlockFor_def AfterJiffies_def AfterRealTime_def ToRealTimeDelay_def MonotonicClock_SleepOrTimeout_def
      Drift_SleepOrTimeout_def rate_def Let_def)

theorem disk_calls_once_witness:
  "\<exists>n. node_run take_reader True [(5, NLife LLaunch), (5, NCall (Open ''/a'' AppendMode)), (5, NCall (Append 1 ''x'')),
       (6, NLife LCrash)] (disk_node disk_machine) (RandomSource (\<lambda>seed n. 0) 7) =
     Inr (n, RandomSource (\<lambda>seed n. 0) 7) \<and> dn_started n = [Append 1 ''x''] \<and>
     dn_applied n = [Open ''/a'' AppendMode, Crash] \<and> dn_lost n = {#Append 1 ''x''#}"
proof -
  let ?r = "RandomSource (\<lambda>seed n. 0) 7" and ?evs = "[(5, NLife LLaunch), (5, NCall (Open ''/a'' AppendMode)),
    (5, NCall (Append 1 ''x'')), (6, NLife LCrash)]"
  obtain n where n: "node_run take_reader True ?evs (disk_node disk_machine) ?r = Inr (n, ?r)"
    "dn_started n = [Append 1 ''x'']" "dn_applied n = [Open ''/a'' AppendMode, Crash]" "blocked (dn_server n) = {#}"
    by (auto simp: disk_node_def disk_machine_def Server_def server_defs AdversaryTimeModel_def FS_call_def
        Disk_Write_def BlockFor_tick MonotonicClock_Reset_def MonotonicClock_def rnd_lift_def disk_op_def blocked_def
        verify_def Scheduler_Reset_def Let_def)
  have "PQ_inv (s_scheduler disk_machine)" "blocked disk_machine = {#}"
    by (simp_all add: disk_machine_def Server_def Scheduler_init_def blocked_def)
  then show ?thesis using disk_calls_once [OF n(1)] n by auto
qed

end
