(* ===== verification/Database_Fibers.thy ===== *)
theory Database_Fibers
  imports Database
begin

text \<open>
  \<open>db/database.cpp\<close> with several fibers: the calls of the database block on the disk in the middle. A write holds
  \<open>write_mutex_\<close> while its record is appended to the log and touches the memory table only afterwards; a read that
  misses the cache first reads the table on the disk and then the memory table. Which fiber the mutex goes to next,
  when the disk answers and when the node crashes are the choices of a sequence of events.
\<close>

section \<open>Fibers at the database\<close>

text \<open>\<open>sd_writer\<close> is the batch of the fiber that holds the mutex and waits for the log, \<open>sd_waiting\<close> are the batches
  of the fibers that wait for the mutex, \<open>sd_misses\<close> the keys of the reads that wait for the disk. The other
  fields are a journal: the batches whose write was called, the batches that reached the log, those that a crash
  cut off; the answers of reads with the number of records in the log when the call began and when it ended;
  the snapshots.\<close>

record ('f) shared_db =
  sd_db :: database
  sd_disk :: 'f
  sd_writer :: "mutation list option"
  sd_waiting :: "mutation list list"
  sd_misses :: "(key \<times> nat) list"
  sd_called :: "mutation list list"
  sd_log :: "mutation list list"
  sd_lost :: "mutation list multiset"
  sd_answers :: "(key \<times> nat \<times> nat \<times> db_value option) list"
  sd_snapshots :: "snapshot list"

definition shared_db :: "database \<times> 'f \<Rightarrow> 'f shared_db" where
  "shared_db s = \<lparr>sd_db = fst s, sd_disk = snd s, sd_writer = None, sd_waiting = [], sd_misses = [], sd_called = [],
     sd_log = [], sd_lost = {#}, sd_answers = [], sd_snapshots = []\<rparr>"

text \<open>\<open>DoWrite\<close> up to the point where its fiber waits: for the mutex, or for the log.\<close>

definition DoWrite_begin :: "mutation list \<Rightarrow> 'f shared_db \<Rightarrow> 'f shared_db" where
  "DoWrite_begin batch s =
     (let s = s\<lparr>sd_called := sd_called s @ [batch]\<rparr> in
      case sd_writer s of
        None \<Rightarrow> s\<lparr>sd_writer := Some batch\<rparr>
      | Some _ \<Rightarrow> s\<lparr>sd_waiting := sd_waiting s @ [batch]\<rparr>)"

text \<open>The guard of the mutex goes to fiber number \<open>i\<close> of those that wait.\<close>

definition pass_mutex :: "nat \<Rightarrow> 'f shared_db \<Rightarrow> 'f shared_db" where
  "pass_mutex i s =
     (if i < length (sd_waiting s)
      then s\<lparr>sd_writer := Some (sd_waiting s ! i), sd_waiting := take i (sd_waiting s) @ drop (Suc i) (sd_waiting s)\<rparr>
      else s\<lparr>sd_writer := None\<rparr>)"

text \<open>The rest of \<open>DoWrite\<close>: the record is in the log, the memory table follows, the guard is released.\<close>

definition DoWrite_end :: "('f, 'r) wal_lib \<Rightarrow> nat \<Rightarrow> 'f shared_db \<Rightarrow> 'f shared_db res" where
  "DoWrite_end L i s =
     (case sd_writer s of
        None \<Rightarrow> Inl (Undefined ''nobody writes'')
      | Some batch \<Rightarrow>
          if sd_waiting s \<noteq> [] \<and> length (sd_waiting s) \<le> i then Inl (Undefined ''nobody waits'')
          else res_bind (DoWrite L batch (sd_db s) (sd_disk s)) (\<lambda>(db, f).
          Inr (pass_mutex i (s\<lparr>sd_db := db, sd_disk := f, sd_log := sd_log s @ [batch]\<rparr>))))"

definition TryGet_begin :: "bool \<Rightarrow> key \<Rightarrow> 'f shared_db \<Rightarrow> 'f shared_db res" where
  "TryGet_begin miss k s =
     EnsureOpened (sd_db s)
       (if miss then Inr (s\<lparr>sd_misses := sd_misses s @ [(k, length (sd_log s))]\<rparr>)
        else Inr (s\<lparr>sd_answers := sd_answers s @
          [(k, length (sd_log s), length (sd_log s), MemTable_TryGet (mem_table (sd_db s)) k)]\<rparr>))"

definition TryGet_end :: "('f, 'r) wal_lib \<Rightarrow> nat \<Rightarrow> 'f shared_db \<Rightarrow> 'f shared_db res" where
  "TryGet_end L i s =
     (if i < length (sd_misses s)
      then let (k, since) = sd_misses s ! i in
        Inr (s\<lparr>sd_disk := AccessSSTable L (sd_db s) (sd_disk s),
          sd_misses := take i (sd_misses s) @ drop (Suc i) (sd_misses s),
          sd_answers := sd_answers s @ [(k, since, length (sd_log s), MemTable_TryGet (mem_table (sd_db s)) k)]\<rparr>)
      else Inl (Undefined ''nobody reads''))"

section \<open>Events\<close>

datatype db_event =
    EWrite "mutation list"
  | EAppended nat
  | EGet key bool
  | ERead nat
  | ESnapshot
  | ECrash bool

text \<open>A crash ends all fibers. The record that was on its way to the log is there afterwards or not. The node comes
  back with a new object.\<close>

fun db_event_step :: "('f, 'r) wal_lib \<Rightarrow> db_path \<Rightarrow> db_event \<Rightarrow> 'f shared_db \<Rightarrow> 'f shared_db res option" where
  "db_event_step L d (EWrite b) s = Some (EnsureOpened (sd_db s) (Inr (DoWrite_begin b s)))"
| "db_event_step L d (EAppended i) s = Some (DoWrite_end L i s)"
| "db_event_step L d (EGet k miss) s = Some (TryGet_begin miss k s)"
| "db_event_step L d (ERead i) s = Some (TryGet_end L i s)"
| "db_event_step L d ESnapshot s = Some (res_bind (Database_MakeSnapshot (sd_db s)) (\<lambda>snap.
     Inr (s\<lparr>sd_snapshots := sd_snapshots s @ [snap]\<rparr>)))"
| "db_event_step L d (ECrash logged) s =
     (let kept = (case sd_writer s of Some b \<Rightarrow> if logged then [b] else [] | None \<Rightarrow> []);
          cut = (case sd_writer s of Some b \<Rightarrow> if logged then [] else [b] | None \<Rightarrow> [])
      in map_option (map_sum id (\<lambda>(db, f). s\<lparr>sd_db := db, sd_disk := f, sd_writer := None, sd_waiting := [], sd_misses := [],
            sd_log := sd_log s @ kept, sd_lost := sd_lost s + mset cut + mset (sd_waiting s)\<rparr>))
          (Database_Open L d Database_init (fold (WALWriter_Append L (LogPath L (sd_db s))) kept (sd_disk s))))"

fun db_events :: "('f, 'r) wal_lib \<Rightarrow> db_path \<Rightarrow> db_event list \<Rightarrow> 'f shared_db \<Rightarrow> 'f shared_db res option" where
  "db_events L d [] s = Some (Inr s)"
| "db_events L d (e # es) s =
     (case db_event_step L d e s of
        Some (Inr s') \<Rightarrow> db_events L d es s'
      | x \<Rightarrow> x)"

text \<open>Events that can happen: the disk and the mutex go only to those who wait for them.\<close>

fun db_possible :: "db_event \<Rightarrow> 'f shared_db \<Rightarrow> bool" where
  "db_possible (EWrite b) s \<longleftrightarrow> good_batch b"
| "db_possible (EAppended i) s \<longleftrightarrow> sd_writer s \<noteq> None \<and> (sd_waiting s = [] \<or> i < length (sd_waiting s))"
| "db_possible (ERead i) s \<longleftrightarrow> i < length (sd_misses s)"
| "db_possible _ s \<longleftrightarrow> True"

section \<open>Invariant\<close>

definition writing :: "'f shared_db \<Rightarrow> mutation list list" where
  "writing s = (case sd_writer s of None \<Rightarrow> [] | Some b \<Rightarrow> [b]) @ sd_waiting s"

text \<open>An answer is the state after the records that were in the log when the call ended, a snapshot is the state after
  as many records as its version says.\<close>

definition answer_ok :: "mutation list list \<Rightarrow> key \<times> nat \<times> nat \<times> db_value option \<Rightarrow> bool" where
  "answer_ok log = (\<lambda>(k, i, j, a). i \<le> j \<and> j \<le> length log \<and> a = state_after (take j log) k)"

definition snapshot_ok :: "mutation list list \<Rightarrow> snapshot \<Rightarrow> bool" where
  "snapshot_ok log snap \<longleftrightarrow> (\<exists>n \<le> length log. snap_version snap = of_nat n \<and> Snapshot_TryGet snap = state_after (take n log))"

definition journal_ok :: "'f shared_db \<Rightarrow> bool" where
  "journal_ok s \<longleftrightarrow> (\<forall>m \<in> set (sd_misses s). snd m \<le> length (sd_log s)) \<and>
     (\<forall>a \<in> set (sd_answers s). answer_ok (sd_log s) a) \<and> (\<forall>snap \<in> set (sd_snapshots s). snapshot_ok (sd_log s) snap)"

definition shared_ok ::
    "('f, 'r) wal_lib \<Rightarrow> ('f \<Rightarrow> db_path \<Rightarrow> 'r list) \<Rightarrow> db_path \<Rightarrow> 'f shared_db \<Rightarrow> bool" where
  "shared_ok L recs d s \<longleftrightarrow> holds L recs d (sd_log s) (sd_db s, sd_disk s) \<and>
     (sd_writer s = None \<longrightarrow> sd_waiting s = []) \<and> (\<forall>b \<in> set (writing s). good_batch b) \<and>
     mset (sd_called s) = mset (sd_log s) + mset (writing s) + sd_lost s \<and> journal_ok s"

lemma answer_ok_grow: "answer_ok log a \<Longrightarrow> answer_ok (log @ bs) a"
  by (auto simp: answer_ok_def)

lemma snapshot_ok_grow: "snapshot_ok log snap \<Longrightarrow> snapshot_ok (log @ bs) snap"
proof -
  assume "snapshot_ok log snap"
  then obtain n where "n \<le> length log" "snap_version snap = of_nat n" "Snapshot_TryGet snap = state_after (take n log)"
    unfolding snapshot_ok_def by blast
  then show ?thesis unfolding snapshot_ok_def by (intro exI [of _ n]) simp
qed

lemma journal_ok_grow:
  assumes "journal_ok s" and "sd_log s' = sd_log s @ bs" and "set (sd_misses s') \<subseteq> set (sd_misses s)"
    and "sd_answers s' = sd_answers s" and "sd_snapshots s' = sd_snapshots s"
  shows "journal_ok s'"
  unfolding journal_ok_def assms(2,4,5)
proof (intro conjI ballI)
  fix m assume "m \<in> set (sd_misses s')"
  then have "snd m \<le> length (sd_log s)" using assms(1,3) by (auto simp: journal_ok_def)
  then show "snd m \<le> length (sd_log s @ bs)" by simp
qed (use assms(1) in \<open>auto simp: journal_ok_def intro: answer_ok_grow snapshot_ok_grow\<close>)

lemma mset_take_drop: "i < length xs \<Longrightarrow> mset xs = add_mset (xs ! i) (mset (take i xs @ drop (Suc i) xs))"
  by (subst id_take_nth_drop [of i xs]) simp_all

lemma writing_pass:
  assumes "sd_waiting s = [] \<or> i < length (sd_waiting s)"
  shows "mset (writing (pass_mutex i s)) = mset (sd_waiting s)"
    and "sd_writer (pass_mutex i s) = None \<longrightarrow> sd_waiting (pass_mutex i s) = []"
  using assms mset_take_drop [of i "sd_waiting s"] by (auto simp: writing_def pass_mutex_def)

lemma pass_mutex_fields [simp]:
  "sd_db (pass_mutex i s) = sd_db s" "sd_disk (pass_mutex i s) = sd_disk s" "sd_called (pass_mutex i s) = sd_called s"
  "sd_log (pass_mutex i s) = sd_log s" "sd_lost (pass_mutex i s) = sd_lost s" "sd_misses (pass_mutex i s) = sd_misses s"
  "sd_answers (pass_mutex i s) = sd_answers s" "sd_snapshots (pass_mutex i s) = sd_snapshots s"
  by (simp_all add: pass_mutex_def)

lemma writing_fields [simp]:
  "writing (s\<lparr>sd_db := db\<rparr>) = writing s" "writing (s\<lparr>sd_disk := f\<rparr>) = writing s" "writing (s\<lparr>sd_log := l\<rparr>) = writing s"
  "writing (s\<lparr>sd_called := bs\<rparr>) = writing s" "writing (s\<lparr>sd_misses := ms\<rparr>) = writing s"
  "writing (s\<lparr>sd_answers := as\<rparr>) = writing s" "writing (s\<lparr>sd_snapshots := ss\<rparr>) = writing s"
  by (simp_all add: writing_def)

lemma holdsD:
  assumes "holds L recs d bs (db, f)"
  shows "EnsureOpened db k = k" and "LogPath L db = path_join L d ''wal''" and "MemTable_TryGet (mem_table db) = state_after bs"
    and "version db = of_nat (length bs)"
  using assms by (auto simp: holds_def EnsureOpened_def LogPath_def)

lemma DoWrite_end_ok:
  assumes laws: "wal_laws L recs" and ok: "shared_ok L recs d s" and w: "sd_writer s = Some b"
    and i: "sd_waiting s = [] \<or> i < length (sd_waiting s)"
  shows "\<exists>s'. DoWrite_end L i s = Inr s' \<and> shared_ok L recs d s' \<and> sd_log s' = sd_log s @ [b] \<and>
    writing s' = writing (pass_mutex i s)"
proof -
  have h: "holds L recs d (sd_log s) (sd_db s, sd_disk s)" and b: "good_batch b"
    using ok w by (auto simp: shared_ok_def writing_def)
  obtain db f where db: "DoWrite L b (sd_db s) (sd_disk s) = Inr (db, f)" "holds L recs d (sd_log s @ [b]) (db, f)"
    using DoWrite_holds [OF laws h b] by auto
  let ?s = "s\<lparr>sd_db := db, sd_disk := f, sd_log := sd_log s @ [b]\<rparr>"
  have i': "sd_waiting ?s = [] \<or> i < length (sd_waiting ?s)" using i by simp
  have e: "DoWrite_end L i s = Inr (pass_mutex i ?s)" using i w db by (auto simp: DoWrite_end_def)
  note p = writing_pass [OF i']
  have "set (writing (pass_mutex i ?s)) = set (sd_waiting s)" using arg_cong [OF p(1), of set_mset] by simp
  then have "shared_ok L recs d (pass_mutex i ?s)"
    using ok w db(2) p by (auto simp: shared_ok_def writing_def intro: journal_ok_grow [of s])
  then show ?thesis using e by (auto simp: writing_def pass_mutex_def)
qed

lemma crash_ok:
  assumes laws: "wal_laws L recs" and ok: "shared_ok L recs d s"
  shows "\<exists>s'. db_event_step L d (ECrash logged) s = Some (Inr s') \<and> shared_ok L recs d s'"
proof -
  let ?p = "path_join L d ''wal''"
  define kept where "kept = (case sd_writer s of Some b \<Rightarrow> if logged then [b] else [] | None \<Rightarrow> [])"
  define cut where "cut = (case sd_writer s of Some b \<Rightarrow> if logged then [] else [b] | None \<Rightarrow> [])"
  have h: "holds L recs d (sd_log s) (sd_db s, sd_disk s)" using ok by (simp add: shared_ok_def)
  have disk: "fs_exists L (sd_disk s) ?p" "recs (sd_disk s) ?p = map (serialize L) (sd_log s)"
      "\<forall>b \<in> set (sd_log s @ kept). good_batch b"
    using h ok by (auto simp: holds_def kept_def shared_ok_def writing_def split: option.splits if_splits)
  let ?f = "fold (WALWriter_Append L (LogPath L (sd_db s))) kept (sd_disk s)"
  have "fs_exists L ?f ?p \<and> recs ?f ?p = map (serialize L) (sd_log s @ kept)"
    using disk by (cases "kept = []")
      (auto simp: kept_def holdsD(2) [OF h] WALWriter_Append_def wal_lawsD(5,6) [OF laws] split: option.splits if_splits)
  then obtain db f where o: "Database_Open L d Database_init ?f = Some (Inr (db, f))" "holds L recs d (sd_log s @ kept) (db, f)"
    using Open_existing [OF laws _ _ disk(3), of ?f d Database_init] by auto
  have "mset kept + mset cut + mset (sd_waiting s) = mset (writing s)"
    by (auto simp: kept_def cut_def writing_def split: option.splits)
  then have "shared_ok L recs d (s\<lparr>sd_db := db, sd_disk := f, sd_writer := None, sd_waiting := [], sd_misses := [],
      sd_log := sd_log s @ kept, sd_lost := sd_lost s + mset cut + mset (sd_waiting s)\<rparr>)"
    using ok o(2) by (auto simp: shared_ok_def writing_def intro: journal_ok_grow [of s])
  then show ?thesis using o(1) by (simp add: Let_def kept_def [symmetric] cut_def [symmetric])
qed

lemma db_event_ok:
  assumes laws: "wal_laws L recs" and ok: "shared_ok L recs d s" and possible: "db_possible e s"
  shows "\<exists>s'. db_event_step L d e s = Some (Inr s') \<and> shared_ok L recs d s'"
proof -
  have h: "holds L recs d (sd_log s) (sd_db s, sd_disk s)" and j: "journal_ok s"
    using ok by (simp_all add: shared_ok_def)
  note db = holdsD [OF h]
  have now: "answer_ok (sd_log s) (k, i, length (sd_log s), MemTable_TryGet (mem_table (sd_db s)) k)"
    if "i \<le> length (sd_log s)" for k i
    using that db(3) by (simp add: answer_ok_def)
  show ?thesis
  proof (cases e)
    case (EWrite b)
    have "journal_ok (DoWrite_begin b s)"
      using j by (rule journal_ok_grow [where bs = "[]"]) (auto simp: DoWrite_begin_def Let_def split: option.splits)
    then show ?thesis using ok possible
      by (auto simp: EWrite db(1) DoWrite_begin_def Let_def shared_ok_def writing_def split: option.splits)
  next
    case (EAppended i)
    then show ?thesis using DoWrite_end_ok [OF laws ok, of _ i] possible by auto
  next
    case (EGet k miss)
    show ?thesis using ok now [of "length (sd_log s)"]
      by (auto simp: EGet TryGet_begin_def db(1) shared_ok_def journal_ok_def)
  next
    case (ERead i)
    obtain k n where m: "sd_misses s ! i = (k, n)" "i < length (sd_misses s)"
      using possible ERead by (cases "sd_misses s ! i") auto
    have n: "n \<le> length (sd_log s)" using j m nth_mem [OF m(2)] by (force simp: journal_ok_def)
    have f: "holds L recs d (sd_log s) (sd_db s, AccessSSTable L (sd_db s) (sd_disk s))"
      using h by (auto simp: holds_def AccessSSTable_def wal_lawsD(9,10) [OF laws])
    show ?thesis using ok now [OF n] f
      by (auto simp: ERead TryGet_end_def m Let_def shared_ok_def journal_ok_def dest: in_set_takeD in_set_dropD)
  next
    case ESnapshot
    have "snapshot_ok (sd_log s) \<lparr>snap_entries = MemTable_GetEntries (mem_table (sd_db s)), snap_version = version (sd_db s)\<rparr>"
      using db(3,4) by (auto simp: snapshot_ok_def Snapshot_TryGet_def MemTable_GetEntries_def MemTable_TryGet_def fun_eq_iff
          intro!: exI [of _ "length (sd_log s)"])
    then show ?thesis using ok
      by (auto simp: ESnapshot Database_MakeSnapshot_def db(1) shared_ok_def journal_ok_def)
  next
    case (ECrash logged)
    then show ?thesis using crash_ok [OF laws ok] by simp
  qed
qed

lemma db_events_ok:
  assumes laws: "wal_laws L recs"
  shows "shared_ok L recs d s \<Longrightarrow> \<forall>b. EWrite b \<in> set es \<longrightarrow> good_batch b \<Longrightarrow> db_events L d es s = Some (Inr s') \<Longrightarrow>
    shared_ok L recs d s'"
proof (induction es arbitrary: s)
  case (Cons e es)
  then obtain u where u: "db_event_step L d e s = Some (Inr u)" "db_events L d es u = Some (Inr s')"
    by (auto split: option.splits sum.splits)
  have "db_possible e s" using u(1) Cons.prems(2)
    by (cases e) (auto simp: DoWrite_end_def TryGet_end_def split: option.splits if_splits)
  then have "shared_ok L recs d u" using db_event_ok [OF laws Cons.prems(1)] u(1) by fastforce
  then show ?case using Cons.IH Cons.prems(2) u(2) by simp
qed simp

lemma writes_end:
  assumes laws: "wal_laws L recs"
  shows "shared_ok L recs d s \<Longrightarrow> \<exists>s'. db_events L d (replicate (length (writing s)) (EAppended 0)) s = Some (Inr s') \<and>
    writing s' = [] \<and> sd_log s' = sd_log s @ writing s"
proof (induction "length (writing s)" arbitrary: s)
  case 0
  then show ?case by simp
next
  case (Suc n)
  obtain b where b: "sd_writer s = Some b" "writing s = b # sd_waiting s"
    using Suc.hyps(2) Suc.prems by (auto simp: shared_ok_def writing_def split: option.splits)
  obtain u where u: "DoWrite_end L 0 s = Inr u" "shared_ok L recs d u" "sd_log u = sd_log s @ [b]"
    "writing u = writing (pass_mutex 0 s)"
    using DoWrite_end_ok [OF laws Suc.prems b(1), of 0] by auto
  have w: "writing u = sd_waiting s" unfolding u(4)
    by (cases "sd_waiting s") (auto simp: writing_def pass_mutex_def)
  then show ?case using Suc.hyps(1) [of u] Suc.hyps(2) u b by auto
qed

section \<open>Properties\<close>

text \<open>C39. The database shared by fibers, for every order in which they get the mutex and the disk answers, and through
  crashes. A read returns the state after the writes that were in the log when it ended, so it sees every
  write that was done when it began; a snapshot is the state after as many writes as its version says and later
  writes do not change it. Every write that was called is in the log once, or waits, or was cut off by
  a crash. No call aborts, and after one answer of the disk for each of them the waiting writes are done, in the order in
  which they called when the mutex is fair.\<close>

theorem database_fibers:
  assumes "wal_laws L recs" and "\<not> fs_exists L f0 (path_join L d ''wal'')"
    and "Database_Open L d Database_init f0 = Some (Inr s0)"
    and "\<forall>b. EWrite b \<in> set es \<longrightarrow> good_batch b" and "db_events L d es (shared_db s0) = Some (Inr s)"
  shows "(\<forall>(k, i, j, a) \<in> set (sd_answers s). i \<le> j \<and> j \<le> length (sd_log s) \<and> a = state_after (take j (sd_log s)) k) \<and>
    (\<forall>snap \<in> set (sd_snapshots s). \<exists>n \<le> length (sd_log s). snap_version snap = of_nat n \<and>
       Snapshot_TryGet snap = state_after (take n (sd_log s))) \<and>
    mset (sd_called s) = mset (sd_log s) + mset (writing s) + sd_lost s \<and>
    (\<forall>e. db_possible e s \<longrightarrow> (\<exists>s'. db_event_step L d e s = Some (Inr s'))) \<and>
    (\<exists>s'. db_events L d (replicate (length (writing s)) (EAppended 0)) s = Some (Inr s') \<and>
       writing s' = [] \<and> sd_log s' = sd_log s @ writing s)"
proof -
  have "holds L recs d [] s0" using Open_fresh [OF assms(1,2)] assms(3) by auto
  then have "shared_ok L recs d (shared_db s0)"
    by (simp add: shared_ok_def shared_db_def writing_def journal_ok_def)
  then have ok: "shared_ok L recs d s" by (rule db_events_ok [OF assms(1) _ assms(4,5)])
  then have "\<forall>a \<in> set (sd_answers s). answer_ok (sd_log s) a" "\<forall>snap \<in> set (sd_snapshots s). snapshot_ok (sd_log s) snap"
    "mset (sd_called s) = mset (sd_log s) + mset (writing s) + sd_lost s"
    by (simp_all add: shared_ok_def journal_ok_def)
  then show ?thesis using db_event_ok [OF assms(1) ok] writes_end [OF assms(1) ok]
    unfolding answer_ok_def snapshot_ok_def by blast
qed

text \<open>A read that misses the cache while a write of its key is on its way to the disk, and the next write waits.\<close>

theorem database_fibers_witness:
  "\<exists>s0 s. Database_Open list_disk ''/db'' Database_init Map.empty = Some (Inr s0) \<and>
     db_events list_disk ''/db'' [EWrite (batch_put list_disk ''a'' ''1''), EGet ''a'' True,
       EWrite (batch_put list_disk ''a'' ''2''), EGet ''a'' False, EAppended 0, ERead 0, ESnapshot] (shared_db s0) = Some (Inr s) \<and>
     sd_answers s = [(''a'', 0, 0, None), (''a'', 0, 1, Some ''1'')] \<and> length (sd_snapshots s) = 1 \<and>
     writing s = [batch_put list_disk ''a'' ''2''] \<and>
     (\<exists>s'. db_events list_disk ''/db'' [EAppended 0] s = Some (Inr s') \<and> state_after (sd_log s') ''a'' = Some ''2'')"
proof -
  let ?es = "[EWrite (batch_put list_disk ''a'' ''1''), EGet ''a'' True, EWrite (batch_put list_disk ''a'' ''2''), EGet ''a'' False,
    EAppended 0, ERead 0, ESnapshot]"
  let ?db = "\<lparr>dir = Some ''/db'', mem_table = [], wal = Some ''/db/wal'', version = 0\<rparr>"
  let ?s0 = "(?db, [''/db/wal'' \<mapsto> [], ''/db/sstable'' \<mapsto> []])"
  have fresh: "\<not> fs_exists list_disk Map.empty (path_join list_disk ''/db'' ''wal'')" by (simp add: list_disk_def)
  have s0: "Database_Open list_disk ''/db'' Database_init Map.empty = Some (Inr ?s0)"
    by (simp add: database_defs ReplayWAL_def list_disk_def Database_init_def MemTable_Clear_def Let_def)
  have good: "\<forall>b. EWrite b \<in> set ?es \<longrightarrow> good_batch b" by (auto simp: good_batch_def list_disk_def)
  obtain s where s: "db_events list_disk ''/db'' ?es (shared_db ?s0) = Some (Inr s)"
    "sd_answers s = [(''a'', 0, 0, None), (''a'', 0, 1, Some ''1'')]" "length (sd_snapshots s) = 1"
    "writing s = [batch_put list_disk ''a'' ''2'']" "sd_log s = [batch_put list_disk ''a'' ''1'']"
    by (simp add: shared_db_def list_disk_def DoWrite_begin_def DoWrite_end_def TryGet_begin_def TryGet_end_def database_defs
        pass_mutex_def MemTable_TryGet_def MemTable_Put_def writing_def)
  have "state_after (sd_log s @ writing s) ''a'' = Some ''2''"
    using s(4,5) by (simp add: state_after_def apply_batch_def as_update_def list_disk_def)
  then show ?thesis using database_fibers [OF list_disk_laws fresh s0 good s(1)] s s0 by auto
qed

end
