(* ===== verification/KV_Database.thy ===== *)
theory KV_Database
  imports KV_Node Database
begin

text \<open>
  The replicas of \<open>examples/kv/node/main.cpp\<close> over the database of \<open>db/database.cpp\<close>. How \<open>node::store::KVStore\<close> forms the
  keys of the database and how \<open>muesli\<close> writes a stamped value are arguments (\<open>at\<close>, \<open>enc\<close>, \<open>dec\<close>). A reboot is
  \<open>KVNodeMain\<close>, which opens the database of the node again and replays its log.
\<close>

section \<open>A store in a database\<close>

definition database_store ::
    "('f, 'r) wal_lib \<Rightarrow> db_path \<Rightarrow> (string \<Rightarrow> key) \<Rightarrow> (stamped_value \<Rightarrow> db_value) \<Rightarrow> (db_value \<Rightarrow> stamped_value) \<Rightarrow>
     (database \<times> 'f) kv_store" where
  "database_store L d at enc dec =
     (let get = (\<lambda>k (db, f). case Database_TryGet L False (at k) db f of Inr (v, _) \<Rightarrow> map_option dec v | Inl _ \<Rightarrow> None)
      in \<lparr>TryGet = get,
          GetOr = (\<lambda>k default s. case get k s of None \<Rightarrow> default | Some v \<Rightarrow> v),
          Put = (\<lambda>k v (db, f). case Database_Put L (at k) (enc v) db f of Inr s \<Rightarrow> s | Inl _ \<Rightarrow> (db, f)),
          Reopen = (\<lambda>(db, f). case Database_Open L d Database_init f of Some (Inr s) \<Rightarrow> s | _ \<Rightarrow> (db, f))\<rparr>)"

definition opened :: "('f, 'r) wal_lib \<Rightarrow> ('f \<Rightarrow> db_path \<Rightarrow> 'r list) \<Rightarrow> db_path \<Rightarrow> database \<times> 'f \<Rightarrow> bool" where
  "opened L recs d s \<longleftrightarrow> (\<exists>bs. holds L recs d bs s)"

lemma holds_put:
  assumes laws: "wal_laws L recs" and h: "holds L recs d bs (db, f)"
  obtains s where "Database_Put L k v db f = Inr s"
    and "holds L recs d (bs @ [[\<lparr>mut_type = MutPut, mut_key = k, mut_value = Some v\<rparr>]]) s"
  using db_step_holds [OF laws h, of "DPut k v"] by (auto simp: good_batch_def)

lemma holds_reopen:
  assumes laws: "wal_laws L recs" and h: "holds L recs d bs (db, f)"
  obtains s where "Database_Open L d Database_init f = Some (Inr s)" and "holds L recs d bs s"
  using db_step_holds [OF laws h, of DCrash] by auto

lemma database_get:
  assumes "holds L recs d bs (db, f)"
  shows "TryGet (database_store L d at enc dec) k (db, f) = map_option dec (state_after bs (at k))"
  using assms by (auto simp: database_store_def Let_def holds_def Database_TryGet_def EnsureOpened_def)

lemma state_after_one_put:
  "state_after (bs @ [[\<lparr>mut_type = MutPut, mut_key = k, mut_value = Some v\<rparr>]]) = (state_after bs)(k \<mapsto> v)"
  by (simp add: state_after_snoc apply_batch_def as_update_def)

lemma database_stamped_store:
  assumes laws: "wal_laws L recs" and "inj at" and "\<And>v. dec (enc v) = v"
  shows "stamped_store (database_store L d at enc dec) (opened L recs d)"
proof
  let ?st = "database_store L d at enc dec"
  fix s :: "database \<times> 'a" and k k' v
  obtain db f where s: "s = (db, f)" by (cases s)
  assume "opened L recs d s"
  then obtain bs where h: "holds L recs d bs (db, f)" by (auto simp: opened_def s)
  obtain s' where put: "Database_Put L (at k') (enc v) db f = Inr s'"
    "holds L recs d (bs @ [[\<lparr>mut_type = MutPut, mut_key = at k', mut_value = Some (enc v)\<rparr>]]) s'"
    by (rule holds_put [OF laws h])
  have p: "Put ?st k' v s = s'" using put(1) by (simp add: database_store_def Let_def s)
  obtain s'' where re: "Database_Open L d Database_init f = Some (Inr s'')" "holds L recs d bs s''"
    by (rule holds_reopen [OF laws h])
  have r: "Reopen ?st s = s''" using re(1) by (simp add: database_store_def Let_def s)
  show "TryGet ?st k (Put ?st k' v s) = (if k = k' then Some v else TryGet ?st k s)"
    using put(2) assms(2,3) unfolding p unfolding s
    by (cases s') (auto simp: database_get [OF h] database_get state_after_one_put inj_def)
  show "opened L recs d (Put ?st k' v s)" using put(2) unfolding p opened_def by blast
  show "TryGet ?st k (Reopen ?st s) = TryGet ?st k s"
    using re(2) unfolding r unfolding s by (cases s'') (simp add: database_get [OF h] database_get)
  show "opened L recs d (Reopen ?st s)" using re(2) unfolding r opened_def by blast
next
  show "GetOr (database_store L d at enc dec) k default s =
      (case TryGet (database_store L d at enc dec) k s of None \<Rightarrow> default | Some v \<Rightarrow> v)" for k default s
    by (simp add: database_store_def Let_def)
qed

text \<open>A coding of keys and values, and the store over a disk that keeps records in lists.\<close>

definition text_at :: "string \<Rightarrow> key" where
  "text_at k = ''data/'' @ k"

definition text_enc :: "stamped_value \<Rightarrow> db_value" where
  "text_enc v = replicate (unat (ts_value (sv_timestamp v))) CHR ''#'' @ CHR '':'' # sv_value v"

definition text_dec :: "db_value \<Rightarrow> stamped_value" where
  "text_dec x = (let n = length (takeWhile (\<lambda>c. c = CHR ''#'') x)
     in \<lparr>sv_value = drop (Suc n) x, sv_timestamp = WriteTimestamp (of_nat n)\<rparr>)"

lemma text_coding: "inj text_at" "text_dec (text_enc v) = v"
proof -
  show "inj text_at" by (rule injI) (simp add: text_at_def)
  have "takeWhile (\<lambda>c. c = CHR ''#'') (replicate n CHR ''#'' @ CHR '':'' # xs) = replicate n CHR ''#''" for n xs
    by (induction n) simp_all
  then have "takeWhile (\<lambda>c. c = CHR ''#'') (text_enc v) = replicate (unat (ts_value (sv_timestamp v))) CHR ''#''"
    by (simp add: text_enc_def)
  then show "text_dec (text_enc v) = v"
    by (cases v, cases "sv_timestamp v") (simp add: text_dec_def Let_def text_enc_def)
qed

abbreviation list_recs :: "(db_path \<Rightarrow> mutation list list option) \<Rightarrow> db_path \<Rightarrow> mutation list list" where
  "list_recs f p \<equiv> (case f p of None \<Rightarrow> [] | Some rs \<Rightarrow> rs)"

interpretation list_store: stamped_store "database_store list_disk d text_at text_enc text_dec" "opened list_disk list_recs d" for d
  by (rule database_stamped_store [OF list_disk_laws text_coding(1)]) (rule text_coding(2))

section \<open>Properties\<close>

text \<open>C40. The replicated store over databases on disks. Every replica keeps its values in a database that logs its
  writes, and replicas crash and reboot between the calls at any time and any number of times. A \<open>Get\<close> that starts
  after a \<open>Set\<close> of the key was acknowledged by a majority returns a value issued for the key with a time stamp
  no smaller: what an acknowledged \<open>Set\<close> wrote is in the logs of a majority and comes back when they are replayed.\<close>

theorem kv_on_database:
  assumes "wal_laws L recs" and "inj at" and "\<And>v. dec (enc v) = v"
    and "\<not> fs_exists L f0 (path_join L d ''wal'')" and "Database_Open L d Database_init f0 = Some (Inr s0)"
    and "kv_run (database_store L d at enc dec) ops1 (kv_init s0 n) = Some c1" and "i < length (kc_writes c1)"
    and "Set_done n (kc_writes c1 ! i)" and "kv_run (database_store L d at enc dec) ops2 c1 = Some c2"
    and "j \<in> {length (kc_reads c1)..<length (kc_reads c2)}" and "pr_key (kc_reads c2 ! j) = pw_key (kc_writes c1 ! i)"
    and "Get_result n (kc_reads c2 ! j) = Some out"
  shows "(\<exists>v. out = Inr v \<and> sv_timestamp (pw_value (kc_writes c1 ! i)) \<le> sv_timestamp v \<and>
      v \<in> issued c2 (pw_key (kc_writes c1 ! i))) \<and>
    (\<forall>s \<in> set (kc_replicas c2). \<exists>bs. \<forall>k miss. \<exists>f'.
       Database_TryGet L miss k (fst s) (snd s) = Inr (state_after bs k, f') \<and>
       recs (snd s) (path_join L d ''wal'') = map (serialize L) bs)"
proof -
  let ?st = "database_store L d at enc dec"
  have st: "stamped_store ?st (opened L recs d)" by (rule database_stamped_store [OF assms(1-3)])
  have h: "holds L recs d [] s0" using Open_fresh [OF assms(1,4)] assms(5) by auto
  then have v: "opened L recs d s0" by (auto simp: opened_def)
  have none: "TryGet ?st k s0 = None" for k
    using h by (cases s0) (simp add: database_get state_after_def)
  have "cluster_ok ?st (opened L recs d) c1"
    using stamped_store.kv_run_ok [OF st assms(6) stamped_store.kv_init_ok [OF st v]] by simp
  then have "cluster_ok ?st (opened L recs d) c2"
    using stamped_store.kv_run_ok [OF st assms(9)] by blast
  then have "\<forall>s \<in> set (kc_replicas c2). \<exists>bs. holds L recs d bs (fst s, snd s)" by (simp add: cluster_ok_def opened_def)
  then have "\<forall>s \<in> set (kc_replicas c2). \<exists>bs. \<forall>k miss. \<exists>f'.
      Database_TryGet L miss k (fst s) (snd s) = Inr (state_after bs k, f') \<and>
      recs (snd s) (path_join L d ''wal'') = map (serialize L) bs"
    using TryGet_holds [OF assms(1)] unfolding holds_def by fastforce
  then show ?thesis using stamped_store.read_after_write [OF st v none assms(6-12)] by blast
qed

text \<open>A write acknowledged by two of three replicas, which then both crash and reboot, and a read at the second and
  the third.\<close>

theorem kv_on_database_witness:
  "\<exists>s0 c1 c2. Database_Open list_disk ''/db'' Database_init Map.empty = Some (Inr s0) \<and>
     kv_run (database_store list_disk ''/db'' text_at text_enc text_dec) (write_ops 0 ''a'' 0 2) (kv_init s0 3) = Some c1 \<and>
     kv_run (database_store list_disk ''/db'' text_at text_enc text_dec) ([KReboot 0, KReboot 1] @ read_ops 0 1 2) c1 = Some c2 \<and>
     (\<exists>v. Get_result 3 (kc_reads c2 ! 0) = Some (Inr v) \<and> WriteTimestamp 2 \<le> sv_timestamp v)"
proof -
  let ?st = "database_store list_disk ''/db'' text_at text_enc text_dec"
  have fresh: "\<not> fs_exists list_disk Map.empty (path_join list_disk ''/db'' ''wal'')" by (simp add: list_disk_def)
  obtain s0 where s0: "Database_Open list_disk ''/db'' Database_init Map.empty = Some (Inr s0)"
    using Open_fresh [OF list_disk_laws fresh] by blast
  obtain c1 where c1: "kv_run ?st (write_ops 0 ''a'' 0 2) (kv_init s0 3) = Some c1"
    "length (kc_writes c1) = 1" "Set_done 3 (kc_writes c1 ! 0)" "pw_key (kc_writes c1 ! 0) = ''x''" "kc_reads c1 = []"
    "sv_timestamp (pw_value (kc_writes c1 ! 0)) = WriteTimestamp 2" "length (kc_replicas c1) = 3"
    by (simp add: write_ops_def kv_init_def Coordinator_Set_def Set_done_def Majority_def ChooseWriteTimestamp_def WallClock_Now_def)
  obtain c2 where c2: "kv_run ?st ([KReboot 0, KReboot 1] @ read_ops 0 1 2) c1 = Some c2" "length (kc_reads c2) = 1"
    "pr_key (kc_reads c2 ! 0) = ''x''" "length (pr_got (kc_reads c2 ! 0)) = 2"
    using c1(5,7) by (simp add: read_ops_def Coordinator_Get_def Majority_def)
  then obtain out where out: "Get_result 3 (kc_reads c2 ! 0) = Some out" by (simp add: Get_result_def Majority_def)
  from kv_on_database [OF list_disk_laws text_coding fresh s0 c1(1) _ c1(3) c2(1) _ _ out] c1 c2 s0 out
  show ?thesis by auto
qed

end
