(* ===== verification/Examples.thy ===== *)
theory Examples
  imports Globals Database
begin

text \<open>
  \<open>process/trampoline.cpp\<close>, \<open>examples/hello/main.cpp\<close> and \<open>examples/db/main.cpp\<close>: the start of a program in a fiber and two
  example simulations, the first as a whole, of the second the program of the node. An exception that is not caught ends the
  fiber; the log is left out.
\<close>

section \<open>Fibers of programs\<close>

text \<open>The fiber of the main program is submitted to the executor of the node.\<close>

definition MainTrampoline :: "'u \<Rightarrow> ('h, 'u) syscall list" where
  "MainTrampoline main_fiber = [SysSubmit main_fiber]"

section \<open>Hello\<close>

definition show_int :: "int \<Rightarrow> string" where
  "show_int i = (if i < 0 then CHR ''-'' # show_nat (nat (- i)) else show_nat (nat i))"

definition quoted :: "string \<Rightarrow> string" where
  "quoted s = [CHR 0x27] @ s @ [CHR 0x27]"

definition HelloWorld :: "server_config \<Rightarrow> ('h, 'u) world \<Rightarrow> ('h, 'u) syscall list" where
  "HelloWorld cfg w = SysPrint ''Hello, World!'' #
     (case NodeConfig_GetString ''pool'' cfg w of
        Inl e \<Rightarrow> []
      | Inr pool \<Rightarrow> SysPrint (''I am '' @ quoted (c_hostname cfg) @ '' from pool '' @ quoted pool) #
          (case NodeConfig_GetInt64 ''net.rtt'' cfg w of
             Inl e \<Rightarrow> []
           | Inr rtt \<Rightarrow> [SysPrint (''net.rtt: '' @ show_int rtt)]))"

definition hello_program :: "(nat, nat) program" where
  "hello_program i t w = (case t of
       RunMain \<Rightarrow> MainTrampoline 0
     | RunTask fiber \<Rightarrow> HelloWorld (s_config (w_servers w ! i)) w
     | _ \<Rightarrow> [])"

definition hello_world :: "(u64 \<Rightarrow> nat \<Rightarrow> u32) \<Rightarrow> (nat \<Rightarrow> nat) \<Rightarrow> allocator \<Rightarrow> (nat, nat) world" where
  "hello_world mt19937 ids heap = AddServer ids heap ''Julie'' (World mt19937 17)"

text \<open>What \<open>main\<close> prints: the lines of the node, the digest, the number of steps and the time.\<close>

definition hello_main ::
    "(u64 \<Rightarrow> nat \<Rightarrow> u32) \<Rightarrow> (nat \<Rightarrow> nat) \<Rightarrow> allocator \<Rightarrow> (u64 \<Rightarrow> nat \<Rightarrow> u64) \<Rightarrow> (u64 \<Rightarrow> u64 \<Rightarrow> u64) \<Rightarrow>
     ((nat, nat) server \<Rightarrow> u64) \<Rightarrow> (string list \<times> u64 \<times> nat \<times> jiffies) res" where
  "hello_main mt19937 ids heap eat combine server_digest =
     res_bind (World_Start (hello_world mt19937 ids heap)) (\<lambda>w.
       res_bind (MakeSteps eat hello_program 100500 w) (\<lambda>(made, w).
         res_bind (World_GetStdout ''Julie'' w) (\<lambda>std_out.
           res_bind (World_Stop combine server_digest w) (\<lambda>(digest, w).
             Inr (std_out, digest, w_step w, TimeElapsed w)))))"

definition hello_lines :: "string list" where
  "hello_lines = [''Hello, World!'', ''I am '' @ quoted ''Julie'' @ '' from pool '' @ quoted ''snowflakes'', ''net.rtt: 500'']"

lemma hello_built: "built (hello_world mt19937 ids heap)"
  by (simp add: hello_world_def built.intros)

lemma hello_world_facts:
  "w_servers (hello_world mt ids heap) = [Server \<lparr>c_id = ids 0, c_hostname = ''Julie'', c_pool = ''snowflakes''\<rparr> heap]"
  "w_time_model (hello_world mt ids heap) = CrazyTimeModel" "w_pools (hello_world mt ids heap) = [(''snowflakes'', [0])]"
  "World_GetGlobal name (hello_world mt ids heap) = None" "w_step (hello_world mt ids heap) = 0"
  by (simp_all add: hello_world_def AddServer_def AddServerImpl_def Let_def World_def AddActor_def pool_of_def World_GetGlobal_find)

text \<open>A world starts at the time that its time model chooses.\<close>

lemma World_Start_now:
  assumes "World_Start w = Inr w'"
  shows "\<exists>t r. tm_GlobalStartTime (w_time_model w) (w_random w) = Inr (t, r) \<and> w_now w' = t \<and> w_step w' = w_step w"
  using assms
  by (auto simp: World_Start_def SetStartTime_def draw_def FastForwardTo_def
        verify_def res_bind_Inr since_def Let_def AddActor_def SetConfigGlobals_def World_SetGlobal_def
        split: if_splits dest!: start_servers_since)

lemma hello_start:
  obtains w s where "World_Start (hello_world mt ids heap) = Inr w" and "w_servers w = [s]" and "spinning w"
    and "map task (PQ_elems (s_scheduler s)) = [RunMain]" and "s_stdout s = []" and "c_hostname (s_config s) = ''Julie''"
    and "c_pool (s_config s) = ''snowflakes''" and "simulated 1000 eat hello_program w" and "unat (w_now w) < 200"
    and "w_step w = 0" and "w_start_time w = w_now w" and "w_pools w = [(''snowflakes'', [0])]"
    and "World_GetGlobal ''config.net.rtt'' w = Some (AnyInt 500)"
proof -
  note ok = CrazyTimeModel_ok [folded hello_world_facts(2) [of mt ids heap]]
  from World_Start_ok [OF hello_built ok]
  obtain w where w: "World_Start (hello_world mt ids heap) = Inr w" "length (w_servers w) = 1"
    "launched (w_now w) (w_servers (hello_world mt ids heap) ! 0) (w_servers w ! 0)"
    "w_actors w = [ServerActor 0, NetworkActor]" "w_net w = Network_Start (w_net (hello_world mt ids heap))"
    "w_start_time w = w_now w" "w_pools w = [(''snowflakes'', [0])]" "w_globals w = w_globals (SetConfigGlobals (hello_world mt ids heap))"
    by (auto simp: hello_world_facts)
  obtain s where s: "w_servers w = [s]" using w(2) by (auto simp: length_Suc_conv)
  have sp: "spinning w"
    using w built_fresh [OF hello_built [of mt ids heap]] Network_Start_idle
    by (simp add: spinning_def launched_def fresh_world_def)
  obtain t r where t: "Crazy_GlobalStartTime (w_random (hello_world mt ids heap)) = Inr (t, r)" "w_now w = t" "w_step w = 0"
    using World_Start_now [OF w(1)] hello_world_facts(2,5) [of mt ids heap] by (auto simp: CrazyTimeModel_def)
  have "yields Crazy_GlobalStartTime (\<lambda>t. 1 \<le> t \<and> t < 200)"
    unfolding Crazy_GlobalStartTime_def by (intro yields_range_in) simp_all
  then obtain u v where "Crazy_GlobalStartTime (w_random (hello_world mt ids heap)) = Inr (u, v)" "u < 200"
    unfolding yields_def by blast
  then have "t < 200" using t(1) by simp
  then have now: "unat (w_now w) < 200" using t(2) by (simp add: word_less_nat_alt)
  have rtt: "World_GetGlobal ''config.net.rtt'' w = Some (AnyInt 500)"
    using w(8) GetGlobal_SetGlobal(1) [OF built_globals [OF hello_built [of mt ids heap]]]
    by (simp add: World_GetGlobal_find SetConfigGlobals_def hello_world_facts CrazyTimeModel_def Crazy_EstimateRtt_def)
  show thesis
    by (rule that [OF w(1) s sp _ _ _ _ sim_start [OF hello_built ok w(1)] now t(3) w(6,7) rtt])
      (use w(3) s in \<open>simp_all add: launched_def hello_world_facts Server_def\<close>)
qed

text \<open>The three steps: the trampoline, the fiber, nothing left.\<close>

lemma trampoline_step:
  assumes "spinning w" and "w_servers w = [s]" and "map task (PQ_elems (s_scheduler s)) = [RunMain]"
  shows "\<exists>v q d. World_Step eat hello_program w = Inr (True, v) \<and> spinning v \<and> w_servers v = [s\<lparr>s_scheduler := q\<rparr>] \<and>
    map task (PQ_elems q) = [RunTask 0] \<and> v = w\<lparr>w_step := Suc (w_step w), w_digest := d, w_servers := [s\<lparr>s_scheduler := q\<rparr>]\<rparr>"
proof -
  obtain t q d where q: "PQ_inv q" "PQ_elems q = []" "map task (PQ_elems (s_scheduler s)) = [t]"
    and step: "\<And>u. u = w\<lparr>w_step := Suc (w_step w), w_digest := d, w_active := Some (ServerActor 0), w_servers := [s\<lparr>s_scheduler := q\<rparr>]\<rparr> \<Longrightarrow>
      World_Step eat hello_program w = res_bind (res_fold (run_syscall 0) (hello_program 0 t u) u) (\<lambda>v. Inr (True, v\<lparr>w_active := w_active w\<rparr>))"
    using single_step [OF assms(1,2), of eat hello_program] by metis
  let ?q = "ThreadPool_Submit (w_now w) (RunTask 0) q"
  have "PQ_inv ?q" "PQ_elems ?q = [\<lparr>at_time = w_now w, task = RunTask 0\<rparr>]" using q by (simp_all add: ThreadPool_Submit_def inv_rules)
  moreover have "t = RunMain" using q(3) assms(3) by simp
  ultimately show ?thesis unfolding step [OF refl] using assms(1,2)
    by (intro exI [of _ "w\<lparr>w_step := Suc (w_step w), w_digest := d, w_servers := [s\<lparr>s_scheduler := ?q\<rparr>]\<rparr>"] exI [of _ ?q] exI [of _ d])
      (simp add: hello_program_def MainTrampoline_def run_syscall_def set_server_def IsAlive_def on_server_def draw_def
        rnd_return_def spinning_def)
qed

lemma fiber_step:
  assumes "spinning w" and "w_servers w = [s]" and "map task (PQ_elems (s_scheduler s)) = [RunTask 0]"
    and "c_hostname (s_config s) = ''Julie''" and "c_pool (s_config s) = ''snowflakes''"
    and "World_GetGlobal ''config.net.rtt'' w = Some (AnyInt 500)"
  shows "\<exists>v q d. World_Step eat hello_program w = Inr (True, v) \<and> PQ_inv q \<and> PQ_elems q = [] \<and>
    v = w\<lparr>w_step := Suc (w_step w), w_digest := d, w_servers := [s\<lparr>s_scheduler := q, s_stdout := s_stdout s @
      hello_lines\<rparr>]\<rparr>"
proof -
  obtain t q d where q: "PQ_inv q" "PQ_elems q = []" "map task (PQ_elems (s_scheduler s)) = [t]"
    and step: "\<And>u. u = w\<lparr>w_step := Suc (w_step w), w_digest := d, w_active := Some (ServerActor 0), w_servers := [s\<lparr>s_scheduler := q\<rparr>]\<rparr> \<Longrightarrow>
      World_Step eat hello_program w = res_bind (res_fold (run_syscall 0) (hello_program 0 t u) u) (\<lambda>v. Inr (True, v\<lparr>w_active := w_active w\<rparr>))"
    using single_step [OF assms(1,2), of eat hello_program] by metis
  let ?u = "w\<lparr>w_step := Suc (w_step w), w_digest := d, w_active := Some (ServerActor 0), w_servers := [s\<lparr>s_scheduler := q\<rparr>]\<rparr>"
  have t: "t = RunTask 0" using q(3) assms(3) by simp
  have five: "show_int 500 = ''500''" by code_simp
  have "NodeConfig_GetInt64 ''net.rtt'' (s_config s) ?u = Inr 500"
    using assms(6) by (simp add: NodeConfig_GetInt64_def config_global_def TryGetGlobal_def World_GetGlobal_def any_cast_def)
  then have "hello_program 0 t ?u = map SysPrint hello_lines"
    using assms(4,5) five by (simp add: hello_program_def t HelloWorld_def NodeConfig_GetString_def hello_lines_def)
  then show ?thesis unfolding step [OF refl] using assms(1,2) q(1,2)
    by (intro exI [of _ "w\<lparr>w_step := Suc (w_step w), w_digest := d, w_servers := [s\<lparr>s_scheduler := q, s_stdout := s_stdout s @ hello_lines\<rparr>]\<rparr>"]
        exI [of _ q] exI [of _ d])
      (simp add: run_syscall_def set_server_def IsAlive_def on_server_def draw_def rnd_return_def spinning_def PrintLine_def hello_lines_def)
qed

lemma no_step:
  assumes "w_servers w = [s]" and "PQ_elems (s_scheduler s) = []" and "w_actors w = [ServerActor 0, NetworkActor]"
    and "PQ_IsEmpty (events (w_net w))"
  shows "World_Step eat prog w = Inr (False, w)"
  using assms by (simp add: World_Step_def FindNextStep_def find_next_step_Cons due_def actor_IsRunnable_def
      Server_IsRunnable_def Network_IsRunnable_def Scheduler_IsEmpty_def PQ_IsEmpty_elems)

text \<open>The first example does what it says. Whatever the generator behind the seed, the heap and the functions of the
  digest are, the simulation starts, makes two steps of the 100500 it may make, at virtual time 0, and stops
  without aborting; the node has printed exactly its greeting, its name and pool, and the round trip time
  of the default time model.\<close>

theorem hello_output:
  "\<exists>digest. hello_main mt19937 ids heap eat combine server_digest =
     Inr (hello_lines, digest, 2, 0)"
proof -
  obtain w s where w: "World_Start (hello_world mt19937 ids heap) = Inr w" "w_servers w = [s]" "spinning w"
    "map task (PQ_elems (s_scheduler s)) = [RunMain]" "s_stdout s = []" "c_hostname (s_config s) = ''Julie''"
    "c_pool (s_config s) = ''snowflakes''" "simulated 1000 eat hello_program w" "unat (w_now w) < 200" "w_step w = 0"
    "w_start_time w = w_now w" "w_pools w = [(''snowflakes'', [0])]" "World_GetGlobal ''config.net.rtt'' w = Some (AnyInt 500)"
    by (rule hello_start)
  obtain v q d where v: "World_Step eat hello_program w = Inr (True, v)" "spinning v" "w_servers v = [s\<lparr>s_scheduler := q\<rparr>]"
    "map task (PQ_elems q) = [RunTask 0]" "v = w\<lparr>w_step := Suc (w_step w), w_digest := d, w_servers := [s\<lparr>s_scheduler := q\<rparr>]\<rparr>"
    using trampoline_step [OF w(3,2,4), of eat] by (elim exE conjE) (rule that)
  have "World_GetGlobal ''config.net.rtt'' v = Some (AnyInt 500)" using v(5) w(13) by (simp add: World_GetGlobal_def)
  then obtain u p e where u: "World_Step eat hello_program v = Inr (True, u)" "PQ_elems p = []" "u = v\<lparr>w_step := Suc (w_step v),
      w_digest := e, w_servers := [s\<lparr>s_scheduler := p, s_stdout := hello_lines\<rparr>]\<rparr>"
    using fiber_step [OF v(2,3), of eat] v(4) w(5,6,7) by auto
  have "World_Step eat hello_program u = Inr (False, u)"
  proof (rule no_step)
    show "w_servers u = [s\<lparr>s_scheduler := p, s_stdout := hello_lines\<rparr>]" using u(3) by simp
    show "w_actors u = [ServerActor 0, NetworkActor]" "PQ_IsEmpty (events (w_net u))"
      using v(2) u(3) by (simp_all add: spinning_def)
  qed (simp add: u(2))
  then have "MakeSteps eat hello_program (Suc (Suc (Suc n))) w = Inr (2, u)" for n
    using v(1) u(1) by (simp add: MakeSteps_Suc)
  from this [of 100497] have made: "MakeSteps eat hello_program 100500 w = Inr (2, u)" by simp
  have "timers_within 1000 hello_program"
    by (auto simp: timers_within_def hello_program_def HelloWorld_def MainTrampoline_def
        split: process_task.splits sum.splits)
  moreover have "simulated 1000 eat hello_program u" using sim_step [OF sim_step [OF w(8) v(1)] u(1)] .
  moreover have "w_now u = w_now w" "w_start_time u = w_now w" "w_step u = 2" using u(3) v(5) w(10,11) by simp_all
  moreover have "room 1000 (w_now w)" using w(9) by (simp add: room_def)
  ultimately obtain digest w' where stop: "World_Stop combine server_digest u = Inr (digest, w')" "w_step w' = 2" "TimeElapsed w' = 0"
    using World_Stop_ok [of 1000 eat hello_program u combine server_digest] by (auto simp: TimeElapsed_def)
  have pools: "w_pools u = [(''snowflakes'', [0])]" using u(3) v(5) w(12) by simp
  have servers: "w_servers u = [s\<lparr>s_scheduler := p, s_stdout := hello_lines\<rparr>]" using u(3) by simp
  have "World_GetStdout ''Julie'' u = Inr hello_lines"
    using pools servers w(6) by (simp add: World_GetStdout_def GetServer_def FindServer_def HostName_def pool_members_def GetStdout_def)
  then show ?thesis using w(1) made stop by (simp add: hello_main_def)
qed

section \<open>The database example\<close>

text \<open>A call that may not end, abort, or go on.\<close>

definition run_bind :: "'a res option \<Rightarrow> ('a \<Rightarrow> 'b res option) \<Rightarrow> 'b res option" where
  "run_bind m f = (case m of None \<Rightarrow> None | Some (Inl e) \<Rightarrow> Some (Inl e) | Some (Inr x) \<Rightarrow> f x)"

lemma run_bind_simps [simp]: "run_bind (Some (Inr x)) f = f x" "run_bind (Some (Inl e)) f = Some (Inl e)"
  by (simp_all add: run_bind_def)

text \<open>The loops of the program, which print the entries under an iterator.\<close>

partial_function (option) print_loop ::
    "(db_iterator \<Rightarrow> db_iterator res) \<Rightarrow> db_iterator \<Rightarrow> string list \<Rightarrow> string list res option" where
  "print_loop move i out =
     (if \<not> it_valid i then Some (Inr out)
      else (case Iterator_Key i of
          Inl e \<Rightarrow> Some (Inl e)
        | Inr k \<Rightarrow> (case Iterator_Value i of
              Inl e \<Rightarrow> Some (Inl e)
            | Inr v \<Rightarrow> (case move i of
                  Inl e \<Rightarrow> Some (Inl e)
                | Inr i' \<Rightarrow> print_loop move i' (out @ [k @ '' -> '' @ v])))))"

definition PrintSnapshot :: "string \<Rightarrow> snapshot \<Rightarrow> string list \<Rightarrow> string list res option" where
  "PrintSnapshot title s out = print_loop Iterator_Next (MakeIterator s) (out @ [''Iterate over snapshot '' @ title])"

definition db_NodeMain ::
    "('f, 'r) wal_lib \<Rightarrow> db_path res \<Rightarrow> 'f \<Rightarrow> string list \<Rightarrow> (database \<times> 'f \<times> string list) res option" where
  "db_NodeMain L db_path f out =
     run_bind (Some db_path) (\<lambda>d.
     run_bind (Database_Open L d Database_init f) (\<lambda>(db, f).
     run_bind (Some (Database_Put L ''X'' ''v1'' db f)) (\<lambda>(db, f).
     run_bind (Some (Database_Put L ''Y'' ''v1'' db f)) (\<lambda>(db, f).
     run_bind (Some (Database_Put L ''Z'' ''v1'' db f)) (\<lambda>(db, f).
     run_bind (Some (Database_MakeSnapshot db)) (\<lambda>snapshot_1.
     run_bind (Some (Database_Put L ''Y'' ''v2'' db f)) (\<lambda>(db, f).
     run_bind (Some (Database_MakeSnapshot db)) (\<lambda>snapshot_2.
     run_bind (Some (Database_Put L ''X'' ''v3'' db f)) (\<lambda>(db, f).
     run_bind (Some (Database_Put L ''Z'' ''v3'' db f)) (\<lambda>(db, f).
     run_bind (PrintSnapshot ''1'' snapshot_1 out) (\<lambda>out.
     run_bind (PrintSnapshot ''2'' snapshot_2 out) (\<lambda>out.
     run_bind (print_loop Iterator_Prev (Iterator_SeekToLast (MakeIterator snapshot_2))
       (out @ [''Reverse iteration over snapshot 2''])) (\<lambda>out.
     run_bind (print_loop Iterator_Next (Iterator_Seek ''Y'' (MakeIterator snapshot_2))
       (out @ [''Seek(Y) in snapshot 2''])) (\<lambda>out.
     Some (Inr (db, f, out))))))))))))))))"

lemma print_loop_scan:
  "scan move n i = Some (Inr es) \<Longrightarrow> print_loop move i out = Some (Inr (out @ map (\<lambda>(k, v). k @ '' -> '' @ v) es))"
proof (induction n arbitrary: i es out)
  case (Suc n)
  show ?case
  proof (cases "it_valid i")
    case False
    then show ?thesis using Suc.prems by (subst print_loop.simps) simp
  next
    case True
    then obtain i' es' where "move i = Inr i'" "scan move n i' = Some (Inr es')"
      "es = (fst (it_entries i ! it_pos i), snd (it_entries i ! it_pos i)) # es'"
      using Suc.prems by (auto simp: Key_Value res_bind_Inr split: sum.splits)
    then show ?thesis using Suc.IH True by (subst print_loop.simps) (simp add: Key_Value case_prod_unfold)
  qed
qed simp

lemmas print_scans = print_loop_scan [OF scan_all] print_loop_scan [OF scan_reverse] print_loop_scan [OF scan_from]

lemma Put_holds:
  assumes "wal_laws L recs" and "holds L recs d bs (db, f)"
  obtains db' f' where "Database_Put L k v db f = Inr (db', f')"
    and "holds L recs d (bs @ [[\<lparr>mut_type = MutPut, mut_key = k, mut_value = Some v\<rparr>]]) (db', f')"
proof -
  have "EnsureOpened db x = x" for x :: "(database \<times> 'a) res" using assms(2) by (auto simp: holds_def EnsureOpened_def)
  moreover have "good_batch [\<lparr>mut_type = MutPut, mut_key = k, mut_value = Some v\<rparr>]" by (simp add: good_batch_def)
  ultimately show thesis
    using DoWrite_holds [OF assms(1,2)] wal_lawsD(13) [OF assms(1)] that by (fastforce simp: Database_Put_def)
qed

lemma Snapshot_holds:
  assumes "holds L recs d bs (db, f)" and "om_ok es" and "om_find es = state_after bs"
  shows "\<exists>n. Database_MakeSnapshot db = Inr \<lparr>snap_entries = es, snap_version = n\<rparr>"
proof -
  have "MemTable_TryGet m = om_find m" for m by (rule ext) (simp add: MemTable_TryGet_def)
  then have "mem_table db = es" using assms by (intro om_ext) (auto simp: holds_def)
  then show ?thesis using assms(1)
    by (auto simp: holds_def Database_MakeSnapshot_def EnsureOpened_def MemTable_GetEntries_def)
qed

lemma state_after_put:
  "state_after (bs @ [[\<lparr>mut_type = MutPut, mut_key = k, mut_value = Some v\<rparr>]]) = (state_after bs)(k \<mapsto> v)"
  by (simp add: state_after_snoc apply_batch_def as_update_def)

lemma apply_batch_other: "\<forall>m \<in> set b. mut_key m \<noteq> k \<Longrightarrow> apply_batch b s k = s k"
  unfolding apply_batch_def by (induction b arbitrary: s) (auto simp: as_update_def)

lemma state_after_other: "\<forall>b \<in> set bs. \<forall>m \<in> set b. mut_key m \<noteq> k \<Longrightarrow> state_after bs k = None"
  by (induction bs rule: rev_induct) (simp add: state_after_def, simp add: state_after_snoc apply_batch_other)

text \<open>The output of the example.\<close>

definition db_lines :: "string list" where
  "db_lines = [''Iterate over snapshot 1'', ''X -> v1'', ''Y -> v1'', ''Z -> v1'', ''Iterate over snapshot 2'', ''X -> v1'',
     ''Y -> v2'', ''Z -> v1'', ''Reverse iteration over snapshot 2'', ''Z -> v1'', ''Y -> v2'', ''X -> v1'',
     ''Seek(Y) in snapshot 2'', ''Y -> v2'', ''Z -> v1'']"

lemma db_prints:
  fixes s1 s2 :: snapshot
  assumes "snap_entries s1 = [(''X'', ''v1''), (''Y'', ''v1''), (''Z'', ''v1'')]"
    and "snap_entries s2 = [(''X'', ''v1''), (''Y'', ''v2''), (''Z'', ''v1'')]"
  shows "run_bind (PrintSnapshot ''1'' s1 out) (\<lambda>out. run_bind (PrintSnapshot ''2'' s2 out) (\<lambda>out.
     run_bind (print_loop Iterator_Prev (Iterator_SeekToLast (MakeIterator s2)) (out @ [''Reverse iteration over snapshot 2''])) (\<lambda>out.
     run_bind (print_loop Iterator_Next (Iterator_Seek ''Y'' (MakeIterator s2)) (out @ [''Seek(Y) in snapshot 2''])) (\<lambda>out.
     Some (Inr (db, f, out)))))) = Some (Inr (db, f, out @ db_lines))"
proof -
  have "om_ok (snap_entries s2)" by (simp add: assms(2) om_ok_def)
  then show ?thesis by (simp add: PrintSnapshot_def print_scans assms db_lines_def)
qed

text \<open>The database example prints the same lines in every run, a first one on an empty disk or one after any number of
  runs that were stopped somewhere, as long as the log has only entries for its three keys: opening replays the
  log, each snapshot shows the values at the time it was made and none of the later writes, and the three
  ways of iterating show its entries in order, in reverse and from a key on. No call aborts, every
  loop ends, and the log has grown by the six writes, so that the next run finds the same situation.\<close>

theorem db_example_output:
  fixes L :: "('f, 'r) wal_lib"
  defines "wal_path \<equiv> path_join L ''/db'' ''wal''"
  assumes "wal_laws L recs"
    and "fs_exists L f wal_path \<Longrightarrow> recs f wal_path = map (serialize L) bs"
    and "\<not> fs_exists L f wal_path \<Longrightarrow> bs = []"
    and "\<forall>b \<in> set bs. good_batch b \<and> (\<forall>m \<in> set b. mut_key m \<in> {''X'', ''Y'', ''Z''})"
  shows "\<exists>db f' bs'. db_NodeMain L (NodeConfig_GetString ''db.path'' cfg w) f out = Some (Inr (db, f', out @ db_lines)) \<and>
    fs_exists L f' wal_path \<and> recs f' wal_path = map (serialize L) (bs @ bs') \<and> length bs' = 6 \<and>
    (\<forall>b \<in> set bs'. good_batch b \<and> (\<forall>m \<in> set b. mut_key m \<in> {''X'', ''Y'', ''Z''}))"
proof -
  let ?put = "\<lambda>k v. [\<lparr>mut_type = MutPut, mut_key = k, mut_value = Some v\<rparr>]"
  have other: "state_after bs k = None" if "k \<notin> {''X'', ''Y'', ''Z''}" for k
    using assms(5) that by (intro state_after_other) blast
  have "\<exists>s. Database_Open L ''/db'' Database_init f = Some (Inr s) \<and> holds L recs ''/db'' bs s"
    using Open_fresh [OF assms(2)] Open_existing [OF assms(2)] assms(3,4,5) unfolding wal_path_def by metis
  then obtain db0 f0 where o: "Database_Open L ''/db'' Database_init f = Some (Inr (db0, f0))" "holds L recs ''/db'' bs (db0, f0)"
    by auto
  define b1 where "b1 = bs @ [?put ''X'' ''v1'']"
  obtain db1 f1 where 1: "Database_Put L ''X'' ''v1'' db0 f0 = Inr (db1, f1)" "holds L recs ''/db'' b1 (db1, f1)"
    unfolding b1_def by (rule Put_holds [OF assms(2) o(2)])
  define b2 where "b2 = b1 @ [?put ''Y'' ''v1'']"
  obtain db2 f2 where 2: "Database_Put L ''Y'' ''v1'' db1 f1 = Inr (db2, f2)" "holds L recs ''/db'' b2 (db2, f2)"
    unfolding b2_def by (rule Put_holds [OF assms(2) 1(2)])
  define b3 where "b3 = b2 @ [?put ''Z'' ''v1'']"
  obtain db3 f3 where 3: "Database_Put L ''Z'' ''v1'' db2 f2 = Inr (db3, f3)" "holds L recs ''/db'' b3 (db3, f3)"
    unfolding b3_def by (rule Put_holds [OF assms(2) 2(2)])
  have "om_find [(''X'', ''v1''), (''Y'', ''v1''), (''Z'', ''v1'')] = state_after b3"
    by (rule ext) (simp add: b1_def b2_def b3_def state_after_put other del: append_assoc)
  then obtain n where s1: "Database_MakeSnapshot db3 = Inr \<lparr>snap_entries = [(''X'', ''v1''), (''Y'', ''v1''), (''Z'', ''v1'')], snap_version = n\<rparr>"
    using Snapshot_holds [OF 3(2), of "[(''X'', ''v1''), (''Y'', ''v1''), (''Z'', ''v1'')]"] by (auto simp: om_ok_def)
  define b4 where "b4 = b3 @ [?put ''Y'' ''v2'']"
  obtain db4 f4 where 4: "Database_Put L ''Y'' ''v2'' db3 f3 = Inr (db4, f4)" "holds L recs ''/db'' b4 (db4, f4)"
    unfolding b4_def by (rule Put_holds [OF assms(2) 3(2)])
  have "om_find [(''X'', ''v1''), (''Y'', ''v2''), (''Z'', ''v1'')] = state_after b4"
    by (rule ext) (simp add: b1_def b2_def b3_def b4_def state_after_put other del: append_assoc)
  then obtain n' where s2: "Database_MakeSnapshot db4 = Inr \<lparr>snap_entries = [(''X'', ''v1''), (''Y'', ''v2''), (''Z'', ''v1'')], snap_version = n'\<rparr>"
    using Snapshot_holds [OF 4(2), of "[(''X'', ''v1''), (''Y'', ''v2''), (''Z'', ''v1'')]"] by (auto simp: om_ok_def)
  define b5 where "b5 = b4 @ [?put ''X'' ''v3'']"
  obtain db5 f5 where 5: "Database_Put L ''X'' ''v3'' db4 f4 = Inr (db5, f5)" "holds L recs ''/db'' b5 (db5, f5)"
    unfolding b5_def by (rule Put_holds [OF assms(2) 4(2)])
  define b6 where "b6 = b5 @ [?put ''Z'' ''v3'']"
  obtain db6 f6 where 6: "Database_Put L ''Z'' ''v3'' db5 f5 = Inr (db6, f6)" "holds L recs ''/db'' b6 (db6, f6)"
    unfolding b6_def by (rule Put_holds [OF assms(2) 5(2)])
  have "db_NodeMain L (NodeConfig_GetString ''db.path'' cfg w) f out = Some (Inr (db6, f6, out @ db_lines))"
    by (simp add: db_NodeMain_def NodeConfig_GetString_def o(1) 1(1) 2(1) 3(1) s1 4(1) s2 5(1) 6(1) db_prints)
  moreover have "b6 = bs @ [?put ''X'' ''v1'', ?put ''Y'' ''v1'', ?put ''Z'' ''v1'', ?put ''Y'' ''v2'', ?put ''X'' ''v3'', ?put ''Z'' ''v3'']"
    by (simp add: b1_def b2_def b3_def b4_def b5_def b6_def)
  then have "fs_exists L f6 wal_path" "recs f6 wal_path = map (serialize L) (bs @
      [?put ''X'' ''v1'', ?put ''Y'' ''v1'', ?put ''Z'' ''v1'', ?put ''Y'' ''v2'', ?put ''X'' ''v3'', ?put ''Z'' ''v3''])"
    using 6(2) by (simp_all add: holds_def wal_path_def)
  ultimately show ?thesis
    by (intro exI [of _ db6] exI [of _ f6] exI [of _ "[?put ''X'' ''v1'', ?put ''Y'' ''v1'', ?put ''Z'' ''v1'', ?put ''Y'' ''v2'',
      ?put ''X'' ''v3'', ?put ''Z'' ''v3'']"]) (simp add: good_batch_def)
qed

theorem db_example_output_witness:
  "\<exists>db f. db_NodeMain list_disk (NodeConfig_GetString ''db.path'' \<lparr>c_id = 1, c_hostname = ''Mars'', c_pool = ''snowflakes''\<rparr> demo_world)
     Map.empty [] = Some (Inr (db, f, db_lines))"
  using db_example_output [OF list_disk_laws, of Map.empty "[]" "\<lparr>c_id = 1, c_hostname = ''Mars'', c_pool = ''snowflakes''\<rparr>" demo_world "[]"]
  by (fastforce simp: list_disk_def)

end
