(* ===== verification/Node_Runtime.thy ===== *)
theory Node_Runtime
  imports World
begin

text \<open>
  \<open>server/runtime/runtime.hpp\<close>, \<open>Server::MakeNodeRuntime\<close> and \<open>runtime/setup.cpp\<close>: the object that hands the
  services of a server to its program. Each service is an object in an optional slot and holds references to members
  of the server or to other services of the runtime; taking a service from an empty slot is undefined behaviour.
\<close>

section \<open>The runtime\<close>

datatype server_member =
    SchedulerMember | WallClockMember | MonotonicClockMember | FilesystemMember | TransportMember | ConfigMember | StdoutMember

datatype service =
    ThreadPoolService server_member
  | FiberManagerService
  | TimeServiceOn server_member server_member server_member
  | FSService server_member service
  | NetTransportService server_member
  | DatabaseService service
  | RandomGeneratorService
  | GuidGeneratorService
  | TrueTimeServiceOn
  | DiscoveryServiceOn
  | NodeConfigService server_member
  | TerminalService server_member
  | ExecutorOf service
  | WorldLogBackend

definition StaticObject_Init :: "'a \<Rightarrow> 'a option \<Rightarrow> 'a option" where
  "StaticObject_Init x slot = Some x"

definition StaticObject_Get :: "'a option \<Rightarrow> 'a res" where
  "StaticObject_Get slot = (case slot of None \<Rightarrow> Inl (Undefined ''empty optional'') | Some x \<Rightarrow> Inr x)"

record node_runtime =
  nr_thread_pool :: "service option"
  nr_fibers :: "service option"
  nr_time :: "service option"
  nr_fs :: "service option"
  nr_transport :: "service option"
  nr_db :: "service option"
  nr_random :: "service option"
  nr_guids :: "service option"
  nr_true_time :: "service option"
  nr_discovery :: "service option"
  nr_config :: "service option"
  nr_terminal :: "service option"

definition NodeRuntime :: node_runtime where
  "NodeRuntime = \<lparr>nr_thread_pool = None, nr_fibers = None, nr_time = None, nr_fs = None, nr_transport = None, nr_db = None,
     nr_random = None, nr_guids = None, nr_true_time = None, nr_discovery = None, nr_config = None, nr_terminal = None\<rparr>"

definition Runtime_Executor :: "node_runtime \<Rightarrow> service res" where
  "Runtime_Executor r = res_bind (StaticObject_Get (nr_thread_pool r)) (\<lambda>t. Inr (ExecutorOf t))"

definition Runtime_FiberManager :: "node_runtime \<Rightarrow> service res" where
  "Runtime_FiberManager r = StaticObject_Get (nr_fibers r)"

definition Runtime_TimeService :: "node_runtime \<Rightarrow> service res" where
  "Runtime_TimeService r = StaticObject_Get (nr_time r)"

definition Runtime_NetTransport :: "node_runtime \<Rightarrow> service res" where
  "Runtime_NetTransport r = StaticObject_Get (nr_transport r)"

definition Runtime_Database :: "node_runtime \<Rightarrow> service res" where
  "Runtime_Database r = StaticObject_Get (nr_db r)"

definition Runtime_GuidGenerator :: "node_runtime \<Rightarrow> service res" where
  "Runtime_GuidGenerator r = StaticObject_Get (nr_guids r)"

definition Runtime_RandomService :: "node_runtime \<Rightarrow> service res" where
  "Runtime_RandomService r = StaticObject_Get (nr_random r)"

definition Runtime_TrueTime :: "node_runtime \<Rightarrow> service res" where
  "Runtime_TrueTime r = StaticObject_Get (nr_true_time r)"

definition Runtime_FileSystem :: "node_runtime \<Rightarrow> service res" where
  "Runtime_FileSystem r = StaticObject_Get (nr_fs r)"

definition Runtime_LoggerBackend :: "node_runtime \<Rightarrow> service res" where
  "Runtime_LoggerBackend r = Inr WorldLogBackend"

definition Runtime_Config :: "node_runtime \<Rightarrow> service res" where
  "Runtime_Config r = StaticObject_Get (nr_config r)"

definition Runtime_DiscoveryService :: "node_runtime \<Rightarrow> service res" where
  "Runtime_DiscoveryService r = StaticObject_Get (nr_discovery r)"

definition Runtime_Terminal :: "node_runtime \<Rightarrow> service res" where
  "Runtime_Terminal r = StaticObject_Get (nr_terminal r)"

definition MakeNodeRuntime :: "node_runtime res" where
  "MakeNodeRuntime =
     (let r = NodeRuntime;
          r = r\<lparr>nr_thread_pool := StaticObject_Init (ThreadPoolService SchedulerMember) (nr_thread_pool r)\<rparr>;
          r = r\<lparr>nr_fibers := StaticObject_Init FiberManagerService (nr_fibers r)\<rparr>;
          r = r\<lparr>nr_time := StaticObject_Init (TimeServiceOn WallClockMember MonotonicClockMember SchedulerMember) (nr_time r)\<rparr>
      in res_bind (StaticObject_Get (nr_time r)) (\<lambda>time.
         let r = r\<lparr>nr_fs := StaticObject_Init (FSService FilesystemMember time) (nr_fs r)\<rparr>
         in res_bind (StaticObject_Get (nr_fs r)) (\<lambda>fs.
            let r = r\<lparr>nr_db := StaticObject_Init (DatabaseService fs) (nr_db r)\<rparr>;
                r = r\<lparr>nr_transport := StaticObject_Init (NetTransportService TransportMember) (nr_transport r)\<rparr>;
                r = r\<lparr>nr_random := StaticObject_Init RandomGeneratorService (nr_random r)\<rparr>;
                r = r\<lparr>nr_guids := StaticObject_Init GuidGeneratorService (nr_guids r)\<rparr>;
                r = r\<lparr>nr_true_time := StaticObject_Init TrueTimeServiceOn (nr_true_time r)\<rparr>;
                r = r\<lparr>nr_config := StaticObject_Init (NodeConfigService ConfigMember) (nr_config r)\<rparr>;
                r = r\<lparr>nr_discovery := StaticObject_Init DiscoveryServiceOn (nr_discovery r)\<rparr>;
                r = r\<lparr>nr_terminal := StaticObject_Init (TerminalService StdoutMember) (nr_terminal r)\<rparr>
            in Inr r)))"

section \<open>Reaching it\<close>

text \<open>The server makes its runtime when its process starts and destroys it in a crash.\<close>

definition GetNodeRuntime :: "('h, 'u) server \<Rightarrow> node_runtime res" where
  "GetNodeRuntime s = (if s_runtime s then MakeNodeRuntime else Inl (Undefined ''null runtime''))"

definition GetMatrixRuntime :: "('h, 'u) world \<Rightarrow> node_runtime res" where
  "GetMatrixRuntime w = res_bind (ThisServer w) (\<lambda>i. GetNodeRuntime (w_servers w ! i))"

definition DiscoveryService_ListPool :: "string \<Rightarrow> ('h, 'u) world \<Rightarrow> host_name list" where
  "DiscoveryService_ListPool name w = GetPool name w"

definition GuidGenerator_Generate :: "('h, 'u) world \<Rightarrow> string \<times> ('h, 'u) world" where
  "GuidGenerator_Generate w = GenerateGuid w"

definition Terminal_PrintLine :: "string \<Rightarrow> ('h, 'u) server \<Rightarrow> ('h, 'u) server" where
  "Terminal_PrintLine line s = PrintLine line s"

lemmas runtime_defs = MakeNodeRuntime_def NodeRuntime_def StaticObject_Init_def StaticObject_Get_def Let_def
  Runtime_Executor_def Runtime_FiberManager_def Runtime_TimeService_def Runtime_NetTransport_def Runtime_Database_def
  Runtime_GuidGenerator_def Runtime_RandomService_def Runtime_TrueTime_def Runtime_FileSystem_def Runtime_LoggerBackend_def
  Runtime_Config_def Runtime_DiscoveryService_def Runtime_Terminal_def

lemma StaticObject_Get_Inr: "StaticObject_Get slot = Inr x \<longleftrightarrow> slot = Some x"
  by (simp add: StaticObject_Get_def split: option.split)

text \<open>The program of a server that is alive reaches every service, whatever the server went through before: no slot is
  read before it is filled, neither while the runtime is made nor by any call of the program. Each service works on
  the members of the server; the file system waits on the time service the program uses, and the database
  runs over the file system the program uses. The program of a server that is not alive would go through a null pointer.\<close>

theorem runtime_ready:
  assumes "life_inv (w_servers w ! i)" and "w_active w = Some (ServerActor i)"
  shows "if IsAlive (w_servers w ! i) then \<exists>r time fs.
      GetMatrixRuntime w = Inr r \<and> time = TimeServiceOn WallClockMember MonotonicClockMember SchedulerMember \<and>
      fs = FSService FilesystemMember time \<and> Runtime_TimeService r = Inr time \<and> Runtime_FileSystem r = Inr fs \<and>
      Runtime_Database r = Inr (DatabaseService fs) \<and> Runtime_NetTransport r = Inr (NetTransportService TransportMember) \<and>
      Runtime_Executor r = Inr (ExecutorOf (ThreadPoolService SchedulerMember)) \<and> Runtime_FiberManager r = Inr FiberManagerService \<and>
      Runtime_RandomService r = Inr RandomGeneratorService \<and> Runtime_GuidGenerator r = Inr GuidGeneratorService \<and>
      Runtime_TrueTime r = Inr TrueTimeServiceOn \<and> Runtime_Config r = Inr (NodeConfigService ConfigMember) \<and>
      Runtime_DiscoveryService r = Inr DiscoveryServiceOn \<and> Runtime_Terminal r = Inr (TerminalService StdoutMember)
    else GetMatrixRuntime w = Inl (Undefined ''null runtime'')"
  using assms by (auto simp: GetMatrixRuntime_def GetNodeRuntime_def ThisServer_def life_inv_def runtime_defs)

end
