(* ===== verification/KV_Client.thy ===== *)
theory KV_Client
  imports KV_Simulation
begin

text \<open>
  \<open>examples/kv/client/client.hpp\<close> and the loop of \<open>Client\<close> in \<open>examples/kv/main.cpp\<close>: the blocking client of the
  key-value store. A call of the \<open>commute\<close> library, with its arguments and its trace id, is the argument \<open>rpc\<close>; it
  answers with an error or with the response, and the state in which the fiber of the client goes on.
\<close>

type_synonym ('h, 'u) kv_rpc = "string \<Rightarrow> string list \<Rightarrow> string \<Rightarrow> ('h, 'u) world \<Rightarrow> (error + string) \<times> ('h, 'u) world"

definition GenerateTraceId :: "string \<Rightarrow> ('h, 'u) world \<Rightarrow> string \<times> ('h, 'u) world" where
  "GenerateTraceId op w = (let (guid, w) = GenerateGuid w in (op @ ''-'' @ guid, w))"

definition BlockingClient_Set :: "('h, 'u) kv_rpc \<Rightarrow> string \<Rightarrow> string \<Rightarrow> ('h, 'u) world \<Rightarrow> ('h, 'u) world res" where
  "BlockingClient_Set rpc key v w =
     (let (trace_id, w) = GenerateTraceId ''Set'' w in
      case rpc ''KV.Set'' [key, v] trace_id w of (Inl e, w) \<Rightarrow> Inl e | (Inr _, w) \<Rightarrow> Inr w)"

definition BlockingClient_Get :: "('h, 'u) kv_rpc \<Rightarrow> string \<Rightarrow> ('h, 'u) world \<Rightarrow> (string \<times> ('h, 'u) world) res" where
  "BlockingClient_Get rpc key w =
     (let (trace_id, w) = GenerateTraceId ''Get'' w in
      case rpc ''KV.Get'' [key] trace_id w of (Inl e, w) \<Rightarrow> Inl e | (Inr v, w) \<Rightarrow> Inr (v, w))"

text \<open>One round of the loop of a client: the request, the counter, and the length of the pause.\<close>

definition Client_request :: "('h, 'u) kv_rpc \<Rightarrow> kv_request \<Rightarrow> ('h, 'u) world \<Rightarrow> ('h, 'u) world res" where
  "Client_request rpc q w =
     (case q of
        RequestSet key v \<Rightarrow> BlockingClient_Set rpc key v w
      | RequestGet key \<Rightarrow> res_bind (BlockingClient_Get rpc key w) (\<lambda>(v, w). Inr w))"

definition Client_round ::
    "('h, 'u) kv_rpc \<Rightarrow> 's random_below \<Rightarrow> 's random_number \<Rightarrow> ('h, 'u) world \<times> 's \<Rightarrow> (nat \<times> ('h, 'u) world \<times> 's) res" where
  "Client_round rpc rb rn = (\<lambda>(w, s).
     res_bind (Client_choose rb rn w s) (\<lambda>(q, s).
     res_bind (Client_request rpc q w) (\<lambda>w. Client_done rn w s)))"

text \<open>Rounds of the loop, which never ends by itself.\<close>

fun Client_rounds ::
    "('h, 'u) kv_rpc \<Rightarrow> 's random_below \<Rightarrow> 's random_number \<Rightarrow> nat \<Rightarrow> ('h, 'u) world \<times> 's \<Rightarrow> (('h, 'u) world \<times> 's) res" where
  "Client_rounds rpc rb rn 0 ws = Inr ws"
| "Client_rounds rpc rb rn (Suc n) ws =
     res_bind (Client_round rpc rb rn ws) (\<lambda>(delay, w, s). Client_rounds rpc rb rn n (w, s))"

section \<open>The counter of requests\<close>

text \<open>What the clients of the simulation set up by \<open>RunSimulation\<close> rely on: the number of keys is one of \<open>1, 2, 3\<close>.\<close>

definition client_globals :: "u64 \<Rightarrow> ('h, 'u) world \<Rightarrow> bool" where
  "client_globals v w \<longleftrightarrow> globals_ok w \<and> World_GetGlobal ''requests'' w = Some (AnySize v) \<and>
     (\<exists>k. World_GetGlobal ''keys'' w = Some (AnySize k) \<and> 0 < unat k \<and> unat k \<le> length kKeys)"

definition rpc_ok :: "('h, 'u) kv_rpc \<Rightarrow> bool" where
  "rpc_ok rpc \<longleftrightarrow> (\<forall>m args i w. w_globals (snd (rpc m args i w)) = w_globals w)"

lemma client_globals_same: "w_globals w' = w_globals w \<Longrightarrow> client_globals v w' = client_globals v w"
  by (simp add: client_globals_def globals_ok_def World_GetGlobal_find)

lemma Client_choose_ok:
  assumes "rb_ok rb" and "client_globals v w"
  shows "\<exists>q s'. Client_choose rb rn w s = Inr (q, s')"
proof -
  obtain k where k: "World_GetGlobal ''keys'' w = Some (AnySize k)" "0 < unat k" "unat k \<le> length kKeys"
    using assms(2) by (auto simp: client_globals_def)
  obtain i s1 where i: "rb (unat k) s = (i, s1)" by (cases "rb (unat k) s")
  have "fst (rb (unat k) s) < unat k" using assms(1) k(2) by (simp only: rb_ok_def)
  then have "i < length kKeys" using k(3) i by simp
  then have key: "RandomKey rb w s = Inr (kKeys ! i, s1)"
    by (simp add: RandomKey_def GetGlobal_def any_cast_def k(1) i)
  obtain b s2 where b: "Either rb s1 = (b, s2)" by (cases "Either rb s1")
  obtain v s3 where v: "RandomValue rn s2 = (v, s3)" by (cases "RandomValue rn s2")
  show ?thesis by (cases b) (simp_all add: Client_choose_def key b v)
qed

lemma Client_request_ok:
  assumes "rpc_ok rpc"
  shows "case Client_request rpc q w of
      Inl e \<Rightarrow> \<exists>m args i w. fst (rpc m args i w) = Inl e
    | Inr w' \<Rightarrow> w_globals w' = w_globals w"
proof -
  define m args op where "m = (case q of RequestSet k v \<Rightarrow> ''KV.Set'' | RequestGet k \<Rightarrow> ''KV.Get'')"
    and "args = (case q of RequestSet k v \<Rightarrow> [k, v] | RequestGet k \<Rightarrow> [k])"
    and "op = (case q of RequestSet k v \<Rightarrow> ''Set'' | RequestGet k \<Rightarrow> ''Get'')"
  note defs = m_def args_def op_def Client_request_def BlockingClient_Set_def BlockingClient_Get_def
  have call: "Client_request rpc q w = (case rpc m args (fst (GenerateTraceId op w)) (snd (GenerateTraceId op w)) of
      (r, w) \<Rightarrow> (case r of Inl e \<Rightarrow> Inl e | Inr _ \<Rightarrow> Inr w))"
    unfolding defs by (cases q) (simp_all add: case_prod_unfold Let_def split: sum.split)
  let ?r = "rpc m args (fst (GenerateTraceId op w)) (snd (GenerateTraceId op w))"
  have "w_globals (snd ?r) = w_globals w"
    using assms by (simp add: rpc_ok_def GenerateTraceId_def GenerateGuid_def case_prod_unfold Let_def)
  moreover have "fst ?r = Inl e \<Longrightarrow> \<exists>m args i w. fst (rpc m args i w) = Inl e" for e by blast
  ultimately show ?thesis unfolding call by (cases ?r; cases "fst ?r") auto
qed

lemma Client_round_ok:
  assumes "rb_ok rb" and "rpc_ok rpc" and g: "client_globals v w"
  shows "case Client_round rpc rb rn (w, s) of
      Inl e \<Rightarrow> \<exists>m args i w. fst (rpc m args i w) = Inl e
    | Inr (delay, w', s') \<Rightarrow> client_globals (v + 1) w'"
proof -
  obtain q s1 where q: "Client_choose rb rn w s = Inr (q, s1)" using Client_choose_ok [OF assms(1,3)] by blast
  show ?thesis
  proof (cases "Client_request rpc q w")
    case (Inl e)
    then show ?thesis using Client_request_ok [OF assms(2), where q = q and w = w] q by (simp add: Client_round_def)
  next
    case (Inr w1)
    then have "w_globals w1 = w_globals w" using Client_request_ok [OF assms(2), where q = q and w = w] by simp
    from client_globals_same [OF this, of v] g have g1: "client_globals v w1" by simp
    let ?w = "World_SetGlobal ''requests'' (AnySize (v + 1)) w1"
    have "GlobalCounter_Increment ''requests'' w1 = Inr (v, ?w)" using g1 by (simp add: client_globals_def counter_defs)
    moreover have "client_globals (v + 1) ?w" using g1 by (simp add: client_globals_def GetGlobal_SetGlobal)
    moreover obtain delay s2 where "rn 1 100 s1 = (delay, s2)" by (cases "rn 1 100 s1")
    ultimately show ?thesis using Inr q by (simp add: Client_round_def Client_done_def)
  qed
qed

text \<open>A client of the simulation counts its completed requests and nothing else: if the library call neither fails nor
  touches the globals of the world, any number of rounds goes through, no key is out of range, and the counter has grown
  by the number of rounds; and the loop stops only with an error that a call answered.\<close>

theorem client_counts_requests:
  assumes "rb_ok rb" and "rpc_ok rpc" and "client_globals v w"
  shows "case Client_rounds rpc rb rn n (w, s) of
      Inl e \<Rightarrow> \<exists>m args i w. fst (rpc m args i w) = Inl e
    | Inr (w', s') \<Rightarrow> client_globals (v + of_nat n) w' \<and> GetCounter ''requests'' w' = Inr (v + of_nat n)"
  using assms(3)
proof (induction n arbitrary: v w s)
  case 0
  then show ?case by (simp add: client_globals_def counter_defs)
next
  case (Suc n)
  show ?case
  proof (cases "Client_round rpc rb rn (w, s)")
    case (Inl e)
    then show ?thesis using Client_round_ok [OF assms(1,2) Suc.prems, of rn s] by simp
  next
    case (Inr p)
    obtain delay w1 s1 where p: "p = (delay, w1, s1)" by (cases p)
    have "client_globals (v + 1) w1" using Client_round_ok [OF assms(1,2) Suc.prems, of rn s] Inr p by simp
    moreover have "v + 1 + of_nat n = v + of_nat (Suc n)" by simp
    ultimately show ?thesis using Suc.IH [of "v + 1" w1 s1] Inr p by (simp only: Client_rounds.simps res_bind_simps case_prod_conv)
  qed
qed

end
