(* ===== verification/FS_Example.thy ===== *)
theory FS_Example
  imports Examples
begin

text \<open>
  \<open>examples/fs/main.cpp\<close>: a program that fills its disk in its first run, marks the end of that work with a flag file
  and reports what it finds in every run. The files of the program and the directory of the database are two parts
  of the state, since no path of the program lies in that directory. \<open>FileWriter\<close>, \<open>FileReader\<close> and \<open>ReadAll\<close> are
  the fields of a \<open>file_io\<close>, an argument of the definitions; \<open>show_path\<close> prints a path.
\<close>

section \<open>The program\<close>

record file_io =
  writer_open :: "path \<Rightarrow> file_system \<Rightarrow> (errc + fd) \<times> file_system"
  writer_write :: "fd \<Rightarrow> string \<Rightarrow> file_system \<Rightarrow> file_system res"
  writer_destroy :: "fd \<Rightarrow> file_system \<Rightarrow> file_system res"
  reader_all :: "path \<Rightarrow> file_system \<Rightarrow> (string \<times> file_system) res option"

record 'f test_node =
  tn_fs :: file_system
  tn_writer :: "fd option"
  tn_db :: database
  tn_disk :: 'f
  tn_out :: "string list"

definition flag_fpath :: path where "flag_fpath = ''/flag''"

definition test_fpath :: path where "test_fpath = ''/file''"

definition chunk_fpath :: "string \<Rightarrow> path" where
  "chunk_fpath name = PathAppend (PathAppend RootPath ''chunks'') name"

text \<open>The calls of the first run, in the order of the code; the writer is destroyed at the end of the block.\<close>

datatype setup_call =
    WriterOpen path
  | WriterWrite string
  | DbPut key db_value
  | DbDelete key
  | FsCreate path
  | WriterDestroy

definition setup_calls :: "setup_call list" where
  "setup_calls = [WriterOpen test_fpath, WriterWrite ''Hello, World!'', DbPut ''Test-Put'' ''Ok!'', DbPut ''Test-Delete'' ''...'',
     DbDelete ''Test-Delete'', FsCreate (chunk_fpath ''1''), FsCreate (chunk_fpath ''2''), FsCreate (chunk_fpath ''3''),
     FsCreate flag_fpath, WriterDestroy]"

definition on_writer :: "'f test_node \<Rightarrow> (fd \<Rightarrow> 'a res) \<Rightarrow> 'a res" where
  "on_writer st k = (case tn_writer st of None \<Rightarrow> Inl (Undefined ''closed writer'') | Some d \<Rightarrow> k d)"

fun exec_call :: "('f, 'r) wal_lib \<Rightarrow> file_io \<Rightarrow> setup_call \<Rightarrow> 'f test_node \<Rightarrow> 'f test_node res" where
  "exec_call L io (WriterOpen p) st =
     (case writer_open io p (tn_fs st) of
        (Inl e, s) \<Rightarrow> Inl (Panic ''ExpectOk'')
      | (Inr d, s) \<Rightarrow> Inr (st\<lparr>tn_fs := s, tn_writer := Some d\<rparr>))"
| "exec_call L io (WriterWrite data) st =
     on_writer st (\<lambda>d. res_bind (writer_write io d data (tn_fs st)) (\<lambda>s. Inr (st\<lparr>tn_fs := s\<rparr>)))"
| "exec_call L io (DbPut k v) st =
     res_bind (Database_Put L k v (tn_db st) (tn_disk st)) (\<lambda>(db, f). Inr (st\<lparr>tn_db := db, tn_disk := f\<rparr>))"
| "exec_call L io (DbDelete k) st =
     res_bind (Database_Delete L k (tn_db st) (tn_disk st)) (\<lambda>(db, f). Inr (st\<lparr>tn_db := db, tn_disk := f\<rparr>))"
| "exec_call L io (FsCreate p) st = Inr (st\<lparr>tn_fs := snd (FS_Create p (tn_fs st))\<rparr>)"
| "exec_call L io WriterDestroy st =
     on_writer st (\<lambda>d. res_bind (writer_destroy io d (tn_fs st)) (\<lambda>s. Inr (st\<lparr>tn_fs := s, tn_writer := None\<rparr>)))"

definition TestNode_open :: "('f, 'r) wal_lib \<Rightarrow> db_path res \<Rightarrow> 'f test_node \<Rightarrow> 'f test_node res option" where
  "TestNode_open L db_path st =
     run_bind (Some db_path) (\<lambda>d.
     run_bind (Database_Open L d (tn_db st) (tn_disk st)) (\<lambda>(db, f). Some (Inr (st\<lparr>tn_db := db, tn_disk := f\<rparr>))))"

text \<open>\<open>calls\<close> are the calls of the first run that are reached.\<close>

definition TestNode_setup ::
    "('f, 'r) wal_lib \<Rightarrow> file_io \<Rightarrow> setup_call list \<Rightarrow> 'f test_node \<Rightarrow> 'f test_node res" where
  "TestNode_setup L io calls st =
     (if \<not> FS_Exists flag_fpath (tn_fs st) then res_fold (exec_call L io) calls st else Inr st)"

definition TestNode_report ::
    "('f, 'r) wal_lib \<Rightarrow> file_io \<Rightarrow> (path \<Rightarrow> string) \<Rightarrow> bool \<Rightarrow> bool \<Rightarrow> 'f test_node \<Rightarrow> 'f test_node res option" where
  "TestNode_report L io show_path miss1 miss2 st =
     run_bind (Some (Database_TryGet L miss1 ''Test-Put'' (tn_db st) (tn_disk st))) (\<lambda>(v1, f).
     let out = tn_out st @ (case v1 of Some v \<Rightarrow> [''Test-Put -> '' @ v] | None \<Rightarrow> []) in
     run_bind (Some (Database_TryGet L miss2 ''Test-Delete'' (tn_db st) f)) (\<lambda>(v2, f).
     let out = out @ (if v2 = None then [''Test-Delete key not found in database''] else []) in
     run_bind (reader_all io test_fpath (tn_fs st)) (\<lambda>(text, s).
     let out = out @ [''Content of '' @ [CHR 0x27] @ ''/file'' @ [CHR 0x27] @ '': <'' @ text @ ''>''] @ [''List chunks:''] in
     run_bind (map_option Inr (FS_ListFiles s ''/chunks/'')) (\<lambda>chunks.
     Some (Inr (st\<lparr>tn_fs := s, tn_disk := f, tn_out := out @ map (\<lambda>p. [CHR 0x09] @ ''Chunk: '' @ show_path p) chunks\<rparr>))))))"

definition TestNode ::
    "('f, 'r) wal_lib \<Rightarrow> file_io \<Rightarrow> (path \<Rightarrow> string) \<Rightarrow> db_path res \<Rightarrow> bool \<Rightarrow> bool \<Rightarrow> 'f test_node \<Rightarrow> 'f test_node res option"
where
  "TestNode L io show_path db_path miss1 miss2 st =
     run_bind (TestNode_open L db_path st) (\<lambda>st.
     run_bind (Some (TestNode_setup L io setup_calls st)) (TestNode_report L io show_path miss1 miss2))"

text \<open>The node is restarted: its disk and its output stay.\<close>

definition restarted :: "'f test_node \<Rightarrow> 'f test_node" where
  "restarted st = st\<lparr>tn_fs := FS_Reset (tn_fs st), tn_writer := None, tn_db := Database_init\<rparr>"

text \<open>A run that is cut off after \<open>k\<close> of the calls that write.\<close>

definition TestNode_cut ::
    "('f, 'r) wal_lib \<Rightarrow> file_io \<Rightarrow> db_path res \<Rightarrow> nat \<Rightarrow> 'f test_node \<Rightarrow> 'f test_node res option" where
  "TestNode_cut L io db_path k st =
     run_bind (TestNode_open L db_path st) (\<lambda>st.
     run_bind (Some (TestNode_setup L io (take k setup_calls) st)) (\<lambda>st. Some (Inr (restarted st))))"

fun TestNode_cuts ::
    "('f, 'r) wal_lib \<Rightarrow> file_io \<Rightarrow> db_path res \<Rightarrow> nat list \<Rightarrow> 'f test_node \<Rightarrow> 'f test_node res option" where
  "TestNode_cuts L io db_path [] st = Some (Inr st)"
| "TestNode_cuts L io db_path (k # ks) st = run_bind (TestNode_cut L io db_path k st) (TestNode_cuts L io db_path ks)"

section \<open>What the calls do\<close>

text \<open>The writer appends through the calls of the file system, and the reader returns the content of a file.\<close>

definition file_io_ok :: "file_io \<Rightarrow> bool" where
  "file_io_ok io \<longleftrightarrow> (\<forall>p s. writer_open io p s = FS_Open p AppendMode s) \<and>
     (\<forall>d data s. writer_write io d data s = FS_Append d data s) \<and> (\<forall>d s. writer_destroy io d s = FS_Close d s) \<and>
     (\<forall>p s c. fs_ok s \<longrightarrow> content s p = Some c \<longrightarrow>
        (\<exists>s'. reader_all io p s = Some (Inr (c, s')) \<and> fs_ok s' \<and> content s' = content s \<and> files s' = files s))"

definition writer_ready :: "'f test_node \<Rightarrow> bool" where
  "writer_ready st \<longleftrightarrow> (\<exists>d f. tn_writer st = Some d \<and> om_find (opened_files (tn_fs st)) d = Some f \<and>
     of_mode f = AppendMode \<and> of_path f = test_fpath \<and> om_find (files (tn_fs st)) test_fpath = Some (of_file f))"

text \<open>The state of a run, as the contents of the files, the batches in the log, and whether the writer is open.\<close>

definition node_at ::
    "('f, 'r) wal_lib \<Rightarrow> ('f \<Rightarrow> db_path \<Rightarrow> 'r list) \<Rightarrow> db_path \<Rightarrow> (path \<rightharpoonup> string) \<times> mutation list list \<times> bool \<Rightarrow> 'f test_node \<Rightarrow> bool"
where
  "node_at L recs d = (\<lambda>(c, bs, w) st. fs_ok (tn_fs st) \<and> content (tn_fs st) = c \<and>
     holds L recs d bs (tn_db st, tn_disk st) \<and> (w \<longrightarrow> writer_ready st))"

definition touch :: "path \<Rightarrow> (path \<rightharpoonup> string) \<Rightarrow> path \<rightharpoonup> string" where
  "touch p c = c(p \<mapsto> (case c p of None \<Rightarrow> [] | Some x \<Rightarrow> x))"

fun call_effect ::
    "setup_call \<Rightarrow> (path \<rightharpoonup> string) \<times> mutation list list \<times> bool \<Rightarrow> (path \<rightharpoonup> string) \<times> mutation list list \<times> bool" where
  "call_effect (WriterOpen p) (c, bs, w) = (touch p c, bs, True)"
| "call_effect (WriterWrite data) (c, bs, w) = (c(test_fpath \<mapsto> the (c test_fpath) @ data), bs, w)"
| "call_effect (DbPut k v) (c, bs, w) = (c, bs @ [[\<lparr>mut_type = MutPut, mut_key = k, mut_value = Some v\<rparr>]], w)"
| "call_effect (DbDelete k) (c, bs, w) = (c, bs @ [[\<lparr>mut_type = MutDelete, mut_key = k, mut_value = None\<rparr>]], w)"
| "call_effect (FsCreate p) (c, bs, w) = (touch p c, bs, w)"
| "call_effect WriterDestroy (c, bs, w) = (c, bs, False)"

text \<open>What the program respects: it writes to the one file it has open.\<close>

fun call_allowed :: "setup_call \<Rightarrow> bool \<Rightarrow> bool" where
  "call_allowed (WriterOpen p) w \<longleftrightarrow> p = test_fpath"
| "call_allowed (WriterWrite data) w \<longleftrightarrow> w \<and> data \<noteq> []"
| "call_allowed WriterDestroy w \<longleftrightarrow> w"
| "call_allowed _ w \<longleftrightarrow> True"

fun calls_allowed :: "setup_call list \<Rightarrow> bool \<Rightarrow> bool" where
  "calls_allowed [] w \<longleftrightarrow> True"
| "calls_allowed (a # as) w \<longleftrightarrow> call_allowed a w \<and> calls_allowed as (snd (snd (call_effect a (Map.empty, [], w))))"

lemma touch_id: "c p \<noteq> None \<Longrightarrow> touch p c = c"
  by (rule ext) (auto simp: touch_def)

lemma FS_Create_content: "fs_ok s \<Longrightarrow> fs_ok (snd (FS_Create p s)) \<and> content (snd (FS_Create p s)) = touch p (content s)"
  by (auto simp: FS_Create_eq FS_Exists_def fs_ok_link_new content_link_new touch_id) (simp add: touch_def content_def)

lemma writer_ready_Create: "fs_ok (tn_fs st) \<Longrightarrow> writer_ready st \<Longrightarrow> writer_ready (st\<lparr>tn_fs := snd (FS_Create p (tn_fs st))\<rparr>)"
  by (auto simp: writer_ready_def FS_Create_eq FS_Exists_def link_new_def om_find_assign fs_okD(1))

lemma writer_opens:
  assumes ok: "fs_ok s"
  obtains d s' f where "FS_Open test_fpath AppendMode s = (Inr d, s')" and "fs_ok s'" and "content s' = touch test_fpath (content s)"
    and "om_find (opened_files s') d = Some f" and "of_mode f = AppendMode" and "of_path f = test_fpath"
    and "om_find (files s') test_fpath = Some (of_file f)"
proof -
  let ?s = "snd (FS_Create test_fpath s)"
  have s: "fs_ok ?s" "content ?s = touch test_fpath (content s)" using FS_Create_content [OF ok] by blast+
  obtain r where r: "om_find (files ?s) test_fpath = Some r"
    using link_new_find [OF ok, of test_fpath]
    by (cases "om_find (files s) test_fpath") (auto simp: FS_Create_eq FS_Exists_def)
  have same: "next_fd ?s = next_fd s" "opened_files ?s = opened_files s" by (auto simp: FS_Create_eq link_new_def)
  have opened: "FS_Open test_fpath AppendMode s = (Inr (Suc (next_fd s)), add_handle test_fpath AppendMode r ?s)"
    using r same by (auto simp: FS_Open_eq FS_Create_eq FS_Exists_def link_new_find [OF ok] split: option.split)
  have "om_find (opened_files ?s) (Suc (next_fd s)) = None"
    using handles_below [OF s(1)] same by (auto simp: om_find_None)
  then have handle: "om_find (opened_files (add_handle test_fpath AppendMode r ?s)) (Suc (next_fd s)) =
      Some \<lparr>of_fd = Suc (next_fd s), of_path = test_fpath, of_mode = AppendMode, of_offset = InitOffset r AppendMode ?s, of_file = r\<rparr>"
    using same by (simp add: add_handle_def om_emplace_def om_find_assign fs_okD(2) [OF ok])
  show thesis
    by (rule that [OF opened _ _ handle]) (use s r in \<open>simp_all add: fs_ok_add_handle\<close>, simp add: add_handle_def)
qed

lemma writer_appends:
  assumes ok: "fs_ok s" and h: "om_find (opened_files s) d = Some f" "of_mode f = AppendMode"
    "om_find (files s) test_fpath = Some (of_file f)" and data: "data \<noteq> []"
  obtains s' where "FS_Append d data s = Inr s'" and "fs_ok s'" and "files s' = files s" and "opened_files s' = opened_files s"
    and "content s' = (content s)(test_fpath \<mapsto> the (content s test_fpath) @ data)"
proof (rule that)
  let ?s = "s\<lparr>inodes := (inodes s)[of_file f := inodes s ! of_file f @ data]\<rparr>"
  show "FS_Append d data s = Inr ?s" using h data by (simp add: FS_Append_Inr)
  show "fs_ok ?s" by (rule fs_ok_inodes [OF ok])
  show "content ?s = (content s)(test_fpath \<mapsto> the (content s test_fpath) @ data)"
    using content_update [OF ok h(3)] h(3) by (simp add: content_def)
qed simp_all

lemma Database_Delete_holds:
  assumes "wal_laws L recs" and "holds L recs d bs (db, f)"
  obtains db' f' where "Database_Delete L k db f = Inr (db', f')"
    and "holds L recs d (bs @ [[\<lparr>mut_type = MutDelete, mut_key = k, mut_value = None\<rparr>]]) (db', f')"
proof -
  have "EnsureOpened db x = x" for x :: "(database \<times> 'a) res" using assms(2) by (auto simp: holds_def EnsureOpened_def)
  moreover have "good_batch [\<lparr>mut_type = MutDelete, mut_key = k, mut_value = None\<rparr>]" by (simp add: good_batch_def)
  ultimately show thesis
    using DoWrite_holds [OF assms(1,2)] wal_lawsD(14) [OF assms(1)] that by (fastforce simp: Database_Delete_def)
qed

lemma exec_call_ok:
  assumes laws: "wal_laws L recs" and io: "file_io_ok io" and st: "node_at L recs d (c, bs, w) st" and allowed: "call_allowed a w"
  shows "\<exists>st'. exec_call L io a st = Inr st' \<and> node_at L recs d (call_effect a (c, bs, w)) st' \<and> tn_out st' = tn_out st"
proof -
  have ok: "fs_ok (tn_fs st)" and c: "content (tn_fs st) = c" and h: "holds L recs d bs (tn_db st, tn_disk st)"
    using st by (auto simp: node_at_def)
  have ready: "\<exists>d f. tn_writer st = Some d \<and> om_find (opened_files (tn_fs st)) d = Some f \<and> of_mode f = AppendMode \<and>
      of_path f = test_fpath \<and> om_find (files (tn_fs st)) test_fpath = Some (of_file f)" if w
    using st that by (auto simp: node_at_def writer_ready_def)
  show ?thesis
  proof (cases a)
    case (WriterOpen p)
    then have p: "p = test_fpath" using allowed by simp
    show ?thesis by (rule writer_opens [OF ok]) (use WriterOpen p io c h in \<open>auto simp: node_at_def file_io_ok_def writer_ready_def\<close>)
  next
    case (WriterWrite data)
    then obtain e f where f: "tn_writer st = Some e" "om_find (opened_files (tn_fs st)) e = Some f" "of_mode f = AppendMode"
      "of_path f = test_fpath" "om_find (files (tn_fs st)) test_fpath = Some (of_file f)" "data \<noteq> []"
      using ready allowed by auto
    show ?thesis by (rule writer_appends [OF ok f(2,3,5,6)])
        (use WriterWrite f io c h in \<open>auto simp: node_at_def file_io_ok_def writer_ready_def on_writer_def\<close>)
  next
    case (DbPut k v)
    show ?thesis by (rule Put_holds [OF laws h, of k v])
        (use DbPut ok c ready in \<open>auto simp: node_at_def writer_ready_def\<close>)
  next
    case (DbDelete k)
    show ?thesis by (rule Database_Delete_holds [OF laws h, of k])
        (use DbDelete ok c ready in \<open>auto simp: node_at_def writer_ready_def\<close>)
  next
    case (FsCreate p)
    then show ?thesis using FS_Create_content [OF ok, of p] writer_ready_Create [OF ok] st by (simp add: node_at_def)
  next
    case WriterDestroy
    then obtain e f where f: "tn_writer st = Some e" "om_find (opened_files (tn_fs st)) e = Some f" using ready allowed by auto
    then have "FS_Close e (tn_fs st) = Inr ((tn_fs st)\<lparr>opened_files := om_erase e (opened_files (tn_fs st))\<rparr>)"
      by (simp add: FS_Close_Inr)
    moreover from fs_ok_step [OF ok, of take_reader "Close e"] this
    have "fs_ok ((tn_fs st)\<lparr>opened_files := om_erase e (opened_files (tn_fs st))\<rparr>)" by simp
    ultimately show ?thesis using WriterDestroy f io c h by (simp add: node_at_def file_io_ok_def on_writer_def content_def)
  qed
qed


lemma call_effect_writer: "snd (snd (call_effect a (c, bs, w))) = snd (snd (call_effect a (c', bs', w)))"
  by (cases a) simp_all

lemma exec_calls_ok:
  assumes laws: "wal_laws L recs" and io: "file_io_ok io"
  shows "node_at L recs d (c, bs, w) st \<Longrightarrow> calls_allowed as w \<Longrightarrow>
    \<exists>st'. res_fold (exec_call L io) as st = Inr st' \<and> node_at L recs d (fold call_effect as (c, bs, w)) st' \<and> tn_out st' = tn_out st"
proof (induction as arbitrary: st c bs w)
  case (Cons a as)
  obtain st1 where st1: "exec_call L io a st = Inr st1" "node_at L recs d (call_effect a (c, bs, w)) st1" "tn_out st1 = tn_out st"
    using exec_call_ok [OF laws io Cons.prems(1)] Cons.prems(2) by auto
  obtain c' bs' w' where e: "call_effect a (c, bs, w) = (c', bs', w')" by (cases "call_effect a (c, bs, w)")
  have "calls_allowed as w'" using Cons.prems(2) call_effect_writer [of a c bs w Map.empty "[]"] e by simp
  with Cons.IH [of c' bs' w' st1] st1 e show ?case by auto
qed auto

section \<open>Runs\<close>

definition hello_text :: "nat \<Rightarrow> string" where
  "hello_text n = concat (replicate n ''Hello, World!'')"

lemma hello_text_Suc: "hello_text (Suc n) = hello_text n @ ''Hello, World!''"
proof -
  have "replicate (Suc n) ''Hello, World!'' = replicate n ''Hello, World!'' @ [''Hello, World!'']"
    by (simp add: replicate_append_same)
  then show ?thesis unfolding hello_text_def by (simp only: concat_append concat.simps append_Nil2)
qed

text \<open>A disk on which the text was written \<open>n\<close> times, with the flag or without it.\<close>

definition program_fpaths :: "path set" where
  "program_fpaths = insert test_fpath (insert flag_fpath (chunk_fpath ` {''1'', ''2'', ''3''}))"

definition disk_inv :: "nat \<Rightarrow> bool \<Rightarrow> (path \<rightharpoonup> string) \<Rightarrow> mutation list list \<Rightarrow> bool" where
  "disk_inv n flag c bs \<longleftrightarrow> (\<forall>p. p \<notin> program_fpaths \<longrightarrow> c p = None) \<and>
     (c test_fpath = Some (hello_text n) \<or> n = 0 \<and> c test_fpath = None) \<and> (c flag_fpath = None \<longleftrightarrow> \<not> flag) \<and>
     (flag \<longrightarrow> 0 < n \<and> (\<forall>x \<in> {''1'', ''2'', ''3''}. c (chunk_fpath x) \<noteq> None) \<and>
        state_after bs ''Test-Put'' = Some ''Ok!'' \<and> state_after bs ''Test-Delete'' = None) \<and>
     (\<forall>b \<in> set bs. good_batch b)"

lemma touch_simps [simp]:
  "touch p c p = Some (case c p of None \<Rightarrow> [] | Some x \<Rightarrow> x)" "q \<noteq> p \<Longrightarrow> touch p c q = c q"
  by (auto simp: touch_def)

lemma touch_None [simp]: "touch p c q = None \<longleftrightarrow> q \<noteq> p \<and> c q = None"
  by (auto simp: touch_def)

lemmas fpath_defs = flag_fpath_def test_fpath_def chunk_fpath_def PathAppend_def RootPath_def

lemma setup_allowed: "calls_allowed (take k setup_calls) False"
proof -
  have "calls_allowed (take k (a # as)) w" if "call_allowed a w" "\<And>k. calls_allowed (take k as) (snd (snd (call_effect a (Map.empty, [], w))))"
    for a as w k using that by (cases k) simp_all
  note this [simp]
  show ?thesis unfolding setup_calls_def by simp
qed

lemma fpaths_differ [simp]:
  "test_fpath \<noteq> flag_fpath" "flag_fpath \<noteq> test_fpath" "chunk_fpath x \<noteq> test_fpath" "chunk_fpath x \<noteq> flag_fpath"
  "test_fpath \<noteq> chunk_fpath x" "flag_fpath \<noteq> chunk_fpath x" "chunk_fpath x = chunk_fpath y \<longleftrightarrow> x = y"
  by (auto simp: fpath_defs)

lemma good_calls [simp]:
  "good_batch [\<lparr>mut_type = MutPut, mut_key = k, mut_value = Some v\<rparr>]"
  "good_batch [\<lparr>mut_type = MutDelete, mut_key = k, mut_value = None\<rparr>]"
  by (simp_all add: good_batch_def)

lemma state_after_call [simp]:
  "state_after (bs @ [[\<lparr>mut_type = MutPut, mut_key = k, mut_value = Some v\<rparr>]]) = (state_after bs)(k \<mapsto> v)"
  "state_after (bs @ [[\<lparr>mut_type = MutDelete, mut_key = k, mut_value = None\<rparr>]]) = (state_after bs)(k := None)"
  by (simp_all add: state_after_snoc apply_batch_def as_update_def)

text \<open>The first two calls write the text; the ones after them, up to the flag, leave it alone.\<close>

lemma disk_inv_touch:
  assumes "disk_inv n False c bs" and "p \<in> program_fpaths" and "p \<noteq> flag_fpath"
  shows "disk_inv n False (touch p c) bs"
  using assms by (cases "p = test_fpath") (auto simp: disk_inv_def hello_text_def)

lemma disk_inv_write:
  assumes "disk_inv n False c bs"
  shows "disk_inv (Suc n) False ((touch test_fpath c)(test_fpath \<mapsto> the (touch test_fpath c test_fpath) @ ''Hello, World!'')) bs"
  using disk_inv_touch [OF assms, of test_fpath]
  by (auto simp: disk_inv_def hello_text_Suc program_fpaths_def simp del: touch_simps split: if_splits)

lemma disk_inv_log: "disk_inv n False c bs \<Longrightarrow> good_batch b \<Longrightarrow> disk_inv n False c (bs @ [b])"
  by (auto simp: disk_inv_def)

fun quiet :: "setup_call \<Rightarrow> bool" where
  "quiet (FsCreate p) \<longleftrightarrow> p \<in> program_fpaths \<and> p \<noteq> flag_fpath"
| "quiet (DbPut k v) \<longleftrightarrow> True"
| "quiet (DbDelete k) \<longleftrightarrow> True"
| "quiet _ \<longleftrightarrow> False"

lemma quiet_calls:
  "disk_inv n False c bs \<Longrightarrow> \<forall>a \<in> set as. quiet a \<Longrightarrow>
    case fold call_effect as (c, bs, w) of (c', bs', w') \<Rightarrow> disk_inv n False c' bs'"
proof (induction as arbitrary: c bs)
  case (Cons a as)
  then show ?case by (cases a) (simp_all add: disk_inv_touch disk_inv_log)
qed simp

lemma all_calls:
  assumes "disk_inv n False c bs" and "9 \<le> k"
  shows "case fold call_effect (take k setup_calls) (c, bs, False) of (c', bs', w') \<Rightarrow> disk_inv (Suc n) True c' bs'"
proof -
  have "k = 9 \<or> take k setup_calls = setup_calls" using assms(2) by (auto simp: setup_calls_def)
  moreover have "take 9 setup_calls = butlast setup_calls" by (simp add: setup_calls_def)
  moreover have "disk_inv (Suc n) False ((touch test_fpath c)(test_fpath \<mapsto> the (touch test_fpath c test_fpath) @ ''Hello, World!'')) bs"
    by (rule disk_inv_write [OF assms(1)])
  ultimately show ?thesis
    by (auto simp: setup_calls_def disk_inv_def program_fpaths_def simp del: append_assoc)
qed

definition middle_calls :: "setup_call list" where
  "middle_calls = [DbPut ''Test-Put'' ''Ok!'', DbPut ''Test-Delete'' ''...'', DbDelete ''Test-Delete'',
     FsCreate (chunk_fpath ''1''), FsCreate (chunk_fpath ''2''), FsCreate (chunk_fpath ''3'')]"

lemma middle_calls_length: "length middle_calls = 6"
  by (simp add: middle_calls_def)

lemma setup_split:
  "setup_calls = WriterOpen test_fpath # WriterWrite ''Hello, World!'' # middle_calls @ [FsCreate flag_fpath, WriterDestroy]"
  by (simp add: setup_calls_def middle_calls_def)

lemma cut_effect:
  assumes "disk_inv n False c bs"
  shows "case fold call_effect (take k setup_calls) (c, bs, False) of (c', bs', w') \<Rightarrow>
    disk_inv (n + of_bool (2 \<le> k)) (9 \<le> k) c' bs'"
proof (cases "9 \<le> k")
  case True
  then show ?thesis using all_calls [OF assms True] by (simp add: case_prod_unfold)
next
  case False
  consider "k = 0" | "k = 1" | j where "k = Suc (Suc j)" "j \<le> 6" using False by (cases k; cases "k - 1") (auto simp: less_Suc_eq_le)
  then show ?thesis
  proof cases
    case 1
    then show ?thesis using assms by simp
  next
    case 2
    have "test_fpath \<in> program_fpaths" by (simp add: program_fpaths_def)
    then show ?thesis using 2 disk_inv_touch [OF assms, of test_fpath] by (simp add: setup_split)
  next
    case 3
    have "\<forall>a \<in> set (take j middle_calls). quiet a"
      by (auto dest!: in_set_takeD simp: middle_calls_def program_fpaths_def)
    from quiet_calls [OF disk_inv_write [OF assms] this, of True]
    show ?thesis using 3 by (simp add: setup_split middle_calls_length)
  qed
qed


text \<open>The disk between two runs.\<close>

definition at_rest ::
    "('f, 'r) wal_lib \<Rightarrow> ('f \<Rightarrow> db_path \<Rightarrow> 'r list) \<Rightarrow> db_path \<Rightarrow> nat \<Rightarrow> bool \<Rightarrow> 'f test_node \<Rightarrow> bool" where
  "at_rest L recs d n flag st \<longleftrightarrow> fs_ok (tn_fs st) \<and> tn_db st = Database_init \<and>
     (\<exists>bs. disk_inv n flag (content (tn_fs st)) bs \<and>
        (if fs_exists L (tn_disk st) (path_join L d ''wal'') then recs (tn_disk st) (path_join L d ''wal'') = map (serialize L) bs
         else bs = []))"

lemma TestNode_open_ok:
  assumes laws: "wal_laws L recs" and rest: "at_rest L recs d n flag st"
  obtains st' bs where "TestNode_open L (Inr d) st = Some (Inr st')" and "tn_fs st' = tn_fs st" and "tn_out st' = tn_out st"
    and "node_at L recs d (content (tn_fs st), bs, False) st'" and "disk_inv n flag (content (tn_fs st)) bs"
proof -
  from rest obtain bs where bs: "disk_inv n flag (content (tn_fs st)) bs"
    "if fs_exists L (tn_disk st) (path_join L d ''wal'') then recs (tn_disk st) (path_join L d ''wal'') = map (serialize L) bs else bs = []"
    and st: "fs_ok (tn_fs st)" "tn_db st = Database_init" by (auto simp: at_rest_def)
  have "\<exists>s. Database_Open L d (tn_db st) (tn_disk st) = Some (Inr s) \<and> holds L recs d bs s"
  proof (cases "fs_exists L (tn_disk st) (path_join L d ''wal'')")
    case True
    then show ?thesis using Open_existing [OF laws True] bs by (simp add: disk_inv_def)
  next
    case False
    then show ?thesis using Open_fresh [OF laws False] bs st by simp
  qed
  then show thesis using st bs(1)
    by (auto simp: TestNode_open_def node_at_def intro!: that)
qed

lemma at_rest_restarted:
  assumes "node_at L recs d (c, bs, w) st" and "disk_inv n flag c bs"
  shows "at_rest L recs d n flag (restarted st)"
proof -
  have ok: "fs_ok (tn_fs st)" using assms(1) by (simp add: node_at_def)
  have "fs_ok (FS_Reset (tn_fs st))" by (rule fs_ok_step [OF ok, of take_reader Crash]) simp
  then show ?thesis using assms
    by (auto simp: at_rest_def restarted_def node_at_def holds_def FS_Reset_def content_def)
qed

lemma TestNode_setup_ok:
  assumes laws: "wal_laws L recs" and io: "file_io_ok io" and st: "node_at L recs d (c, bs, False) st" and inv: "disk_inv n flag c bs"
  obtains st' c' bs' w' where "TestNode_setup L io (take k setup_calls) st = Inr st'" and "tn_out st' = tn_out st"
    and "node_at L recs d (c', bs', w') st'"
    and "disk_inv (if flag then n else n + of_bool (2 \<le> k)) (flag \<or> 9 \<le> k) c' bs'"
proof (cases flag)
  case True
  then have "FS_Exists flag_fpath (tn_fs st)" using inv st by (auto simp: FS_Exists_def disk_inv_def node_at_def content_def)
  then show thesis using that st inv True by (simp add: TestNode_setup_def)
next
  case False
  then have "\<not> FS_Exists flag_fpath (tn_fs st)" using inv st by (auto simp: FS_Exists_def disk_inv_def node_at_def content_def)
  moreover obtain st' where "res_fold (exec_call L io) (take k setup_calls) st = Inr st'"
    "node_at L recs d (fold call_effect (take k setup_calls) (c, bs, False)) st'" "tn_out st' = tn_out st"
    using exec_calls_ok [OF laws io st setup_allowed] by blast
  moreover have "disk_inv n False c bs" using inv False by simp
  from cut_effect [OF this, of k] obtain c' bs' w' where "fold call_effect (take k setup_calls) (c, bs, False) = (c', bs', w')"
    "disk_inv (n + of_bool (2 \<le> k)) (9 \<le> k) c' bs'" by (auto split: prod.splits)
  ultimately show thesis using that False by (simp add: TestNode_setup_def)
qed


lemma TestNode_cut_ok:
  assumes laws: "wal_laws L recs" and io: "file_io_ok io" and rest: "at_rest L recs d n flag st"
  shows "\<exists>st'. TestNode_cut L io (Inr d) k st = Some (Inr st') \<and> tn_out st' = tn_out st \<and>
    at_rest L recs d (if flag then n else n + of_bool (2 \<le> k)) (flag \<or> 9 \<le> k) st'"
proof -
  obtain st1 bs where st1: "TestNode_open L (Inr d) st = Some (Inr st1)" "tn_out st1 = tn_out st"
    "node_at L recs d (content (tn_fs st), bs, False) st1" "disk_inv n flag (content (tn_fs st)) bs"
    using TestNode_open_ok [OF laws rest] by metis
  obtain st2 c' bs' w' where st2: "TestNode_setup L io (take k setup_calls) st1 = Inr st2" "tn_out st2 = tn_out st1"
    "node_at L recs d (c', bs', w') st2" "disk_inv (if flag then n else n + of_bool (2 \<le> k)) (flag \<or> 9 \<le> k) c' bs'"
    using TestNode_setup_ok [OF laws io st1(3,4)] by metis
  then show ?thesis using st1(1,2) at_rest_restarted [OF st2(3,4)] by (simp add: TestNode_cut_def) (simp add: restarted_def)
qed

definition times_written :: "nat list \<Rightarrow> nat" where
  "times_written ks = length (filter (\<lambda>k. 2 \<le> k) (takeWhile (\<lambda>k. k < 9) ks))"

lemma TestNode_cuts_ok:
  assumes laws: "wal_laws L recs" and io: "file_io_ok io"
  shows "at_rest L recs d n flag st \<Longrightarrow> \<exists>st'. TestNode_cuts L io (Inr d) ks st = Some (Inr st') \<and> tn_out st' = tn_out st \<and>
    at_rest L recs d (if flag then n else n + times_written ks + of_bool (\<exists>k \<in> set ks. 9 \<le> k)) (flag \<or> (\<exists>k \<in> set ks. 9 \<le> k)) st'"
proof (induction ks arbitrary: st n flag)
  case Nil
  then show ?case by (cases flag) (simp_all add: times_written_def)
next
  case (Cons k ks)
  obtain st1 where st1: "TestNode_cut L io (Inr d) k st = Some (Inr st1)" "tn_out st1 = tn_out st"
    "at_rest L recs d (if flag then n else n + of_bool (2 \<le> k)) (flag \<or> 9 \<le> k) st1"
    using TestNode_cut_ok [OF laws io Cons.prems, of k] by blast
  show ?case
  proof (cases "flag \<or> 9 \<le> k")
    case True
    then show ?thesis using st1 Cons.IH [OF st1(3)] by (cases flag) (auto simp: times_written_def)
  next
    case False
    from Cons.IH [OF st1(3)] obtain st' where "TestNode_cuts L io (Inr d) ks st1 = Some (Inr st')" "tn_out st' = tn_out st1"
      "at_rest L recs d (n + of_bool (2 \<le> k) + times_written ks + of_bool (\<exists>k \<in> set ks. 9 \<le> k)) (\<exists>k \<in> set ks. 9 \<le> k) st'"
      using False by auto
    moreover have "times_written (k # ks) = of_bool (2 \<le> k) + times_written ks" using False by (simp add: times_written_def)
    ultimately show ?thesis using False st1(1,2) by (simp add: ac_simps)
  qed
qed

text \<open>The report of a run.\<close>

definition report_lines :: "(path \<Rightarrow> string) \<Rightarrow> nat \<Rightarrow> string list" where
  "report_lines show_path n = [''Test-Put -> Ok!'', ''Test-Delete key not found in database'',
     ''Content of '' @ [CHR 0x27] @ ''/file'' @ [CHR 0x27] @ '': <'' @ hello_text n @ ''>'', ''List chunks:''] @
     map (\<lambda>p. [CHR 0x09] @ ''Chunk: '' @ show_path p) [''/chunks/1'', ''/chunks/2'', ''/chunks/3'']"

lemma chunk_list:
  assumes ok: "fs_ok s" and inv: "disk_inv n True (content s) bs"
  shows "FS_ListFiles s ''/chunks/'' = Some [''/chunks/1'', ''/chunks/2'', ''/chunks/3'']"
proof -
  let ?xs = "filter (prefix ''/chunks/'') (map fst (files s))" and ?ys = "[''/chunks/1'', ''/chunks/2'', ''/chunks/3'']"
  have keys: "p \<in> set (map fst (files s)) \<longleftrightarrow> content s p \<noteq> None" for p
    by (auto simp: om_find_None image_iff)
  have "content s p = None \<longleftrightarrow> p \<notin> program_fpaths" for p
    using inv unfolding disk_inv_def program_fpaths_def by (auto simp del: content_None)
  then have "set ?xs = {p \<in> program_fpaths. prefix ''/chunks/'' p}" using keys by auto
  moreover have paths: "program_fpaths = set [''/file'', ''/flag'', ''/chunks/1'', ''/chunks/2'', ''/chunks/3'']"
    by (simp add: program_fpaths_def fpath_defs)
  have "{p \<in> program_fpaths. prefix ''/chunks/'' p} = set (filter (prefix ''/chunks/'') [''/file'', ''/flag'', ''/chunks/1'', ''/chunks/2'', ''/chunks/3''])"
    unfolding paths set_filter by blast
  ultimately have "set ?xs = set ?ys" by simp
  moreover have "sorted_wrt (<) ?xs" using fs_okD(1) [OF ok] by (auto simp: om_ok_def sorted_wrt_filter)
  moreover have "sorted_wrt (<) ?ys" by simp
  ultimately have "?xs = ?ys" by (metis strict_sorted_equal)
  then show ?thesis using ListFiles_node_and_server [of s "''/chunks/''"] by simp
qed

lemma TestNode_report_ok:
  assumes laws: "wal_laws L recs" and io: "file_io_ok io" and st: "node_at L recs d (c, bs, w) st" and inv: "disk_inv n True c bs"
  shows "\<exists>st'. TestNode_report L io show_path miss1 miss2 st = Some (Inr st') \<and>
    tn_out st' = tn_out st @ report_lines show_path n \<and> node_at L recs d (c, bs, False) st'"
proof -
  have ok: "fs_ok (tn_fs st)" and c: "content (tn_fs st) = c" and h: "holds L recs d bs (tn_db st, tn_disk st)"
    using st by (auto simp: node_at_def)
  obtain f1 where f1: "Database_TryGet L miss1 ''Test-Put'' (tn_db st) (tn_disk st) = Inr (state_after bs ''Test-Put'', f1)"
    "holds L recs d bs (tn_db st, f1)" using TryGet_holds [OF laws h] by blast
  obtain f2 where f2: "Database_TryGet L miss2 ''Test-Delete'' (tn_db st) f1 = Inr (state_after bs ''Test-Delete'', f2)"
    "holds L recs d bs (tn_db st, f2)" using TryGet_holds [OF laws f1(2)] by blast
  have "content (tn_fs st) test_fpath = Some (hello_text n)" using inv c by (auto simp: disk_inv_def)
  then obtain s where s: "reader_all io test_fpath (tn_fs st) = Some (Inr (hello_text n, s))" "fs_ok s"
    "content s = content (tn_fs st)" using io ok unfolding file_io_ok_def by blast
  have "FS_ListFiles s ''/chunks/'' = Some [''/chunks/1'', ''/chunks/2'', ''/chunks/3'']"
    using chunk_list [OF s(2)] inv s(3) c by simp
  then show ?thesis using f1(1) f2 s inv c
    by (simp add: TestNode_report_def disk_inv_def report_lines_def Let_def node_at_def)
qed

lemma TestNode_ok:
  assumes laws: "wal_laws L recs" and io: "file_io_ok io" and rest: "at_rest L recs d n flag st"
  shows "\<exists>st'. TestNode L io show_path (Inr d) miss1 miss2 st = Some (Inr st') \<and>
    tn_out st' = tn_out st @ report_lines show_path (if flag then n else Suc n) \<and>
    at_rest L recs d (if flag then n else Suc n) True (restarted st')"
proof -
  obtain st1 bs where st1: "TestNode_open L (Inr d) st = Some (Inr st1)" "tn_out st1 = tn_out st"
    "node_at L recs d (content (tn_fs st), bs, False) st1" "disk_inv n flag (content (tn_fs st)) bs"
    using TestNode_open_ok [OF laws rest] by metis
  have "take 10 setup_calls = setup_calls" by (simp add: setup_calls_def)
  moreover obtain st2 c' bs' w' where "TestNode_setup L io (take 10 setup_calls) st1 = Inr st2" "tn_out st2 = tn_out st1"
    "node_at L recs d (c', bs', w') st2" "disk_inv (if flag then n else n + of_bool (2 \<le> (10 :: nat))) (flag \<or> 9 \<le> (10 :: nat)) c' bs'"
    by (rule TestNode_setup_ok [OF laws io st1(3,4)])
  ultimately have st2: "TestNode_setup L io setup_calls st1 = Inr st2" "tn_out st2 = tn_out st1"
    "node_at L recs d (c', bs', w') st2" "disk_inv (if flag then n else Suc n) True c' bs'" by (cases flag; simp)+
  from TestNode_report_ok [OF laws io st2(3,4), of show_path miss1 miss2] obtain st3 where
    st3: "TestNode_report L io show_path miss1 miss2 st2 = Some (Inr st3)"
      "tn_out st3 = tn_out st2 @ report_lines show_path (if flag then n else Suc n)" "node_at L recs d (c', bs', False) st3"
    by blast
  show ?thesis using st1(1,2) st2(1,2) st3(1,2) at_rest_restarted [OF st3(3) st2(4)] by (simp add: TestNode_def)
qed

definition fresh_node :: "'f \<Rightarrow> 'f test_node" where
  "fresh_node f = \<lparr>tn_fs = FS_init, tn_writer = None, tn_db = Database_init, tn_disk = f, tn_out = []\<rparr>"

lemma fresh_at_rest: "\<not> fs_exists L f (path_join L d ''wal'') \<Longrightarrow> at_rest L recs d 0 False (fresh_node f)"
  using fs_ok_init by (auto simp: at_rest_def fresh_node_def disk_inv_def content_def FS_init_def)

section \<open>Properties\<close>

text \<open>C37. The file system example recovers from crashes. Its node starts on an empty disk and is restarted
  any number of times after any numbers of its writing calls. The next run that is not cut off never aborts, finds
  the key it put and not the key it deleted, and lists the three chunks; and every run after it reports the same. But
  the text is not written once: every run that was cut off between the write and the flag leaves a copy of it in the file.\<close>

theorem fs_example_recovers:
  assumes "wal_laws L recs" and "file_io_ok io" and "\<not> fs_exists L f (path_join L d ''wal'')"
  shows "\<exists>st st' st''. TestNode_cuts L io (Inr d) ks (fresh_node f) = Some (Inr st) \<and>
     TestNode L io show_path (Inr d) miss1 miss2 st = Some (Inr st') \<and>
     tn_out st' = report_lines show_path (Suc (times_written ks)) \<and>
     TestNode L io show_path (Inr d) miss3 miss4 (restarted st') = Some (Inr st'') \<and>
     tn_out st'' = tn_out st' @ report_lines show_path (Suc (times_written ks))"
proof -
  let ?done = "\<exists>k \<in> set ks. 9 \<le> k" and ?n = "Suc (times_written ks)"
  obtain st where st: "TestNode_cuts L io (Inr d) ks (fresh_node f) = Some (Inr st)" "tn_out st = []"
    "at_rest L recs d (times_written ks + of_bool ?done) ?done st"
    using TestNode_cuts_ok [OF assms(1,2) fresh_at_rest [OF assms(3)], of ks] by (auto simp: fresh_node_def)
  obtain st' where st': "TestNode L io show_path (Inr d) miss1 miss2 st = Some (Inr st')"
    "tn_out st' = report_lines show_path ?n" "at_rest L recs d ?n True (restarted st')"
    using TestNode_ok [OF assms(1,2) st(3), of show_path miss1 miss2] st(2) by (cases ?done) auto
  obtain st'' where "TestNode L io show_path (Inr d) miss3 miss4 (restarted st') = Some (Inr st'')"
    "tn_out st'' = tn_out (restarted st') @ report_lines show_path ?n"
    using TestNode_ok [OF assms(1,2) st'(3), of show_path miss3 miss4] by auto
  with st(1) st'(1,2) show ?thesis by (auto simp: restarted_def)
qed

text \<open>A reader that returns a file, and the calls of the file system as writer.\<close>

definition plain_io :: file_io where
  "plain_io = \<lparr>writer_open = (\<lambda>p. FS_Open p AppendMode), writer_write = FS_Append, writer_destroy = FS_Close,
     reader_all = (\<lambda>p s. case content s p of None \<Rightarrow> Some (Inl (Panic ''ExpectOk'')) | Some c \<Rightarrow> Some (Inr (c, s)))\<rparr>"

lemma plain_io_ok: "file_io_ok plain_io"
  by (simp add: file_io_ok_def plain_io_def)

theorem fs_example_recovers_witness:
  "\<exists>st st'. TestNode_cuts list_disk plain_io (Inr ''/db'') [2, 1, 7] (fresh_node Map.empty) = Some (Inr st) \<and>
     TestNode list_disk plain_io id (Inr ''/db'') True False st = Some (Inr st') \<and>
     tn_out st' ! 2 = ''Content of '' @ [CHR 0x27] @ ''/file'' @ [CHR 0x27] @ '': <Hello, World!Hello, World!Hello, World!>''"
proof -
  have "\<not> fs_exists list_disk Map.empty (path_join list_disk ''/db'' ''wal'')" by (simp add: list_disk_def)
  from fs_example_recovers [OF list_disk_laws plain_io_ok this, of "[2, 1, 7]" id True False True False]
  show ?thesis by (auto simp: times_written_def report_lines_def hello_text_def numeral_3_eq_3)
qed

end
