(* ===== verification/World_Access.thy ===== *)
theory World_Access
  imports Globals Log
begin

text \<open>
  \<open>World::WorldGuard\<close> and \<open>World::Access\<close> of \<open>world/world.cpp\<close>, \<open>world/global/access.cpp\<close> and \<open>fault/access.cpp\<close>: the
  calls of the simulator find their world through a global pointer, which every entry point of a world sets and
  clears. A process may own several worlds, one after another or side by side, as the runner does when it looks for
  determinism.
\<close>

section \<open>The global pointer\<close>

text \<open>The worlds of a process and \<open>this_world\<close>, the index of the one that is entered.\<close>

record ('h, 'u) sim_process =
  p_worlds :: "('h, 'u) world list"
  p_this_world :: "nat option"

definition WorldGuard :: "nat \<Rightarrow> ('h, 'u) sim_process \<Rightarrow> ('h, 'u) sim_process" where
  "WorldGuard k p = p\<lparr>p_this_world := Some k\<rparr>"

definition WorldGuard_destroy :: "('h, 'u) sim_process \<Rightarrow> ('h, 'u) sim_process" where
  "WorldGuard_destroy p = p\<lparr>p_this_world := None\<rparr>"

definition World_Access :: "('h, 'u) sim_process \<Rightarrow> nat res" where
  "World_Access p = (case p_this_world p of None \<Rightarrow> Inl (Panic ''Not in world context'') | Some k \<Rightarrow> Inr k)"

text \<open>A call on the world the pointer leads to; a dangling pointer would be undefined behaviour.\<close>

definition ThisWorld ::
    "(('h, 'u) world \<Rightarrow> ('a \<times> ('h, 'u) world) res) \<Rightarrow> ('h, 'u) sim_process \<Rightarrow> ('a \<times> ('h, 'u) sim_process) res" where
  "ThisWorld f p = res_bind (World_Access p) (\<lambda>k.
     if k < length (p_worlds p)
     then res_bind (f (p_worlds p ! k)) (\<lambda>(x, w). Inr (x, p\<lparr>p_worlds := (p_worlds p)[k := w]\<rparr>))
     else Inl (Undefined ''dangling world''))"

definition reading :: "(('h, 'u) world \<Rightarrow> 'a) \<Rightarrow> ('h, 'u) world \<Rightarrow> ('a \<times> ('h, 'u) world) res" where
  "reading f w = Inr (f w, w)"

section \<open>The calls\<close>

definition WorldSeed :: "('h, 'u) sim_process \<Rightarrow> (u64 \<times> ('h, 'u) sim_process) res" where
  "WorldSeed = ThisWorld (reading w_seed)"

definition GlobalRandomNumber_access :: "('h, 'u) sim_process \<Rightarrow> (u64 \<times> ('h, 'u) sim_process) res" where
  "GlobalRandomNumber_access = ThisWorld (draw GlobalRandomNumber)"

definition GlobalNow :: "('h, 'u) sim_process \<Rightarrow> (time_point \<times> ('h, 'u) sim_process) res" where
  "GlobalNow = ThisWorld (reading w_now)"

text \<open>The scope ends with the block that opened it, here the call \<open>f\<close>.\<close>

definition SwitchToActor ::
    "actor \<Rightarrow> (('h, 'u) world \<Rightarrow> ('h, 'u) world res) \<Rightarrow> ('h, 'u) sim_process \<Rightarrow> (unit \<times> ('h, 'u) sim_process) res" where
  "SwitchToActor a f = ThisWorld (\<lambda>w. res_bind (scoped a f w) (\<lambda>w. Inr ((), w)))"

definition TimeModel :: "('h, 'u) sim_process \<Rightarrow> (time_model \<times> ('h, 'u) sim_process) res" where
  "TimeModel = ThisWorld (reading w_time_model)"

definition ThisServerTimeModel :: "('h, 'u) sim_process \<Rightarrow> (server_time_model option \<times> ('h, 'u) sim_process) res" where
  "ThisServerTimeModel = ThisWorld (\<lambda>w. res_bind (ThisServer w) (\<lambda>i. Inr (s_time_model (w_servers w ! i), w)))"

definition AcquireTimeModel :: "host_name \<Rightarrow> ('h, 'u) sim_process \<Rightarrow> (server_time_model \<times> ('h, 'u) sim_process) res" where
  "AcquireTimeModel hostname = ThisWorld (reading (MakeServerTimeModel hostname))"

definition IsThereAdversary :: "('h, 'u) sim_process \<Rightarrow> (bool \<times> ('h, 'u) sim_process) res" where
  "IsThereAdversary = ThisWorld (reading HasAdversary)"

definition GetHistoryRecorder ::
    "(recorder \<Rightarrow> ('a \<times> recorder) res) \<Rightarrow> ('h, 'u) sim_process \<Rightarrow> ('a \<times> ('h, 'u) sim_process) res" where
  "GetHistoryRecorder f = ThisWorld (\<lambda>w. res_bind (f (w_history w)) (\<lambda>(x, r). Inr (x, w\<lparr>w_history := r\<rparr>)))"

definition GetPool_access :: "string \<Rightarrow> ('h, 'u) sim_process \<Rightarrow> (host_name list \<times> ('h, 'u) sim_process) res" where
  "GetPool_access name = ThisWorld (reading (GetPool name))"

definition WorldStepNumber :: "('h, 'u) sim_process \<Rightarrow> (nat \<times> ('h, 'u) sim_process) res" where
  "WorldStepNumber = ThisWorld (reading w_step)"

definition AmIActor_access :: "('h, 'u) sim_process \<Rightarrow> (bool \<times> ('h, 'u) sim_process) res" where
  "AmIActor_access = ThisWorld (reading AmIActor)"

definition ThisActor_access :: "('h, 'u) sim_process \<Rightarrow> (actor option \<times> ('h, 'u) sim_process) res" where
  "ThisActor_access = ThisWorld (reading ThisActor)"

definition GenerateGuid_access :: "('h, 'u) sim_process \<Rightarrow> (string \<times> ('h, 'u) sim_process) res" where
  "GenerateGuid_access = ThisWorld (\<lambda>w. Inr (GenerateGuid w))"

definition GetGlobal_access :: "string \<Rightarrow> ('h, 'u) sim_process \<Rightarrow> (any option \<times> ('h, 'u) sim_process) res" where
  "GetGlobal_access name = ThisWorld (reading (World_GetGlobal name))"

definition SetGlobal_access :: "string \<Rightarrow> any \<Rightarrow> ('h, 'u) sim_process \<Rightarrow> (unit \<times> ('h, 'u) sim_process) res" where
  "SetGlobal_access name v = ThisWorld (\<lambda>w. Inr ((), World_SetGlobal name v w))"

text \<open>The handles of an adversary: a server by its name, and the network.\<close>

definition fault_Server :: "host_name \<Rightarrow> ('h, 'u) sim_process \<Rightarrow> (nat \<times> ('h, 'u) sim_process) res" where
  "fault_Server hostname = ThisWorld (\<lambda>w. res_bind (GetServer hostname w) (\<lambda>i. Inr (i, w)))"

definition fault_Network ::
    "(network \<Rightarrow> network res) \<Rightarrow> ('h, 'u) sim_process \<Rightarrow> (unit \<times> ('h, 'u) sim_process) res" where
  "fault_Network f = ThisWorld (\<lambda>w. res_bind (on_net f w) (\<lambda>w. Inr ((), w)))"

section \<open>Entry points\<close>

text \<open>A call of \<open>Start\<close>, \<open>Step\<close>, \<open>Stop\<close> and their like on world \<open>k\<close>: the guard, the calls made in its body, the end
  of the guard.\<close>

type_synonym ('h, 'u) world_call = "('h, 'u) world \<Rightarrow> (unit \<times> ('h, 'u) world) res"

definition body_calls :: "('h, 'u) world_call list \<Rightarrow> ('h, 'u) sim_process \<Rightarrow> ('h, 'u) sim_process res" where
  "body_calls fs p = res_fold (\<lambda>f p. res_bind (ThisWorld f p) (\<lambda>(x, p). Inr p)) fs p"

definition enter :: "nat \<times> ('h, 'u) world_call list \<Rightarrow> ('h, 'u) sim_process \<Rightarrow> ('h, 'u) sim_process res" where
  "enter = (\<lambda>(k, fs) p. res_bind (body_calls fs (WorldGuard k p)) (\<lambda>p. Inr (WorldGuard_destroy p)))"

definition enter_all :: "(nat \<times> ('h, 'u) world_call list) list \<Rightarrow> ('h, 'u) sim_process \<Rightarrow> ('h, 'u) sim_process res" where
  "enter_all es p = res_fold enter es p"

text \<open>What happens to a world that has the process for itself.\<close>

definition alone :: "('h, 'u) world_call list \<Rightarrow> ('h, 'u) world \<Rightarrow> ('h, 'u) world res" where
  "alone fs w = res_fold (\<lambda>f w. res_bind (f w) (\<lambda>(x, w). Inr w)) fs w"

definition calls_on :: "nat \<Rightarrow> (nat \<times> ('h, 'u) world_call list) list \<Rightarrow> ('h, 'u) world_call list" where
  "calls_on k es = concat (map snd (filter (\<lambda>e. fst e = k) es))"

lemma alone_simps [simp]:
  "alone [] w = Inr w" "alone (f # fs) w = res_bind (f w) (\<lambda>(x, w). alone fs w)"
  by (simp_all add: alone_def res_bind_def case_prod_unfold split: sum.split)

lemma alone_append: "alone (fs @ gs) w = res_bind (alone fs w) (alone gs)"
  by (induction fs arbitrary: w) (simp_all add: res_bind_def case_prod_unfold split: sum.split)

lemma body_calls_alone:
  "k < length (p_worlds p) \<Longrightarrow> p_this_world p = Some k \<Longrightarrow>
    body_calls fs p = res_bind (alone fs (p_worlds p ! k)) (\<lambda>w. Inr (p\<lparr>p_worlds := (p_worlds p)[k := w]\<rparr>))"
proof (induction fs arbitrary: p)
  case Nil
  then show ?case by (simp add: body_calls_def)
next
  case (Cons f fs)
  show ?case
  proof (cases "f (p_worlds p ! k)")
    case (Inl e)
    then show ?thesis using Cons.prems by (simp add: body_calls_def ThisWorld_def World_Access_def)
  next
    case (Inr xw)
    let ?p = "p\<lparr>p_worlds := (p_worlds p)[k := snd xw]\<rparr>"
    have "body_calls (f # fs) p = body_calls fs ?p"
      using Inr Cons.prems by (simp add: body_calls_def ThisWorld_def World_Access_def case_prod_unfold)
    then show ?thesis using Cons.IH [of ?p] Cons.prems Inr by (simp add: case_prod_unfold)
  qed
qed

lemma enter_alone:
  assumes "k < length (p_worlds p)"
  shows "enter (k, fs) p = res_bind (alone fs (p_worlds p ! k))
    (\<lambda>w. Inr \<lparr>p_worlds = (p_worlds p)[k := w], p_this_world = None\<rparr>)"
  using body_calls_alone [of k "WorldGuard k p" fs] assms
  by (cases "alone fs (p_worlds p ! k)") (simp_all add: enter_def WorldGuard_def WorldGuard_destroy_def)

text \<open>Worlds of one process do not disturb each other: whatever entry points are called on them in whatever order,
  each world ends as if it had the process for itself, no call finds the pointer empty or the wrong world behind it, an
  abort is the abort of a call on one world, and afterwards a call from outside is caught.\<close>

theorem worlds_do_not_mix:
  assumes "\<forall>(k, fs) \<in> set es. k < length (p_worlds p)" and "p_this_world p = None"
  shows "case enter_all es p of
      Inl e \<Rightarrow> \<exists>k < length (p_worlds p). alone (calls_on k es) (p_worlds p ! k) = Inl e
    | Inr p' \<Rightarrow> length (p_worlds p') = length (p_worlds p) \<and>
        (\<forall>k < length (p_worlds p). alone (calls_on k es) (p_worlds p ! k) = Inr (p_worlds p' ! k)) \<and>
        World_Access p' = Inl (Panic ''Not in world context'')"
  using assms
proof (induction es arbitrary: p)
  case Nil
  then show ?case by (simp add: enter_all_def calls_on_def World_Access_def)
next
  case (Cons a es)
  obtain i fs where a: "a = (i, fs)" by (cases a)
  have i: "i < length (p_worlds p)" using Cons.prems(1) a by simp
  have calls: "calls_on k (a # es) = (if k = i then fs else []) @ calls_on k es" for k by (simp add: calls_on_def a)
  show ?case
  proof (cases "alone fs (p_worlds p ! i)")
    case (Inl e)
    then have "enter_all (a # es) p = Inl e" using enter_alone [OF i, of fs] by (simp add: enter_all_def a)
    moreover have "alone (calls_on i (a # es)) (p_worlds p ! i) = Inl e" using Inl by (simp add: calls alone_append)
    ultimately show ?thesis using i by auto
  next
    case (Inr w)
    define q where "q = \<lparr>p_worlds = (p_worlds p)[i := w], p_this_world = None\<rparr>"
    have q: "length (p_worlds q) = length (p_worlds p)" "p_this_world q = None" by (simp_all add: q_def)
    have "enter_all (a # es) p = enter_all es q" using enter_alone [OF i, of fs] Inr by (simp add: enter_all_def a q_def)
    moreover have "alone (calls_on k (a # es)) (p_worlds p ! k) = alone (calls_on k es) (p_worlds q ! k)" for k
      using Inr i by (cases "k = i") (simp_all add: calls alone_append q_def)
    moreover have "case enter_all es q of
        Inl e \<Rightarrow> \<exists>k < length (p_worlds q). alone (calls_on k es) (p_worlds q ! k) = Inl e
      | Inr p' \<Rightarrow> length (p_worlds p') = length (p_worlds q) \<and>
          (\<forall>k < length (p_worlds q). alone (calls_on k es) (p_worlds q ! k) = Inr (p_worlds p' ! k)) \<and>
          World_Access p' = Inl (Panic ''Not in world context'')"
      by (rule Cons.IH) (use Cons.prems q in auto)
    ultimately show ?thesis by (simp only: q(1))
  qed
qed

text \<open>Guards do not nest: they clear the pointer instead of restoring it. An entry point called from the body of another
  one, on the same world or a different one, leaves the rest of the outer body without a world.\<close>

lemma guards_do_not_nest:
  assumes "enter e (WorldGuard k p) = Inr p'"
  shows "ThisWorld f p' = Inl (Panic ''Not in world context'')"
  using assms by (auto simp: enter_def ThisWorld_def World_Access_def WorldGuard_destroy_def res_bind_Inr split: prod.splits)

end
