(* ===== verification/Example_Mains.thy ===== *)
theory Example_Mains
  imports Examples
begin

text \<open>
  The main functions of \<open>examples/{fs,db,echo}/main.cpp\<close>: each builds a world, starts it, makes some steps, restarts a
  server, reads its output and stops. The program of the nodes is an argument, so that what is shown of these functions
  holds whatever the libraries under the programs do. The hosts of a simulation never change.
\<close>

section \<open>The hosts of a simulation\<close>

definition same_hosts :: "('h, 'u) world \<Rightarrow> ('h, 'u) world \<Rightarrow> bool" where
  "same_hosts w w' \<longleftrightarrow> map s_config (w_servers w') = map s_config (w_servers w) \<and> w_pools w' = w_pools w"

lemma same_hosts_refl [simp]: "same_hosts w w"
  by (simp add: same_hosts_def)

lemma same_hosts_trans: "same_hosts u v \<Longrightarrow> same_hosts v w \<Longrightarrow> same_hosts u w"
  by (simp add: same_hosts_def)

lemma same_hostsI: "w_servers w' = w_servers w \<Longrightarrow> w_pools w' = w_pools w \<Longrightarrow> same_hosts w w'"
  by (simp add: same_hosts_def)

lemma FindServer_same:
  assumes "same_hosts w w'" and "\<forall>i \<in> set (pool_members w). i < length (w_servers w)"
  shows "FindServer host w' = FindServer host w" and "pool_members w' = pool_members w"
proof -
  have len: "length (w_servers w') = length (w_servers w)" using assms(1) map_eq_imp_length_eq by (auto simp: same_hosts_def)
  have "HostName i w' = HostName i w" if "i \<in> set (pool_members w)" for i
  proof -
    have "map s_config (w_servers w') ! i = map s_config (w_servers w) ! i" using assms(1) by (simp add: same_hosts_def)
    then show ?thesis using that assms(2) len by (simp add: HostName_def)
  qed
  moreover show "pool_members w' = pool_members w" using assms(1) by (simp add: same_hosts_def pool_members_def)
  ultimately show "FindServer host w' = FindServer host w" by (simp add: FindServer_def cong: find_cong)
qed

lemma set_server_hosts:
  "s_config s = s_config (w_servers w ! i) \<Longrightarrow> same_hosts w (set_server i s w)"
  by (cases "i < length (w_servers w)")
    (auto simp: same_hosts_def set_server_def map_update list_update_same_conv list_update_beyond)

lemma set_server_hosts_iff [simp]:
  "s_config s = s_config (w_servers w ! i) \<Longrightarrow> same_hosts (set_server i s w) w' \<longleftrightarrow> same_hosts w w'"
  using set_server_hosts [of s w i] by (auto simp: same_hosts_def)

lemma on_server_hosts:
  assumes "on_server i f w = Inr w'" and "\<And>s r s' r'. f s r = Inr (s', r') \<Longrightarrow> s_config s' = s_config s"
  shows "same_hosts w w'"
proof -
  obtain s r where f: "f (w_servers w ! i) (w_random w) = Inr (s, r)" "w' = set_server i s (w\<lparr>w_random := r\<rparr>)"
    using assms(1) by (auto simp: on_server_def draw_def res_bind_Inr split: if_splits)
  show ?thesis using set_server_hosts [of s w i] assms(2) [OF f(1)] f(2) by (simp add: same_hosts_def set_server_def)
qed

lemma scoped_hosts:
  assumes "scoped a f w = Inr w'" and "\<And>v v'. f v = Inr v' \<Longrightarrow> same_hosts v v'"
  shows "same_hosts w w'"
proof -
  obtain v where v: "f (w\<lparr>w_active := Some a\<rparr>) = Inr v" "w' = v\<lparr>w_active := w_active w\<rparr>"
    using assms(1) by (auto simp: scoped_def Let_def res_bind_Inr)
  from assms(2) [OF v(1)] v(2) show ?thesis by (simp add: same_hosts_def)
qed

lemma World_send_hosts: "World_send k pkt w = Inr w' \<Longrightarrow> same_hosts w w'"
  by (auto simp: World_send_def draw_def res_bind_Inr Let_def intro!: same_hostsI split: if_splits)

lemma on_net_hosts: "on_net f w = Inr w' \<Longrightarrow> same_hosts w w'"
  by (auto simp: on_net_def res_bind_Inr intro!: same_hostsI)

lemma Server_Crash_config: "Server_Crash s = Inr s' \<Longrightarrow> s_config s' = s_config s"
  by (auto simp: Server_Crash_def verify_def split: if_splits)

lemma Server_Launch_config: "Server_Launch now s r = Inr (s', r') \<Longrightarrow> s_config s' = s_config s"
  by (auto simp: Server_Launch_def rnd_bind_def rnd_return_def rnd_fail_def res_bind_Inr StartProcess_def Let_def split: if_splits)

lemma Server_Start_config: "Server_Start tm now s r = Inr (s', r') \<Longrightarrow> s_config s' = s_config s"
  by (auto simp: Server_Start_def rnd_bind_def res_bind_Inr Let_def dest!: Server_Launch_config)

lemma life_step_config: "life_step now op s r = Inr (s', r') \<Longrightarrow> s_config s' = s_config s"
proof (cases op)
  case LShutdown
  assume "life_step now op s r = Inr (s', r')"
  then show ?thesis using LShutdown
    by (cases "Server_Shutdown s") (auto simp: Server_Shutdown_def dest: Server_Crash_config split: if_splits)
next
  case LFastReboot
  assume "life_step now op s r = Inr (s', r')"
  then show ?thesis using LFastReboot
    by (cases "Server_Crash s") (auto simp: Server_FastReboot_def rnd_return_def rnd_fail_def
        dest!: Server_Launch_config Server_Crash_config split: if_splits)
next
  case LCrash
  assume "life_step now op s r = Inr (s', r')"
  then show ?thesis using LCrash
    by (cases "Server_Crash s") (auto dest: Server_Crash_config)
qed (auto simp: Server_Pause_def Server_Resume_def rnd_return_def
  dest: Server_Launch_config Server_Start_config split: if_splits)

lemma AdjustWallClock_config: "AdjustWallClock s r = Inr (s', r') \<Longrightarrow> s_config s' = s_config s"
  by (auto simp: AdjustWallClock_def rnd_bind_def rnd_return_def res_bind_Inr)

lemma World_syscall_hosts: "World_syscall i op w = Inr w' \<Longrightarrow> same_hosts w w'"
proof (cases op)
  case (SysConnect host p h)
  assume "World_syscall i op w = Inr w'"
  then have "World_syscall i (SysConnect host p h) w = Inr w'" using SysConnect by simp
  then show ?thesis
    by (rule SysConnect_cases)
      (auto intro: set_server_hosts dest!: World_send_hosts split: option.splits)
next
  case (SysServer op' j)
  assume "World_syscall i op w = Inr w'"
  then show ?thesis using SysServer by (auto elim!: scoped_hosts on_server_hosts dest: life_step_config)
next
  case (SysAdjustWallClock j)
  assume "World_syscall i op w = Inr w'"
  then show ?thesis using SysAdjustWallClock by (auto elim!: scoped_hosts on_server_hosts dest: AdjustWallClock_config)
qed (auto simp: GenerateGuid_def World_SetGlobal_def draw_def res_bind_Inr Let_def rnd_return_def PrintLine_def split: prod.splits
  intro: same_hostsI elim!: on_server_hosts dest!: on_net_hosts World_send_hosts)

lemma run_syscalls_hosts:
  assumes "res_fold (run_syscall i) ops w = Inr w'"
  shows "same_hosts w w'"
  using assms same_hosts_refl [of w]
  by (rule res_fold_inv) (auto simp: run_syscall_def dest: World_syscall_hosts intro: same_hosts_trans split: if_splits)

lemma actor_step_hosts:
  assumes "actor_step eat prog a w = Inr w'"
  shows "same_hosts w w'"
proof (cases a)
  case (ServerActor i)
  then obtain t s where s: "Server_Step (w_servers w ! i) = Inr (t, s)"
    "res_fold (run_syscall i) (prog i t (set_server i s w)) (set_server i s w) = Inr w'"
    using assms by (auto simp: actor_step_def server_step_def res_bind_Inr Let_def split: if_splits)
  have "s_config s = s_config (w_servers w ! i)" using s(1) by (auto simp: Server_Step_def split: option.splits)
  then show ?thesis using set_server_hosts same_hosts_trans run_syscalls_hosts [OF s(2)] by blast
next
  case NetworkActor
  then have n: "network_step eat w = Inr w'" using assms by (simp add: actor_step_def)
  then obtain net r where r: "Network_Step eat (w_net w) = Inr (net, r)"
    by (auto simp: network_step_def res_bind_Inr)
  have step: "same_hosts v v'" if "(if receiver < length (w_servers v) then
       (case Server_HandlePacket pkt out host now (w_servers v ! receiver) of (reply, s) \<Rightarrow>
         (case reply of None \<Rightarrow> Inr (set_server receiver s v) | Some pkt \<Rightarrow> World_send out pkt (set_server receiver s v)))
     else Inl e) = Inr v'" for v v' :: "('a, 'b) world" and receiver out pkt host now e
    using that by (auto simp: Server_HandlePacket_def Let_def intro: set_server_hosts
        dest!: World_send_hosts split: if_splits prod.splits option.splits)
  have "same_hosts (w\<lparr>w_net := net\<rparr>) w'"
  proof (cases "\<exists>f receiver out. r = Some (f, receiver, Some out)")
    case True
    then obtain f receiver out where "r = Some (f, receiver, Some out)" by blast
    then show ?thesis using n r
      by (simp add: network_step_def) (erule scoped_hosts, simp only: Let_def, erule step)
  next
    case False
    then show ?thesis using n r by (auto simp: network_step_def Let_def split: option.splits)
  qed
  then show ?thesis by (simp add: same_hosts_def)
qed

lemma World_Step_hosts:
  assumes "World_Step eat prog w = Inr (b, w')"
  shows "same_hosts w w'"
proof (cases "FindNextStep w")
  case (Some n)
  then obtain now where "scoped (ns_actor n) (actor_step eat prog (ns_actor n)) (w\<lparr>w_step := Suc (w_step w),
      w_digest := eat (eat (w_digest w) (unat (ns_time n))) (ns_index n), w_now := now\<rparr>) = Inr w'"
    using assms by (auto simp: World_Step_def Let_def res_bind_Inr)
  from scoped_hosts [OF this actor_step_hosts] show ?thesis by (simp add: same_hosts_def)
qed (use assms in \<open>simp add: World_Step_def\<close>)

lemma MakeSteps_hosts:
  "MakeSteps eat prog n w = Inr (k, w') \<Longrightarrow> same_hosts w w' \<and> (simulated D eat prog w \<longrightarrow> simulated D eat prog w')"
proof (induction n arbitrary: w k)
  case (Suc n)
  obtain b v where v: "World_Step eat prog w = Inr (b, v)"
    using Suc.prems by (cases "World_Step eat prog w") (auto simp: MakeSteps_Suc)
  show ?case
  proof (cases b)
    case False
    then show ?thesis using Suc.prems v World_Step_hosts [OF v] sim_step by (auto simp: MakeSteps_Suc)
  next
    case True
    then obtain j where "MakeSteps eat prog n v = Inr (j, w')"
      using Suc.prems v by (cases "MakeSteps eat prog n v") (auto simp: MakeSteps_Suc)
    then show ?thesis using Suc.IH [of v j] World_Step_hosts [OF v] v sim_step same_hosts_trans by blast
  qed
qed simp

lemma RestartServer_hosts: "RestartServer host w = Inr w' \<Longrightarrow> same_hosts w w'"
  using life_step_config [where op = LFastReboot]
  by (auto simp: RestartServer_def res_bind_Inr elim!: scoped_hosts on_server_hosts)

lemma World_Start_hosts:
  assumes "built w" and "time_model_ok D (w_time_model w)" and "World_Start w = Inr w'"
  shows "same_hosts w w'"
proof -
  from World_Start_ok [OF assms(1,2)] assms(3) have w': "length (w_servers w') = length (w_servers w)" "w_pools w' = w_pools w"
    "\<forall>k < length (w_servers w). launched (w_now w') (w_servers w ! k) (w_servers w' ! k)" by auto
  have "map s_config (w_servers w') = map s_config (w_servers w)"
    using w'(1,3) by (intro nth_equalityI) (auto simp: launched_def)
  with w'(2) show ?thesis by (simp add: same_hosts_def)
qed

lemma RestartServer_step: "RestartServer host w = Inr w' \<Longrightarrow> w_step w' = w_step w"
  using RestartServer_keeps(2) by (auto simp: since_def)

section \<open>Main functions\<close>

definition fs_main ::
    "(u64 \<Rightarrow> nat \<Rightarrow> u32) \<Rightarrow> (nat \<Rightarrow> nat) \<Rightarrow> allocator \<Rightarrow> (u64 \<Rightarrow> nat \<Rightarrow> u64) \<Rightarrow> (u64 \<Rightarrow> u64 \<Rightarrow> u64) \<Rightarrow>
     (('h, 'u) server \<Rightarrow> u64) \<Rightarrow> ('h, 'u) program \<Rightarrow> (string list \<times> u64 \<times> jiffies \<times> nat) res" where
  "fs_main mt19937 ids heap eat combine server_digest prog =
     res_bind (World_Start (AddServer ids heap ''Mars'' (World mt19937 17))) (\<lambda>w.
     res_bind (MakeSteps eat prog 100 w) (\<lambda>(made, w).
     res_bind (RestartServer ''Mars'' w) (\<lambda>w.
     res_bind (MakeSteps eat prog 100 w) (\<lambda>(made, w).
     res_bind (World_GetStdout ''Mars'' w) (\<lambda>std_out.
     res_bind (World_Stop combine server_digest w) (\<lambda>(digest, w).
       Inr (std_out, digest, TimeElapsed w, w_step w)))))))"

definition db_main ::
    "(u64 \<Rightarrow> nat \<Rightarrow> u32) \<Rightarrow> (nat \<Rightarrow> nat) \<Rightarrow> allocator \<Rightarrow> (u64 \<Rightarrow> nat \<Rightarrow> u64) \<Rightarrow> (u64 \<Rightarrow> u64 \<Rightarrow> u64) \<Rightarrow>
     (('h, 'u) server \<Rightarrow> u64) \<Rightarrow> ('h, 'u) program \<Rightarrow> (string list \<times> u64 \<times> jiffies \<times> nat) res" where
  "db_main mt19937 ids heap eat combine server_digest prog =
     res_bind (World_Start (AddServer ids heap ''Mars'' (World mt19937 17))) (\<lambda>w.
     res_bind (MakeSteps eat prog 100 w) (\<lambda>(made, w).
     res_bind (World_GetStdout ''Mars'' w) (\<lambda>std_out.
     res_bind (World_Stop combine server_digest w) (\<lambda>(digest, w).
       Inr (std_out, digest, TimeElapsed w, w_step w)))))"

definition echo_build :: "(u64 \<Rightarrow> nat \<Rightarrow> u32) \<Rightarrow> (nat \<Rightarrow> nat) \<Rightarrow> allocator \<Rightarrow> ('h, 'u) world" where
  "echo_build mt19937 ids heap =
     AddClient ids heap (PoolBuilder_destroy ids heap
       (PoolBuilder_NameTemplate ''Server'' (PoolBuilder_Size 3 (MakePool ''echo''))) (World mt19937 17))"

definition echo_main ::
    "(u64 \<Rightarrow> nat \<Rightarrow> u32) \<Rightarrow> (nat \<Rightarrow> nat) \<Rightarrow> allocator \<Rightarrow> (u64 \<Rightarrow> nat \<Rightarrow> u64) \<Rightarrow> (u64 \<Rightarrow> u64 \<Rightarrow> u64) \<Rightarrow>
     (('h, 'u) server \<Rightarrow> u64) \<Rightarrow> ('h, 'u) program \<Rightarrow> (u64 \<times> jiffies \<times> nat) res" where
  "echo_main mt19937 ids heap eat combine server_digest prog =
     res_bind (World_Start (echo_build mt19937 ids heap)) (\<lambda>w.
     res_bind (MakeSteps eat prog 256 w) (\<lambda>(made, w).
     res_bind (World_Stop combine server_digest w) (\<lambda>(digest, w).
       Inr (digest, TimeElapsed w, w_step w))))"

lemma small_digits: "digit (Suc 0) = CHR ''1''" "digit (Suc (Suc 0)) = CHR ''2''" "digit (Suc (Suc (Suc 0))) = CHR ''3''"
proof -
  have "digit 1 = CHR ''1''" "digit 2 = CHR ''2''" "digit 3 = CHR ''3''" by (simp_all add: digit_def char_of_def bit_Suc_0_iff)
  then show "digit (Suc 0) = CHR ''1''" "digit (Suc (Suc 0)) = CHR ''2''" "digit (Suc (Suc (Suc 0))) = CHR ''3''"
    by (simp_all only: One_nat_def numeral_2_eq_2 numeral_3_eq_3)
qed

lemma echo_world:
  "w_time_model (echo_build mt ids heap) = CrazyTimeModel" "w_step (echo_build mt ids heap) = 0"
  "GetPool ''echo'' (echo_build mt ids heap) = [''Server-1'', ''Server-2'', ''Server-3'']"
  "map (\<lambda>i. HostName i (echo_build mt ids heap)) (w_clients (echo_build mt ids heap)) = [''Client-1'']"
  by (simp_all add: echo_build_def PoolBuilder_destroy_def PoolBuilder_NameTemplate_def PoolBuilder_Size_def MakePool_def
      AddPool_def AddClient_def AddToPool_def AddServerImpl_def Let_def World_def AddActor_def pool_of_def numeral_3_eq_3
      GetPool_def HostName_def Server_def MakeServerName_def show_nat.simps small_digits)

section \<open>What they abort on\<close>

text \<open>The states of the simulation of a world, and how it may break off within \<open>n\<close> steps: a step aborts, or the
  virtual time comes to the end of its range.\<close>

inductive runs_from :: "(u64 \<Rightarrow> nat \<Rightarrow> u64) \<Rightarrow> ('h, 'u) program \<Rightarrow> ('h, 'u) world \<Rightarrow> ('h, 'u) world \<Rightarrow> bool"
  for eat prog u where
  run_start: "World_Start u = Inr w \<Longrightarrow> runs_from eat prog u w"
| run_step: "runs_from eat prog u w \<Longrightarrow> World_Step eat prog w = Inr (b, w') \<Longrightarrow> runs_from eat prog u w'"
| run_restart: "runs_from eat prog u w \<Longrightarrow> RestartServer host w = Inr w' \<Longrightarrow> runs_from eat prog u w'"

definition breaks_off ::
    "nat \<Rightarrow> (u64 \<Rightarrow> nat \<Rightarrow> u64) \<Rightarrow> ('h, 'u) program \<Rightarrow> ('h, 'u) world \<Rightarrow> nat \<Rightarrow> error \<Rightarrow> bool" where
  "breaks_off D eat prog u n e \<longleftrightarrow>
     (\<exists>w. runs_from eat prog u w \<and> w_step w \<le> n \<and> (World_Step eat prog w = Inl e \<or> \<not> room D (w_now w)))"

lemma runs_simulated:
  "runs_from eat prog u w \<Longrightarrow> built u \<Longrightarrow> time_model_ok D (w_time_model u) \<Longrightarrow> simulated D eat prog w"
  by (induction rule: runs_from.induct) (auto intro: simulated.intros)

lemma runs_hosts:
  "runs_from eat prog u w \<Longrightarrow> built u \<Longrightarrow> time_model_ok D (w_time_model u) \<Longrightarrow> same_hosts u w"
  by (induction rule: runs_from.induct)
    (auto intro: World_Start_hosts World_Step_hosts RestartServer_hosts same_hosts_trans)

lemma MakeSteps_runs:
  "runs_from eat prog u w \<Longrightarrow>
    case MakeSteps eat prog n w of
      Inl e \<Rightarrow> \<exists>v. runs_from eat prog u v \<and> w_step v \<le> w_step w + n \<and> World_Step eat prog v = Inl e
    | Inr (k, w') \<Rightarrow> runs_from eat prog u w'"
proof (induction n arbitrary: w)
  case (Suc n)
  show ?case
  proof (cases "World_Step eat prog w")
    case (Inl d)
    then show ?thesis using Suc.prems by (auto simp: MakeSteps_Suc)
  next
    case (Inr bv)
    obtain b v where bv: "World_Step eat prog w = Inr (b, v)" using Inr by (cases bv) simp
    have v: "runs_from eat prog u v" by (rule run_step [OF Suc.prems bv])
    show ?thesis
    proof (cases b)
      case False
      then show ?thesis using v bv by (simp add: MakeSteps_Suc)
    next
      case True
      then have "w_step v = w_step w + 1" using World_Step_since(2) [OF bv] by simp
      then show ?thesis using Suc.IH [OF v] bv True
        by (cases "MakeSteps eat prog n v") (auto simp: MakeSteps_Suc)
    qed
  qed
qed simp

text \<open>The steps after a start or a restart.\<close>

lemma steps_of_main:
  assumes "runs_from eat prog u w" and "w_step w + n \<le> m"
  obtains e where "MakeSteps eat prog n w = Inl e" and "breaks_off D eat prog u m e"
  | k w' where "MakeSteps eat prog n w = Inr (k, w')" and "runs_from eat prog u w'" and "w_step w' \<le> w_step w + n"
    and "\<not> room D (w_now w')" and "\<And>e. breaks_off D eat prog u m e"
  | k w' where "MakeSteps eat prog n w = Inr (k, w')" and "runs_from eat prog u w'" and "w_step w' \<le> w_step w + n"
    and "room D (w_now w')"
proof (cases "MakeSteps eat prog n w")
  case (Inl e)
  then show thesis using that(1) MakeSteps_runs [OF assms(1), of n] assms(2) by (force simp: breaks_off_def)
next
  case (Inr kw)
  obtain k w' where kw: "MakeSteps eat prog n w = Inr (k, w')" using Inr by (cases kw) simp
  have c: "w_step w' \<le> w_step w + n" using MakeSteps_count [OF kw] by simp
  have r: "runs_from eat prog u w'" using MakeSteps_runs [OF assms(1), of n] kw by simp
  show thesis
  proof (cases "room D (w_now w')")
    case True
    then show ?thesis using that(3) [OF kw r c] by blast
  next
    case False
    then show ?thesis using that(2) [OF kw r c] r c assms(2) by (force simp: breaks_off_def)
  qed
qed

lemma started:
  assumes "time_model_ok D (w_time_model u)" and "built u" and "w_step u = 0"
  obtains w where "World_Start u = Inr w" and "runs_from eat prog u w" and "w_step w = 0"
proof -
  from World_Start_ok [OF assms(2,1)] obtain w where w: "World_Start u = Inr w" by blast
  show thesis by (rule that [OF w run_start [OF w]]) (use World_Start_now [OF w] assms(3) in auto)
qed

text \<open>The one server of a world is found by its name as long as the hosts stay the same.\<close>

lemma Mars_facts:
  fixes ids heap mt19937
  defines "w \<equiv> AddServer ids heap ''Mars'' (World mt19937 17)"
  shows "built w" and "w_time_model w = CrazyTimeModel" and "w_step w = 0" and "same_hosts w v \<Longrightarrow> FindServer ''Mars'' v = Some 0"
proof -
  show "built w" by (simp add: w_def built.intros)
  show "w_time_model w = CrazyTimeModel" "w_step w = 0"
    by (simp_all add: w_def AddServer_def AddServerImpl_def Let_def World_def AddActor_def)
  assume "same_hosts w v"
  moreover have "FindServer ''Mars'' w = Some 0" "\<forall>i \<in> set (pool_members w). i < length (w_servers w)"
    by (simp_all add: w_def AddServer_def AddServerImpl_def Let_def World_def AddActor_def pool_of_def FindServer_def
        HostName_def pool_members_def Server_def)
  ultimately show "FindServer ''Mars'' v = Some 0" using FindServer_same(1) by metis
qed

text \<open>A program respects a bound on its timers that is also one on the delays of the default time model.\<close>

definition timely_program :: "nat \<Rightarrow> ('h, 'u) program \<Rightarrow> bool" where
  "timely_program D prog \<longleftrightarrow> timers_within D prog \<and> time_model_ok D CrazyTimeModel"

lemma stops:
  assumes "timely_program D prog" and "runs_from eat prog u w" and "built u" and "w_time_model u = CrazyTimeModel"
    and "room D (w_now w)"
  obtains d v where "World_Stop combine server_digest w = Inr (d, v)" and "w_step v = w_step w"
proof -
  have "simulated D eat prog w" "timers_within D prog"
    using runs_simulated [OF assms(2,3)] assms(1,4) by (auto simp: timely_program_def)
  from World_Stop_ok [OF this assms(5), of combine server_digest] show thesis using that by blast
qed

text \<open>The main functions return: the start, the restart, reading the output and the stop never abort, whatever the
  nodes have done to the world. A run breaks off only in a step, or when the virtual time comes to its end, and no more
  steps are made than the function asks for.\<close>

theorem db_main_returns:
  assumes "timely_program D prog"
  shows "case db_main mt ids heap eat combine server_digest prog of
      Inl e \<Rightarrow> breaks_off D eat prog (AddServer ids heap ''Mars'' (World mt 17)) 100 e
    | Inr (std_out, dg, time, steps) \<Rightarrow> steps \<le> 100 \<or> (\<forall>e. breaks_off D eat prog (AddServer ids heap ''Mars'' (World mt 17)) 100 e)"
  (is "case _ of Inl e \<Rightarrow> breaks_off D eat prog ?u 100 e | _ \<Rightarrow> _")
proof -
  note mars = Mars_facts [of ids heap mt]
  have ok: "time_model_ok D (w_time_model ?u)" using assms by (simp add: timely_program_def mars(2))
  obtain w where w: "World_Start ?u = Inr w" "runs_from eat prog ?u w" "w_step w = 0" by (rule started [OF ok mars(1,3)])
  have "w_step w + 100 \<le> 100" using w(3) by simp
  from w(2) this show ?thesis
  proof (cases rule: steps_of_main [where D = D])
    case (1 e)
    then show ?thesis using w(1) by (simp add: db_main_def)
  next
    case (2 k w')
    then show ?thesis by (simp split: sum.split)
  next
    case (3 k w')
    have "FindServer ''Mars'' w' = Some 0" by (rule mars(4) [OF runs_hosts [OF 3(2) mars(1) ok]])
    moreover obtain d v where "World_Stop combine server_digest w' = Inr (d, v)" "w_step v = w_step w'"
      by (rule stops [OF assms 3(2) mars(1,2) 3(4)])
    ultimately show ?thesis using w(1,3) 3(1,3) by (simp add: db_main_def World_GetStdout_def GetServer_def)
  qed
qed

theorem fs_main_returns:
  assumes "timely_program D prog"
  shows "case fs_main mt ids heap eat combine server_digest prog of
      Inl e \<Rightarrow> breaks_off D eat prog (AddServer ids heap ''Mars'' (World mt 17)) 200 e
    | Inr (std_out, dg, time, steps) \<Rightarrow> steps \<le> 200 \<or> (\<forall>e. breaks_off D eat prog (AddServer ids heap ''Mars'' (World mt 17)) 200 e)"
  (is "case _ of Inl e \<Rightarrow> breaks_off D eat prog ?u 200 e | _ \<Rightarrow> _")
proof -
  note mars = Mars_facts [of ids heap mt]
  have ok: "time_model_ok D (w_time_model ?u)" and timers: "timers_within D prog"
    using assms by (simp_all add: timely_program_def mars(2))
  obtain w where w: "World_Start ?u = Inr w" "runs_from eat prog ?u w" "w_step w = 0" by (rule started [OF ok mars(1,3)])
  have "w_step w + 100 \<le> 200" using w(3) by simp
  from w(2) this show ?thesis
  proof (cases rule: steps_of_main [where D = D])
    case (1 e)
    then show ?thesis using w(1) by (simp add: fs_main_def)
  next
    case (2 k w1)
    then show ?thesis by (simp split: sum.split)
  next
    case first: (3 k w1)
    have "FindServer ''Mars'' w1 = Some 0" by (rule mars(4) [OF runs_hosts [OF first(2) mars(1) ok]])
    then obtain w2 where w2: "RestartServer ''Mars'' w1 = Inr w2"
      using restart_server [OF runs_simulated [OF first(2) mars(1) ok] timers first(4), of "''Mars''"] by auto
    have run: "runs_from eat prog ?u w2" by (rule run_restart [OF first(2) w2])
    have steps: "w_step w2 + 100 \<le> 200" using first(3) w(3) RestartServer_step [OF w2] by simp
    from run steps show ?thesis
    proof (cases rule: steps_of_main [where D = D])
      case (1 e)
      then show ?thesis using w(1) first(1) w2 by (simp add: fs_main_def)
    next
      case (2 j w3)
      then show ?thesis by (simp split: sum.split)
    next
      case (3 j w3)
      have "FindServer ''Mars'' w3 = Some 0" by (rule mars(4) [OF runs_hosts [OF 3(2) mars(1) ok]])
      moreover obtain d v where "World_Stop combine server_digest w3 = Inr (d, v)" "w_step v = w_step w3"
        by (rule stops [OF assms 3(2) mars(1,2) 3(4)])
      ultimately show ?thesis using w(1) first(1) w2 3(1,3) steps by (simp add: fs_main_def World_GetStdout_def GetServer_def)
    qed
  qed
qed

theorem echo_main_returns:
  assumes "timely_program D prog"
  shows "case echo_main mt ids heap eat combine server_digest prog of
      Inl e \<Rightarrow> breaks_off D eat prog (echo_build mt ids heap) 256 e
    | Inr (dg, time, steps) \<Rightarrow> steps \<le> 256 \<or> (\<forall>e. breaks_off D eat prog (echo_build mt ids heap) 256 e)"
proof -
  let ?u = "echo_build mt ids heap"
  have build: "built ?u" by (simp add: echo_build_def PoolBuilder_destroy_def built.intros)
  have ok: "time_model_ok D (w_time_model ?u)" using assms by (simp add: timely_program_def echo_world)
  obtain w where w: "World_Start ?u = Inr w" "runs_from eat prog ?u w" "w_step w = 0"
    by (rule started [OF ok build]) (simp_all add: echo_world)
  have "w_step w + 256 \<le> 256" using w(3) by simp
  from w(2) this show ?thesis
  proof (cases rule: steps_of_main [where D = D])
    case (1 e)
    then show ?thesis using w(1) by (simp add: echo_main_def)
  next
    case (2 k w')
    then show ?thesis by (simp split: sum.split)
  next
    case (3 k w')
    moreover obtain d v where "World_Stop combine server_digest w' = Inr (d, v)" "w_step v = w_step w'"
      by (rule stops [OF assms 3(2) build _ 3(4)]) (simp add: echo_world)
    ultimately show ?thesis using w(1,3) by (simp add: echo_main_def)
  qed
qed

end
