(* ===== verification/Echo_Example.thy ===== *)
theory Echo_Example
  imports Example_Mains Faults
begin

text \<open>
  \<open>examples/echo/main.cpp\<close>: the service and the loop of its client. A call of the \<open>commute\<close> library is the argument
  \<open>rpc\<close>; it answers with the message of an error or with the response, and the state of the world in which the fiber of
  the client goes on. The world and its steps are in \<open>Example_Mains\<close>.
\<close>

section \<open>Service\<close>

record echo_request =
  req_data :: string

record echo_response =
  resp_data :: string

text \<open>The line of the log, and the response.\<close>

definition EchoService_Echo :: "echo_request \<Rightarrow> string \<times> echo_response" where
  "EchoService_Echo req = (''Echo('' @ req_data req @ '')'', \<lparr>resp_data = req_data req\<rparr>)"

section \<open>Client\<close>

type_synonym ('h, 'u) echo_rpc = "string \<Rightarrow> echo_request \<Rightarrow> ('h, 'u) world \<Rightarrow> (string + echo_response) \<times> ('h, 'u) world"

text \<open>One round of the client on server \<open>i\<close>: the lines of the log, and the length of the pause.\<close>

definition EchoClient_round ::
    "nat \<Rightarrow> ('h, 'u) echo_rpc \<Rightarrow> (time_point \<Rightarrow> string) \<Rightarrow> 's random_number \<Rightarrow> ('h, 'u) world \<times> 's \<Rightarrow>
     string list \<times> nat \<times> ('h, 'u) world \<times> 's" where
  "EchoClient_round i rpc show_time rn = (\<lambda>(w, s).
     let hello = [''I am '' @ HostName i w,
           ''Local wall time: '' @ show_time (WallClock_Now (s_wall (w_servers w ! i)) (w_now w))];
         (result, w) = rpc ''Echo.Echo'' \<lparr>req_data = ''Hello''\<rparr> w;
         answer = (case result of
             Inr r \<Rightarrow> ''Echo response: '' @ quoted (resp_data r)
           | Inl msg \<Rightarrow> ''Echo request failed: '' @ msg);
         (delay, s) = rn 1 100 s
     in (hello @ [answer], delay, w, s))"

text \<open>Rounds of the loop, which never ends by itself.\<close>

fun EchoClient_rounds ::
    "nat \<Rightarrow> ('h, 'u) echo_rpc \<Rightarrow> (time_point \<Rightarrow> string) \<Rightarrow> 's random_number \<Rightarrow> nat \<Rightarrow> ('h, 'u) world \<times> 's \<Rightarrow>
     (string list \<times> nat) list \<times> ('h, 'u) world \<times> 's" where
  "EchoClient_rounds i rpc show_time rn 0 ws = ([], ws)"
| "EchoClient_rounds i rpc show_time rn (Suc n) ws =
     (let (log, delay, ws) = EchoClient_round i rpc show_time rn ws;
          (rounds, ws) = EchoClient_rounds i rpc show_time rn n ws
      in ((log, delay) # rounds, ws))"

section \<open>What the client sees\<close>

text \<open>Every answer is the one the service gives to the request; a call does not change the hosts.\<close>

definition served :: "('h, 'u) echo_rpc \<Rightarrow> bool" where
  "served rpc \<longleftrightarrow> (\<forall>q w. same_hosts w (snd (rpc ''Echo.Echo'' q w)) \<and>
     (case fst (rpc ''Echo.Echo'' q w) of Inl msg \<Rightarrow> True | Inr r \<Rightarrow> r = snd (EchoService_Echo q)))"

definition good_round :: "host_name \<Rightarrow> (time_point \<Rightarrow> string) \<Rightarrow> string list \<times> nat \<Rightarrow> bool" where
  "good_round host show_time = (\<lambda>(log, delay). 1 \<le> delay \<and> delay \<le> 100 \<and> (\<exists>t answer.
     log = [''I am '' @ host, ''Local wall time: '' @ show_time t, answer] \<and>
     (answer = ''Echo response: '' @ quoted ''Hello'' \<or> (\<exists>msg. answer = ''Echo request failed: '' @ msg))))"

lemma EchoClient_round_ok:
  assumes "served rpc" and "rn_ok rn" and "EchoClient_round i rpc show_time rn (w, s) = (log, delay, w', s')"
  shows "good_round (HostName i w) show_time (log, delay)" and "same_hosts w w'"
proof -
  obtain r v where r: "rpc ''Echo.Echo'' \<lparr>req_data = ''Hello''\<rparr> w = (r, v)" by fastforce
  obtain k z where k: "rn 1 100 s = (k, z)" by fastforce
  have "1 \<le> k \<and> k \<le> 100" using assms(2) k unfolding rn_ok_def by (metis fst_conv one_le_numeral)
  moreover have "same_hosts w v" "case r of Inl msg \<Rightarrow> True | Inr a \<Rightarrow> a = \<lparr>resp_data = ''Hello''\<rparr>"
    using assms(1) [unfolded served_def, rule_format, of w "\<lparr>req_data = ''Hello''\<rparr>"] r
    by (simp_all add: EchoService_Echo_def split: sum.splits)
  ultimately show "good_round (HostName i w) show_time (log, delay)" and "same_hosts w w'"
    using assms(3) r k by (auto simp: EchoClient_round_def good_round_def split: sum.splits)
qed

text \<open>The client goes on for as long as it is run, whatever the network does to its calls: every round names the host,
  reports the echo of its own request or the failure of the call, never something else, and sleeps a while.\<close>

theorem echo_client_rounds:
  assumes "served rpc" and "rn_ok rn" and "i < length (w_servers w)"
    and "EchoClient_rounds i rpc show_time rn n (w, s) = (rounds, w', s')"
  shows "length rounds = n \<and> (\<forall>r \<in> set rounds. good_round (HostName i w) show_time r) \<and> same_hosts w w'"
  using assms(3,4)
proof (induction n arbitrary: w s rounds)
  case (Suc n)
  obtain log delay w1 s1 where 1: "EchoClient_round i rpc show_time rn (w, s) = (log, delay, w1, s1)"
    by (cases "EchoClient_round i rpc show_time rn (w, s)")
  obtain rs w2 s2 where 2: "EchoClient_rounds i rpc show_time rn n (w1, s1) = (rs, w2, s2)"
    by (cases "EchoClient_rounds i rpc show_time rn n (w1, s1)")
  have w': "w2 = w'" "rounds = (log, delay) # rs" "s2 = s'" using Suc.prems(2) 1 2 by simp_all
  note ok = EchoClient_round_ok [OF assms(1,2) 1]
  have "map s_config (w_servers w1) = map s_config (w_servers w)" using ok(2) by (simp add: same_hosts_def)
  then have "i < length (w_servers w1)" "HostName i w1 = HostName i w"
    using Suc.prems(1) map_eq_imp_length_eq [of s_config "w_servers w1" s_config "w_servers w"]
    by (simp_all add: HostName_def) (metis nth_map)
  with Suc.IH [of w1 s1 rs] Suc.prems 2 w' ok show ?case by (auto intro: same_hosts_trans)
qed simp

end
