(* ===== verification/Spec2Isabelle.thy ===== *)
theory Spec2Isabelle
  imports KV_Model Recorder Scheduler Printers File_System Database Clocks Randomness Network Faults Transport Globals
    KV_Node Runner KV_Simulation New_Delete Trace Log World_Trace Fibers
    Net_Transport Node_Disk Database_Fibers KV_Database Examples
    Node_Runtime KV_Client FS_Example World_Access Echo_Example
begin

text \<open>
  A verification library for the simulator in \<open>src/matrix\<close>: a deterministic world in which the servers of a
  distributed system run as processes of one thread, with virtual time, drifting clocks, a network with faults,
  disks, heaps, and a checker of the histories that clients observe.

  \<^bold>\<open>How the program fits together.\<close> A \<open>World\<close> owns a list of servers and the network, its actors. It repeatedly takes
  the actor with the earliest next step, moves the virtual time there and lets the actor make its step: a server
  runs the first task of its run queue, the network delivers the first frame. Tasks call back into the world: they
  send packets, set timers, read clocks and disks, record the calls of clients, draw random numbers, pause links and
  crash servers. Everything random comes from one generator seeded by the world, so that a run is a function of its
  seed. When the simulation stops, the recorder completes the history and the linearizability checker judges it.
  The test runner repeats this for many seeds.

  \<^bold>\<open>Theories and code\<close> (paths below \<open>src/matrix\<close> unless they begin with \<open>examples\<close>).

  \<^item> \<open>Prelude\<close>, \<open>Ordered_Map\<close>: machine words, results (\<open>error + 'a\<close>, an \<open>Inl\<close> is an abort, an exit or undefined
    behaviour of the code), decimal numerals; \<open>std::map\<close> as a list of entries in the order of its keys, with its
    contract as the locale \<open>dictionary\<close>.
  \<^item> \<open>Priority_Queue\<close> (\<open>helpers/priority_queue.hpp\<close>) and \<open>Scheduler\<close> (\<open>process/scheduler.hpp\<close>): the queue behind every
    source of events, with the contract \<open>stable_queue\<close>, and the run queue of a server. Extraction is stable whatever
    heap the standard library builds, and a run queue runs its tasks in the stable order of their times.
  \<^item> \<open>History\<close>, \<open>Lin_Checker\<close>, \<open>KV_Model\<close>, \<open>Printers\<close> (\<open>semantics\<close>): calls, the search for a linearization with its
    step limit, the sequential key-value store, the picture of a history. The search is compared with the
    declarative \<open>linearizable\<close>; the locale \<open>sequential_model\<close> is what the checker needs from a model.
  \<^item> \<open>Recorder\<close> (\<open>history\<close>): the record of open and finished calls refines a journal.
  \<^item> \<open>File_System\<close> (\<open>fs\<close>, \<open>server/runtime/filesystem.hpp\<close>): the simulated disk refines a map from paths to contents.
    \<open>Node_Disk\<close> adds the latencies (\<open>server/runtime/detail/disk.hpp\<close>, \<open>fault/{thread,self}.cpp\<close>): fibers that block on the disk
    and the crashes that cut them off.
  \<^item> \<open>Database\<close> (\<open>db\<close>): a memory table with a write-ahead log, replay, snapshots and iterators; it refines the fold of
    the logged batches, through crashes. \<open>Database_Fibers\<close> has several fibers call one database, with its write mutex.
  \<^item> \<open>Clocks\<close> (\<open>time\<close>, \<open>clocks\<close>, \<open>server/runtime/{time,true_time}.hpp\<close>) and \<open>Randomness\<close>
    (\<open>world/random_source.hpp\<close>, \<open>world/global\<close>, \<open>time_model\<close>): 64-bit virtual time, drift, timers, TrueTime; the random
    source as a state monad with aborts, and what the time models draw.
  \<^item> \<open>Network\<close> (\<open>network/{link,network,frame,packet}\<close>), \<open>Faults\<close> (\<open>fault/net\<close>), \<open>Transport\<close>
    (\<open>network/{transport,socket}\<close>), \<open>Net_Transport\<close> (\<open>server/runtime/{net_transport.hpp,transport.cpp}\<close>): links that
    hold frames while they are paused, partitions, endpoints with the generations that tell old packets from new
    ones, and the sockets of a program as objects with a lifetime.
  \<^item> \<open>Allocator\<close> (\<open>memory\<close>), \<open>New_Delete\<close> (\<open>new\<close>, \<open>process/memory.hpp\<close>), \<open>Fibers\<close> (\<open>process/fibers\<close>): the bump allocator
    of a process with its cache of blocks, which refines separate arrays of bytes; the guards that select a heap, the
    checksum and the tracker of the allocations of the simulator; the stacks of fibers.
  \<^item> \<open>Server\<close> (\<open>server/server.{hpp,cpp}\<close>): the machine and the life cycle of its process, an automaton of four states.
    \<open>Node_Runtime\<close> (\<open>server/runtime/{runtime,discovery,guid,terminal}.hpp\<close>, \<open>runtime/setup.cpp\<close>): the slots that hand the
    services of a server to its program. \<open>World_Access\<close> (\<open>world/world.cpp\<close>, \<open>world/global/access.cpp\<close>, \<open>fault/access.cpp\<close>):
    the global pointer through which every call finds its world.
  \<^item> \<open>World\<close>, \<open>Event_Loop\<close>, \<open>Simulation\<close>, \<open>Stepping\<close> (\<open>world\<close>): the world and its step; what its actors keep of time;
    whole simulations (\<open>built\<close> and \<open>simulated\<close> are the worlds a builder makes and a run reaches); the drivers.
  \<^item> \<open>Globals\<close> (\<open>world/global/vars.hpp\<close>, \<open>config\<close>, \<open>facade\<close>): typed globals, counters, configuration, pools.
  \<^item> \<open>Trace\<close> (\<open>trace\<close>) and \<open>Log\<close> (\<open>log\<close>): the JSON trace of the network and the log. \<open>World_Trace\<close>: a world
    that owns a tracer, and \<open>TestRunner::Configure\<close>.
  \<^item> \<open>Runner\<close> (\<open>test\<close>): the command line tool around a simulation.
  \<^item> \<open>KV_Node\<close> (\<open>examples/kv/node/main.cpp\<close>), \<open>KV_Simulation\<close> (\<open>examples/kv/main.cpp\<close>, \<open>fault/util.cpp\<close>, \<open>client\<close>), \<open>Examples\<close>
    (\<open>examples/{hello,db}\<close>): the replicated store, its simulation with clients and adversaries, two complete programs.
    \<open>FS_Example\<close> (\<open>examples/fs\<close>): a node that fills its disk once, with crashes in the middle. \<open>Example_Mains\<close>, \<open>Echo_Example\<close>
    (\<open>examples/{fs,db,echo}\<close>): the main functions, for any program of the nodes, and the echo service with its client. \<open>KV_Client\<close>
    (\<open>examples/kv/client\<close>): the blocking client and its loop. \<open>KV_Database\<close> puts the store of a replica, the locale \<open>stamped_store\<close>, into the database of its node.

  \<^bold>\<open>Correspondence.\<close> A class is a record or, where it only wraps one member, the type of this member; a method is a
  definition with the name of the method, prefixed by its class where names clash, that takes the state and returns the
  new one. Pointers are indices or addresses into the object that owns their targets. A loop of the code is a
  structural recursion where it is bounded, and a \<open>partial_function (option)\<close> where it may run forever: then \<open>None\<close> is not
  to return, and the theorems state when the result is \<open>Some\<close>. Integers keep their width where arithmetic can
  wrap; counters that only count events are natural numbers.

  \<^bold>\<open>What a task does.\<close> The code of the nodes is arbitrary. In \<open>World\<close> a program is a function from the task that runs and
  the state of the world to a list of calls into the simulation (\<open>syscall\<close>), so the theorems about \<open>simulated\<close> worlds
  hold for every program, including programs that inject faults. In \<open>New_Delete\<close>, \<open>Fibers\<close>, \<open>Net_Transport\<close>,
  \<open>File_System\<close>, \<open>Node_Disk\<close>, \<open>Database_Fibers\<close>, \<open>Recorder\<close> and \<open>KV_Node\<close> a program is a sequence of operations of the
  component, interleaved in any way.

  \<^bold>\<open>What the lemmas show.\<close> Each theory has an invariant of its state and the lemma that every operation keeps it
  (\<open>PQ_inv\<close>, \<open>om_ok\<close>, \<open>fs_ok\<close>, \<open>net_ok\<close>, \<open>heap_ok\<close>, \<open>cluster_ok\<close>, \<open>life_inv\<close>, \<open>actors_ok\<close>, \<open>sim_inv\<close>, \<open>nt_inv\<close>, \<open>fibers_ok\<close>, \<open>disk_ok\<close>,
  \<open>shared_ok\<close>), then
  the functional behaviour of the operations, aborts included, and one or two theorems that say what the component is
  for. The theorems about simulations compose them: virtual time never runs back, no simulation aborts while it is
  started or stopped, histories are proper, the verdict of the key-value simulation is right, and the exit status
  of the runner is the verdict over the seeds it was asked to run.

  \<^bold>\<open>Bounds.\<close> Virtual time is assumed to stay away from \<open>2 ^ 64\<close>: \<open>room D now\<close> says that a delay of at most \<open>D\<close> fits,
  where \<open>D\<close> bounds flight times and timers; \<open>time_model_ok 1000\<close> holds of the time model of the repository. Timers
  are accurate for uptimes below \<open>2 ^ 38\<close> and delays below \<open>2 ^ 30\<close> jiffies, where no product wraps. The checker makes
  at most 777777 steps and decides every history of six calls within them. The key-value simulation is
  cut off at 20000 jiffies, the limit of the code. The tracker has room for 100500 records, a stack has 262144
  bytes, an arena at most \<open>2 ^ 32\<close>. Fuel is used only to count the steps the caller asks for (\<open>MakeSteps\<close>).

  \<^bold>\<open>Parameters.\<close> What is not part of the sources is an argument: the generator (a stream of words for a seed), the hash and
  digest functions, the power-of-two helpers of \<open>wheels\<close> (\<open>bithacks_ok\<close>, instantiated by \<open>std_bithacks\<close>), the framing of the
  log of \<open>persist\<close> (\<open>wal_laws\<close>, instantiated by \<open>list_disk\<close>), the memory reader of \<open>wheels\<close> (\<open>reader_ok\<close>), the
  serialiser of \<open>muesli\<close> (\<open>kv_codec\<close>), the messages and the JSON parser of \<open>commute\<close> and \<open>rapidjson\<close> (\<open>wire\<close>), the
  local store of a node (\<open>stamped_store\<close>), the random numbers of a node (\<open>rn_ok\<close>, \<open>rb_ok\<close>), the levels of \<open>timber\<close>,
  \<open>malloc\<close>, the host's file system and the argument parser of the runner.

  \<^bold>\<open>Not modelled.\<close> Futures, fibers and channels of \<open>await\<close> and \<open>commute\<close> are library code; the model sees the tasks they
  schedule. The start of an RPC server (\<open>EchoNode\<close>, the end of \<open>KVNodeMain\<close>) is a call of \<open>commute\<close>. Members that forward to
  another object without looking at it (\<open>facade/world.cpp\<close>, the file system of \<open>server/runtime\<close>, getters) have no
  definition of their own: the model names the target. The conversions for the JSON library and the digest
  (\<open>helpers\<close>) are arguments. The progress
  bar and the emoticons of the runner, the debugging output of the checker, and the branches for the address sanitizer
  have no effect on what is modelled.
\<close>

end
